(* ===== verification/Py_Prelude.thy ===== *)
theory Py_Prelude
  imports Complex_Main "HOL-Library.Word"
begin

text \<open>
  The Python runtime the modelled scripts share: exceptions as values of a sum type,
  characters and strings, string methods, integers with Python's bit operations, and the
  notion of a well-formed host name that the domain generators are checked against.
  A Python \<open>int\<close> is an \<open>int\<close> (unbounded; \<open>//\<close> and \<open>%\<close> round towards minus infinity, as
  \<open>div\<close> and \<open>mod\<close> do); a string is a list of characters with code points 0 to 255.
\<close>

unbundle bit_operations_syntax

named_theorems hostname_intros \<open>introduction rules for well-formed labels and host names\<close>
named_theorems py_eval \<open>unfoldings used to evaluate Python primitives on literals\<close>

section \<open>Exceptions\<close>

text \<open>\<open>NoReturn\<close> is not raised: it marks a loop that had not ended when its fuel or its inputs were used up.\<close>

datatype py_error =
    IndexError | KeyError | ValueError | ZeroDivisionError | OverflowError
  | StructError | TypeError | NameError | OSError | NoReturn

type_synonym 'a result = "py_error + 'a"

type_synonym byte = "8 word"

text \<open>Sequencing: a raised exception skips the rest.\<close>

fun rbind :: "'a result \<Rightarrow> ('a \<Rightarrow> 'b result) \<Rightarrow> 'b result" where
  "rbind (Inl e) f = Inl e"
| "rbind (Inr x) f = f x"

lemma rbind_eq_Inr: "rbind r f = Inr y \<longleftrightarrow> (\<exists>x. r = Inr x \<and> f x = Inr y)"
  by (cases r) auto

lemma rbind_eq_Inl: "rbind r f = Inl e \<longleftrightarrow> r = Inl e \<or> (\<exists>x. r = Inr x \<and> f x = Inl e)"
  by (cases r) auto

lemma rbind_assoc: "rbind (rbind r f) g = rbind r (\<lambda>x. rbind (f x) g)"
  by (cases r) auto

text \<open>A list comprehension whose element may raise.\<close>

fun rmap :: "('a \<Rightarrow> 'b result) \<Rightarrow> 'a list \<Rightarrow> 'b list result" where
  "rmap f [] = Inr []"
| "rmap f (x # xs) = rbind (f x) (\<lambda>y. rbind (rmap f xs) (\<lambda>ys. Inr (y # ys)))"

lemma rmap_Inr: "(\<And>x. x \<in> set xs \<Longrightarrow> f x = Inr (g x)) \<Longrightarrow> rmap f xs = Inr (map g xs)"
  by (induction xs) simp_all

text \<open>Indexing \<open>xs[i]\<close>: negative indices count from the end, others raise IndexError.\<close>

definition py_get :: "'a list \<Rightarrow> int \<Rightarrow> 'a result" where
  "py_get xs i =
     (if i < - int (length xs) \<or> int (length xs) \<le> i then Inl IndexError
      else if i < 0 then Inr (rev xs ! nat (- i - 1)) else Inr (xs ! nat i))"

lemma py_get_nth: "0 \<le> i \<Longrightarrow> i < int (length xs) \<Longrightarrow> py_get xs i = Inr (xs ! nat i)"
  by (simp add: py_get_def)

lemma py_get_mod: "xs \<noteq> [] \<Longrightarrow> py_get xs (i mod int (length xs)) = Inr (xs ! nat (i mod int (length xs)))"
  by (rule py_get_nth) simp_all

lemma py_get_in_set: "py_get xs i = Inr x \<Longrightarrow> x \<in> set xs"
  using nth_mem [of "nat (- i - 1)" "rev xs"] nth_mem [of "nat i" xs]
  by (auto simp: py_get_def split: if_splits)

lemma nth_mod_in_set: "xs \<noteq> [] \<Longrightarrow> xs ! nat (i mod int (length xs)) \<in> set xs"
  by (rule nth_mem) (simp add: nat_less_iff)

text \<open>\<open>xs[i % len(xs)]\<close> on a non-empty list.\<close>

definition pick :: "'a list \<Rightarrow> int \<Rightarrow> 'a" where
  "pick xs i = xs ! nat (i mod int (length xs))"

lemma pick_in_set: "xs \<noteq> [] \<Longrightarrow> pick xs i \<in> set xs"
  by (simp add: pick_def nth_mod_in_set)

lemma pick_all: "list_all Q xs \<Longrightarrow> xs \<noteq> [] \<Longrightarrow> Q (pick xs i)"
  using pick_in_set [of xs i] by (auto simp: list_all_iff)

section \<open>Characters\<close>

definition ord :: "char \<Rightarrow> int" where
  "ord c = int (of_char c)"

text \<open>\<open>chr\<close> is used on code points below 256 only, where it is total.\<close>

definition chr :: "int \<Rightarrow> char" where
  "chr n = char_of (nat n)"

lemma ord_chr [simp]: "0 \<le> n \<Longrightarrow> n < 256 \<Longrightarrow> ord (chr n) = n"
  by (simp add: ord_def chr_def)

lemma chr_ord [simp]: "chr (ord c) = c"
  by (simp add: ord_def chr_def)

lemma ord_inject [simp]: "ord c = ord d \<longleftrightarrow> c = d"
  by (metis chr_ord)

lemma ord_bounds [simp]: "0 \<le> ord c" "ord c < 256"
proof -
  show "0 \<le> ord c" by (simp add: ord_def)
  have "(of_char c :: nat) < 256" by (cases c) (simp add: of_char_Char horner_sum_bound)
  then show "ord c < 256" by (simp add: ord_def)
qed

definition is_az :: "char \<Rightarrow> bool" where
  "is_az c \<longleftrightarrow> 97 \<le> ord c \<and> ord c \<le> 122"

definition is_digit :: "char \<Rightarrow> bool" where
  "is_digit c \<longleftrightarrow> 48 \<le> ord c \<and> ord c \<le> 57"

definition is_alnum :: "char \<Rightarrow> bool" where
  "is_alnum c \<longleftrightarrow> is_az c \<or> is_digit c"

text \<open>The same on the bits of a character, for evaluation.\<close>

lemma is_az_code [code]:
  "is_az (Char b0 b1 b2 b3 b4 b5 b6 b7) \<longleftrightarrow>
     \<not> b7 \<and> b6 \<and> b5 \<and> (b0 \<or> b1 \<or> b2 \<or> b3 \<or> b4) \<and> \<not> (b4 \<and> b3 \<and> (b2 \<or> b1 \<and> b0))"
  unfolding is_az_def ord_def
  by (cases b7; cases b6; cases b5; cases b4; cases b3; cases b2; cases b1; cases b0) simp_all

lemma is_digit_code [code]:
  "is_digit (Char b0 b1 b2 b3 b4 b5 b6 b7) \<longleftrightarrow> \<not> b7 \<and> \<not> b6 \<and> b5 \<and> b4 \<and> \<not> (b3 \<and> (b2 \<or> b1))"
  unfolding is_digit_def ord_def
  by (cases b7; cases b6; cases b5; cases b4; cases b3; cases b2; cases b1; cases b0) simp_all

lemma is_alnum_az: "is_az c \<Longrightarrow> is_alnum c"
  by (simp add: is_alnum_def)

lemma is_alnum_digit: "is_digit c \<Longrightarrow> is_alnum c"
  by (simp add: is_alnum_def)

lemma is_az_chr: "97 \<le> n \<Longrightarrow> n \<le> 122 \<Longrightarrow> is_az (chr n)"
  by (simp add: is_az_def)

lemma is_digit_chr: "48 \<le> n \<Longrightarrow> n \<le> 57 \<Longrightarrow> is_digit (chr n)"
  by (simp add: is_digit_def)

lemma is_az_chr_mod [hostname_intros]: "0 < m \<Longrightarrow> m \<le> 26 \<Longrightarrow> is_az (chr (97 + i mod m))"
  using pos_mod_bound [of m i] pos_mod_sign [of m i] by (intro is_az_chr) linarith+

lemma is_az_chr_mod' [hostname_intros]: "0 < m \<Longrightarrow> m \<le> 26 \<Longrightarrow> is_az (chr (i mod m + 97))"
  using is_az_chr_mod [of m i] by (simp add: add.commute)

lemma az_not_digit: "is_az c \<Longrightarrow> \<not> is_digit c"
  by (simp add: is_az_def is_digit_def)

text \<open>The lower-case letter of an upper-case one, as \<open>str.lower\<close> maps code points below 256.\<close>

definition lower_char :: "char \<Rightarrow> char" where
  "lower_char c =
     (if 65 \<le> ord c \<and> ord c \<le> 90 \<or> 192 \<le> ord c \<and> ord c \<le> 222 \<and> ord c \<noteq> 215
      then chr (ord c + 32) else c)"

lemma lower_char_idem [simp]: "lower_char (lower_char c) = lower_char c"
  using ord_bounds [of c] by (auto simp: lower_char_def)

lemma lower_char_az [simp]: "is_az c \<Longrightarrow> lower_char c = c"
  by (simp add: is_az_def lower_char_def)

lemma lower_char_digit [simp]: "is_digit c \<Longrightarrow> lower_char c = c"
  by (simp add: is_digit_def lower_char_def)

lemma lower_char_eq_ascii:
  assumes "ord d < 65 \<or> 90 < ord d \<and> ord d < 97"
  shows "lower_char c = d \<longleftrightarrow> c = d"
proof
  assume eq: "lower_char c = d"
  show "c = d"
  proof (rule ccontr)
    assume "c \<noteq> d"
    with eq have up: "65 \<le> ord c \<and> ord c \<le> 90 \<or> 192 \<le> ord c \<and> ord c \<le> 222"
      and d: "d = chr (ord c + 32)"
      by (auto simp: lower_char_def split: if_splits)
    from up d have "ord d = ord c + 32" by auto
    with up assms show False by linarith
  qed
next
  assume "c = d"
  with assms show "lower_char c = d" by (auto simp: lower_char_def)
qed

text \<open>\<open>str.isspace\<close> on code points below 256, the set \<open>strip\<close> removes.\<close>

definition is_space :: "char \<Rightarrow> bool" where
  "is_space c \<longleftrightarrow> 9 \<le> ord c \<and> ord c \<le> 13 \<or> 28 \<le> ord c \<and> ord c \<le> 32 \<or> ord c = 133 \<or> ord c = 160"

lemma is_space_lower [simp]: "is_space (lower_char c) = is_space c"
  using ord_bounds [of c] by (auto simp: is_space_def lower_char_def)

section \<open>Strings\<close>

definition py_lower :: "string \<Rightarrow> string" where
  "py_lower s = map lower_char s"

lemma py_lower_idem [simp]: "py_lower (py_lower s) = py_lower s"
  by (simp add: py_lower_def)

lemma length_py_lower [simp]: "length (py_lower s) = length s"
  by (simp add: py_lower_def)

definition py_lstrip :: "(char \<Rightarrow> bool) \<Rightarrow> string \<Rightarrow> string" where
  "py_lstrip p s = dropWhile p s"

definition py_rstrip :: "(char \<Rightarrow> bool) \<Rightarrow> string \<Rightarrow> string" where
  "py_rstrip p s = rev (dropWhile p (rev s))"

definition py_strip :: "string \<Rightarrow> string" where
  "py_strip s = py_rstrip is_space (py_lstrip is_space s)"

text \<open>\<open>s.split(c)\<close> for a one-character separator (strings and bytes): never empty, keeps empty pieces.\<close>

fun py_split :: "'a \<Rightarrow> 'a list \<Rightarrow> 'a list list" where
  "py_split c [] = [[]]"
| "py_split c (x # xs) =
     (if x = c then [] # py_split c xs
      else (case py_split c xs of [] \<Rightarrow> [[x]] | w # ws \<Rightarrow> (x # w) # ws))"

lemma py_split_not_Nil [simp]: "py_split c s \<noteq> []"
  by (cases s) (auto split: list.splits)

lemma py_split_no_sep: "c \<notin> set s \<Longrightarrow> py_split c s = [s]"
  by (induction s) auto

lemma py_split_append_sep:
  "c \<notin> set a \<Longrightarrow> py_split c (a @ c # b) = a # py_split c b"
  by (induction a) auto

lemma hd_py_split: "hd (py_split c s) = takeWhile (\<lambda>x. x \<noteq> c) s"
proof (induction s)
  case (Cons x xs)
  then show ?case by (cases "py_split c xs") auto
qed simp

lemma py_split_join: "concat (map (\<lambda>w. c # w) (py_split c s)) = c # s"
proof (induction s)
  case (Cons x xs)
  then show ?case by (cases "py_split c xs") auto
qed simp

lemma py_split_pieces: "w \<in> set (py_split c s) \<Longrightarrow> c \<notin> set w"
proof (induction s arbitrary: w)
  case (Cons x xs)
  then show ?case by (cases "py_split c xs") (auto split: if_splits)
qed simp

text \<open>\<open>sep.join(ws)\<close>.\<close>

fun py_join :: "'a list \<Rightarrow> 'a list list \<Rightarrow> 'a list" where
  "py_join sep [] = []"
| "py_join sep [w] = w"
| "py_join sep (w # v # ws) = w @ sep @ py_join sep (v # ws)"

text \<open>The first piece, \<open>s.split('.')[0]\<close>.\<close>

definition first_label :: "string \<Rightarrow> string" where
  "first_label s = hd (py_split CHR ''.'' s)"

lemma first_label_takeWhile: "first_label s = takeWhile (\<lambda>x. x \<noteq> CHR ''.'') s"
  by (simp add: first_label_def hd_py_split)

lemma ord_dot [simp]: "ord (CHR ''.'') = 46"
  by (simp add: ord_def)

lemma lower_char_dot: "lower_char c = CHR ''.'' \<longleftrightarrow> c = CHR ''.''"
  by (rule lower_char_eq_ascii) simp

lemma first_label_lower: "first_label (py_lower s) = py_lower (first_label s)"
  by (simp add: first_label_takeWhile py_lower_def takeWhile_map o_def lower_char_dot)

lemma dropWhile_map_lower:
  "(\<And>c. p (lower_char c) = p c) \<Longrightarrow> dropWhile p (map lower_char s) = map lower_char (dropWhile p s)"
  by (simp add: dropWhile_map o_def)

lemma py_rstrip_lower:
  "(\<And>c. p (lower_char c) = p c) \<Longrightarrow> py_rstrip p (py_lower s) = py_lower (py_rstrip p s)"
  by (simp add: py_rstrip_def py_lower_def rev_map dropWhile_map_lower)

lemma py_strip_lower: "py_strip (py_lower s) = py_lower (py_strip s)"
proof -
  have "py_lstrip is_space (py_lower s) = py_lower (py_lstrip is_space s)"
    by (simp add: py_lstrip_def py_lower_def dropWhile_map_lower)
  then show ?thesis by (simp add: py_strip_def py_rstrip_lower)
qed

section \<open>Host names\<close>

text \<open>
  The letters-digits-hyphen rule for labels (at most 63 characters, no hyphen at either end) and for
  names (at most 253 characters, at least two labels), in lower case as the generators emit them.
\<close>

definition is_ldh :: "char \<Rightarrow> bool" where
  "is_ldh c \<longleftrightarrow> is_az c \<or> is_digit c \<or> c = CHR ''-''"

definition is_label :: "string \<Rightarrow> bool" where
  "is_label l \<longleftrightarrow> l \<noteq> [] \<and> length l \<le> 63 \<and> list_all is_ldh l \<and> hd l \<noteq> CHR ''-'' \<and> last l \<noteq> CHR ''-''"

definition is_hostname :: "string \<Rightarrow> bool" where
  "is_hostname d \<longleftrightarrow>
     length d \<le> 253 \<and> 2 \<le> length (py_split CHR ''.'' d) \<and> list_all is_label (py_split CHR ''.'' d)"

lemma ord_hyphen: "ord (CHR ''-'') = 45"
  by (simp add: ord_def)

lemma dot_not_ldh: "\<not> is_ldh (CHR ''.'')"
  by (simp add: is_ldh_def is_az_def is_digit_def)

lemma alnum_not_hyphen: "is_alnum c \<Longrightarrow> c \<noteq> CHR ''-''"
  by (auto simp: is_alnum_def is_az_def is_digit_def ord_hyphen)

lemma is_label_no_dot: "is_label l \<Longrightarrow> CHR ''.'' \<notin> set l"
  using dot_not_ldh by (auto simp: is_label_def list_all_iff)

text \<open>A non-empty run of at most 63 letters and digits is a label.\<close>

lemma is_label_alnum [hostname_intros]:
  assumes "list_all is_alnum l" and "l \<noteq> []" and "length l \<le> 63"
  shows "is_label l"
proof -
  have "hd l \<in> set l" "last l \<in> set l" using assms(2) by simp_all
  with assms show ?thesis
    unfolding is_label_def using alnum_not_hyphen by (auto simp: list_all_iff is_ldh_def is_alnum_def)
qed

lemma is_label_az [hostname_intros]:
  "list_all is_az l \<Longrightarrow> l \<noteq> [] \<Longrightarrow> length l \<le> 63 \<Longrightarrow> is_label l"
  by (rule is_label_alnum) (auto simp: list_all_iff is_alnum_def)

lemma is_label_length:
  "list_all is_alnum l \<Longrightarrow> length l = n \<Longrightarrow> 0 < n \<Longrightarrow> n \<le> 63 \<Longrightarrow> is_label l"
  by (rule is_label_alnum) auto

lemma is_label_az_length:
  "list_all is_az l \<Longrightarrow> length l = n \<Longrightarrow> 0 < n \<Longrightarrow> n \<le> 63 \<Longrightarrow> is_label l"
  by (rule is_label_az) auto

text \<open>Prefixing a label to a dotted suffix, as every generator builds its result.\<close>

definition is_suffix :: "string \<Rightarrow> bool" where
  "is_suffix t \<longleftrightarrow> length t \<le> 189 \<and> list_all is_label (py_split CHR ''.'' t)"

lemma is_hostname_label_suffix:
  assumes "is_label l" and "is_suffix t"
  shows "is_hostname (l @ CHR ''.'' # t)"
proof -
  have "py_split CHR ''.'' (l @ CHR ''.'' # t) = l # py_split CHR ''.'' t"
    using assms(1) by (intro py_split_append_sep is_label_no_dot)
  moreover have "1 \<le> length (py_split CHR ''.'' t)"
    using py_split_not_Nil [of "CHR ''.''" t] by (simp add: Suc_le_eq)
  ultimately show ?thesis
    using assms by (auto simp: is_hostname_def is_suffix_def is_label_def)
qed

section \<open>Integers\<close>

text \<open>Python's masks as remainders: \<open>x & 0xFF\<close>, \<open>x & 0xFFFFFFFF\<close> and so on.\<close>

lemma and_mask_mod: "(x::int) AND (2 ^ n - 1) = x mod 2 ^ n"
  by (simp add: take_bit_eq_mod flip: take_bit_eq_mask mask_eq_exp_minus_1)

lemma and_masks:
  fixes x :: int
  shows "x AND 1 = x mod 2"
    and "x AND 3 = x mod 4"
    and "x AND 7 = x mod 8"
    and "x AND 15 = x mod 16"
    and "x AND 31 = x mod 32"
    and "x AND 255 = x mod 256"
    and "x AND 32767 = x mod 32768"
    and "x AND 65535 = x mod 65536"
    and "x AND 268435455 = x mod 268435456"
    and "x AND 2147483647 = x mod 2147483648"
    and "x AND 4294967295 = x mod 4294967296"
    and "x AND 18446744073709551615 = x mod 18446744073709551616"
proof -
  show "x AND 1 = x mod 2" using and_mask_mod [of x 1] by simp
  show "x AND 3 = x mod 4" using and_mask_mod [of x 2] by simp
  show "x AND 7 = x mod 8" using and_mask_mod [of x 3] by simp
  show "x AND 15 = x mod 16" using and_mask_mod [of x 4] by simp
  show "x AND 31 = x mod 32" using and_mask_mod [of x 5] by simp
  show "x AND 255 = x mod 256" using and_mask_mod [of x 8] by simp
  show "x AND 32767 = x mod 32768" using and_mask_mod [of x 15] by simp
  show "x AND 65535 = x mod 65536" using and_mask_mod [of x 16] by simp
  show "x AND 268435455 = x mod 268435456" using and_mask_mod [of x 28] by simp
  show "x AND 2147483647 = x mod 2147483648" using and_mask_mod [of x 31] by simp
  show "x AND 4294967295 = x mod 4294967296" using and_mask_mod [of x 32] by simp
  show "x AND 18446744073709551615 = x mod 18446744073709551616" using and_mask_mod [of x 64] by simp
qed

text \<open>Assigning to \<open>ctypes.c_int\<close> and \<open>ctypes.c_uint\<close> keeps the low 32 bits.\<close>

definition c_int :: "int \<Rightarrow> int" where
  "c_int x = signed_take_bit 31 x"

definition c_uint :: "int \<Rightarrow> int" where
  "c_uint x = take_bit 32 x"

lemma c_int_bounds: "- (2 ^ 31) \<le> c_int x" "c_int x < 2 ^ 31"
  using signed_take_bit_int_greater_eq_minus_exp [of 31 x] signed_take_bit_int_less_exp [of 31 x]
  by (simp_all add: c_int_def)

lemma c_uint_bounds: "0 \<le> c_uint x" "c_uint x < 2 ^ 32"
  using take_bit_int_less_exp [of 32 x] by (simp_all add: c_uint_def)

lemma c_int_cong: "c_int x = c_int y \<longleftrightarrow> x mod 2 ^ 32 = y mod 2 ^ 32"
  by (simp add: c_int_def signed_take_bit_eq_iff_take_bit_eq take_bit_eq_mod)

lemma c_int_mod: "c_int x mod 2 ^ 32 = x mod 2 ^ 32"
proof -
  have "take_bit (Suc 31) (signed_take_bit 31 x) = take_bit (Suc 31) x"
    by (simp add: take_bit_signed_take_bit)
  then show ?thesis by (simp add: c_int_def take_bit_eq_mod)
qed

lemma c_int_id: "- (2 ^ 31) \<le> x \<Longrightarrow> x < 2 ^ 31 \<Longrightarrow> c_int x = x"
  by (simp add: c_int_def signed_take_bit_int_eq_self)

lemma c_uint_mod: "c_uint x = x mod 2 ^ 32"
  by (simp add: c_uint_def take_bit_eq_mod)

lemma c_int_word: "c_int x = sint (word_of_int x :: 32 word)"
  by (simp add: c_int_def sint_word_ariths signed_of_int word_of_int_eq_iff sint_sbintrunc')

lemma c_uint_word: "c_uint x = uint (word_of_int x :: 32 word)"
  by (simp add: c_uint_def uint_word_of_int take_bit_eq_mod)

lemma unat_byte_less: "unat (b :: byte) < 256"
  using unsigned_less [of b, where ?'a = nat] by simp

section \<open>Numbers as text\<close>

text \<open>Digits of a number, most significant first, as \<open>str\<close>, \<open>'%d'\<close> and \<open>'%x'\<close> print them.\<close>

function digits :: "nat \<Rightarrow> nat \<Rightarrow> nat list" where
  "digits b n = (if b < 2 \<or> n < b then [n] else digits b (n div b) @ [n mod b])"
  by pat_completeness auto
termination
  by (relation "measure snd") auto

declare digits.simps [simp del]

lemma digits_not_Nil [simp]: "digits b n \<noteq> []"
  by (subst digits.simps) simp

lemma digits_less: "2 \<le> b \<Longrightarrow> list_all (\<lambda>d. d < b) (digits b n)"
proof (induction b n rule: digits.induct)
  case (1 b n)
  then show ?case by (cases "n < b") (auto simp: digits.simps [of b n])
qed

lemma length_digits:
  assumes "2 \<le> b" and "n < b ^ k" and "0 < k"
  shows "length (digits b n) \<le> k"
  using assms
proof (induction b n arbitrary: k rule: digits.induct)
  case (1 b n)
  show ?case
  proof (cases "n < b")
    case True
    with 1 show ?thesis by (simp add: digits.simps [of b n])
  next
    case False
    with 1 obtain j where k: "k = Suc j" "0 < j"
      by (metis One_nat_def Suc_lessI gr0_implies_Suc not_gr_zero power_one_right)
    then have "n div b < b ^ j" using "1.prems" False by (simp add: less_mult_imp_div_less mult.commute)
    then have "length (digits b (n div b)) \<le> j" using 1 False k by simp
    with False 1 k show ?thesis by (simp add: digits.simps [of b n])
  qed
qed

text \<open>The digits determine the number.\<close>

lemma digits_value: "2 \<le> b \<Longrightarrow> foldl (\<lambda>a d. a * b + d) 0 (digits b n) = n"
proof (induction b n rule: digits.induct)
  case (1 b n)
  then show ?case by (cases "n < b") (simp_all add: digits.simps [of b n])
qed

definition hexdigit :: "nat \<Rightarrow> char" where
  "hexdigit d = ''0123456789abcdef'' ! d"

text \<open>Decimal and hexadecimal text of a non-negative number; \<open>str\<close> of a negative one has a sign.\<close>

definition py_hex :: "int \<Rightarrow> string" where
  "py_hex n = map hexdigit (digits 16 (nat n))"

definition py_str :: "int \<Rightarrow> string" where
  "py_str n = (if n < 0 then ''-'' else []) @ map hexdigit (digits 10 (nat \<bar>n\<bar>))"

lemma hexdigit_alnum: "d < 16 \<Longrightarrow> is_alnum (hexdigit d)"
proof -
  have "list_all is_alnum ''0123456789abcdef''" by code_simp
  then show "d < 16 \<Longrightarrow> is_alnum (hexdigit d)"
    by (auto simp: hexdigit_def list_all_iff simp del: nth_Cons_numeral intro: nth_mem [THEN bspec [rotated]])
qed

lemma py_hex_alnum: "list_all is_alnum (py_hex n)"
  using digits_less [of 16 "nat n"] hexdigit_alnum by (auto simp: py_hex_def list_all_iff)

lemma py_hex_not_Nil [simp]: "py_hex n \<noteq> []"
  by (simp add: py_hex_def)

lemma length_py_hex: "n < 16 ^ k \<Longrightarrow> 0 < k \<Longrightarrow> length (py_hex n) \<le> k"
  unfolding py_hex_def length_map
  by (rule length_digits) (auto simp: nat_less_iff zless_nat_eq_int_zless nat_power_eq)

text \<open>Zeros in front of a number, as \<open>%02d\<close> and the fraction of \<open>%.4f\<close> have them.\<close>

definition pad_zeros :: "nat \<Rightarrow> string \<Rightarrow> string" where
  "pad_zeros w s = replicate (w - length s) (CHR ''0'') @ s"

end
