(* ===== verification/Py_Dates.thy ===== *)
theory Py_Dates
  imports Py_Prelude
begin

text \<open>Python's \<open>datetime\<close> values as the generators use them: to the minute, proleptic Gregorian.\<close>

record datetime =
  year :: int
  month :: int
  day :: int
  hour :: int
  minute :: int

definition is_leap :: "int \<Rightarrow> bool" where
  "is_leap y \<longleftrightarrow> y mod 4 = 0 \<and> (y mod 100 \<noteq> 0 \<or> y mod 400 = 0)"

definition days_in_month :: "int \<Rightarrow> int \<Rightarrow> int" where
  "days_in_month y m =
     (if m = 2 then if is_leap y then 29 else 28 else if m \<in> {4, 6, 9, 11} then 30 else 31)"

definition is_datetime :: "datetime \<Rightarrow> bool" where
  "is_datetime d \<longleftrightarrow>
     1 \<le> year d \<and> year d \<le> 9999 \<and> 1 \<le> month d \<and> month d \<le> 12 \<and>
     1 \<le> day d \<and> day d \<le> days_in_month (year d) (month d) \<and>
     0 \<le> hour d \<and> hour d \<le> 23 \<and> 0 \<le> minute d \<and> minute d \<le> 59"

lemma days_in_month_le: "days_in_month y m \<le> 31"
  by (simp add: days_in_month_def)

lemma is_datetime_bounds:
  assumes "is_datetime d"
  shows "1 \<le> year d" "year d \<le> 9999" "1 \<le> month d" "month d \<le> 12" "1 \<le> day d" "day d \<le> 31"
  using assms days_in_month_le [of "year d" "month d"] by (auto simp: is_datetime_def)

section \<open>The day before\<close>

text \<open>\<open>d - timedelta(days=1)\<close>; below year 1 Python raises OverflowError.\<close>

definition prev_day :: "datetime \<Rightarrow> datetime" where
  "prev_day d =
     (if 1 < day d then d\<lparr>day := day d - 1\<rparr>
      else if 1 < month d then d\<lparr>month := month d - 1, day := days_in_month (year d) (month d - 1)\<rparr>
      else d\<lparr>year := year d - 1, month := 12, day := 31\<rparr>)"

definition minus_days :: "datetime \<Rightarrow> nat \<Rightarrow> datetime" where
  "minus_days d k = (prev_day ^^ k) d"

lemma days_in_month_pos: "28 \<le> days_in_month y m"
  by (simp add: days_in_month_def)

lemma days_in_month_dec: "days_in_month y 12 = 31"
  by (simp add: days_in_month_def)

lemma prev_day_datetime: "is_datetime d \<Longrightarrow> 1 < year d \<Longrightarrow> is_datetime (prev_day d) \<and> year d - 1 \<le> year (prev_day d)"
  using days_in_month_pos [of "year d" "month d - 1"]
  by (auto simp: is_datetime_def prev_day_def days_in_month_dec)

text \<open>Proleptic Gregorian ordinals, as \<open>date.toordinal\<close> computes them.\<close>

definition days_before_year :: "int \<Rightarrow> int" where
  "days_before_year y = (let z = y - 1 in z * 365 + z div 4 - z div 100 + z div 400)"

definition days_before_month :: "int \<Rightarrow> int \<Rightarrow> int" where
  "days_before_month y m = sum_list (map (days_in_month y) [1..m - 1])"

definition to_ordinal :: "datetime \<Rightarrow> int" where
  "to_ordinal d = days_before_year (year d) + days_before_month (year d) (month d) + day d"

lemma days_before_month_step: "1 < m \<Longrightarrow> days_before_month y m = days_before_month y (m - 1) + days_in_month y (m - 1)"
  using upto_rec2 [of 1 "m - 1"] by (simp add: days_before_month_def)

lemma div_pred:
  fixes z k :: int
  assumes "0 < k"
  shows "z div k - (z - 1) div k = (if z mod k = 0 then 1 else 0)"
proof -
  have "z div k = (if z mod k = 0 then (z - 1) div k + 1 else (z - 1) div k)"
  proof (cases "z mod k = 0")
    case True
    then obtain q where "z = k * q" using mod_eq_0_iff_dvd by (metis dvdE)
    moreover have "(k * q - 1) div k = q - 1"
      using assms by (intro div_pos_neg_trivial [THEN trans] int_div_pos_eq [of _ _ _ "k - 1"]) (auto simp: algebra_simps)
    ultimately show ?thesis using assms by simp
  next
    case False
    then have "0 < z mod k" using assms by (metis order_le_less pos_mod_sign)
    then have "(z - 1) div k = z div k"
    proof (intro int_div_pos_eq [of _ _ _ "z mod k - 1"])
      show "z - 1 = k * (z div k) + (z mod k - 1)" using mult_div_mod_eq [of k z] by linarith
    qed (use assms pos_mod_bound [of k z] in linarith)+
    with False show ?thesis by simp
  qed
  then show ?thesis by simp
qed

lemma days_before_year_step: "days_before_year y = days_before_year (y - 1) + (if is_leap (y - 1) then 366 else 365)"
proof -
  define z where "z = y - 1"
  have y: "days_before_year y = z * 365 + z div 4 - z div 100 + z div 400"
    "days_before_year z = (z - 1) * 365 + (z - 1) div 4 - (z - 1) div 100 + (z - 1) div 400"
    by (simp_all add: days_before_year_def z_def Let_def)
  have sum: "v * 365 + a - b + c = (v - 1) * 365 + a' - b' + c' + (if p \<and> (\<not> q \<or> r) then 366 else 365)"
    if "a - a' = (if p then 1 else 0)" "b - b' = (if q then 1 else 0)" "c - c' = (if r then 1 else 0)"
      "r \<longrightarrow> q" "q \<longrightarrow> p"
    for v a a' b b' c c' :: int and p q r
    using that by (cases p; cases q; cases r) auto
  have "z mod 400 = 0 \<longrightarrow> z mod 100 = 0" "z mod 100 = 0 \<longrightarrow> z mod 4 = 0"
    using dvd_trans [of 100 400 z] dvd_trans [of 4 100 z] by (simp_all add: mod_eq_0_iff_dvd)
  then show ?thesis
    unfolding z_def [symmetric] y is_leap_def by (intro sum div_pred) simp_all
qed

lemma days_before_december: "days_before_month y 12 = (if is_leap y then 335 else 334)"
proof -
  have "[1..11] = [1, 2, 3, 4, 5, 6, 7, 8, 9, 10, 11::int]" by code_simp
  then show ?thesis by (simp add: days_before_month_def days_in_month_def)
qed

lemma to_ordinal_prev_day:
  assumes "1 \<le> month d" and "1 \<le> day d"
  shows "to_ordinal (prev_day d) = to_ordinal d - 1"
proof -
  have "days_before_month (year d) 1 = 0" by (simp add: days_before_month_def)
  then show ?thesis
    using assms days_before_month_step [of "month d" "year d"] days_before_year_step [of "year d"]
      days_before_december [of "year d - 1"]
    by (cases "1 < day d"; cases "1 < month d") (auto simp: prev_day_def to_ordinal_def)
qed

text \<open>\<open>(d - datetime(1970,1,1)).days\<close>.\<close>

definition days_since_unix_epoch :: "datetime \<Rightarrow> int" where
  "days_since_unix_epoch d = to_ordinal d - 719163"

end
