(* ===== verification/Py_Float.thy ===== *)
theory Py_Float
  imports Complex_Main
begin

text \<open>
  Python floats. A float is the real number it stands for; every arithmetic operation returns the
  exact result rounded to binary64 (round to nearest, ties to even, gradual underflow), which is
  what IEEE 754 prescribes. Values beyond the largest finite float do not arise in the scripts but
  for \<open>math.exp\<close>, whose overflow is modelled where it is used. A locale states the laws of a
  rounding function the scoring proofs rely on; binary64 and binary32 rounding satisfy them.
\<close>

section \<open>Rounding to a multiple of a power of two\<close>

definition rne :: "real \<Rightarrow> int" where
  "rne r =
     (let f = \<lfloor>r\<rfloor>; t = r - of_int f
      in if t < 1 / 2 then f else if 1 / 2 < t then f + 1 else if even f then f else f + 1)"

lemma rne_of_int [simp]: "rne (of_int n) = n"
  by (simp add: rne_def)

lemma rne_bounds: "\<lfloor>r\<rfloor> \<le> rne r" "rne r \<le> \<lfloor>r\<rfloor> + 1"
  by (auto simp: rne_def Let_def)

lemma rne_mono: "r \<le> s \<Longrightarrow> rne r \<le> rne s"
proof -
  assume le: "r \<le> s"
  then have fl: "\<lfloor>r\<rfloor> \<le> \<lfloor>s\<rfloor>" by (rule floor_mono)
  show "rne r \<le> rne s"
  proof (cases "\<lfloor>r\<rfloor> = \<lfloor>s\<rfloor>")
    case True
    with le show ?thesis by (auto simp: rne_def Let_def)
  next
    case False
    with fl have "\<lfloor>r\<rfloor> + 1 \<le> \<lfloor>s\<rfloor>" by simp
    then show ?thesis using rne_bounds(2) [of r] rne_bounds(1) [of s] by linarith
  qed
qed

lemma rne_uminus: "rne (- r) = - rne r"
proof (cases "r = of_int \<lfloor>r\<rfloor>")
  case True
  define n where "n = \<lfloor>r\<rfloor>"
  have r: "r = of_int n" using True by (simp add: n_def)
  have "rne (- r) = - n" using rne_of_int [of "- n"] by (simp add: r)
  then show ?thesis by (simp add: r)
next
  case False
  have "of_int \<lfloor>r\<rfloor> < r" using False of_int_floor_le [of r] by linarith
  then have "\<lfloor>- r\<rfloor> = - \<lfloor>r\<rfloor> - 1" by linarith
  then show ?thesis by (auto simp: rne_def Let_def)
qed

lemma rne_error: "\<bar>of_int (rne r) - r\<bar> \<le> 1 / 2"
  unfolding rne_def Let_def by (auto simp: abs_le_iff)

section \<open>Floating-point rounding\<close>

text \<open>
  \<open>fround p emin x\<close>: \<open>p\<close> bits of precision, least exponent \<open>emin\<close>. The unit in the last place of \<open>x\<close>
  is \<open>2\<close> to the \<open>quantum p emin x\<close>.
\<close>

definition quantum :: "int \<Rightarrow> int \<Rightarrow> real \<Rightarrow> int" where
  "quantum p emin x = max (\<lfloor>log 2 \<bar>x\<bar>\<rfloor> - (p - 1)) emin"

definition fround :: "int \<Rightarrow> int \<Rightarrow> real \<Rightarrow> real" where
  "fround p emin x =
     (if x = 0 then 0
      else of_int (rne (x / 2 powi quantum p emin x)) * 2 powi quantum p emin x)"

lemma fround_0 [simp]: "fround p emin 0 = 0"
  by (simp add: fround_def)

lemma quantum_uminus [simp]: "quantum p emin (- x) = quantum p emin x"
  by (simp add: quantum_def)

lemma fround_uminus: "fround p emin (- x) = - fround p emin x"
  by (simp add: fround_def rne_uminus)

lemma powi_pos [simp]: "0 < (2::real) powi e"
  by (simp add: power_int_def)

lemma log2_floor:
  assumes "0 < x"
  shows "2 powi \<lfloor>log 2 x\<rfloor> \<le> x" "x < 2 powi (\<lfloor>log 2 x\<rfloor> + 1)"
proof -
  define n where "n = \<lfloor>log 2 x\<rfloor>"
  have "of_int n \<le> log 2 x" "log 2 x < of_int (n + 1)" by (simp_all add: n_def floor_correct)
  then have "2 powr of_int n \<le> x" "x < 2 powr of_int (n + 1)"
    using assms by (simp_all only: le_log_iff log_less_iff rel_simps)
  moreover have "(2::real) powr of_int k = 2 powi k" for k
    by (rule powr_real_of_int') simp_all
  ultimately show "2 powi \<lfloor>log 2 x\<rfloor> \<le> x" "x < 2 powi (\<lfloor>log 2 x\<rfloor> + 1)"
    by (simp_all only: n_def)
qed

lemma powi_mono: "a \<le> b \<Longrightarrow> (2::real) powi a \<le> 2 powi b"
  by (simp add: power_int_increasing)

lemma powi_as_int: "0 \<le> e \<Longrightarrow> (2::real) powi e = of_int (2 ^ nat e)"
  by (simp add: power_int_def)

text \<open>A number with at most \<open>p\<close> significant bits above the least exponent is a float already.\<close>

lemma fround_fix:
  assumes "x = of_int m * 2 powi e" and "emin \<le> e" and "\<bar>m\<bar> \<le> 2 ^ nat p" and "0 < p"
  shows "fround p emin x = x"
proof (cases "x = 0")
  case False
  then have m0: "m \<noteq> 0" using assms(1) by auto
  define q where "q = quantum p emin x"
  have ax: "\<bar>x\<bar> = of_int \<bar>m\<bar> * 2 powi e" using assms(1) by (simp add: abs_mult)
  have "\<exists>n. x / 2 powi q = of_int n"
  proof (cases "q \<le> e")
    case True
    have "x / 2 powi q = of_int m * 2 powi (e - q)" by (simp add: assms(1) power_int_diff)
    also have "\<dots> = of_int (m * 2 ^ nat (e - q))" using True by (simp add: powi_as_int)
    finally show ?thesis by blast
  next
    case False
    then have "e < \<lfloor>log 2 \<bar>x\<bar>\<rfloor> - (p - 1)" using assms(2) by (auto simp: q_def quantum_def)
    then have "e + p \<le> \<lfloor>log 2 \<bar>x\<bar>\<rfloor>" by simp
    then have "2 powi (e + p) \<le> \<bar>x\<bar>"
      using log2_floor(1) [of "\<bar>x\<bar>"] \<open>x \<noteq> 0\<close> powi_mono [of "e + p" "\<lfloor>log 2 \<bar>x\<bar>\<rfloor>"] by simp
    then have "(2::real) powi p * 2 powi e \<le> of_int \<bar>m\<bar> * 2 powi e" by (simp add: ax power_int_add mult.commute)
    then have "of_int (2 ^ nat p) \<le> (of_int \<bar>m\<bar> :: real)" using assms(4) by (simp add: powi_as_int)
    then have "2 ^ nat p \<le> \<bar>m\<bar>" by (simp only: of_int_le_iff)
    with assms(3) have mm: "\<bar>m\<bar> = 2 ^ nat p" by simp
    then have xp: "\<bar>x\<bar> = 2 powi (e + p)" using assms(4) by (simp add: ax power_int_add powi_as_int mult.commute)
    then have "log 2 \<bar>x\<bar> = of_int (e + p)" by (simp add: powr_real_of_int' [symmetric])
    then have "q = max (e + 1) emin" by (simp add: q_def quantum_def)
    then have qe: "q = e + 1" using assms(2) by simp
    have "even m" using mm assms(4) by (metis dvd_abs_iff even_power even_two_times_div_two
        odd_one nat_0_iff neq0_conv not_le even_numeral zero_less_nat_eq)
    then obtain n where "m = 2 * n" by blast
    then have "x / 2 powi q = of_int n" by (simp add: assms(1) qe power_int_add)
    then show ?thesis by blast
  qed
  then obtain n where "x / 2 powi q = of_int n" ..
  then have "of_int n * 2 powi q = x" "rne (x / 2 powi q) = n" by (simp_all add: field_simps)
  then show ?thesis using False by (simp add: fround_def q_def [symmetric])
qed simp

lemma fround_le:
  assumes "x \<noteq> 0" and "x \<le> of_int n * 2 powi quantum p emin x"
  shows "fround p emin x \<le> of_int n * 2 powi quantum p emin x"
proof -
  have "x / 2 powi quantum p emin x \<le> of_int n" using assms(2) by (simp add: divide_le_eq)
  then have "rne (x / 2 powi quantum p emin x) \<le> n" using rne_mono rne_of_int by metis
  then show ?thesis using assms(1) by (simp add: fround_def)
qed

lemma fround_ge:
  assumes "x \<noteq> 0" and "of_int n * 2 powi quantum p emin x \<le> x"
  shows "of_int n * 2 powi quantum p emin x \<le> fround p emin x"
proof -
  have "of_int n \<le> x / 2 powi quantum p emin x" using assms(2) by (simp add: le_divide_eq)
  then have "n \<le> rne (x / 2 powi quantum p emin x)" using rne_mono rne_of_int by metis
  then show ?thesis using assms(1) by (simp add: fround_def)
qed

lemma fround_nonneg: "0 \<le> x \<Longrightarrow> 0 \<le> fround p emin x"
  using fround_ge [of x 0 p emin] by (cases "x = 0") simp_all

text \<open>Rounding is monotone: within one binade by rounding of integers, across binades through the bound between them.\<close>

lemma fround_mono_pos:
  assumes "0 < x" and "x \<le> y" and "0 < p"
  shows "fround p emin x \<le> fround p emin y"
proof (cases "quantum p emin x = quantum p emin y")
  case True
  have "rne (x / 2 powi quantum p emin y) \<le> rne (y / 2 powi quantum p emin y)"
    using assms(2) by (intro rne_mono divide_right_mono) simp_all
  then show ?thesis using assms True by (simp add: fround_def)
next
  case False
  define qx qy b where "qx = quantum p emin x" and "qy = quantum p emin y" and "b = \<lfloor>log 2 y\<rfloor>"
  have "\<lfloor>log 2 x\<rfloor> \<le> b" unfolding b_def using assms by (intro floor_mono) simp
  then have qb: "qy = b - (p - 1)" "\<lfloor>log 2 x\<rfloor> < b" "qx < qy"
    using False assms(1,2) by (auto simp: qx_def qy_def b_def quantum_def max_def split: if_splits)
  have "x < 2 powi (\<lfloor>log 2 x\<rfloor> + 1)" using log2_floor(2) assms(1) by blast
  also have "\<dots> \<le> 2 powi b" using qb(2) by (intro powi_mono) simp
  finally have xb: "x \<le> 2 powi b" by simp
  have yb: "2 powi b \<le> y" unfolding b_def using log2_floor(1) assms by simp
  have ex: "(2::real) powi b = of_int (2 ^ nat (b - q)) * 2 powi q" if "q \<le> b" for q
  proof -
    have "(2::real) powi b = 2 powi (b - q) * 2 powi q" by (simp flip: power_int_add)
    then show ?thesis using that by (simp add: powi_as_int)
  qed
  have "qx \<le> b" "qy \<le> b" using qb assms(3) by simp_all
  then have "fround p emin x \<le> 2 powi b" "2 powi b \<le> fround p emin y"
    using fround_le [of x "2 ^ nat (b - qx)" p emin] fround_ge [of y "2 ^ nat (b - qy)" p emin]
      xb yb ex [of qx] ex [of qy] assms(1,2) by (simp_all add: qx_def qy_def)
  then show ?thesis by simp
qed

lemma fround_mono:
  assumes "x \<le> y" and "0 < p"
  shows "fround p emin x \<le> fround p emin y"
proof -
  consider "0 < x" | "x \<le> 0" "0 \<le> y" | "y < 0" using assms(1) by linarith
  then show ?thesis
  proof cases
    case 1
    then show ?thesis using assms by (rule fround_mono_pos)
  next
    case 2
    then have "0 \<le> fround p emin (- x)" "0 \<le> fround p emin y" by (simp_all add: fround_nonneg)
    then show ?thesis by (simp add: fround_uminus)
  next
    case 3
    then have "fround p emin (- y) \<le> fround p emin (- x)" using assms by (intro fround_mono_pos) simp_all
    then show ?thesis by (simp add: fround_uminus)
  qed
qed

lemma fround_error:
  assumes "x \<noteq> 0"
  shows "\<bar>fround p emin x - x\<bar> \<le> 2 powi quantum p emin x / 2"
proof -
  define q where "q = quantum p emin x"
  have "fround p emin x - x = (of_int (rne (x / 2 powi q)) - x / 2 powi q) * 2 powi q"
    using assms by (simp add: fround_def q_def algebra_simps)
  then have "\<bar>fround p emin x - x\<bar> = \<bar>of_int (rne (x / 2 powi q)) - x / 2 powi q\<bar> * 2 powi q"
    by (simp add: abs_mult)
  also have "\<dots> \<le> (1 / 2) * 2 powi q" by (intro mult_right_mono rne_error) simp
  finally show ?thesis by (simp add: q_def)
qed

text \<open>The integer significand of a rounded number fits into the precision, so rounding twice is rounding once.\<close>

lemma quantum_bound:
  assumes "x \<noteq> 0" and "0 < p"
  shows "\<bar>x\<bar> < 2 ^ nat p * 2 powi quantum p emin x"
proof -
  have "\<bar>x\<bar> < 2 powi (\<lfloor>log 2 \<bar>x\<bar>\<rfloor> + 1)" using log2_floor(2) assms(1) by simp
  also have "\<dots> \<le> 2 powi (p + quantum p emin x)" by (intro powi_mono) (simp add: quantum_def)
  also have "\<dots> = 2 ^ nat p * 2 powi quantum p emin x" using assms(2) by (simp add: power_int_add powi_as_int)
  finally show ?thesis .
qed

lemma fround_significand:
  assumes "0 < p"
  obtains m where "fround p emin x = of_int m * 2 powi quantum p emin x" and "\<bar>m\<bar> \<le> 2 ^ nat p"
proof (cases "x = 0")
  case True
  then show ?thesis using that [of 0] by simp
next
  case False
  let ?q = "2 powi quantum p emin x :: real"
  have "\<bar>x / ?q\<bar> \<le> of_int (2 ^ nat p)"
    using quantum_bound [OF False assms, of emin] by (simp add: abs_divide divide_le_eq)
  then have "of_int (- (2 ^ nat p)) \<le> x / ?q" "x / ?q \<le> of_int (2 ^ nat p)"
    unfolding abs_le_iff of_int_minus by linarith+
  note this [THEN rne_mono]
  then have "\<bar>rne (x / ?q)\<bar> \<le> 2 ^ nat p" by (simp only: rne_of_int abs_le_iff) simp
  then show ?thesis using that [of "rne (x / ?q)"] False by (simp add: fround_def)
qed

lemma fround_idem:
  assumes "0 < p"
  shows "fround p emin (fround p emin x) = fround p emin x"
proof -
  obtain m where "fround p emin x = of_int m * 2 powi quantum p emin x" "\<bar>m\<bar> \<le> 2 ^ nat p"
    using fround_significand [OF assms] by blast
  then show ?thesis using assms by (intro fround_fix [of _ m "quantum p emin x"]) (simp_all add: quantum_def)
qed

section \<open>The contract of a rounding function\<close>

text \<open>What the scores rely on: order is kept, the sign is symmetric, and integers up to \<open>2\<close> to the precision are exact.\<close>

locale rounding =
  fixes rnd :: "real \<Rightarrow> real" and prec :: nat
  assumes mono: "x \<le> y \<Longrightarrow> rnd x \<le> rnd y"
    and uminus: "rnd (- x) = - rnd x"
    and exact: "\<bar>m\<bar> \<le> 2 ^ prec \<Longrightarrow> rnd (of_int m) = of_int m"
begin

lemma zero [simp]: "rnd 0 = 0"
  using exact [of 0] by simp

lemma one [simp]: "rnd 1 = 1"
  using exact [of 1] by simp

lemma nonneg: "0 \<le> x \<Longrightarrow> 0 \<le> rnd x"
  using mono [of 0 x] by simp

lemma nonpos: "x \<le> 0 \<Longrightarrow> rnd x \<le> 0"
  using mono [of x 0] by simp

lemma le_one: "x \<le> 1 \<Longrightarrow> rnd x \<le> 1"
  using mono [of x 1] by simp

lemma nat_exact:
  assumes "n \<le> 2 ^ prec"
  shows "rnd (of_nat n) = of_nat n"
proof -
  have "int n \<le> int (2 ^ prec)" using assms by (simp only: of_nat_le_iff)
  then show ?thesis using exact [of "int n"] by simp
qed

lemma le_int: "\<bar>m\<bar> \<le> 2 ^ prec \<Longrightarrow> x \<le> of_int m \<Longrightarrow> rnd x \<le> of_int m"
  using mono [of x "of_int m"] exact [of m] by simp

lemma ge_int: "\<bar>m\<bar> \<le> 2 ^ prec \<Longrightarrow> of_int m \<le> x \<Longrightarrow> of_int m \<le> rnd x"
  using mono [of "of_int m" x] exact [of m] by simp

text \<open>A quotient of two numbers in order lies in the unit interval after rounding.\<close>

lemma quotient_unit: "0 \<le> a \<Longrightarrow> a \<le> b \<Longrightarrow> 0 \<le> rnd (a / b) \<and> rnd (a / b) \<le> 1"
  by (cases "b = 0") (auto intro!: nonneg le_one simp: divide_le_eq_1)

lemma product_unit: "0 \<le> a \<Longrightarrow> a \<le> 1 \<Longrightarrow> 0 \<le> b \<Longrightarrow> b \<le> 1 \<Longrightarrow> 0 \<le> rnd (a * b) \<and> rnd (a * b) \<le> 1"
  by (auto intro!: nonneg le_one simp: mult_le_one)

end

text \<open>Python's \<open>float\<close> and the \<open>'<f'\<close> format of \<open>struct\<close>.\<close>

definition fl :: "real \<Rightarrow> real" where
  "fl x = fround 53 (-1074) x"

definition fl32 :: "real \<Rightarrow> real" where
  "fl32 x = fround 24 (-149) x"

interpretation f64: rounding fl 53
proof unfold_locales
  fix m :: int assume "\<bar>m\<bar> \<le> 2 ^ 53"
  then show "fl (of_int m) = of_int m" unfolding fl_def by (intro fround_fix [of _ m 0]) simp_all
qed (simp_all add: fl_def fround_mono fround_uminus)

interpretation f32: rounding fl32 24
proof unfold_locales
  fix m :: int assume "\<bar>m\<bar> \<le> 2 ^ 24"
  then show "fl32 (of_int m) = of_int m" unfolding fl32_def by (intro fround_fix [of _ m 0]) simp_all
qed (simp_all add: fl32_def fround_mono fround_uminus)

end
