(* ===== verification/DGA_Score.thy ===== *)
theory DGA_Score
  imports Py_Prelude Py_Float "HOL-Library.AList"
begin

text \<open>
  The heuristic DGA scorers of \<open>src/evaluation\<close>: \<open>dga_score_original.py\<close>, \<open>dga_score_lowlen.py\<close> and
  \<open>dga_score.py\<close> (which adds the 4-gram score, the vowel/consonant score and the optional logistic
  regression). Every float operation of the scripts is rounded by \<open>fl\<close>, literals included.
  The lemmas bound each feature, show that the scores are non-negative and do not depend on case,
  trailing dots or anything after the first label, and order the two length variants.
\<close>

section \<open>Library functions\<close>

text \<open>
  \<open>math.log2\<close> and \<open>math.exp\<close>, idealised to correctly rounded results. \<open>math.log2\<close> raises ValueError on
  numbers that are not positive; \<open>math.exp\<close> raises OverflowError when the result is not a finite float.
\<close>

definition py_log2 :: "real \<Rightarrow> real" where
  "py_log2 x = fl (log 2 x)"

definition py_exp :: "real \<Rightarrow> real result" where
  "py_exp x = (if 2 ^ 1024 \<le> fl (exp x) then Inl OverflowError else Inr (fl (exp x)))"

definition math_log2 :: "real \<Rightarrow> real result" where
  "math_log2 x = (if x \<le> 0 then Inl ValueError else Inr (py_log2 x))"

text \<open>\<open>a / b\<close> on integers (correctly rounded) and floats.\<close>

definition true_div :: "real \<Rightarrow> real \<Rightarrow> real result" where
  "true_div a b = (if b = 0 then Inl ZeroDivisionError else Inr (fl (a / b)))"

text \<open>\<open>f'{x:.4f}'\<close>: the decimal with that many places nearest to the value, ties to even.\<close>

definition format_f :: "nat \<Rightarrow> real \<Rightarrow> string" where
  "format_f k x =
     (let n = nat (rne (\<bar>x\<bar> * 10 ^ k))
      in (if x < 0 then ''-'' else []) @ py_str (int (n div 10 ^ k)) @ ''.'' @
         pad_zeros k (py_str (int (n mod 10 ^ k))))"

section \<open>The character statistics\<close>

record tally =
  letters :: nat
  digits_seen :: nat
  counts :: "nat list"
  total :: nat
  transitions :: nat
  prev_type :: nat

definition tally_start :: tally where
  "tally_start =
     \<lparr>letters = 0, digits_seen = 0, counts = replicate 26 0, total = 0, transitions = 0, prev_type = 0\<rparr>"

definition tally_char :: "tally \<Rightarrow> char \<Rightarrow> tally" where
  "tally_char t c =
     (if is_az c then
        let idx = nat (ord c - ord (CHR ''a''))
        in t\<lparr>counts := (counts t)[idx := counts t ! idx + 1], letters := letters t + 1, total := total t + 1,
             transitions := (if prev_type t = 2 then transitions t + 1 else transitions t), prev_type := 1\<rparr>
      else if is_digit c then
        t\<lparr>digits_seen := digits_seen t + 1, total := total t + 1,
          transitions := (if prev_type t = 1 then transitions t + 1 else transitions t), prev_type := 2\<rparr>
      else t\<lparr>prev_type := 0\<rparr>)"

definition tally_of :: "string \<Rightarrow> tally" where
  "tally_of sld = foldl tally_char tally_start sld"

fun entropy_loop :: "nat \<Rightarrow> nat list \<Rightarrow> real \<Rightarrow> real result" where
  "entropy_loop n [] e = Inr e"
| "entropy_loop n (cnt # cs) e =
     (if 0 < cnt
      then rbind (true_div (of_nat cnt) (of_nat n)) (\<lambda>p. rbind (math_log2 p) (\<lambda>l. entropy_loop n cs (fl (e - fl (p * l)))))
      else entropy_loop n cs e)"

definition entropy :: "tally \<Rightarrow> real result" where
  "entropy t = (if 0 < letters t then entropy_loop (letters t) (counts t) 0 else Inr 0)"

definition entropy_norm :: "tally \<Rightarrow> real result" where
  "entropy_norm t = rbind (entropy t) (\<lambda>e. true_div e (fl (47 / 10)))"

definition transition_score :: "tally \<Rightarrow> nat \<Rightarrow> real result" where
  "transition_score t len = (if 1 < len then true_div (of_nat (transitions t)) (of_nat len - 1) else Inr 0)"

definition len_score :: "nat \<Rightarrow> nat \<Rightarrow> nat \<Rightarrow> real" where
  "len_score hi lo len = (if hi < len then 1 else if lo < len then 1 / 2 else 0)"

text \<open>The label that is scored: \<open>domain.rstrip('.').split('.')[0].lower()\<close>.\<close>

definition sld_of :: "string \<Rightarrow> string" where
  "sld_of domain = py_lower (first_label (py_rstrip (\<lambda>c. c = CHR ''.'') domain))"

section \<open>The two scripts without language model\<close>

definition weighted4 :: "real \<Rightarrow> real \<Rightarrow> real \<Rightarrow> real \<Rightarrow> real" where
  "weighted4 e d t l =
     fl (fl (fl (fl (e * fl (35 / 100)) + fl (d * fl (30 / 100))) + fl (t * fl (25 / 100))) + fl (l * fl (10 / 100)))"

definition dga_score_original :: "string \<Rightarrow> real result" where
  "dga_score_original domain =
     (let sld = sld_of domain; len = length sld in
      if len < 5 then Inr 0
      else let t = tally_of sld in
        if total t < 2 then Inr 0
        else rbind (entropy_norm t) (\<lambda>e. rbind (true_div (of_nat (digits_seen t)) (of_nat len)) (\<lambda>d.
          rbind (transition_score t len) (\<lambda>tr. Inr (weighted4 e d tr (len_score 20 12 len))))))"

definition dga_score_lowlen :: "string \<Rightarrow> real result" where
  "dga_score_lowlen domain =
     (let sld = sld_of domain; len = length sld in
      if len < 5 then Inr 0
      else let t = tally_of sld in
        if total t < 2 then Inr 0
        else rbind (entropy_norm t) (\<lambda>e. rbind (true_div (of_nat (digits_seen t)) (of_nat len)) (\<lambda>d.
          rbind (transition_score t len) (\<lambda>tr. Inr (weighted4 e d tr (len_score 14 8 len))))))"

text \<open>
  The main program: one line \<open>domain,score\<close> per non-blank input line; an exception ends it after the
  lines printed so far.
\<close>

fun score_lines :: "(string \<Rightarrow> real result) \<Rightarrow> string list \<Rightarrow> string list \<times> py_error option" where
  "score_lines score [] = ([], None)"
| "score_lines score (line # ls) =
     (let domain = py_strip line in
      if domain = [] then score_lines score ls
      else (case score domain of Inl e \<Rightarrow> ([], Some e)
        | Inr s \<Rightarrow> let (out, e) = score_lines score ls in ((domain @ '','' @ format_f 4 s) # out, e)))"

section \<open>The 4-gram score\<close>

type_synonym ngram_model = "(string \<times> real) list"

definition MIN_LOGPROB :: real where "MIN_LOGPROB = -20"
definition LOG_LO :: real where "LOG_LO = -20"
definition LOG_HI :: real where "LOG_HI = fl (-(1034 / 100))"

text \<open>\<open>[''.join(letters[i:i+n]) for i in range(len(letters)-n+1)]\<close>.\<close>

definition grams :: "nat \<Rightarrow> string \<Rightarrow> string list" where
  "grams n s = map (\<lambda>i. take n (drop i s)) [0..<length s + 1 - n]"

definition ngram_get :: "ngram_model \<Rightarrow> string \<Rightarrow> real" where
  "ngram_get model g = (case map_of model g of Some v \<Rightarrow> v | None \<Rightarrow> MIN_LOGPROB)"

definition sum_log :: "ngram_model \<Rightarrow> string list \<Rightarrow> real" where
  "sum_log model gs = foldl (\<lambda>s g. fl (s + ngram_get model g)) 0 gs"

definition label_letters :: "string \<Rightarrow> string" where
  "label_letters domain = filter is_az (py_lower (first_label (py_strip domain)))"

definition ngram_score_domain :: "ngram_model \<Rightarrow> string \<Rightarrow> real result" where
  "ngram_score_domain model domain =
     (if model = [] then Inr 0
      else let ls = label_letters domain in
        if length ls < 4 then Inr 0
        else let gs = grams 4 ls in
          rbind (true_div (sum_log model gs) (of_nat (length gs))) (\<lambda>avg.
          rbind (true_div (fl (avg - LOG_LO)) (fl (LOG_HI - LOG_LO))) (\<lambda>norm.
            Inr (fl (1 - max 0 (min 1 norm))))))"

section \<open>The vowel/consonant score\<close>

record vc_state =
  vowels :: nat
  cons :: nat
  alt :: nat
  prev :: int

definition is_vowel :: "char \<Rightarrow> bool" where
  "is_vowel c \<longleftrightarrow> c \<in> set ''aeiou''"

definition vc_char :: "vc_state \<Rightarrow> char \<Rightarrow> vc_state" where
  "vc_char s c =
     (if is_az c then
        if is_vowel c then
          s\<lparr>alt := (if prev s = 1 then alt s + 1 else alt s), prev := 0, vowels := vowels s + 1\<rparr>
        else
          s\<lparr>alt := (if prev s = 0 then alt s + 1 else alt s), prev := 1, cons := cons s + 1\<rparr>
      else s)"

definition vc_of :: "string \<Rightarrow> vc_state" where
  "vc_of sld = foldl vc_char \<lparr>vowels = 0, cons = 0, alt = 0, prev = -1\<rparr> sld"

definition vowel_cons_score :: "string \<Rightarrow> real result" where
  "vowel_cons_score domain =
     (let s = vc_of (py_lower (first_label (py_strip domain))); tot = vowels s + cons s in
      if tot < 2 then Inr 0
      else rbind (true_div (of_nat (vowels s)) (of_nat tot)) (\<lambda>ratio.
        let r = fl (1 - fl (\<bar>fl (ratio - fl (45 / 100))\<bar> * 2));
            ratio_score = (if r < 0 then 0 else r)
        in rbind (true_div (of_nat (alt s)) (of_nat tot - 1)) (\<lambda>alt_score.
             Inr (fl (fl (ratio_score * (1 / 2)) + fl (alt_score * (1 / 2)))))))"

section \<open>Logistic regression and the full score\<close>

text \<open>
  \<open>lr_coeffs\<close> is None when \<open>lr_coeffs.bin\<close> cannot be opened, otherwise the array of the floats read.
  The intercept is read first, so an array with fewer than six entries raises IndexError.
\<close>

definition lr_sum :: "real list \<Rightarrow> real list \<Rightarrow> real result" where
  "lr_sum coeffs features =
     foldl (\<lambda>r i. rbind r (\<lambda>s. rbind (py_get coeffs (int i)) (\<lambda>c.
         rbind (py_get features (int i)) (\<lambda>f. Inr (fl (s + fl (c * f)))))))
       (py_get coeffs 5) [0..<5]"

definition lr_score :: "real list option \<Rightarrow> real list \<Rightarrow> real option result" where
  "lr_score lr_coeffs features =
     (case lr_coeffs of None \<Rightarrow> Inr None
      | Some coeffs \<Rightarrow> rbind (lr_sum coeffs features) (\<lambda>s.
          rbind (py_exp (- s)) (\<lambda>e. rbind (true_div 1 (fl (1 + e))) (\<lambda>p. Inr (Some p)))))"

definition weighted6 :: "real \<Rightarrow> real \<Rightarrow> real \<Rightarrow> real \<Rightarrow> real \<Rightarrow> real \<Rightarrow> real" where
  "weighted6 e d t l ng vc =
     fl (fl (fl (fl (fl (fl (e * fl (20 / 100)) + fl (d * fl (15 / 100))) + fl (t * fl (15 / 100)))
       + fl (l * fl (10 / 100))) + fl (ng * fl (25 / 100))) + fl (vc * fl (15 / 100)))"

definition dga_score :: "ngram_model \<Rightarrow> real list option \<Rightarrow> string \<Rightarrow> real result" where
  "dga_score model lr_coeffs domain0 =
     (let domain = py_rstrip (\<lambda>c. c = CHR ''.'') domain0;
          sld = py_lower (first_label domain); len = length sld in
      if len < 5 then Inr 0
      else let t = tally_of sld in
        if total t < 2 then Inr 0
        else rbind (entropy_norm t) (\<lambda>e. rbind (true_div (of_nat (digits_seen t)) (of_nat len)) (\<lambda>d.
          rbind (transition_score t len) (\<lambda>tr. let l = len_score 20 12 len in
          rbind (ngram_score_domain model domain) (\<lambda>ng. rbind (vowel_cons_score domain) (\<lambda>vc.
            if lr_coeffs \<noteq> None then
              rbind (lr_score lr_coeffs [e, d, tr, l, ng]) (\<lambda>prob.
                case prob of Some p \<Rightarrow> Inr p | None \<Rightarrow> Inr (weighted6 e d tr l ng vc))
            else Inr (weighted6 e d tr l ng vc)))))))"

section \<open>The statistics\<close>

lemma az_index: "is_az c \<Longrightarrow> nat (ord c - ord (CHR ''a'')) < 26"
proof -
  have "ord (CHR ''a'') = 97" by code_simp
  then show "is_az c \<Longrightarrow> nat (ord c - ord (CHR ''a'')) < 26" by (simp add: is_az_def nat_less_iff)
qed

definition tally_inv :: "nat \<Rightarrow> tally \<Rightarrow> bool" where
  "tally_inv n t \<longleftrightarrow>
     length (counts t) = 26 \<and> sum_list (counts t) = letters t \<and> total t = letters t + digits_seen t \<and>
     total t \<le> n \<and> transitions t + (if prev_type t = 0 then 0 else 1) \<le> n \<and> prev_type t \<le> 2"

lemma sum_list_bump: "i < length xs \<Longrightarrow> sum_list (xs[i := Suc (xs ! i)]) = Suc (sum_list xs)"
  by (simp add: sum_list_update elem_le_sum_list)

lemma tally_char_inv: "tally_inv n t \<Longrightarrow> tally_inv (Suc n) (tally_char t c)"
  using az_index [of c] by (auto simp: tally_inv_def tally_char_def Let_def sum_list_bump split: if_splits)

lemma foldl_tally_inv: "tally_inv n t \<Longrightarrow> tally_inv (n + length s) (foldl tally_char t s)"
proof (induction s arbitrary: n t)
  case (Cons c s)
  then show ?case using Cons.IH [OF tally_char_inv, of n t c] by simp
qed simp

lemma tally_of_inv: "tally_inv (length s) (tally_of s)"
  using foldl_tally_inv [of 0 tally_start s] by (simp add: tally_of_def tally_inv_def tally_start_def)

lemma foldl_tally_transitions:
  "transitions (foldl tally_char t s) \<le> transitions t + length s"
proof (induction s arbitrary: t)
  case (Cons c s)
  have "transitions (tally_char t c) \<le> transitions t + 1" by (simp add: tally_char_def Let_def)
  then show ?case using Cons.IH [of "tally_char t c"] by simp
qed simp

text \<open>The first character never is a transition.\<close>

lemma transitions_le: "transitions (tally_of s) \<le> length s - 1"
proof (cases s)
  case (Cons c cs)
  have "transitions (tally_char tally_start c) = 0" by (simp add: tally_char_def tally_start_def Let_def)
  then show ?thesis using foldl_tally_transitions [of "tally_char tally_start c" cs] Cons
    by (simp add: tally_of_def)
qed (simp add: tally_of_def tally_start_def)

text \<open>Each count is the number of occurrences of its letter.\<close>

lemma foldl_tally_counts:
  assumes "length (counts t) = 26" and "is_az a"
  shows "counts (foldl tally_char t s) ! nat (ord a - 97) = counts t ! nat (ord a - 97) + count_list s a"
  using assms(1)
proof (induction s arbitrary: t)
  case (Cons c s)
  have o: "ord (CHR ''a'') = 97" by code_simp
  have same: "nat (ord c - 97) = nat (ord a - 97) \<longleftrightarrow> c = a" if "is_az c"
    using that assms(2) by (simp add: is_az_def eq_nat_nat_iff)
  have "counts (tally_char t c) ! nat (ord a - 97) = counts t ! nat (ord a - 97) + (if c = a then 1 else 0)"
    using Cons.prems assms(2) az_index [of c] same
    by (auto simp: tally_char_def Let_def nth_list_update o)
  moreover have "length (counts (tally_char t c)) = 26" using Cons.prems by (simp add: tally_char_def Let_def)
  ultimately show ?case using Cons.IH [of "tally_char t c"] by simp
qed simp

lemma tally_counts: "is_az a \<Longrightarrow> counts (tally_of s) ! nat (ord a - 97) = count_list s a"
  using foldl_tally_counts [of tally_start a s] by (simp add: tally_of_def tally_start_def is_az_def nat_less_iff)

section \<open>Bounds of the features\<close>

text \<open>A division that does not raise, with a result between two bounds.\<close>

lemma true_div_unit:
  assumes "0 \<le> a" and "a \<le> b" and "0 < b"
  shows "\<exists>q. true_div a b = Inr q \<and> 0 \<le> q \<and> q \<le> 1"
  using f64.quotient_unit [of a b] assms by (simp add: true_div_def)

text \<open>A quotient of positive integers below \<open>2 ^ 63\<close> does not underflow to zero.\<close>

lemma quotient_positive:
  assumes "0 < a" and "n < 2 ^ 63" and "0 < n"
  shows "0 < fl (of_nat a / of_nat n)"
proof -
  have "fl (2 powi (-63)) = 2 powi (-63)"
    unfolding fl_def by (rule fround_fix [of _ 1 "-63"]) simp_all
  moreover have "(2::real) powi (-63) \<le> of_nat a / of_nat n"
  proof -
    have "(of_nat n :: real) \<le> of_nat (2 ^ 63)" using assms(2) by (simp only: of_nat_le_iff)
    then have "1 / 2 ^ 63 \<le> 1 / (of_nat n :: real)" using assms(3) by (intro divide_left_mono) simp_all
    also have "\<dots> \<le> of_nat a / of_nat n" using assms(1) by (intro divide_right_mono) simp_all
    finally show ?thesis by (simp add: power_int_minus inverse_eq_divide)
  qed
  ultimately have "2 powi (-63) \<le> fl (of_nat a / of_nat n)" using f64.mono by metis
  then show ?thesis using powi_pos [of "-63"] by (simp del: powi_pos)
qed

lemma entropy_term:
  assumes "0 \<le> p" and "p \<le> 1" and "0 \<le> e"
  shows "e \<le> e - fl (p * py_log2 p)"
proof -
  have "p * py_log2 p \<le> 0"
  proof (cases "p = 0")
    case False
    then have "log 2 p \<le> 0" using assms(1,2) by simp
    then show ?thesis using assms(1) by (simp add: py_log2_def f64.nonpos mult_nonneg_nonpos)
  qed simp
  then show ?thesis using f64.nonpos by simp
qed

lemma entropy_loop_ok:
  "0 \<le> e \<Longrightarrow> sum_list cs \<le> n \<Longrightarrow> n < 2 ^ 63 \<Longrightarrow> \<exists>v. entropy_loop n cs e = Inr v \<and> 0 \<le> v"
proof (induction cs arbitrary: e)
  case (Cons cnt cs)
  show ?case
  proof (cases "0 < cnt")
    case True
    define p :: real where "p = fl (of_nat cnt / of_nat n)"
    have n: "cnt \<le> n" "0 < n" using Cons.prems True by auto
    then have p: "true_div (of_nat cnt) (of_nat n) = Inr p" "0 \<le> p" "p \<le> 1" "0 < p"
      using f64.quotient_unit [of "of_nat cnt" "of_nat n"] quotient_positive [OF True Cons.prems(3) n(2)]
      by (simp_all add: true_div_def p_def)
    have "0 \<le> fl (e - fl (p * py_log2 p))"
      using entropy_term [OF p(2,3) Cons.prems(1)] Cons.prems(1) by (intro f64.nonneg) linarith
    then obtain v where "entropy_loop n cs (fl (e - fl (p * py_log2 p))) = Inr v" "0 \<le> v"
      using Cons.IH Cons.prems by auto
    then show ?thesis using True p by (simp add: math_log2_def)
  next
    case False
    then show ?thesis using Cons by simp
  qed
qed simp

lemma entropy_ok: "length s < 2 ^ 63 \<Longrightarrow> \<exists>v. entropy (tally_of s) = Inr v \<and> 0 \<le> v"
  using tally_of_inv [of s] entropy_loop_ok [of 0 "counts (tally_of s)" "letters (tally_of s)"]
  by (simp add: entropy_def tally_inv_def)

lemma fl_fraction: "0 \<le> (x::real) \<Longrightarrow> 0 \<le> fl x"
  by (rule f64.nonneg)

lemma entropy_norm_ok:
  assumes "length s < 2 ^ 63"
  shows "\<exists>v. entropy_norm (tally_of s) = Inr v \<and> 0 \<le> v"
proof -
  have "4 \<le> fl (47 / 10)" using f64.ge_int [of 4 "47 / 10"] by simp
  then show ?thesis using entropy_ok [OF assms] by (auto simp: entropy_norm_def true_div_def intro!: f64.nonneg)
qed

lemma digit_ratio_ok:
  "0 < length s \<Longrightarrow> \<exists>q. true_div (of_nat (digits_seen (tally_of s))) (of_nat (length s)) = Inr q \<and> 0 \<le> q \<and> q \<le> 1"
  using tally_of_inv [of s] by (intro true_div_unit) (simp_all add: tally_inv_def)

lemma transition_score_ok: "\<exists>q. transition_score (tally_of s) (length s) = Inr q \<and> 0 \<le> q \<and> q \<le> 1"
proof (cases "1 < length s")
  case True
  then have "transitions (tally_of s) + 1 \<le> length s" using transitions_le [of s] by linarith
  then have "(of_nat (transitions (tally_of s) + 1) :: real) \<le> of_nat (length s)" by (simp only: of_nat_le_iff)
  then have "\<exists>q. true_div (of_nat (transitions (tally_of s))) (of_nat (length s) - 1) = Inr q \<and> 0 \<le> q \<and> q \<le> 1"
    using True by (intro true_div_unit) simp_all
  then show ?thesis using True by (simp add: transition_score_def)
qed (simp add: transition_score_def)

lemma len_score_unit: "0 \<le> len_score hi lo len \<and> len_score hi lo len \<le> 1"
  by (simp add: len_score_def)

lemma ngram_score_ok: "\<exists>q. ngram_score_domain model domain = Inr q \<and> 0 \<le> q \<and> q \<le> 1"
proof -
  have "0 \<le> fl (1 - max 0 (min 1 x)) \<and> fl (1 - max 0 (min 1 x)) \<le> 1" for x
    by (intro conjI f64.nonneg f64.le_one) auto
  moreover have "fl (LOG_HI - LOG_LO) \<noteq> 0"
  proof -
    have "-11 \<le> LOG_HI" using f64.ge_int [of "-11" "-(1034 / 100)"] by (simp add: LOG_HI_def)
    then have "9 \<le> fl (LOG_HI - LOG_LO)" using f64.ge_int [of 9 "LOG_HI - LOG_LO"] by (simp add: LOG_LO_def)
    then show ?thesis by simp
  qed
  moreover have "grams 4 ls \<noteq> []" if "\<not> length ls < 4" for ls using that by (simp add: grams_def)
  ultimately show ?thesis by (simp add: ngram_score_domain_def Let_def true_div_def)
qed

definition vc_inv :: "vc_state \<Rightarrow> bool" where
  "vc_inv s \<longleftrightarrow> (if prev s = -1 then alt s = 0 \<and> vowels s + cons s = 0 else alt s < vowels s + cons s)"

lemma vc_char_inv: "vc_inv s \<Longrightarrow> vc_inv (vc_char s c)"
  by (auto simp: vc_inv_def vc_char_def split: if_splits)

lemma vc_of_inv: "vc_inv (vc_of s)"
proof -
  have "vc_inv t \<Longrightarrow> vc_inv (foldl vc_char t s)" for t
    by (induction s arbitrary: t) (simp_all add: vc_char_inv)
  then show ?thesis by (simp add: vc_of_def vc_inv_def)
qed

lemma vowel_cons_ok: "\<exists>v. vowel_cons_score domain = Inr v \<and> 0 \<le> v \<and> v \<le> 1"
proof -
  define s where "s = vc_of (py_lower (first_label (py_strip domain)))"
  show ?thesis
  proof (cases "vowels s + cons s < 2")
    case True
    then show ?thesis by (simp add: vowel_cons_score_def s_def)
  next
    case False
    have "alt s + 1 \<le> vowels s + cons s"
      using False vc_of_inv [of "py_lower (first_label (py_strip domain))"] by (auto simp: s_def vc_inv_def split: if_splits)
    then have "(of_nat (alt s + 1) :: real) \<le> of_nat (vowels s + cons s)" by (simp only: of_nat_le_iff)
    then obtain a where a: "true_div (of_nat (alt s)) (of_nat (vowels s + cons s) - 1) = Inr a" "0 \<le> a" "a \<le> 1"
      using False true_div_unit [of "of_nat (alt s)" "of_nat (vowels s + cons s) - 1"] by auto
    obtain ratio where ratio: "true_div (of_nat (vowels s)) (of_nat (vowels s + cons s)) = Inr ratio"
      using False by (simp add: true_div_def)
    define r where "r = fl (1 - fl (\<bar>fl (ratio - fl (45 / 100))\<bar> * 2))"
    define q where "q = (if r < 0 then 0 else r)"
    have "r \<le> 1" unfolding r_def by (intro f64.le_one) (simp add: f64.nonneg)
    then have q: "0 \<le> q" "q \<le> 1" by (simp_all add: q_def)
    have half: "0 \<le> fl (x * (1 / 2)) \<and> fl (x * (1 / 2)) \<le> 1 / 2" if "0 \<le> x" "x \<le> 1" for x
    proof -
      have "fl (1 / 2) = 1 / 2"
        unfolding fl_def by (rule fround_fix [of _ 1 "-1"]) (simp_all add: power_int_def)
      then show ?thesis using that f64.mono [of "x * (1 / 2)" "1 / 2"] by (auto intro: f64.nonneg)
    qed
    have "0 \<le> fl (fl (q * (1 / 2)) + fl (a * (1 / 2))) \<and> fl (fl (q * (1 / 2)) + fl (a * (1 / 2))) \<le> 1"
      using half [OF q] half [OF a(2,3)] by (intro conjI f64.nonneg f64.le_one) linarith+
    moreover have "vowel_cons_score domain = Inr (fl (fl (q * (1 / 2)) + fl (a * (1 / 2))))"
      unfolding vowel_cons_score_def s_def [symmetric] Let_def using False ratio a(1) by (simp add: q_def r_def)
    ultimately show ?thesis by simp
  qed
qed

section \<open>Sign and order of the scores\<close>

lemma weighted4_nonneg: "0 \<le> e \<Longrightarrow> 0 \<le> d \<Longrightarrow> 0 \<le> t \<Longrightarrow> 0 \<le> l \<Longrightarrow> 0 \<le> weighted4 e d t l"
  unfolding weighted4_def by (intro f64.nonneg add_nonneg_nonneg mult_nonneg_nonneg) simp_all

lemma weighted6_nonneg:
  "0 \<le> e \<Longrightarrow> 0 \<le> d \<Longrightarrow> 0 \<le> t \<Longrightarrow> 0 \<le> l \<Longrightarrow> 0 \<le> ng \<Longrightarrow> 0 \<le> vc \<Longrightarrow> 0 \<le> weighted6 e d t l ng vc"
  unfolding weighted6_def by (intro f64.nonneg add_nonneg_nonneg mult_nonneg_nonneg) simp_all

lemma weighted4_mono_len: "l \<le> l' \<Longrightarrow> weighted4 e d t l \<le> weighted4 e d t l'"
  unfolding weighted4_def by (intro f64.mono add_left_mono mult_right_mono) (simp_all add: f64.nonneg)

lemma len_score_lower: "hi' \<le> hi \<Longrightarrow> lo' \<le> lo \<Longrightarrow> lo \<le> hi \<Longrightarrow> len_score hi lo len \<le> len_score hi' lo' len"
  by (simp add: len_score_def)

lemma original_le_lowlen:
  assumes "length domain < 2 ^ 63"
  shows "\<exists>a b. dga_score_original domain = Inr a \<and> dga_score_lowlen domain = Inr b \<and> 0 \<le> a \<and> a \<le> b"
proof -
  let ?s = "sld_of domain"
  have "length (py_rstrip (\<lambda>c. c = CHR ''.'') domain) \<le> length domain"
    using length_dropWhile_le [of "\<lambda>c. c = CHR ''.''" "rev domain"] by (simp add: py_rstrip_def)
  then have len: "length ?s < 2 ^ 63"
    using assms length_takeWhile_le [of "\<lambda>c. c \<noteq> CHR ''.''" "py_rstrip (\<lambda>c. c = CHR ''.'') domain"]
    by (simp add: sld_of_def first_label_takeWhile)
  obtain e where e: "entropy_norm (tally_of ?s) = Inr e" "0 \<le> e" using entropy_norm_ok [OF len] by blast
  obtain tr where tr: "transition_score (tally_of ?s) (length ?s) = Inr tr" "0 \<le> tr" using transition_score_ok by blast
  show ?thesis
  proof (cases "length ?s < 5 \<or> total (tally_of ?s) < 2")
    case False
    then have "0 < length ?s" by linarith
    then obtain d where "true_div (of_nat (digits_seen (tally_of ?s))) (of_nat (length ?s)) = Inr d" "0 \<le> d"
      using digit_ratio_ok by blast
    then show ?thesis
      using e tr False len_score_unit [of 20 12 "length ?s"]
      by (simp add: dga_score_original_def dga_score_lowlen_def Let_def weighted4_nonneg weighted4_mono_len len_score_lower)
  qed (auto simp: dga_score_original_def dga_score_lowlen_def Let_def)
qed

section \<open>What the scores depend on\<close>

lemma rstrip_dots_lower:
  "py_rstrip (\<lambda>c. c = CHR ''.'') (py_lower s) = py_lower (py_rstrip (\<lambda>c. c = CHR ''.'') s)"
  by (rule py_rstrip_lower) (simp add: lower_char_dot)

lemma sld_of_lower: "sld_of (py_lower d) = sld_of d"
  by (simp add: sld_of_def rstrip_dots_lower first_label_lower)

lemma ngram_score_lower: "ngram_score_domain model (py_lower d) = ngram_score_domain model d"
  by (simp add: ngram_score_domain_def label_letters_def py_strip_lower first_label_lower)

lemma vowel_cons_lower: "vowel_cons_score (py_lower d) = vowel_cons_score d"
  by (simp add: vowel_cons_score_def py_strip_lower first_label_lower)

lemma dga_score_lower: "dga_score model lr (py_lower d) = dga_score model lr d"
  by (simp add: dga_score_def Let_def rstrip_dots_lower first_label_lower ngram_score_lower vowel_cons_lower)

lemma rstrip_dots_append:
  "py_rstrip (\<lambda>c. c = CHR ''.'') (d @ replicate n (CHR ''.'')) = py_rstrip (\<lambda>c. c = CHR ''.'') d"
  by (induction n) (simp_all add: py_rstrip_def replicate_append_same)

text \<open>Stripping dots at the end leaves the first label alone.\<close>

lemma py_rstrip_decomp: "\<exists>t. s = py_rstrip p s @ t \<and> list_all p t"
proof -
  have "s = rev (dropWhile p (rev s)) @ rev (takeWhile p (rev s))"
    by (metis rev_append rev_rev_ident takeWhile_dropWhile_id)
  moreover have "list_all p (rev (takeWhile p (rev s)))"
    by (auto simp: list_all_iff dest: set_takeWhileD)
  ultimately show ?thesis unfolding py_rstrip_def by blast
qed

lemma first_label_rstrip: "first_label (py_rstrip (\<lambda>c. c = CHR ''.'') s) = first_label s"
proof -
  obtain t where "s = py_rstrip (\<lambda>c. c = CHR ''.'') s @ t" "list_all (\<lambda>c. c = CHR ''.'') t"
    using py_rstrip_decomp by blast
  moreover from this(2) have "takeWhile (\<lambda>c. c \<noteq> CHR ''.'') (a @ t) = takeWhile (\<lambda>c. c \<noteq> CHR ''.'') a" for a
    by (cases t) (auto simp: takeWhile_append takeWhile_eq_all_conv [THEN iffD2])
  ultimately show ?thesis unfolding first_label_takeWhile by metis
qed

lemma sld_of_first_label: "sld_of d = py_lower (first_label d)"
  by (simp add: sld_of_def first_label_rstrip)

lemma filter_takeWhile_dropWhile:
  assumes "\<And>c. sp c \<Longrightarrow> \<not> p c \<and> q c"
  shows "filter p (takeWhile q (dropWhile sp s)) = filter p (takeWhile q s)"
  using assms by (induction s) auto

lemma filter_takeWhile_rstrip:
  assumes "\<And>c. sp c \<Longrightarrow> \<not> p c \<and> q c"
  shows "filter p (takeWhile q (py_rstrip sp s)) = filter p (takeWhile q s)"
proof -
  obtain t where t: "s = py_rstrip sp s @ t" "list_all sp t" using py_rstrip_decomp by blast
  have "filter p (takeWhile q t) = []"
    using t(2) assms by (auto simp: list_all_iff filter_empty_conv dest!: set_takeWhileD)
  then have "filter p (takeWhile q (a @ t)) = filter p (takeWhile q a)" for a
    by (induction a) auto
  then show ?thesis using t(1) by metis
qed

lemma space_not_letter: "is_space c \<Longrightarrow> \<not> is_az (lower_char c) \<and> c \<noteq> CHR ''.''"
  by (auto simp: is_space_def is_az_def lower_char_def split: if_splits)

lemma label_letters_first_label: "label_letters d = filter is_az (py_lower (first_label d))"
  using filter_takeWhile_rstrip [of is_space "is_az \<circ> lower_char" "\<lambda>c. c \<noteq> CHR ''.''"]
    filter_takeWhile_dropWhile [of is_space "is_az \<circ> lower_char" "\<lambda>c. c \<noteq> CHR ''.''" d] space_not_letter
  by (simp add: label_letters_def py_lower_def filter_map first_label_takeWhile py_strip_def py_lstrip_def o_def)

lemma vc_of_letters: "vc_of s = vc_of (filter is_az s)"
proof -
  have "foldl vc_char t s = foldl vc_char t (filter is_az s)" for t
    by (induction s arbitrary: t) (simp_all add: vc_char_def)
  then show ?thesis by (simp add: vc_of_def)
qed

text \<open>Two domains with the same first label get the same scores.\<close>

lemma ngram_score_label: "first_label d = first_label d' \<Longrightarrow> ngram_score_domain model d = ngram_score_domain model d'"
  by (simp add: ngram_score_domain_def label_letters_first_label)

lemma vowel_cons_label:
  assumes "first_label d = first_label d'"
  shows "vowel_cons_score d = vowel_cons_score d'"
proof -
  have "vc_of (py_lower (first_label (py_strip x))) = vc_of (filter is_az (py_lower (first_label x)))" for x
    using vc_of_letters label_letters_first_label by (metis label_letters_def)
  then show ?thesis using assms by (simp add: vowel_cons_score_def)
qed

lemma dga_score_label:
  assumes "first_label d = first_label d'"
  shows "dga_score model lr d = dga_score model lr d'"
proof -
  let ?r = "py_rstrip (\<lambda>c. c = CHR ''.'')"
  have "first_label (?r d) = first_label (?r d')" using assms by (simp add: first_label_rstrip)
  then show ?thesis
    using ngram_score_label [of "?r d" "?r d'" model] vowel_cons_label [of "?r d" "?r d'"]
    by (simp add: dga_score_def Let_def)
qed

lemma first_label_append: "CHR ''.'' \<notin> set l \<Longrightarrow> first_label (l @ CHR ''.'' # rest) = l"
  by (simp add: first_label_takeWhile takeWhile_append)

lemma first_label_no_dot: "CHR ''.'' \<notin> set l \<Longrightarrow> first_label l = l"
  by (auto simp: first_label_takeWhile takeWhile_eq_all_conv)

lemma score_short_label: "length (first_label d) < 5 \<Longrightarrow> dga_score model lr d = Inr 0"
  by (simp add: dga_score_def first_label_rstrip)

section \<open>The full score\<close>

text \<open>The five features of a domain that is scored.\<close>

lemma features_ok:
  assumes "length (first_label d) < 2 ^ 63" and "5 \<le> length (first_label d)"
  defines "s \<equiv> py_lower (first_label d)" and "r \<equiv> py_rstrip (\<lambda>c. c = CHR ''.'') d"
  obtains e dr tr ng vc where "entropy_norm (tally_of s) = Inr e" and "0 \<le> e"
    and "true_div (of_nat (digits_seen (tally_of s))) (of_nat (length s)) = Inr dr" and "0 \<le> dr" and "dr \<le> 1"
    and "transition_score (tally_of s) (length s) = Inr tr" and "0 \<le> tr" and "tr \<le> 1"
    and "ngram_score_domain model r = Inr ng" and "0 \<le> ng" and "ng \<le> 1"
    and "vowel_cons_score r = Inr vc" and "0 \<le> vc"
proof -
  have len: "length s < 2 ^ 63" "0 < length s" using assms(1,2) by (auto simp: s_def)
  show thesis
    using that entropy_norm_ok [OF len(1)] digit_ratio_ok [OF len(2)] transition_score_ok [of s] ngram_score_ok [of model r]
      vowel_cons_ok [of r] by blast
qed

text \<open>The linear part of the logistic regression.\<close>

definition logit :: "real list \<Rightarrow> real list \<Rightarrow> real" where
  "logit coeffs features =
     foldl (\<lambda>s i. fl (s + fl (coeffs ! i * features ! i))) (coeffs ! 5) [0..<5]"

lemma lr_sum_short:
  assumes "length coeffs < 6"
  shows "lr_sum coeffs fs = Inl IndexError"
proof -
  have "foldl (\<lambda>r i. rbind r (f i)) (Inl x) is = Inl x" for f :: "nat \<Rightarrow> real \<Rightarrow> real result" and x "is"
    by (induction "is") simp_all
  moreover have "py_get coeffs 5 = Inl IndexError" using assms by (simp add: py_get_def)
  ultimately show ?thesis by (simp add: lr_sum_def)
qed

lemma lr_sum_logit:
  assumes "6 \<le> length coeffs" and "length fs = 5"
  shows "lr_sum coeffs fs = Inr (logit coeffs fs)"
proof -
  have c: "py_get coeffs (int i) = Inr (coeffs ! i)" if "i \<le> 5" for i
    using that assms(1) py_get_nth [of "int i" coeffs] by simp
  have f: "py_get fs (int i) = Inr (fs ! i)" if "i < 5" for i
    using that assms(2) py_get_nth [of "int i" fs] by simp
  have "foldl (\<lambda>r i. rbind r (\<lambda>s. rbind (py_get coeffs (int i)) (\<lambda>c. rbind (py_get fs (int i)) (\<lambda>f. Inr (fl (s + fl (c * f)))))))
      (Inr x) is = Inr (foldl (\<lambda>s i. fl (s + fl (coeffs ! i * fs ! i))) x is)" if "\<forall>i \<in> set is. i < 5" for x "is"
    using that by (induction "is" arbitrary: x) (simp_all add: c f)
  then show ?thesis using c [of 5] by (simp add: lr_sum_def logit_def del: upt_Suc upt_rec_numeral)
qed

lemma lr_score_result:
  assumes "length fs = 5"
  shows "lr_score (Some coeffs) fs =
    (if length coeffs < 6 then Inl IndexError
     else if 2 ^ 1024 \<le> fl (exp (- logit coeffs fs)) then Inl OverflowError
     else Inr (Some (fl (1 / fl (1 + fl (exp (- logit coeffs fs)))))))"
proof (cases "length coeffs < 6")
  case False
  have "0 \<le> fl (exp x)" for x by (simp add: f64.nonneg)
  then have "1 \<le> fl (1 + fl (exp x))" for x using f64.mono [of 1 "1 + fl (exp x)"] by simp
  then have "fl (1 + fl (exp x)) \<noteq> 0" for x by (metis not_one_le_zero)
  then show ?thesis using False assms by (simp add: lr_score_def lr_sum_logit py_exp_def true_div_def)
qed (simp add: lr_score_def lr_sum_short)

lemma logistic_unit: "0 \<le> fl (1 / fl (1 + fl (exp x))) \<and> fl (1 / fl (1 + fl (exp x))) \<le> 1"
proof -
  have "0 \<le> fl (exp x)" by (simp add: f64.nonneg)
  then have "1 \<le> fl (1 + fl (exp x))" using f64.mono [of 1 "1 + fl (exp x)"] by simp
  then show ?thesis by (auto intro!: f64.nonneg f64.le_one)
qed

lemma dga_score_unscored:
  "length (first_label d) < 5 \<or> total (tally_of (py_lower (first_label d))) < 2 \<Longrightarrow> dga_score model lr d = Inr 0"
  by (auto simp: dga_score_def Let_def first_label_rstrip)

text \<open>Four of the five features that the regression gets (the fifth is the length score), and their ranges.\<close>

definition has_features :: "ngram_model \<Rightarrow> string \<Rightarrow> real \<Rightarrow> real \<Rightarrow> real \<Rightarrow> real \<Rightarrow> bool" where
  "has_features model d e dr tr ng \<longleftrightarrow>
     entropy_norm (tally_of (py_lower (first_label d))) = Inr e \<and> 0 \<le> e \<and>
     true_div (of_nat (digits_seen (tally_of (py_lower (first_label d))))) (of_nat (length (first_label d))) = Inr dr \<and>
     0 \<le> dr \<and> dr \<le> 1 \<and>
     transition_score (tally_of (py_lower (first_label d))) (length (first_label d)) = Inr tr \<and> 0 \<le> tr \<and> tr \<le> 1 \<and>
     ngram_score_domain model d = Inr ng \<and> 0 \<le> ng \<and> ng \<le> 1"

lemma dga_score_scored:
  assumes "length (first_label d) < 2 ^ 63" and "5 \<le> length (first_label d)" and "2 \<le> total (tally_of (py_lower (first_label d)))"
  obtains e dr tr ng s where "has_features model d e dr tr ng" and "dga_score model None d = Inr s" and "0 \<le> s"
    and "\<And>coeffs. dga_score model (Some coeffs) d =
         rbind (lr_score (Some coeffs) [e, dr, tr, len_score 20 12 (length (first_label d)), ng]) (\<lambda>prob.
           case prob of Some p \<Rightarrow> Inr p | None \<Rightarrow> dga_score model None d)"
proof -
  obtain e dr tr ng vc where f: "entropy_norm (tally_of (py_lower (first_label d))) = Inr e" "0 \<le> e"
    "true_div (of_nat (digits_seen (tally_of (py_lower (first_label d))))) (of_nat (length (py_lower (first_label d)))) = Inr dr" "0 \<le> dr" "dr \<le> 1"
    "transition_score (tally_of (py_lower (first_label d))) (length (py_lower (first_label d))) = Inr tr" "0 \<le> tr" "tr \<le> 1"
    "ngram_score_domain model (py_rstrip (\<lambda>c. c = CHR ''.'') d) = Inr ng" "0 \<le> ng" "ng \<le> 1"
    "vowel_cons_score (py_rstrip (\<lambda>c. c = CHR ''.'') d) = Inr vc" "0 \<le> vc"
    using features_ok [OF assms(1,2), of model] by blast
  have none: "dga_score model None d = Inr (weighted6 e dr tr (len_score 20 12 (length (first_label d))) ng vc)"
    using f assms(2,3) by (simp add: dga_score_def Let_def first_label_rstrip)
  have some: "dga_score model (Some coeffs) d =
      rbind (lr_score (Some coeffs) [e, dr, tr, len_score 20 12 (length (first_label d)), ng]) (\<lambda>prob.
        case prob of Some p \<Rightarrow> Inr p | None \<Rightarrow> dga_score model None d)" for coeffs
    using f assms(2,3) none by (simp add: dga_score_def Let_def first_label_rstrip)
  have "ngram_score_domain model d = Inr ng"
    using f(9) ngram_score_label [of d "py_rstrip (\<lambda>c. c = CHR ''.'') d" model] by (simp add: first_label_rstrip)
  then have "has_features model d e dr tr ng" using f by (simp add: has_features_def)
  moreover have "0 \<le> weighted6 e dr tr (len_score 20 12 (length (first_label d))) ng vc"
    using f len_score_unit [of 20 12 "length (first_label d)"] by (intro weighted6_nonneg) blast+
  ultimately show thesis by (rule that [OF _ none _ some])
qed

text \<open>Without six coefficients, every domain that gets as far as the features raises IndexError.\<close>

lemma dga_score_short_coeffs:
  assumes "length coeffs < 6" and "5 \<le> length (first_label d)" and "2 \<le> total (tally_of (sld_of d))"
    and "length (first_label d) < 2 ^ 63"
  shows "dga_score model (Some coeffs) d = Inl IndexError"
proof -
  have "2 \<le> total (tally_of (py_lower (first_label d)))" using assms(3) by (simp add: sld_of_first_label)
  from dga_score_scored [OF assms(4,2) this, of model] obtain e dr tr ng where
    "dga_score model (Some coeffs) d =
       rbind (lr_score (Some coeffs) [e, dr, tr, len_score 20 12 (length (first_label d)), ng]) (\<lambda>prob.
         case prob of Some p \<Rightarrow> Inr p | None \<Rightarrow> dga_score model None d)" by metis
  then show ?thesis using assms(1) by (simp add: lr_score_result)
qed

text \<open>What the other statistics count: letters, digits, and the changes between the two kinds.\<close>

definition kind_change :: "char \<times> char \<Rightarrow> bool" where
  "kind_change p \<longleftrightarrow> is_az (fst p) \<and> is_digit (snd p) \<or> is_digit (fst p) \<and> is_az (snd p)"

definition neighbours :: "string \<Rightarrow> (char \<times> char) list" where
  "neighbours s = zip s (tl s)"

lemma neighbours_snoc: "neighbours (s @ [c]) = (if s = [] then [] else neighbours s @ [(last s, c)])"
  unfolding neighbours_def by (induction s rule: induct_list012) auto

lemma neighbours_Nil [simp]: "neighbours [] = []"
  by (simp add: neighbours_def)

definition kind :: "char \<Rightarrow> nat" where
  "kind c = (if is_az c then 1 else if is_digit c then 2 else 0)"

lemma tally_of_snoc: "tally_of (s @ [c]) = tally_char (tally_of s) c"
  by (simp add: tally_of_def)

lemma prev_type_last: "prev_type (tally_of s) = (if s = [] then 0 else kind (last s))"
  by (cases s rule: rev_cases)
    (auto simp: tally_of_snoc tally_char_def kind_def Let_def tally_of_def tally_start_def)

lemma tally_counters:
  "letters (tally_of s) = length (filter is_az s) \<and> digits_seen (tally_of s) = length (filter is_digit s) \<and>
   transitions (tally_of s) = length (filter kind_change (neighbours s))"
proof (induction s rule: rev_induct)
  case Nil
  then show ?case by (simp add: tally_of_def tally_start_def)
next
  case (snoc c s)
  have "kind_change (d, c) \<longleftrightarrow> kind d = 1 \<and> kind c = 2 \<or> kind d = 2 \<and> kind c = 1" for d
    using az_not_digit [of c] az_not_digit [of d] by (auto simp: kind_change_def kind_def)
  with snoc show ?case
    using prev_type_last [of s] az_not_digit [of c]
    by (auto simp: tally_of_snoc neighbours_snoc tally_char_def Let_def kind_def)
qed

section \<open>Properties\<close>

text \<open>C24: The statistics of a label are right: one count per letter, each the number of its
  occurrences; the numbers of letters and of digits; and the transitions are the neighbouring pairs of a
  letter and a digit in either order, any other character in between interrupting them.\<close>

theorem tally_correct:
  "counts (tally_of s) = map (\<lambda>i. count_list s (chr (97 + int i))) [0..<26] \<and>
   letters (tally_of s) = length (filter is_az s) \<and> sum_list (counts (tally_of s)) = letters (tally_of s) \<and>
   digits_seen (tally_of s) = length (filter is_digit s) \<and>
   total (tally_of s) = letters (tally_of s) + digits_seen (tally_of s) \<and>
   transitions (tally_of s) = length (filter kind_change (neighbours s)) \<and>
   transitions (tally_of s) \<le> length s - 1"
proof -
  have "counts (tally_of s) ! i = count_list s (chr (97 + int i))" if "i < 26" for i
    using tally_counts [of "chr (97 + int i)" s] that by (simp add: is_az_def)
  then have "counts (tally_of s) = map (\<lambda>i. count_list s (chr (97 + int i))) [0..<26]"
    using tally_of_inv [of s] by (auto simp: tally_inv_def intro: nth_equalityI)
  then show ?thesis
    using tally_of_inv [of s] transitions_le [of s] tally_counters [of s] by (simp add: tally_inv_def)
qed

text \<open>C18: For every domain whose first label is no longer than a Python string can be, the full scorer never divides by zero and
  never takes the logarithm of zero. Without the coefficient file it returns a score, and it is not negative. With coefficients, a
  label of fewer than five characters, or with fewer than two letters and digits, scores 0; otherwise it raises
  IndexError exactly if coefficients are missing, OverflowError exactly if the exponential of the negated linear combination of
  the five features is too large for a float, and returns its logistic function, between 0 and 1, in all other cases.\<close>

theorem dga_score_result:
  assumes "length (first_label d) < 2 ^ 63"
  shows "(\<exists>s. dga_score model None d = Inr s \<and> 0 \<le> s) \<and>
   (if length (first_label d) < 5 \<or> total (tally_of (py_lower (first_label d))) < 2
    then dga_score model (Some coeffs) d = Inr 0
    else \<exists>e dr tr ng. has_features model d e dr tr ng \<and>
      dga_score model (Some coeffs) d =
        (if length coeffs < 6 then Inl IndexError
         else let x = logit coeffs [e, dr, tr, len_score 20 12 (length (first_label d)), ng] in
           if 2 ^ 1024 \<le> fl (exp (- x)) then Inl OverflowError else Inr (fl (1 / fl (1 + fl (exp (- x))))))) \<and>
   (case dga_score model (Some coeffs) d of Inl e \<Rightarrow> e = IndexError \<or> e = OverflowError | Inr p \<Rightarrow> 0 \<le> p \<and> p \<le> 1)"
proof (cases "length (first_label d) < 5 \<or> total (tally_of (py_lower (first_label d))) < 2")
  case True
  then show ?thesis using dga_score_unscored [OF True] by simp
next
  case False
  then have "5 \<le> length (first_label d)" "2 \<le> total (tally_of (py_lower (first_label d)))" by simp_all
  from dga_score_scored [OF assms this, of model] obtain e dr tr ng s where
    f: "has_features model d e dr tr ng" and s: "dga_score model None d = Inr s" "0 \<le> s"
    and some: "dga_score model (Some coeffs) d =
       rbind (lr_score (Some coeffs) [e, dr, tr, len_score 20 12 (length (first_label d)), ng]) (\<lambda>prob.
         case prob of Some p \<Rightarrow> Inr p | None \<Rightarrow> dga_score model None d)" by metis
  let ?x = "logit coeffs [e, dr, tr, len_score 20 12 (length (first_label d)), ng]"
  have eq: "dga_score model (Some coeffs) d =
      (if length coeffs < 6 then Inl IndexError
       else if 2 ^ 1024 \<le> fl (exp (- ?x)) then Inl OverflowError else Inr (fl (1 / fl (1 + fl (exp (- ?x))))))"
    unfolding some by (simp add: lr_score_result)
  have "case dga_score model (Some coeffs) d of Inl e \<Rightarrow> e = IndexError \<or> e = OverflowError | Inr p \<Rightarrow> 0 \<le> p \<and> p \<le> 1"
    unfolding eq using logistic_unit [of "- ?x"] by simp
  moreover have "\<exists>e dr tr ng. has_features model d e dr tr ng \<and>
      dga_score model (Some coeffs) d =
        (if length coeffs < 6 then Inl IndexError
         else let x = logit coeffs [e, dr, tr, len_score 20 12 (length (first_label d)), ng] in
           if 2 ^ 1024 \<le> fl (exp (- x)) then Inl OverflowError else Inr (fl (1 / fl (1 + fl (exp (- x))))))"
    unfolding Let_def by (rule exI [of _ e], rule exI [of _ dr], rule exI [of _ tr], rule exI [of _ ng], rule conjI [OF f eq])
  moreover have "\<exists>s. dga_score model None d = Inr s \<and> 0 \<le> s" using s by blast
  ultimately show ?thesis using False by (simp only: if_False simp_thms)
qed

theorem dga_score_result_witness:
  "(\<exists>s. dga_score [] None ''google1.com'' = Inr s \<and> 0 \<le> s) \<and>
   (case dga_score [] (Some [0, 0, 0, 0, 0, 0]) ''google1.com'' of
      Inl e \<Rightarrow> e = IndexError \<or> e = OverflowError | Inr p \<Rightarrow> 0 \<le> p \<and> p \<le> 1)"
proof -
  have "first_label ''google1.com'' = ''google1''" by code_simp
  then have "length (first_label ''google1.com'') < 2 ^ 63" by simp
  from dga_score_result [OF this, of "[]" "[0, 0, 0, 0, 0, 0]"] show ?thesis by (elim conjE) (intro conjI)
qed

text \<open>The three scorers look at nothing but the lower-cased first label: letter case, trailing dots
  and all later labels (hence the registered domain and the top-level domain) are ignored.\<close>

lemma scores_first_label_only:
  "dga_score model lr d = dga_score model lr (py_lower (first_label d)) \<and>
   dga_score_original d = dga_score_original (py_lower (first_label d)) \<and>
   dga_score_lowlen d = dga_score_lowlen (py_lower (first_label d))"
proof -
  have "first_label (first_label d) = first_label d"
    by (rule first_label_no_dot) (auto simp: first_label_takeWhile dest: set_takeWhileD)
  then show ?thesis
    using dga_score_label [of d "first_label d" model lr]
    by (simp add: dga_score_lower dga_score_original_def dga_score_lowlen_def sld_of_lower)
      (simp add: sld_of_first_label)
qed

text \<open>The 4-gram score and the vowel/consonant score, computed in floating point, lie between 0 and 1
  for every model and every domain.\<close>

lemma language_scores_unit:
  "\<exists>ng vc. ngram_score_domain model domain = Inr ng \<and> vowel_cons_score domain = Inr vc \<and>
    0 \<le> ng \<and> ng \<le> 1 \<and> 0 \<le> vc \<and> vc \<le> 1"
  using ngram_score_ok vowel_cons_ok by blast

text \<open>Lowering the length thresholds never lowers a score, and neither variant is ever negative: \<open>original_le_lowlen\<close>.\<close>

end
