(* ===== verification/Metrics.thy ===== *)
theory Metrics
  imports DGA_Score
begin

text \<open>
  \<open>compute_metrics.py\<close>: false positive and detection rates of the scorers over a range of thresholds,
  from the CSV files the scorers print. The lemmas show that the rates are percentages, that raising
  the threshold never raises them, and that reading a printed score file gives back the scores to four
  decimal places.
\<close>

section \<open>Reading scores\<close>

definition dec_value :: "string \<Rightarrow> nat" where
  "dec_value ds = foldl (\<lambda>a c. a * 10 + nat (ord c - 48)) 0 ds"

definition parse_sign :: "string \<Rightarrow> bool \<times> string" where
  "parse_sign s =
     (case s of c # r \<Rightarrow> if c = CHR ''-'' then (True, r) else if c = CHR ''+'' then (False, r) else (False, s)
      | [] \<Rightarrow> (False, s))"

definition parse_exponent :: "string \<Rightarrow> int result" where
  "parse_exponent s =
     (case s of [] \<Rightarrow> Inr 0
      | c # r \<Rightarrow>
          if c = CHR ''e'' \<or> c = CHR ''E'' then
            let (neg, ds) = parse_sign r in
            if ds \<noteq> [] \<and> list_all is_digit ds then
              Inr (if neg then - int (dec_value ds) else int (dec_value ds))
            else Inl ValueError
          else Inl ValueError)"

text \<open>\<open>int(s)\<close> on decimal text.\<close>

definition py_int :: "string \<Rightarrow> int result" where
  "py_int s0 =
     (let (neg, s) = parse_sign (py_strip s0) in
      if s \<noteq> [] \<and> list_all is_digit s then Inr (if neg then - int (dec_value s) else int (dec_value s))
      else Inl ValueError)"

text \<open>
  \<open>float(s)\<close> on decimal literals: surrounding white space, a sign, digits with an optional point, an
  optional exponent. The spellings of infinity and NaN and digit separators are not modelled: no score
  file has them.
\<close>

definition py_float :: "string \<Rightarrow> real result" where
  "py_float s0 =
     (let (neg, s) = parse_sign (py_strip s0);
          ip = takeWhile is_digit s; r = dropWhile is_digit s;
          (fp, r2) = (if r \<noteq> [] \<and> hd r = CHR ''.'' then (takeWhile is_digit (tl r), dropWhile is_digit (tl r)) else ([], r))
      in if ip @ fp = [] then Inl ValueError
         else rbind (parse_exponent r2) (\<lambda>e.
           let v = of_nat (dec_value (ip @ fp)) * 10 powi (e - int (length fp))
           in Inr (fl (if neg then - v else v))))"

fun load_scores :: "string list \<Rightarrow> real list result" where
  "load_scores [] = Inr []"
| "load_scores (line # ls) =
     (let parts = py_split CHR '','' (py_strip line) in
      if length parts = 2 then
        rbind (py_float (parts ! 1)) (\<lambda>x. rbind (load_scores ls) (\<lambda>xs. Inr (x # xs)))
      else load_scores ls)"

section \<open>The rates\<close>

definition thresholds :: "(string \<times> real) list" where
  "thresholds =
     map (\<lambda>i. (''0.'' @ py_str (int i), fl (of_nat i / 10))) [1..<10]"

definition blocked :: "real \<Rightarrow> real list \<Rightarrow> nat" where
  "blocked th scores = sum_list (map (\<lambda>s. if th < s then 1 else 0) scores)"

definition rate :: "real \<Rightarrow> real list \<Rightarrow> real result" where
  "rate th scores =
     (if scores \<noteq> [] then rbind (true_div (of_nat (blocked th scores)) (of_nat (length scores))) (\<lambda>q. Inr (fl (q * 100)))
      else Inr 0)"

definition metrics_line :: "real list \<Rightarrow> real list \<Rightarrow> string \<times> real \<Rightarrow> string result" where
  "metrics_line benign dga t =
     (case t of (name, th) \<Rightarrow>
       rbind (rate th benign) (\<lambda>fpr. rbind (rate th dga) (\<lambda>dr.
       Inr (name @ '','' @ py_str (int (blocked th benign)) @ '','' @ py_str (int (length benign)) @ '','' @
         format_f 2 fpr @ '','' @ py_str (int (blocked th dga)) @ '','' @
         py_str (int (length dga)) @ '','' @ format_f 2 dr))))"

definition compute_metrics :: "string list \<Rightarrow> string list \<Rightarrow> string list result" where
  "compute_metrics benign_file dga_file =
     rbind (load_scores benign_file) (\<lambda>benign. rbind (load_scores dga_file) (\<lambda>dga.
     rbind (rmap (metrics_line benign dga) thresholds) (\<lambda>ls.
       Inr (''Threshold,Benign_Blocked,Benign_Total,FPR(%),DGA_Blocked,DGA_Total,DR(%)'' # ls))))"

lemma blocked_filter: "blocked th scores = length (filter (\<lambda>s. th < s) scores)"
  by (induction scores) (auto simp: blocked_def)

lemma blocked_le: "blocked th scores \<le> length scores"
  by (simp add: blocked_filter)

lemma blocked_antimono: "th \<le> th' \<Longrightarrow> blocked th' scores \<le> blocked th scores"
  by (induction scores) (auto simp: blocked_def)

text \<open>No rate raises; the value of each.\<close>

definition rate_value :: "real \<Rightarrow> real list \<Rightarrow> real" where
  "rate_value th scores = fl (fl (of_nat (blocked th scores) / of_nat (length scores)) * 100)"

lemma rate_eq: "rate th scores = Inr (rate_value th scores)"
  by (simp add: rate_def rate_value_def true_div_def)

lemma rate_bounds: "0 \<le> rate_value th scores" "rate_value th scores \<le> 100"
proof -
  have u: "0 \<le> fl (of_nat (blocked th scores) / of_nat (length scores))"
      "fl (of_nat (blocked th scores) / of_nat (length scores)) \<le> 1"
    using f64.quotient_unit [of "of_nat (blocked th scores)" "of_nat (length scores)"] blocked_le by simp_all
  then show "0 \<le> rate_value th scores" by (simp add: rate_value_def f64.nonneg)
  show "rate_value th scores \<le> 100"
    using u f64.le_int [of 100] by (simp add: rate_value_def)
qed

lemma rate_antimono: "th \<le> th' \<Longrightarrow> rate_value th' scores \<le> rate_value th scores"
  unfolding rate_value_def using blocked_antimono
  by (intro f64.mono mult_right_mono divide_right_mono) simp_all

lemma thresholds_sorted: "sorted_wrt (\<lambda>s t. snd s \<le> snd t) thresholds"
proof -
  have "sorted_wrt (\<lambda>i j. fl (of_nat i / 10) \<le> fl (of_nat j / 10)) [1..<10]"
    by (rule sorted_wrt_mono_rel [of _ "(<)"]) (simp_all add: f64.mono)
  then show ?thesis by (simp add: thresholds_def sorted_wrt_map)
qed

lemma rates_sorted: "sorted_wrt (\<ge>) (map (\<lambda>t. rate_value (snd t) scores) thresholds)"
  unfolding sorted_wrt_map
  by (rule sorted_wrt_mono_rel [OF _ thresholds_sorted]) (simp add: rate_antimono)

section \<open>Printed scores read back\<close>

lemma hexdigit_digit: "d < 10 \<Longrightarrow> is_digit (hexdigit d) \<and> ord (hexdigit d) = 48 + int d"
proof -
  have "list_all (\<lambda>d. is_digit (hexdigit d) \<and> ord (hexdigit d) = 48 + int d) [0..<10]" by code_simp
  then show "d < 10 \<Longrightarrow> is_digit (hexdigit d) \<and> ord (hexdigit d) = 48 + int d" by (auto simp: list_all_iff)
qed

lemma py_str_digits: "list_all is_digit (py_str (int n))"
  using digits_less [of 10 n] hexdigit_digit by (auto simp: py_str_def list_all_iff)

lemma py_str_not_Nil: "py_str (int n) \<noteq> []"
  by (simp add: py_str_def)

lemma dec_value_foldl: "foldl (\<lambda>a c. a * 10 + nat (ord c - 48)) a ds = a * 10 ^ length ds + dec_value ds"
proof (induction ds arbitrary: a)
  case (Cons c ds)
  have "dec_value (c # ds) = nat (ord c - 48) * 10 ^ length ds + dec_value ds"
    using Cons.IH [of "nat (ord c - 48)"] by (simp add: dec_value_def)
  then show ?case using Cons.IH [of "a * 10 + nat (ord c - 48)"] by (simp add: algebra_simps)
qed (simp add: dec_value_def)

lemma dec_value_append: "dec_value (a @ b) = dec_value a * 10 ^ length b + dec_value b"
  using dec_value_foldl [of "dec_value a" b] by (simp add: dec_value_def)

lemma dec_value_less: "list_all is_digit w \<Longrightarrow> dec_value w < 10 ^ length w"
proof (induction w rule: rev_induct)
  case (snoc c w)
  have "nat (ord c - 48) < 10" using snoc.prems by (auto simp: is_digit_def)
  then show ?case
    using snoc dec_value_append [of w "[c]"] by (simp add: dec_value_def)
qed (simp add: dec_value_def)

lemma dec_value_py_str: "dec_value (py_str (int n)) = n"
proof -
  have "foldl (\<lambda>a c. a * 10 + nat (ord c - 48)) a (map hexdigit ds) = foldl (\<lambda>a d. a * 10 + d) a ds"
    if "list_all (\<lambda>d. d < 10) ds" for a ds
    using that hexdigit_digit by (induction ds arbitrary: a) simp_all
  then show ?thesis
    using digits_less [of 10 n] digits_value [of 10 n] by (simp add: dec_value_def py_str_def)
qed

lemma length_py_str: "n < 10 ^ k \<Longrightarrow> 0 < k \<Longrightarrow> length (py_str (int n)) \<le> k"
  using length_digits [of 10 n k] by (simp add: py_str_def)

lemma pad_zeros_facts:
  assumes "n < 10 ^ k" and "0 < k"
  shows "length (pad_zeros k (py_str (int n))) = k" "dec_value (pad_zeros k (py_str (int n))) = n"
    "list_all is_digit (pad_zeros k (py_str (int n)))"
proof -
  have "dec_value (replicate j (CHR ''0'')) = 0" for j
  proof (induction j)
    case (Suc j)
    have "nat (ord (CHR ''0'') - 48) = 0" by code_simp
    then show ?case using Suc dec_value_append [of "''0''" "replicate j (CHR ''0'')"] by (simp add: dec_value_def)
  qed (simp add: dec_value_def)
  then show "dec_value (pad_zeros k (py_str (int n))) = n"
    by (simp add: pad_zeros_def dec_value_append dec_value_py_str)
  show "length (pad_zeros k (py_str (int n))) = k"
    using length_py_str [OF assms] by (simp add: pad_zeros_def)
  have "is_digit (CHR ''0'')" by code_simp
  then show "list_all is_digit (pad_zeros k (py_str (int n)))"
    using py_str_digits [of n] by (auto simp: pad_zeros_def list_all_iff)
qed

lemma takeWhile_digits: "list_all is_digit ds \<Longrightarrow> takeWhile is_digit (ds @ CHR ''.'' # r) = ds"
  and dropWhile_digits: "list_all is_digit ds \<Longrightarrow> dropWhile is_digit (ds @ CHR ''.'' # r) = CHR ''.'' # r"
proof -
  have "\<not> is_digit (CHR ''.'')" by (simp add: is_digit_def)
  then show "list_all is_digit ds \<Longrightarrow> takeWhile is_digit (ds @ CHR ''.'' # r) = ds"
    "list_all is_digit ds \<Longrightarrow> dropWhile is_digit (ds @ CHR ''.'' # r) = CHR ''.'' # r"
    by (induction ds) auto
qed

lemma digit_not_special: "is_digit c \<Longrightarrow> c \<noteq> CHR ''-'' \<and> c \<noteq> CHR ''+'' \<and> c \<noteq> CHR '','' \<and> \<not> is_space c"
proof -
  have "ord (CHR ''-'') = 45" "ord (CHR ''+'') = 43" "ord (CHR '','') = 44" by code_simp+
  then show "is_digit c \<Longrightarrow> c \<noteq> CHR ''-'' \<and> c \<noteq> CHR ''+'' \<and> c \<noteq> CHR '','' \<and> \<not> is_space c"
    by (auto simp: is_digit_def is_space_def)
qed

lemma py_strip_id: "s \<noteq> [] \<Longrightarrow> \<not> is_space (hd s) \<Longrightarrow> \<not> is_space (last s) \<Longrightarrow> py_strip s = s"
proof -
  assume s: "s \<noteq> []" "\<not> is_space (hd s)" "\<not> is_space (last s)"
  then have "dropWhile is_space s = s" by (cases s) auto
  moreover have "dropWhile is_space (rev s) = rev s"
    using s by (cases "rev s") (auto simp: last_rev hd_rev [symmetric])
  ultimately show ?thesis by (simp add: py_strip_def py_lstrip_def py_rstrip_def)
qed

lemma py_strip_hd:
  assumes "py_strip d = d" and "d \<noteq> []"
  shows "\<not> is_space (hd d)"
proof
  assume "is_space (hd d)"
  with assms(2) obtain c d' where d: "d = c # d'" "is_space c" by (cases d) auto
  have "length (py_strip d) \<le> length d'"
    using length_dropWhile_le [of is_space "rev (dropWhile is_space d')"] length_dropWhile_le [of is_space d'] d
    by (simp add: py_strip_def py_lstrip_def py_rstrip_def)
  with assms(1) d show False by simp
qed

lemma py_float_decimal:
  assumes "list_all is_digit ip" and "ip \<noteq> []" and "list_all is_digit fp" and "fp \<noteq> []"
  shows "py_float (ip @ ''.'' @ fp) = Inr (fl (of_nat (dec_value (ip @ fp)) / 10 ^ length fp))"
proof -
  let ?s = "ip @ CHR ''.'' # fp"
  have hd_ip: "hd ip \<in> set ip" and last_fp: "last fp \<in> set fp" using assms(2,4) by simp_all
  have "py_strip ?s = ?s"
    using assms hd_ip last_fp digit_not_special by (intro py_strip_id) (auto simp: list_all_iff)
  moreover have "parse_sign ?s = (False, ?s)"
    using assms(1,2) digit_not_special by (cases ip) (auto simp: parse_sign_def)
  moreover have "takeWhile is_digit fp = fp" "dropWhile is_digit fp = []"
    using assms(3) by (simp_all add: list_all_iff takeWhile_eq_all_conv)
  ultimately show ?thesis
    using assms(2) by (simp add: py_float_def Let_def takeWhile_digits [OF assms(1)] dropWhile_digits [OF assms(1)]
        parse_exponent_def power_int_minus divide_inverse del: dropWhile_eq_Nil_conv takeWhile_eq_all_conv)
qed

lemma py_float_format:
  assumes "0 \<le> x" and "0 < k"
  shows "py_float (format_f k x) = Inr (fl (of_int (rne (x * 10 ^ k)) / 10 ^ k))"
proof -
  define n where "n = nat (rne (x * 10 ^ k))"
  have "0 \<le> rne (x * 10 ^ k)" using assms(1) rne_mono [of 0 "x * 10 ^ k"] rne_of_int [of 0] by simp
  then have n: "of_int (rne (x * 10 ^ k)) = (of_nat n :: real)" by (simp add: n_def)
  note p = pad_zeros_facts [of "n mod 10 ^ k" k, OF _ assms(2)]
  have "of_nat (n div 10 ^ k) * 10 ^ k + of_nat (n mod 10 ^ k) = (of_nat (n div 10 ^ k * 10 ^ k + n mod 10 ^ k) :: real)"
    by simp
  then have div: "of_nat (n div 10 ^ k) * 10 ^ k + of_nat (n mod 10 ^ k) = (of_nat n :: real)"
    by (simp only: div_mult_mod_eq)
  have "py_float (py_str (int (n div 10 ^ k)) @ ''.'' @ pad_zeros k (py_str (int (n mod 10 ^ k)))) =
      Inr (fl (of_nat n / 10 ^ k))"
    using p assms(2) by (subst py_float_decimal)
      (auto simp: py_str_digits py_str_not_Nil dec_value_append dec_value_py_str div)
  then show ?thesis using assms(1) by (simp add: format_f_def n_def [symmetric] n [symmetric] Let_def)
qed

text \<open>A line the scorers print is read back as the score to four places.\<close>

lemma py_split_two: "c \<notin> set a \<Longrightarrow> c \<notin> set b \<Longrightarrow> py_split c (a @ c # b) = [a, b]"
  by (simp add: py_split_append_sep py_split_no_sep)

lemma load_score_line:
  assumes "py_strip d = d" and "d \<noteq> []" and "CHR '','' \<notin> set d" and "0 \<le> x"
  shows "load_scores ((d @ '','' @ format_f 4 x) # ls) =
    rbind (load_scores ls) (\<lambda>xs. Inr (fl (of_int (rne (x * 10000)) / 10000) # xs))"
proof -
  let ?n = "nat (rne (x * 10000))"
  have f: "format_f 4 x = py_str (int (?n div 10000)) @ CHR ''.'' # pad_zeros 4 (py_str (int (?n mod 10000)))"
    using assms(4) by (simp add: format_f_def Let_def)
  note p = pad_zeros_facts [of "?n mod 10000" 4]
  have pd: "list_all is_digit (pad_zeros 4 (py_str (int (?n mod 10000))))" "pad_zeros 4 (py_str (int (?n mod 10000))) \<noteq> []"
    using p by (auto simp del: length_0_conv simp flip: length_0_conv)
  have comma: "CHR '','' \<notin> set (format_f 4 x)"
    using pd(1) py_str_digits [of "?n div 10000"] digit_not_special by (auto simp: f list_all_iff)
  have "\<not> is_space (last (format_f 4 x))"
    using pd digit_not_special by (auto simp: f list_all_iff)
  moreover have "\<not> is_space (hd d)" using py_strip_hd [OF assms(1,2)] .
  ultimately have "py_strip (d @ '','' @ format_f 4 x) = d @ '','' @ format_f 4 x"
    using assms(2) f by (intro py_strip_id) auto
  then show ?thesis
    using py_split_two [OF assms(3) comma] py_float_format [OF assms(4), of 4] by simp
qed

lemma py_strip_idem: "py_strip (py_strip s) = py_strip s"
proof (cases "py_strip s = []")
  case True
  have "py_strip [] = []" by (simp add: py_strip_def py_lstrip_def py_rstrip_def)
  with True show ?thesis by simp
next
  case False
  define u where "u = dropWhile is_space s"
  define v where "v = dropWhile is_space (rev u)"
  have ps: "py_strip s = rev v" by (simp add: py_strip_def py_lstrip_def py_rstrip_def u_def v_def)
  then have "v \<noteq> []" using False by simp
  then have "u \<noteq> []" by (auto simp: v_def)
  have "\<not> is_space (last (rev v))" using \<open>v \<noteq> []\<close> hd_dropWhile [of is_space "rev u"] by (simp add: v_def last_rev)
  moreover have "\<not> is_space (hd (rev v))"
  proof -
    obtain w where "rev u = w @ v" unfolding v_def by (metis takeWhile_dropWhile_id)
    then have "last (rev u) = last v" using \<open>v \<noteq> []\<close> by simp
    then have "hd (rev v) = hd u" using \<open>u \<noteq> []\<close> \<open>v \<noteq> []\<close> by (simp add: hd_rev last_rev)
    then show ?thesis using \<open>u \<noteq> []\<close> hd_dropWhile [of is_space s] by (simp add: u_def)
  qed
  ultimately show ?thesis unfolding ps using \<open>v \<noteq> []\<close> by (intro py_strip_id) simp_all
qed

lemma set_py_strip: "set (py_strip s) \<subseteq> set s"
  by (auto simp: py_strip_def py_lstrip_def py_rstrip_def dest!: set_dropWhileD)

lemma score_lines_load:
  assumes "list_all (\<lambda>line. CHR '','' \<notin> set line \<and> (\<exists>v. f (py_strip line) = Inr v \<and> 0 \<le> v)) ls"
  shows "snd (score_lines f ls) = None \<and>
    load_scores (fst (score_lines f ls)) =
      Inr (map (\<lambda>d. fl (of_int (rne (projr (f d) * 10000)) / 10000)) (filter (\<lambda>d. d \<noteq> []) (map py_strip ls)))"
  using assms
proof (induction ls)
  case (Cons line ls)
  have "CHR '','' \<notin> set (py_strip line)" using Cons.prems set_py_strip by auto
  moreover obtain v where "f (py_strip line) = Inr v" "0 \<le> v" using Cons.prems by auto
  ultimately show ?case
    using Cons load_score_line [OF py_strip_idem, of line v]
    by (simp add: Let_def case_prod_beta)
qed simp

section \<open>Properties\<close>

text \<open>Every rate is a percentage, and over the threshold table the rates only fall.\<close>

lemma rates_fall:
  "\<exists>rs. rmap (\<lambda>(name, th). rate th scores) thresholds = Inr rs \<and> list_all (\<lambda>r. 0 \<le> r \<and> r \<le> 100) rs \<and> sorted_wrt (\<ge>) rs"
proof -
  have "rmap (\<lambda>(name, th). rate th scores) thresholds = Inr (map (\<lambda>t. rate_value (snd t) scores) thresholds)"
    by (rule rmap_Inr) (auto simp: rate_eq)
  then show ?thesis using rates_sorted [of scores] rate_bounds by (auto simp: list_all_iff)
qed

text \<open>Reading the CSV that a scorer printed gives every score back, rounded to four decimal places, in
  the order of the domains, as long as no input line has a comma (and none is longer than a Python string can be).\<close>

lemma score_file_roundtrip:
  assumes "list_all (\<lambda>line. CHR '','' \<notin> set line \<and> length line < 2 ^ 63) ls"
  shows "snd (score_lines dga_score_original ls) = None \<and>
    load_scores (fst (score_lines dga_score_original ls)) =
      Inr (map (\<lambda>d. fl (of_int (rne (projr (dga_score_original d) * 10000)) / 10000))
        (filter (\<lambda>d. d \<noteq> []) (map py_strip ls)))"
proof (rule score_lines_load)
  have "\<exists>v. dga_score_original (py_strip line) = Inr v \<and> 0 \<le> v" if "length line < 2 ^ 63" for line
  proof -
    have "length (py_strip line) \<le> length line"
      using length_dropWhile_le [of is_space "rev (dropWhile is_space line)"] length_dropWhile_le [of is_space line]
      by (simp add: py_strip_def py_rstrip_def py_lstrip_def)
    then show ?thesis using original_le_lowlen [of "py_strip line"] that by auto
  qed
  then show "list_all (\<lambda>line. CHR '','' \<notin> set line \<and> (\<exists>v. dga_score_original (py_strip line) = Inr v \<and> 0 \<le> v)) ls"
    using assms by (auto simp: list_all_iff)
qed

lemma score_file_roundtrip_example:
  "snd (score_lines dga_score_original [''google.com'', '' '']) = None \<and>
   load_scores (fst (score_lines dga_score_original [''google.com'', '' ''])) =
     Inr [fl (of_int (rne (projr (dga_score_original ''google.com'') * 10000)) / 10000)]"
proof -
  have "filter (\<lambda>d. d \<noteq> []) (map py_strip [''google.com'', '' '']) = [''google.com'']" by code_simp
  then show ?thesis using score_file_roundtrip [of "[''google.com'', '' '']"] by simp
qed

end
