(* ===== verification/Py_Calendar.thy ===== *)
theory Py_Calendar
  imports Py_Dates Metrics
begin

text \<open>
  The random dates of the generators: \<open>strTimeProp\<close>, \<open>randomDate\<close> and \<open>getRandomDate\<close>, with the parts of Python's
  \<open>time\<close> module they use. The time zone is a parameter: \<open>off\<close> gives the seconds it adds at an instant, \<open>mktime\<close>
  the instant of a local date. The lemmas show that formatting and parsing a date are inverse and that
  the dates drawn lie between 1970 and 3000, as the theorems on the main programs require.
\<close>

section \<open>Instants and dates\<close>

definition year_len :: "int \<Rightarrow> int" where
  "year_len y = (if is_leap y then 366 else 365)"

text \<open>From the days since the start of a year to the year and the days left, and the same for months.\<close>

function year_walk :: "int \<Rightarrow> int \<Rightarrow> int \<times> int" where
  "year_walk y n = (if n < year_len y then (y, n) else year_walk (y + 1) (n - year_len y))"
  by pat_completeness auto
termination by (relation "measure (\<lambda>(y, n). nat n)") (auto simp: year_len_def split: if_splits)

function month_walk :: "int \<Rightarrow> int \<Rightarrow> int \<Rightarrow> int \<times> int" where
  "month_walk y m n = (if 12 \<le> m \<or> n < days_in_month y m then (m, n) else month_walk y (m + 1) (n - days_in_month y m))"
  by pat_completeness auto
termination by (relation "measure (\<lambda>(y, m, n). nat (12 - m))") auto

declare year_walk.simps [simp del] month_walk.simps [simp del]

text \<open>The date of a number of seconds since 1970, from year 1 on; seconds are dropped, as the format has none.\<close>

definition civil_of :: "int \<Rightarrow> datetime" where
  "civil_of secs =
     (let (y, k) = year_walk 1 (secs div 86400 + 719162); (m, j) = month_walk y 1 k; s = secs mod 86400
      in \<lparr>year = y, month = m, day = j + 1, hour = s div 3600, minute = s mod 3600 div 60\<rparr>)"

definition localtime :: "(int \<Rightarrow> int) \<Rightarrow> int \<Rightarrow> datetime" where
  "localtime off t = civil_of (t + off t)"

definition seconds_of :: "datetime \<Rightarrow> int" where
  "seconds_of d = days_since_unix_epoch d * 86400 + hour d * 3600 + minute d * 60"

lemma days_before_year_Suc: "days_before_year (y + 1) = days_before_year y + year_len y"
  using days_before_year_step [of "y + 1"] by (simp add: year_len_def)

lemma days_before_year_mono: "y \<le> z \<Longrightarrow> days_before_year y \<le> days_before_year z"
proof (induction z rule: int_ge_induct)
  case (step z)
  then show ?case using days_before_year_Suc [of z] by (simp add: year_len_def split: if_splits)
qed simp

lemma year_walk_days:
  assumes "0 \<le> n" and "year_walk y n = (y', k)"
  shows "y \<le> y' \<and> 0 \<le> k \<and> k < year_len y' \<and> days_before_year y + n = days_before_year y' + k"
  using assms
proof (induction y n rule: year_walk.induct)
  case (1 y n)
  show ?case
  proof (cases "n < year_len y")
    case True
    with 1 show ?thesis by (simp add: year_walk.simps [of y n])
  next
    case False
    with 1 show ?thesis using days_before_year_Suc [of y] by (simp add: year_walk.simps [of y n])
  qed
qed

lemma month_walk_days:
  assumes "1 \<le> m" and "m \<le> 12" and "0 \<le> n" and "days_before_month y m + n < year_len y" and "month_walk y m n = (m', j)"
  shows "m' \<le> 12 \<and> m \<le> m' \<and> 0 \<le> j \<and> j < days_in_month y m' \<and> days_before_month y m + n = days_before_month y m' + j"
  using assms
proof (induction y m n rule: month_walk.induct)
  case (1 y m n)
  show ?case
  proof (cases "12 \<le> m \<or> n < days_in_month y m")
    case True
    then have r: "m' = m" "j = n" using "1.prems"(5) by (simp_all add: month_walk.simps [of y m n])
    have "n < days_in_month y m"
    proof (cases "12 \<le> m")
      case True
      then have "m = 12" using "1.prems"(2) by simp
      with "1.prems"(4) show ?thesis by (simp add: days_before_december days_in_month_dec year_len_def split: if_splits)
    qed (use True in simp)
    with r 1 show ?thesis by simp
  next
    case False
    with 1 show ?thesis using days_before_month_step [of "m + 1" y] by (simp add: month_walk.simps [of y m n])
  qed
qed

lemma civil_of_date:
  assumes "- 719162 * 86400 \<le> secs"
  shows "to_ordinal (civil_of secs) = secs div 86400 + 719163" "1 \<le> year (civil_of secs)"
    "year (civil_of secs) \<le> 9999 \<Longrightarrow> is_datetime (civil_of secs)"
    "seconds_of (civil_of secs) = secs - secs mod 60"
    "days_before_year (year (civil_of secs)) < to_ordinal (civil_of secs)"
    "to_ordinal (civil_of secs) \<le> days_before_year (year (civil_of secs) + 1)"
proof -
  define n s where "n = secs div 86400 + 719162" and "s = secs mod 86400"
  obtain y k where y: "year_walk 1 n = (y, k)" by fastforce
  obtain m j where m: "month_walk y 1 k = (m, j)" by fastforce
  have n0: "0 \<le> n" using assms unfolding n_def by linarith
  have yk: "1 \<le> y" "0 \<le> k" "k < year_len y" "n = days_before_year y + k"
    using year_walk_days [OF n0 y] by (simp_all add: days_before_year_def)
  have mj: "m \<le> 12" "1 \<le> m" "0 \<le> j" "j < days_in_month y m" "k = days_before_month y m + j"
    using month_walk_days [OF _ _ yk(2) _ m] yk(3) by (simp_all add: days_before_month_def)
  have s: "0 \<le> s" "s < 86400" by (simp_all add: s_def)
  have c: "civil_of secs = \<lparr>year = y, month = m, day = j + 1, hour = s div 3600, minute = s mod 3600 div 60\<rparr>"
    by (simp add: civil_of_def Let_def y m flip: n_def s_def)
  show o: "to_ordinal (civil_of secs) = secs div 86400 + 719163"
    using yk(4) mj(5) by (simp add: c to_ordinal_def n_def)
  then show "days_before_year (year (civil_of secs)) < to_ordinal (civil_of secs)"
    "to_ordinal (civil_of secs) \<le> days_before_year (year (civil_of secs) + 1)"
    using yk(2-4) by (simp_all add: c days_before_year_Suc n_def)
  show "1 \<le> year (civil_of secs)" using yk(1) by (simp add: c)
  show "is_datetime (civil_of secs)" if "year (civil_of secs) \<le> 9999"
  proof -
    have "s div 3600 \<le> 23" "s mod 3600 div 60 \<le> 59" using s by auto
    with that yk(1) mj s(1) show ?thesis by (simp add: c is_datetime_def pos_imp_zdiv_nonneg_iff)
  qed
  have hm: "s div 3600 * 3600 + s mod 3600 div 60 * 60 = s - s mod 60"
  proof -
    have "s mod 3600 mod 60 = s mod 60" by (simp add: mod_mod_cancel)
    then show ?thesis using div_mult_mod_eq [of s 3600] div_mult_mod_eq [of "s mod 3600" 60] by linarith
  qed
  have f: "days_since_unix_epoch (civil_of secs) = secs div 86400" "hour (civil_of secs) = s div 3600"
    "minute (civil_of secs) = s mod 3600 div 60"
    using o by (simp_all add: days_since_unix_epoch_def c)
  have "seconds_of (civil_of secs) = secs div 86400 * 86400 + (s - s mod 60)"
    by (simp only: seconds_of_def f add.assoc hm)
  also have "\<dots> = secs div 86400 * 86400 + s - s mod 60" by simp
  also have "secs div 86400 * 86400 + s = secs" unfolding s_def by (rule div_mult_mod_eq)
  also have "s mod 60 = secs mod 60" by (simp add: s_def mod_mod_cancel)
  finally show "seconds_of (civil_of secs) = secs - secs mod 60" .
qed

section \<open>The format \<open>%m/%d/%Y %I:%M %p\<close>\<close>

definition hour12 :: "int \<Rightarrow> int" where
  "hour12 h = (if h mod 12 = 0 then 12 else h mod 12)"

definition strftime :: "datetime \<Rightarrow> string" where
  "strftime d =
     pad_zeros 2 (py_str (month d)) @ ''/'' @ pad_zeros 2 (py_str (day d)) @ ''/'' @ py_str (year d) @ '' '' @
     pad_zeros 2 (py_str (hour12 (hour d))) @ '':'' @ pad_zeros 2 (py_str (minute d)) @ '' '' @
     (if hour d < 12 then ''AM'' else ''PM'')"

text \<open>A field of at most \<open>k\<close> digits between two bounds; the year has exactly four digits.\<close>

definition parse_field :: "nat \<Rightarrow> int \<Rightarrow> int \<Rightarrow> string \<Rightarrow> int result" where
  "parse_field k lo hi w =
     (if w \<noteq> [] \<and> length w \<le> k \<and> list_all is_digit w \<and> lo \<le> int (dec_value w) \<and> int (dec_value w) \<le> hi
      then Inr (int (dec_value w)) else Inl ValueError)"

definition parse_ampm :: "string \<Rightarrow> int result" where
  "parse_ampm w = (if py_lower w = ''am'' then Inr 0 else if py_lower w = ''pm'' then Inr 12 else Inl ValueError)"

definition split_n :: "char \<Rightarrow> nat \<Rightarrow> string \<Rightarrow> string list result" where
  "split_n c n s = (let ws = py_split c s in if length ws = n then Inr ws else Inl ValueError)"

definition strptime :: "string \<Rightarrow> datetime result" where
  "strptime s =
     rbind (split_n (CHR '' '') 3 s) (\<lambda>ws.
     rbind (split_n (CHR ''/'') 3 (ws ! 0)) (\<lambda>dmy. rbind (split_n (CHR '':'') 2 (ws ! 1)) (\<lambda>hm.
     rbind (parse_field 2 1 12 (dmy ! 0)) (\<lambda>m. rbind (parse_field 2 1 31 (dmy ! 1)) (\<lambda>d.
     rbind (if length (dmy ! 2) = 4 then parse_field 4 0 9999 (dmy ! 2) else Inl ValueError) (\<lambda>y.
     rbind (parse_field 2 1 12 (hm ! 0)) (\<lambda>h. rbind (parse_field 2 0 59 (hm ! 1)) (\<lambda>mi.
     rbind (parse_ampm (ws ! 2)) (\<lambda>p.
     if 1 \<le> y \<and> d \<le> days_in_month y m
     then Inr \<lparr>year = y, month = m, day = d, hour = h mod 12 + p, minute = mi\<rparr> else Inl ValueError)))))))))"

section \<open>The random dates\<close>

text \<open>\<open>time.mktime\<close> returns a float, and \<open>time.localtime\<close> drops the fraction of its argument.\<close>

definition strTimeProp :: "(datetime \<Rightarrow> int) \<Rightarrow> (int \<Rightarrow> int) \<Rightarrow> string \<Rightarrow> string \<Rightarrow> real \<Rightarrow> string result" where
  "strTimeProp mktime off start_str end_str prop =
     rbind (strptime start_str) (\<lambda>d0. rbind (strptime end_str) (\<lambda>d1.
     let stime = of_int (mktime d0); etime = of_int (mktime d1); ptime = fl (stime + fl (prop * fl (etime - stime)))
     in Inr (strftime (localtime off \<lfloor>ptime\<rfloor>))))"

definition randomDate :: "(datetime \<Rightarrow> int) \<Rightarrow> (int \<Rightarrow> int) \<Rightarrow> string \<Rightarrow> string \<Rightarrow> real \<Rightarrow> string result" where
  "randomDate mktime off start_str end_str prop = strTimeProp mktime off start_str end_str prop"

definition getRandomDate :: "(datetime \<Rightarrow> int) \<Rightarrow> (int \<Rightarrow> int) \<Rightarrow> real \<Rightarrow> datetime result" where
  "getRandomDate mktime off prop =
     rbind (randomDate mktime off ''1/1/1970 01:00 AM'' ''1/1/3000 1:10 AM'' prop) strptime"

section \<open>Formatting and parsing\<close>

lemma two_digits:
  assumes "0 \<le> n" and "n < 100" and "lo \<le> n" and "n \<le> hi"
  shows "parse_field 2 lo hi (pad_zeros 2 (py_str n)) = Inr n"
    and "c \<notin> set (pad_zeros 2 (py_str n)) \<or> is_digit c"
proof -
  define k where "k = nat n"
  have k: "n = int k" "k < 10 ^ 2" "0 < (2::nat)" using assms(1,2) by (simp_all add: k_def nat_less_iff)
  note f = pad_zeros_facts [OF k(2,3)]
  show "parse_field 2 lo hi (pad_zeros 2 (py_str n)) = Inr n" using f assms(3,4) by (auto simp: parse_field_def k(1))
  show "c \<notin> set (pad_zeros 2 (py_str n)) \<or> is_digit c" using f(3) by (auto simp: list_all_iff k(1))
qed

lemma year_text:
  assumes "1000 \<le> y" and "y \<le> 9999"
  shows "length (py_str y) = 4" "parse_field 4 0 9999 (py_str y) = Inr y" "c \<notin> set (py_str y) \<or> is_digit c"
proof -
  define k where "k = nat y"
  have k: "y = int k" "1000 \<le> k" "k < 10 ^ 4" using assms by (simp_all add: k_def nat_less_iff)
  have len: "length (py_str y) \<le> 4" using length_py_str [OF k(3)] by (simp add: k(1))
  have "k < 10 ^ length (py_str y)"
    using dec_value_less [OF py_str_digits [of k]] by (simp add: dec_value_py_str k(1))
  then have "\<not> length (py_str y) \<le> 3"
    using k(2) power_increasing [of "length (py_str y)" 3 "10::nat"] by auto
  with len show l: "length (py_str y) = 4" by simp
  show "parse_field 4 0 9999 (py_str y) = Inr y"
    using l assms py_str_digits [of k] py_str_not_Nil [of k] by (simp add: parse_field_def k(1) dec_value_py_str)
  show "c \<notin> set (py_str y) \<or> is_digit c" using py_str_digits [of k] by (auto simp: list_all_iff k(1))
qed

lemma split_3: "c \<notin> set a \<Longrightarrow> c \<notin> set b \<Longrightarrow> c \<notin> set d \<Longrightarrow> split_n c 3 (a @ c # b @ c # d) = Inr [a, b, d]"
  by (simp add: split_n_def py_split_append_sep py_split_no_sep Let_def)

lemma split_2: "c \<notin> set a \<Longrightarrow> c \<notin> set b \<Longrightarrow> split_n c 2 (a @ c # b) = Inr [a, b]"
  by (simp add: split_n_def py_split_append_sep py_split_no_sep Let_def)

lemma strptime_strftime:
  assumes "is_datetime d" and "1000 \<le> year d"
  shows "strptime (strftime d) = Inr d"
proof -
  note b = is_datetime_bounds [OF assms(1)]
  have h: "0 \<le> hour d" "hour d \<le> 23" "0 \<le> minute d" "minute d \<le> 59" "day d \<le> days_in_month (year d) (month d)"
    using assms(1) by (simp_all add: is_datetime_def)
  have h12: "1 \<le> hour12 (hour d)" "hour12 (hour d) \<le> 12" using h(1) pos_mod_bound [of 12 "hour d"] pos_mod_sign [of 12 "hour d"]
    by (auto simp: hour12_def)
  let ?p = "if hour d < 12 then ''AM'' else ''PM''"
  have p: "parse_ampm ?p = Inr (if hour d < 12 then 0 else 12)" by (simp; code_simp)
  have hh: "hour12 (hour d) mod 12 + (if hour d < 12 then 0 else 12) = hour d"
  proof -
    have "hour12 (hour d) mod 12 = hour d mod 12" by (simp add: hour12_def)
    moreover have "hour d mod 12 = hour d - 12" if "\<not> hour d < 12"
      using minus_mod_self2 [of "hour d" 12] mod_pos_pos_trivial [of "hour d - 12" 12] that h(2) by simp
    ultimately show ?thesis using h(1,2) by (cases "hour d < 12") simp_all
  qed
  have sep: "\<not> is_digit (CHR '' '')" "\<not> is_digit (CHR ''/'')" "\<not> is_digit (CHR '':'')" by code_simp+
  let ?m = "pad_zeros 2 (py_str (month d))" and ?d = "pad_zeros 2 (py_str (day d))" and ?y = "py_str (year d)"
  let ?h = "pad_zeros 2 (py_str (hour12 (hour d)))" and ?i = "pad_zeros 2 (py_str (minute d))"
  have no: "c \<notin> set ?m" "c \<notin> set ?d" "c \<notin> set ?y" "c \<notin> set ?h" "c \<notin> set ?i" if "\<not> is_digit c" for c
    using that two_digits(2) [of "month d" "month d" "month d" c] two_digits(2) [of "day d" "day d" "day d" c]
      two_digits(2) [of "hour12 (hour d)" 0 23 c] two_digits(2) [of "minute d" 0 59 c] year_text(3) [of "year d" c] b h h12 assms(2)
    by simp_all
  have 1: "split_n (CHR ''/'') 3 (?m @ CHR ''/'' # ?d @ CHR ''/'' # ?y) = Inr [?m, ?d, ?y]" by (intro split_3 no sep)
  have 2: "split_n (CHR '':'') 2 (?h @ CHR '':'' # ?i) = Inr [?h, ?i]" by (intro split_2 no sep)
  have 3: "split_n (CHR '' '') 3 ((?m @ CHR ''/'' # ?d @ CHR ''/'' # ?y) @ CHR '' '' # (?h @ CHR '':'' # ?i) @ CHR '' '' # ?p) =
      Inr [?m @ CHR ''/'' # ?d @ CHR ''/'' # ?y, ?h @ CHR '':'' # ?i, ?p]"
    using no [OF sep(1)] by (intro split_3) auto
  have s: "strftime d = (?m @ CHR ''/'' # ?d @ CHR ''/'' # ?y) @ CHR '' '' # (?h @ CHR '':'' # ?i) @ CHR '' '' # ?p"
    by (simp add: strftime_def)
  have f: "parse_field 2 1 12 ?m = Inr (month d)" "parse_field 2 1 31 ?d = Inr (day d)" "length ?y = 4"
    "parse_field 4 0 9999 ?y = Inr (year d)" "parse_field 2 1 12 ?h = Inr (hour12 (hour d))" "parse_field 2 0 59 ?i = Inr (minute d)"
    using b h h12 assms(2) by (simp_all add: two_digits(1) year_text(1,2))
  show ?thesis
    unfolding s strptime_def 3 using b h(5) by (simp add: 1 2 f p hh nth_Cons' del: if_split)
qed

section \<open>The range of the dates\<close>

definition start_date :: datetime where
  "start_date = \<lparr>year = 1970, month = 1, day = 1, hour = 1, minute = 0\<rparr>"

definition end_date :: datetime where
  "end_date = \<lparr>year = 3000, month = 1, day = 1, hour = 1, minute = 10\<rparr>"

text \<open>
  What the script relies on: \<open>mktime\<close> gives the instant that shows each of the two dates, and the offsets of the
  zone differ by no more than an hour.
\<close>

definition zone_ok :: "(datetime \<Rightarrow> int) \<Rightarrow> (int \<Rightarrow> int) \<Rightarrow> bool" where
  "zone_ok mktime off \<longleftrightarrow>
     mktime start_date + off (mktime start_date) = seconds_of start_date \<and>
     mktime end_date + off (mktime end_date) = seconds_of end_date \<and>
     \<bar>mktime start_date\<bar> \<le> 2 ^ 50 \<and> \<bar>mktime end_date\<bar> \<le> 2 ^ 50 \<and> mktime start_date \<le> mktime end_date \<and>
     (\<forall>s t. \<bar>off s - off t\<bar> \<le> 3600)"

lemma literal_dates:
  "strptime ''1/1/1970 01:00 AM'' = Inr start_date" "strptime ''1/1/3000 1:10 AM'' = Inr end_date"
  by code_simp+

text \<open>The proportion of an interval lies in it, rounded or not.\<close>

lemma proportion_within:
  assumes "0 \<le> prop" and "prop \<le> 1" and "\<bar>a\<bar> \<le> 2 ^ 50" and "\<bar>b\<bar> \<le> 2 ^ 50" and "a \<le> b"
  shows "a \<le> \<lfloor>fl (of_int a + fl (prop * fl (of_int b - of_int a)))\<rfloor>"
    and "\<lfloor>fl (of_int a + fl (prop * fl (of_int b - of_int a)))\<rfloor> \<le> b"
proof -
  have ba: "fl (of_int b - of_int a) = of_int (b - a)"
    using f64.exact [of "b - a"] assms(3,4) by (simp add: abs_le_iff)
  define e where "e = fl (prop * of_int (b - a))"
  have "0 \<le> prop * of_int (b - a)" using assms(1,5) by simp
  moreover have "prop * of_int (b - a) \<le> of_int (b - a)" using assms(2,5) mult_right_mono [of "prop" 1 "of_int (b - a)"] by simp
  ultimately have e: "0 \<le> e" "e \<le> of_int (b - a)"
    using f64.nonneg f64.le_int [of "b - a" "prop * of_int (b - a)"] assms(3,4) by (simp_all add: e_def abs_le_iff)
  then have "of_int a \<le> of_int a + e" "of_int a + e \<le> of_int b" by simp_all
  then have "of_int a \<le> fl (of_int a + e)" "fl (of_int a + e) \<le> of_int b"
    using f64.ge_int [of a] f64.le_int [of b] assms(3,4) by simp_all
  then show "a \<le> \<lfloor>fl (of_int a + fl (prop * fl (of_int b - of_int a)))\<rfloor>"
    "\<lfloor>fl (of_int a + fl (prop * fl (of_int b - of_int a)))\<rfloor> \<le> b"
    unfolding ba e_def by (simp add: le_floor_iff, metis floor_of_int floor_mono)
qed

text \<open>An instant between the two dates, give or take an hour, is a date of the years between.\<close>

lemma civil_of_range:
  assumes "0 \<le> secs" and "secs \<le> seconds_of end_date + 3600"
  shows "is_datetime (civil_of secs) \<and> 1970 \<le> year (civil_of secs) \<and> year (civil_of secs) \<le> 3000"
proof -
  have "seconds_of end_date = 376200 * 86400 + 4200" by code_simp
  then have o: "0 \<le> secs div 86400" "secs div 86400 \<le> 376200" using assms by (auto simp: pos_imp_zdiv_nonneg_iff)
  have s: "- 719162 * 86400 \<le> secs" using assms(1) by simp
  note c = civil_of_date [OF this]
  have y: "days_before_year 1970 = 719162" "days_before_year 3001 = 1095727" by code_simp+
  have "1970 \<le> year (civil_of secs)"
    using c(1,6) o(1) y(1) days_before_year_mono [of "year (civil_of secs) + 1" 1970] by linarith
  moreover have "year (civil_of secs) \<le> 3000"
    using c(1,5) o(2) y(2) days_before_year_mono [of 3001 "year (civil_of secs)"] by linarith
  ultimately show ?thesis using c(3) by simp
qed

lemma getRandomDate_range:
  assumes "zone_ok mktime off" and "0 \<le> prop" and "prop \<le> 1"
  shows "\<exists>d. getRandomDate mktime off prop = Inr d \<and> is_datetime d \<and> 1970 \<le> year d \<and> year d \<le> 3000"
proof -
  define a b where "a = mktime start_date" and "b = mktime end_date"
  define t where "t = \<lfloor>fl (of_int a + fl (prop * fl (of_int b - of_int a)))\<rfloor>"
  have z: "a + off a = seconds_of start_date" "b + off b = seconds_of end_date" "\<bar>a\<bar> \<le> 2 ^ 50" "\<bar>b\<bar> \<le> 2 ^ 50" "a \<le> b"
    "\<bar>off s - off t\<bar> \<le> 3600" for s t
    using assms(1) by (simp_all add: zone_ok_def a_def b_def)
  have t: "a \<le> t" "t \<le> b" using proportion_within [OF assms(2,3) z(3-5)] by (simp_all add: t_def)
  have "seconds_of start_date = 3600" by code_simp
  then have "0 \<le> t + off t" "t + off t \<le> seconds_of end_date + 3600"
    using t z(1,2) z(6) [of t a] z(6) [of t b] by linarith+
  then have d: "is_datetime (localtime off t)" "1970 \<le> year (localtime off t)" "year (localtime off t) \<le> 3000"
    using civil_of_range by (simp_all add: localtime_def)
  moreover have "getRandomDate mktime off prop = strptime (strftime (localtime off t))"
    by (simp add: getRandomDate_def randomDate_def strTimeProp_def literal_dates t_def a_def b_def Let_def)
  ultimately show ?thesis using strptime_strftime [OF d(1)] by simp
qed

section \<open>Properties\<close>

text \<open>A date printed in the format of the scripts is parsed back to itself, to the minute, for every date of
  Python's calendar from the year 1000 on.\<close>

lemma date_text_roundtrip:
  assumes "is_datetime d" and "1000 \<le> year d"
  shows "strptime (strftime d) = Inr d"
  by (rule strptime_strftime [OF assms])

lemma date_text_roundtrip_example:
  "strptime (strftime \<lparr>year = 2024, month = 2, day = 29, hour = 0, minute = 5\<rparr>) =
     Inr \<lparr>year = 2024, month = 2, day = 29, hour = 0, minute = 5\<rparr>"
  by (rule date_text_roundtrip) (simp_all add: is_datetime_def days_in_month_def is_leap_def)

end
