(* ===== verification/Dataset_Driver.thy ===== *)
theory Dataset_Driver
  imports Py_Prelude
begin

text \<open>
  The main program that every dataset generator under
  \<open>src/evaluation/UMUDGA/UMUDGA - University of Murcia/Domain Generation Algorithms/\<close> repeats:
  it opens one output file per tier (1000.txt, 5000.txt, ...), draws domains until the largest tier
  is full, skips collisions, and writes each new domain to every tier that still has room.
  The scripts differ in where the domains come from, in what a collision does, and in whether the
  inner loop looks at \<open>stop\<close>; those are the parameters of the loops below.
  The values the \<open>random\<close> module returns are inputs of the model: a run consumes one input per
  iteration of the outer loop, so a run over a finite list of inputs is the program's behaviour over
  its first iterations.
\<close>

section \<open>State and steps\<close>

text \<open>
  The variables of the main program. \<open>data\<close> is a Python set of which only \<open>add\<close> and \<open>len\<close> are used:
  a duplicate-free list in order of insertion. \<open>files\<close> gives the lines written to each tier; the
  files are opened together and closed together, so one flag says whether they are open.
  \<open>stop\<close> is the loop flag (for the scripts with \<open>while True\<close>, whether the loop has been left).
\<close>

record gen_run =
  data :: "string list"
  counter :: nat
  forceCloseCounter :: nat
  files :: "(nat \<times> string list) list"
  closed :: bool
  stop :: bool

definition open_files :: "nat list \<Rightarrow> gen_run" where
  "open_files tiers =
     \<lparr>data = [], counter = 0, forceCloseCounter = 0, files = map (\<lambda>k. (k, [])) tiers,
      closed = False, stop = False\<rparr>"

datatype flow = Continue | Break

datatype added = Collision (run_of: gen_run) | Written (run_of: gen_run) | Finished (run_of: gen_run)

text \<open>
  The chain \<open>if len(data) <= 1000: ... elif len(data) <= 5000: ... else: ...\<close>: the first tier that is
  large enough is written together with all later ones; \<open>None\<close> is the final \<open>else\<close>.
\<close>

fun write_chain :: "nat \<Rightarrow> string \<Rightarrow> (nat \<times> string list) list \<Rightarrow> (nat \<times> string list) list option" where
  "write_chain n d [] = None"
| "write_chain n d ((k, ls) # fs) =
     (if n \<le> k then Some (map (\<lambda>(k', ls'). (k', ls' @ [d])) ((k, ls) # fs))
      else map_option (Cons (k, ls)) (write_chain n d fs))"

text \<open>
  The body of the loop from \<open>datasize = len(data)\<close> on. Writing to closed files raises ValueError;
  closing them twice does not.
\<close>

definition add_domain :: "string \<Rightarrow> gen_run \<Rightarrow> added result" where
  "add_domain d s =
     (if d \<in> set (data s) then Inr (Collision s)
      else let s1 = s\<lparr>data := data s @ [d], counter := counter s + 1\<rparr> in
        (case write_chain (length (data s1)) d (files s1) of
           None \<Rightarrow> Inr (Finished (s1\<lparr>closed := True, stop := True\<rparr>))
         | Some fs \<Rightarrow> if closed s1 then Inl ValueError else Inr (Written (s1\<lparr>files := fs\<rparr>))))"

text \<open>What the scripts do on a collision.\<close>

definition ignore_collision :: "gen_run \<Rightarrow> flow \<times> gen_run" where
  "ignore_collision s = (Continue, s)"

definition force_close :: "nat \<Rightarrow> gen_run \<Rightarrow> flow \<times> gen_run" where
  "force_close m s =
     (let s1 = s\<lparr>forceCloseCounter := forceCloseCounter s + 1\<rparr> in
      (Continue,
       if forceCloseCounter s1 = m * counter s1 then s1\<lparr>closed := True, stop := True\<rparr> else s1))"

definition break_on_collision :: "nat \<Rightarrow> gen_run \<Rightarrow> flow \<times> gen_run" where
  "break_on_collision m s = (if counter s mod m \<noteq> 0 then Break else Continue, s)"

section \<open>Loops\<close>

text \<open>
  The inner loop over one batch of domains. \<open>chk\<close>: the loop starts with \<open>if stop: break\<close>;
  \<open>fin\<close>: whether the final \<open>else\<close> leaves the loop (Break in all scripts but nymaim).
\<close>

fun batch :: "bool \<Rightarrow> (gen_run \<Rightarrow> flow \<times> gen_run) \<Rightarrow> flow \<Rightarrow> string list \<Rightarrow> gen_run \<Rightarrow> gen_run result" where
  "batch chk coll fin [] s = Inr s"
| "batch chk coll fin (d # ds) s =
     (if chk \<and> stop s then Inr s
      else (case add_domain d s of
         Inl e \<Rightarrow> Inl e
       | Inr (Collision s1) \<Rightarrow>
           (case coll s1 of (Continue, s2) \<Rightarrow> batch chk coll fin ds s2 | (Break, s2) \<Rightarrow> Inr s2)
       | Inr (Written s1) \<Rightarrow> batch chk coll fin ds s1
       | Inr (Finished s1) \<Rightarrow> (case fin of Continue \<Rightarrow> batch chk coll fin ds s1 | Break \<Rightarrow> Inr s1)))"

text \<open>The outer loop \<open>while not stop\<close> over batches.\<close>

fun batches :: "('i \<Rightarrow> 'g \<Rightarrow> (string list \<times> 'g) result) \<Rightarrow> (string list \<Rightarrow> gen_run \<Rightarrow> gen_run result) \<Rightarrow>
    'i list \<Rightarrow> 'g \<Rightarrow> gen_run \<Rightarrow> ('g \<times> gen_run) result" where
  "batches gen body [] g s = Inr (g, s)"
| "batches gen body (i # is) g s =
     (if stop s then Inr (g, s)
      else rbind (gen i g) (\<lambda>(ds, g'). rbind (body ds s) (\<lambda>s'. batches gen body is g' s')))"

text \<open>
  The outer loop of the scripts that make one domain per iteration; a collision may also change the
  generator's own state.
\<close>

fun singles :: "('i \<Rightarrow> 'g \<Rightarrow> (string \<times> 'g) result) \<Rightarrow> ('i \<Rightarrow> 'g \<Rightarrow> gen_run \<Rightarrow> 'g \<times> gen_run) \<Rightarrow>
    'i list \<Rightarrow> 'g \<Rightarrow> gen_run \<Rightarrow> ('g \<times> gen_run) result" where
  "singles gen coll [] g s = Inr (g, s)"
| "singles gen coll (i # is) g s =
     (if stop s then Inr (g, s)
      else rbind (gen i g) (\<lambda>(d, g').
        rbind (add_domain d s) (\<lambda>r. case r of
            Collision s1 \<Rightarrow> (case coll i g' s1 of (g2, s2) \<Rightarrow> singles gen coll is g2 s2)
          | Written s1 \<Rightarrow> singles gen coll is g' s1
          | Finished s1 \<Rightarrow> Inr (g', s1))))"

text \<open>Nested loops over what an iteration uses: with \<open>if stop: break\<close> (or \<open>while not stop\<close>), and without.\<close>

fun iterate :: "('a \<Rightarrow> gen_run \<Rightarrow> gen_run result) \<Rightarrow> 'a list \<Rightarrow> gen_run \<Rightarrow> gen_run result" where
  "iterate body [] s = Inr s"
| "iterate body (x # xs) s = (if stop s then Inr s else rbind (body x s) (iterate body xs))"

fun for_loop :: "('a \<Rightarrow> gen_run \<Rightarrow> gen_run result) \<Rightarrow> 'a list \<Rightarrow> gen_run \<Rightarrow> gen_run result" where
  "for_loop body [] s = Inr s"
| "for_loop body (x # xs) s = rbind (body x s) (for_loop body xs)"

definition on_collision :: "(gen_run \<Rightarrow> flow \<times> gen_run) \<Rightarrow> 'i \<Rightarrow> 'g \<Rightarrow> gen_run \<Rightarrow> 'g \<times> gen_run" where
  "on_collision coll i g s = (g, snd (coll s))"

text \<open>The tiers the scripts open.\<close>

definition tiers_1m :: "nat list" where
  "tiers_1m = [1000, 5000, 10000, 50000, 100000, 500000, 1000000]"

definition tiers_500k :: "nat list" where
  "tiers_500k = [1000, 5000, 10000, 50000, 100000, 500000]"

definition tiers_100k :: "nat list" where
  "tiers_100k = [1000, 5000, 10000, 50000, 100000]"

definition tiers_10k :: "nat list" where
  "tiers_10k = [1000, 5000, 10000]"

section \<open>The invariant of a run\<close>

text \<open>
  Every tier holds the first domains generated, in order, up to its size; the counter is the number
  of distinct domains; the files are closed exactly when the loop has been told to stop.
\<close>

definition run_inv :: "nat list \<Rightarrow> gen_run \<Rightarrow> bool" where
  "run_inv tiers s \<longleftrightarrow>
     distinct (data s) \<and> counter s = length (data s) \<and>
     files s = map (\<lambda>k. (k, take k (data s))) tiers \<and>
     (closed s \<longleftrightarrow> stop s) \<and> (\<not> stop s \<longrightarrow> length (data s) \<le> last tiers)"

lemma write_chain_take:
  assumes "sorted_wrt (<) tiers" and "tiers \<noteq> []"
  shows "write_chain (Suc (length xs)) d (map (\<lambda>k. (k, take k xs)) tiers) =
    (if length xs < last tiers then Some (map (\<lambda>k. (k, take k (xs @ [d]))) tiers) else None)"
  using assms
proof (induction tiers)
  case (Cons k ks)
  have later: "k \<le> last (k # ks)"
    using Cons.prems(1) by (cases "ks = []") (auto intro: less_imp_le)
  have grown: "map (\<lambda>(k', ls). (k', ls @ [d])) (map (\<lambda>k. (k, take k xs)) (k # ks)) =
      map (\<lambda>k. (k, take k (xs @ [d]))) (k # ks)" if "length xs < k"
  proof -
    have "\<forall>k' \<in> set (k # ks). length xs < k'" using that Cons.prems(1) by auto
    then show ?thesis by (auto simp: take_append)
  qed
  show ?case
  proof (cases "length xs < k")
    case True
    with grown later show ?thesis by auto
  next
    case False
    then show ?thesis using Cons by (cases "ks = []") (auto simp: take_append)
  qed
qed simp

lemma open_files_inv: "run_inv tiers (open_files tiers)"
  by (simp add: run_inv_def open_files_def)

lemma run_inv_ignore: "run_inv tiers s \<Longrightarrow> run_inv tiers (snd (ignore_collision s))"
  by (simp add: ignore_collision_def)

lemma run_inv_force: "run_inv tiers s \<Longrightarrow> run_inv tiers (snd (force_close m s))"
  by (auto simp: force_close_def run_inv_def Let_def)

lemma run_inv_break: "run_inv tiers s \<Longrightarrow> run_inv tiers (snd (break_on_collision m s))"
  by (simp add: break_on_collision_def)

lemmas run_inv_collisions = run_inv_ignore run_inv_force run_inv_break

lemma stop_collisions [simp]:
  "stop (snd (ignore_collision s)) = stop s"
  "stop (snd (break_on_collision m s)) = stop s"
  by (simp_all add: ignore_collision_def break_on_collision_def)

lemma data_collisions [simp]:
  "data (snd (ignore_collision s)) = data s"
  "data (snd (force_close m s)) = data s"
  "data (snd (break_on_collision m s)) = data s"
  by (auto simp: ignore_collision_def force_close_def break_on_collision_def Let_def)

section \<open>The contract of the tiers\<close>

locale tiered =
  fixes tiers :: "nat list"
  assumes tiers_sorted: "sorted_wrt (<) tiers"
    and tiers_not_Nil: "tiers \<noteq> []"
begin

definition grown :: "string \<Rightarrow> gen_run \<Rightarrow> gen_run" where
  "grown d s =
     s\<lparr>data := data s @ [d], counter := counter s + 1,
       files := map (\<lambda>k. (k, take k (data s @ [d]))) tiers\<rparr>"

lemma tier_le_last: "k \<in> set tiers \<Longrightarrow> k \<le> last tiers"
  using tiers_sorted tiers_not_Nil
  by (metis append_butlast_last_id in_set_butlastD less_imp_le list.set_intros(1) order_refl
      rotate1.simps(2) set_rotate1 sorted_wrt_append set_ConsD)

lemma files_full:
  assumes "last tiers \<le> length xs"
  shows "map (\<lambda>k. (k, take k (xs @ [d]))) tiers = map (\<lambda>k. (k, take k xs)) tiers"
  using assms tier_le_last by (auto simp: take_append dest: le_trans)

lemma add_domain_unfold:
  assumes "run_inv tiers s"
  shows "add_domain d s =
    (if d \<in> set (data s) then Inr (Collision s)
     else if length (data s) < last tiers then
       if closed s then Inl ValueError else Inr (Written (grown d s))
     else Inr (Finished ((grown d s)\<lparr>closed := True, stop := True\<rparr>)))"
proof -
  have fs: "files s = map (\<lambda>k. (k, take k (data s))) tiers"
    using assms by (simp add: run_inv_def)
  show ?thesis
    using write_chain_take [OF tiers_sorted tiers_not_Nil, of "data s" d]
      files_full [of "data s" d]
    by (simp add: add_domain_def grown_def fs Let_def)
qed

lemma grown_inv:
  assumes "run_inv tiers s" and "d \<notin> set (data s)" and "length (data s) < last tiers"
  shows "run_inv tiers (grown d s)"
  using assms by (auto simp: run_inv_def grown_def)

lemma finished_inv:
  assumes "run_inv tiers s" and "d \<notin> set (data s)"
  shows "run_inv tiers ((grown d s)\<lparr>closed := True, stop := True\<rparr>)"
  using assms by (auto simp: run_inv_def grown_def)

lemma data_grown [simp]: "data (grown d s) = data s @ [d]"
  by (simp add: grown_def)

lemma stop_grown [simp]: "stop (grown d s) = stop s"
  by (simp add: grown_def)

lemma add_domain_inv:
  assumes "run_inv tiers s" and "add_domain d s = Inr r"
  shows "run_inv tiers (run_of r) \<and> set (data (run_of r)) = insert d (set (data s))"
  using assms grown_inv [of s d] finished_inv [of s d]
  by (auto simp: add_domain_unfold split: if_splits)

lemma add_domain_open:
  assumes "run_inv tiers s" and "\<not> stop s"
  shows "\<exists>r. add_domain d s = Inr r"
  using assms by (auto simp: add_domain_unfold run_inv_def)

lemma finished_stop: "add_domain d s = Inr (Finished s') \<Longrightarrow> stop s'"
  by (auto simp: add_domain_def Let_def split: if_splits option.splits)

subsection \<open>Batches\<close>

text \<open>An inner loop that starts with \<open>if stop: break\<close> never writes to a closed file.\<close>

lemma batch_checked:
  assumes coll: "\<And>s. run_inv tiers s \<Longrightarrow> run_inv tiers (snd (coll s))"
    "\<And>s. data (snd (coll s)) = data s"
    and inv: "run_inv tiers s"
  shows "\<exists>s'. batch True coll fin ds s = Inr s' \<and> run_inv tiers s' \<and>
    set (data s') \<subseteq> set (data s) \<union> set ds"
  using inv
proof (induction ds arbitrary: s)
  case (Cons d ds)
  show ?case
  proof (cases "stop s")
    case True
    with Cons.prems show ?thesis by auto
  next
    case False
    then obtain r where r: "add_domain d s = Inr r"
      using add_domain_open [OF Cons.prems] by blast
    have ri: "run_inv tiers (run_of r)" "set (data (run_of r)) = insert d (set (data s))"
      using add_domain_inv [OF Cons.prems r] by auto
    show ?thesis
    proof (cases r)
      case (Collision s1)
      obtain f s2 where s2: "coll s1 = (f, s2)" by (cases "coll s1")
      have "run_inv tiers s2" "data s2 = data s1"
        using ri(1) Collision coll [of s1] s2 by auto
      then show ?thesis
        using ri(2) r Collision False s2 Cons.IH [of s2] by (cases f) auto
    next
      case (Written s1)
      then show ?thesis using ri r False Cons.IH [of s1] by fastforce
    next
      case (Finished s1)
      then show ?thesis using ri r False Cons.IH [of s1] by (fastforce split: flow.splits)
    qed
  qed
qed simp

text \<open>
  Where collisions never stop the program, the files are closed only once the largest tier is full;
  then nothing is written any more, check or no check.
\<close>

definition full_when_stopped :: "gen_run \<Rightarrow> bool" where
  "full_when_stopped s \<longleftrightarrow> (stop s \<longrightarrow> last tiers < length (data s))"

lemma full_when_stopped_open: "full_when_stopped (open_files tiers)"
  by (simp add: full_when_stopped_def open_files_def)

lemma add_domain_full:
  assumes "run_inv tiers s" and "full_when_stopped s"
  shows "\<exists>r. add_domain d s = Inr r \<and> full_when_stopped (run_of r)"
  using assms by (auto simp: add_domain_unfold full_when_stopped_def run_inv_def)

lemma batch_unforced:
  assumes coll: "\<And>s. run_inv tiers s \<Longrightarrow> run_inv tiers (snd (coll s))"
    "\<And>s. data (snd (coll s)) = data s" "\<And>s. stop (snd (coll s)) = stop s"
    and inv: "run_inv tiers s" "full_when_stopped s"
  shows "\<exists>s'. batch chk coll fin ds s = Inr s' \<and> run_inv tiers s' \<and> full_when_stopped s' \<and>
    set (data s') \<subseteq> set (data s) \<union> set ds"
  using inv
proof (induction ds arbitrary: s)
  case (Cons d ds)
  show ?case
  proof (cases "chk \<and> stop s")
    case True
    with Cons.prems show ?thesis by auto
  next
    case False
    obtain r where r: "add_domain d s = Inr r" "full_when_stopped (run_of r)"
      using add_domain_full [OF Cons.prems] by blast
    have ri: "run_inv tiers (run_of r)" "set (data (run_of r)) = insert d (set (data s))"
      using add_domain_inv [OF Cons.prems(1) r(1)] by auto
    show ?thesis
    proof (cases r)
      case (Collision s1)
      obtain f s2 where s2: "coll s1 = (f, s2)" by (cases "coll s1")
      have "run_inv tiers s2" "data s2 = data s1" "full_when_stopped s2"
        using ri(1) r(2) Collision coll [of s1] s2 by (auto simp: full_when_stopped_def)
      then show ?thesis
        using ri(2) r(1) Collision False s2 Cons.IH [of s2] by (cases f) auto
    next
      case (Written s1)
      then obtain s' where "batch chk coll fin ds s1 = Inr s'" "run_inv tiers s'" "full_when_stopped s'"
        "set (data s') \<subseteq> set (data s1) \<union> set ds"
        using ri(1) r(2) Cons.IH [of s1] by auto
      then show ?thesis using ri(2) r(1) Written False by auto
    next
      case (Finished s1)
      then obtain s' where "batch chk coll fin ds s1 = Inr s'" "run_inv tiers s'" "full_when_stopped s'"
        "set (data s') \<subseteq> set (data s1) \<union> set ds"
        using ri(1) r(2) Cons.IH [of s1] by auto
      then show ?thesis using ri r Finished False by (cases fin) auto
    qed
  qed
qed simp

text \<open>Without that check, a batch that goes on after the files were closed raises ValueError.\<close>

lemma batch_unchecked_raises:
  assumes "run_inv tiers s" and "stop s" and "length (data s) < last tiers" and "d \<notin> set (data s)"
  shows "batch False coll fin (d # ds) s = Inl ValueError"
  using assms by (simp add: add_domain_unfold run_inv_def)

text \<open>
  Such a batch either completes and keeps the invariant or raises that ValueError, and nothing else:
  what a loop body without the check satisfies, and what nested loops over it inherit.
\<close>

definition outcome :: "(string \<Rightarrow> bool) \<Rightarrow> gen_run result \<Rightarrow> bool" where
  "outcome P r =
     (case r of Inl e \<Rightarrow> e = ValueError | Inr s \<Rightarrow> run_inv tiers s \<and> list_all P (data s))"

definition keeps :: "(string \<Rightarrow> bool) \<Rightarrow> (gen_run \<Rightarrow> gen_run result) \<Rightarrow> bool" where
  "keeps P f \<longleftrightarrow> (\<forall>s. run_inv tiers s \<and> list_all P (data s) \<longrightarrow> outcome P (f s))"

lemma add_domain_outcome:
  assumes "run_inv tiers s" and "list_all P (data s)" and "P d"
  shows "case add_domain d s of Inl e \<Rightarrow> e = ValueError
    | Inr r \<Rightarrow> run_inv tiers (run_of r) \<and> list_all P (data (run_of r))"
proof (cases "add_domain d s")
  case (Inl e)
  then show ?thesis using assms(1) by (auto simp: add_domain_unfold split: if_splits)
next
  case (Inr r)
  then show ?thesis using add_domain_inv [OF assms(1) Inr] assms(2,3) by (auto simp: list_all_iff)
qed

lemma keeps_batch:
  assumes coll: "\<And>s. run_inv tiers s \<Longrightarrow> run_inv tiers (snd (coll s))"
    "\<And>s. data (snd (coll s)) = data s" and ds: "list_all P ds"
  shows "keeps P (batch chk coll fin ds)"
proof -
  have "outcome P (batch chk coll fin ds s)" if "run_inv tiers s" "list_all P (data s)" for s
    using that ds
  proof (induction ds arbitrary: s)
    case Nil
    then show ?case by (simp add: outcome_def)
  next
    case (Cons d ds)
    note ad = add_domain_outcome [OF Cons.prems(1,2), of d]
    show ?case
    proof (cases "chk \<and> stop s")
      case True
      with Cons.prems show ?thesis by (simp add: outcome_def)
    next
      case False
      show ?thesis
      proof (cases "add_domain d s")
        case (Inl e)
        with ad False Cons.prems(3) show ?thesis by (auto simp: outcome_def)
      next
        case (Inr r)
        with ad Cons.prems(3) have r: "run_inv tiers (run_of r)" "list_all P (data (run_of r))" by simp_all
        have c: "run_inv tiers (snd (coll (run_of r)))" "list_all P (data (snd (coll (run_of r))))"
          using coll [of "run_of r"] r by simp_all
        from Inr False show ?thesis
          using r c Cons.IH [of "run_of r"] Cons.IH [of "snd (coll (run_of r))"] Cons.prems(3)
          by (cases r; cases "coll (run_of r)") (auto simp: outcome_def split: flow.splits)
      qed
    qed
  qed
  then show ?thesis by (simp add: keeps_def)
qed

lemma keeps_bind:
  assumes "keeps P f" and "keeps P g"
  shows "keeps P (\<lambda>s. rbind (f s) g)"
  unfolding keeps_def
proof (intro allI impI)
  fix s assume "run_inv tiers s \<and> list_all P (data s)"
  with assms(1) have "outcome P (f s)" by (simp add: keeps_def)
  with assms(2) show "outcome P (rbind (f s) g)"
    by (cases "f s") (simp_all add: outcome_def keeps_def)
qed

lemma keeps_iterate:
  assumes "\<And>x. x \<in> set xs \<Longrightarrow> keeps P (body x)"
  shows "keeps P (iterate body xs)"
  using assms
proof (induction xs)
  case (Cons x xs)
  have "keeps P (\<lambda>s. rbind (body x s) (iterate body xs))"
    using Cons by (intro keeps_bind) simp_all
  then show ?case by (auto simp: keeps_def outcome_def)
qed (simp add: keeps_def outcome_def)

lemma keeps_for_loop:
  assumes "\<And>x. x \<in> set xs \<Longrightarrow> keeps P (body x)"
  shows "keeps P (for_loop body xs)"
  using assms
proof (induction xs)
  case (Cons x xs)
  have "keeps P (\<lambda>s. rbind (body x s) (for_loop body xs))"
    using Cons by (intro keeps_bind) simp_all
  then show ?case by simp
qed (simp add: keeps_def outcome_def)

lemma keeps_open: "keeps P f \<Longrightarrow> outcome P (f (open_files tiers))"
  using open_files_inv [of tiers] unfolding keeps_def by (simp add: open_files_def)

end

text \<open>
  What a completed run of a main program is judged by: no exception, the invariant, and only
  well-formed host names among the domains (hence in the files).
\<close>

definition clean_dataset :: "nat list \<Rightarrow> ('g \<times> gen_run) result \<Rightarrow> bool" where
  "clean_dataset tiers r =
     (case r of Inl _ \<Rightarrow> False | Inr (g, s) \<Rightarrow> run_inv tiers s \<and> list_all is_hostname (data s))"

text \<open>The same where an unchecked loop may run into closed files.\<close>

definition clean_or_closed :: "nat list \<Rightarrow> gen_run result \<Rightarrow> bool" where
  "clean_or_closed tiers r =
     (case r of Inl e \<Rightarrow> e = ValueError | Inr s \<Rightarrow> run_inv tiers s \<and> list_all is_hostname (data s))"

lemma clean_dataset_files:
  assumes "clean_dataset tiers (Inr (g, s))" and "(k, ls) \<in> set (files s)"
  shows "distinct ls \<and> list_all is_hostname ls \<and> length ls = min k (length (data s)) \<and> ls = take k (data s)"
  using assms by (auto simp: clean_dataset_def run_inv_def list_all_iff dest: in_set_takeD)

section \<open>The contract of a domain generator\<close>

text \<open>
  What the main program relies on: from a good generator state and a good input, the generator
  returns a domain with the wanted property and a good state; the collision handler keeps the
  states good. The client lemma: a run never raises, and all it writes has the property.
\<close>

locale single_source = tiered tiers for tiers +
  fixes gen :: "'i \<Rightarrow> 'g \<Rightarrow> (string \<times> 'g) result"
    and coll :: "'i \<Rightarrow> 'g \<Rightarrow> gen_run \<Rightarrow> 'g \<times> gen_run"
    and good :: "'g \<Rightarrow> bool"
    and input :: "'i \<Rightarrow> bool"
    and P :: "string \<Rightarrow> bool"
  assumes gen_good: "good g \<Longrightarrow> input i \<Longrightarrow> \<exists>d g'. gen i g = Inr (d, g') \<and> P d \<and> good g'"
    and coll_good: "good g \<Longrightarrow> input i \<Longrightarrow> good (fst (coll i g s))"
    and coll_inv: "run_inv tiers s \<Longrightarrow> run_inv tiers (snd (coll i g s))"
    and coll_data: "data (snd (coll i g s)) = data s"
begin

lemma singles_run:
  assumes "good g" and "list_all input is" and "run_inv tiers s" and "list_all P (data s)"
  shows "\<exists>g' s'. singles gen coll is g s = Inr (g', s') \<and> good g' \<and> run_inv tiers s' \<and> list_all P (data s')"
  using assms
proof (induction "is" arbitrary: g s)
  case (Cons i "is")
  show ?case
  proof (cases "stop s")
    case True
    with Cons.prems show ?thesis by auto
  next
    case False
    obtain d g' where g': "gen i g = Inr (d, g')" "P d" "good g'"
      using gen_good [of g i] Cons.prems(1,2) by auto
    obtain r where r: "add_domain d s = Inr r"
      using add_domain_open [OF Cons.prems(3) False] by blast
    have ri: "run_inv tiers (run_of r)" "list_all P (data (run_of r))"
      using add_domain_inv [OF Cons.prems(3) r] g'(2) Cons.prems(4) by (auto simp: list_all_iff)
    show ?thesis
    proof (cases r)
      case (Collision s1)
      then have next_ok: "good (fst (coll i g' s1))" "run_inv tiers (snd (coll i g' s1))"
        "list_all P (data (snd (coll i g' s1)))"
        using ri g'(3) Cons.prems(2) by (simp_all add: coll_good coll_inv coll_data)
      then obtain g2 s2 where "singles gen coll is (fst (coll i g' s1)) (snd (coll i g' s1)) = Inr (g2, s2)"
        "good g2" "run_inv tiers s2" "list_all P (data s2)"
        using Cons.IH [of "fst (coll i g' s1)" "snd (coll i g' s1)"] Cons.prems(2) by auto
      then show ?thesis using False g' r Collision by (simp add: case_prod_beta)
    next
      case (Written s1)
      then show ?thesis using False g' r ri Cons.IH [of g' s1] Cons.prems(2) by auto
    next
      case (Finished s1)
      then show ?thesis using False g' r ri by auto
    qed
  qed
qed auto

lemma singles_dataset:
  assumes "good g" and "list_all input is"
  shows "\<exists>g' s'. singles gen coll is g (open_files tiers) = Inr (g', s') \<and> good g' \<and>
    run_inv tiers s' \<and> list_all P (data s')"
  using assms by (intro singles_run open_files_inv) (simp_all add: open_files_def)

lemma singles_clean:
  assumes "good g" and "list_all input is" and "\<And>d. P d \<Longrightarrow> is_hostname d"
  shows "clean_dataset tiers (singles gen coll is g (open_files tiers))"
  using singles_dataset [OF assms(1,2)] assms(3) by (auto simp: clean_dataset_def list_all_iff)

end

locale batch_source = tiered tiers for tiers +
  fixes gen :: "'i \<Rightarrow> 'g \<Rightarrow> (string list \<times> 'g) result"
    and body :: "string list \<Rightarrow> gen_run \<Rightarrow> gen_run result"
    and J :: "gen_run \<Rightarrow> bool"
    and good :: "'g \<Rightarrow> bool"
    and input :: "'i \<Rightarrow> bool"
    and P :: "string \<Rightarrow> bool"
  assumes gen_good: "good g \<Longrightarrow> input i \<Longrightarrow> \<exists>ds g'. gen i g = Inr (ds, g') \<and> list_all P ds \<and> good g'"
    and body_run: "run_inv tiers s \<Longrightarrow> J s \<Longrightarrow>
      \<exists>s'. body ds s = Inr s' \<and> run_inv tiers s' \<and> J s' \<and> set (data s') \<subseteq> set (data s) \<union> set ds"
    and J_open: "J (open_files tiers)"
begin

lemma batches_run:
  assumes "good g" and "list_all input is" and "run_inv tiers s" and "J s" and "list_all P (data s)"
  shows "\<exists>g' s'. batches gen body is g s = Inr (g', s') \<and> good g' \<and> run_inv tiers s' \<and> list_all P (data s')"
  using assms
proof (induction "is" arbitrary: g s)
  case (Cons i "is")
  show ?case
  proof (cases "stop s")
    case True
    with Cons.prems show ?thesis by auto
  next
    case False
    obtain ds g' where g': "gen i g = Inr (ds, g')" "list_all P ds" "good g'"
      using gen_good [of g i] Cons.prems(1,2) by auto
    obtain s' where s': "body ds s = Inr s'" "run_inv tiers s'" "J s'"
      "set (data s') \<subseteq> set (data s) \<union> set ds"
      using body_run [of s ds] Cons.prems(3,4) by blast
    then have "list_all P (data s')"
      using g'(2) Cons.prems(5) by (auto simp: list_all_iff)
    then show ?thesis
      using False g' s' Cons.IH [of g' s'] Cons.prems(2) by auto
  qed
qed auto

lemma batches_clean:
  assumes "good g" and "list_all input is" and "\<And>d. P d \<Longrightarrow> is_hostname d"
  shows "clean_dataset tiers (batches gen body is g (open_files tiers))"
  using batches_run [OF assms(1,2) open_files_inv J_open] assms(3)
  by (auto simp: clean_dataset_def list_all_iff open_files_def)

end

interpretation t1m: tiered tiers_1m
  by unfold_locales (simp_all add: tiers_1m_def)

interpretation t500k: tiered tiers_500k
  by unfold_locales (simp_all add: tiers_500k_def)

interpretation t100k: tiered tiers_100k
  by unfold_locales (simp_all add: tiers_100k_def)

interpretation t10k: tiered tiers_10k
  by unfold_locales (simp_all add: tiers_10k_def)

section \<open>Reference semantics\<close>

text \<open>
  What the files should hold: the distinct domains of the sequence, each at its first occurrence.
\<close>

fun add_all :: "string list \<Rightarrow> string list \<Rightarrow> string list" where
  "add_all xs [] = xs"
| "add_all xs (d # ds) = add_all (if d \<in> set xs then xs else xs @ [d]) ds"

definition uniq :: "string list \<Rightarrow> string list" where
  "uniq ds = add_all [] ds"

lemma take_add_all: "n \<le> length xs \<Longrightarrow> take n (add_all xs ds) = take n xs"
  by (induction ds arbitrary: xs) auto

lemma length_add_all: "length xs \<le> length (add_all xs ds)"
proof (induction ds arbitrary: xs)
  case (Cons d ds)
  show ?case using Cons.IH [of xs] Cons.IH [of "xs @ [d]"] by simp
qed simp

lemma distinct_add_all: "distinct xs \<Longrightarrow> distinct (add_all xs ds)"
  by (induction ds arbitrary: xs) auto

lemma set_add_all: "set (add_all xs ds) = set xs \<union> set ds"
  by (induction ds arbitrary: xs) auto

lemma distinct_uniq: "distinct (uniq ds)"
  by (simp add: uniq_def distinct_add_all)

lemma set_uniq: "set (uniq ds) = set ds"
  by (simp add: uniq_def set_add_all)

text \<open>The sequence of domains a generator makes from its inputs.\<close>

fun outputs :: "('i \<Rightarrow> 'g \<Rightarrow> (string \<times> 'g) result) \<Rightarrow> 'i list \<Rightarrow> 'g \<Rightarrow> string list result" where
  "outputs gen [] g = Inr []"
| "outputs gen (i # is) g =
     rbind (gen i g) (\<lambda>(d, g'). rbind (outputs gen is g') (\<lambda>ds. Inr (d # ds)))"

context tiered
begin

lemma singles_outputs:
  assumes "run_inv tiers s" and "\<not> stop s" and "outputs gen is g = Inr ds"
  shows "\<exists>g' s'. singles gen (on_collision ignore_collision) is g s = Inr (g', s') \<and> run_inv tiers s' \<and>
    data s' = take (Suc (last tiers)) (add_all (data s) ds) \<and>
    (stop s' \<longleftrightarrow> last tiers < length (add_all (data s) ds))"
  using assms
proof (induction "is" arbitrary: g s ds)
  case Nil
  then show ?case by (auto simp: run_inv_def)
next
  case (Cons i "is")
  obtain d g' ds' where g': "gen i g = Inr (d, g')" "outputs gen is g' = Inr ds'" "ds = d # ds'"
    using Cons.prems(3) by (auto simp: rbind_eq_Inr)
  have len: "length (data s) \<le> last tiers" and "\<not> closed s"
    using Cons.prems by (auto simp: run_inv_def)
  consider (dup) "d \<in> set (data s)" | (fits) "d \<notin> set (data s)" "length (data s) < last tiers"
    | (full) "d \<notin> set (data s)" "length (data s) = last tiers"
    using len by linarith
  then show ?case
  proof cases
    case dup
    then show ?thesis
      using Cons.IH [OF Cons.prems(1,2) g'(2)] Cons.prems g'
      by (simp add: add_domain_unfold on_collision_def ignore_collision_def)
  next
    case fits
    then show ?thesis
      using Cons.IH [OF grown_inv [OF Cons.prems(1) fits] _ g'(2)] Cons.prems \<open>\<not> closed s\<close> g'
      by (simp add: add_domain_unfold)
  next
    case full
    have "take (Suc (last tiers)) (add_all (data s @ [d]) ds') = data s @ [d]"
      using full by (simp add: take_add_all)
    moreover have "last tiers < length (add_all (data s @ [d]) ds')"
      using length_add_all [of "data s @ [d]" ds'] full by simp
    ultimately show ?thesis
      using full Cons.prems g' finished_inv [OF Cons.prems(1) full(1)]
      by (simp add: add_domain_unfold)
  qed
qed

text \<open>
  Starting from freshly opened files: each tier holds the first distinct domains of the sequence,
  and the program stops as soon as one more than the largest tier has been seen.
\<close>

lemma singles_reference:
  assumes "outputs gen is g = Inr ds"
  shows "\<exists>g' s. singles gen (on_collision ignore_collision) is g (open_files tiers) = Inr (g', s) \<and>
    files s = map (\<lambda>k. (k, take k (uniq ds))) tiers \<and>
    (stop s \<longleftrightarrow> last tiers < length (uniq ds))"
proof -
  have init: "\<not> stop (open_files tiers)" "data (open_files tiers) = []"
    by (simp_all add: open_files_def)
  obtain g' s where s: "singles gen (on_collision ignore_collision) is g (open_files tiers) = Inr (g', s)"
    "run_inv tiers s" "data s = take (Suc (last tiers)) (uniq ds)"
    "stop s \<longleftrightarrow> last tiers < length (uniq ds)"
    using singles_outputs [OF open_files_inv init(1) assms] init(2) by (auto simp: uniq_def)
  have "files s = map (\<lambda>k. (k, take k (uniq ds))) tiers"
    using s(2,3) tier_le_last by (auto simp: run_inv_def min_def dest: le_SucI)
  with s show ?thesis by blast
qed

end

section \<open>Properties\<close>

text \<open>An inner loop that starts with \<open>if stop: break\<close>, as most of the scripts have it, never raises,
  whatever the batch: from freshly opened files it keeps the tier invariant, and all it stores comes
  from the batch.\<close>

lemma checked_loop_safe:
  "\<exists>s. batch True (force_close m) Break ds (open_files tiers_1m) = Inr s \<and> run_inv tiers_1m s \<and>
     set (data s) \<subseteq> set ds"
  using t1m.batch_checked [of "force_close m" "open_files tiers_1m" Break ds] open_files_inv [of tiers_1m]
  by (simp add: run_inv_collisions open_files_def)

text \<open>Without that check, a loop that goes on after its files were closed by too many collisions raises
  ValueError at the next new domain.\<close>

lemma unchecked_loop_raises:
  assumes "run_inv tiers_1m s" and "stop s" and "length (data s) < 1000000" and "d \<notin> set (data s)"
  shows "batch False (force_close m) Break (d # ds) s = Inl ValueError"
  using t1m.batch_unchecked_raises [OF assms(1,2) _ assms(4), of "force_close m" Break ds] assms(3)
  by (simp add: tiers_1m_def)

lemma unchecked_loop_raises_example:
  "batch False (force_close 2) Break [''a'', ''a'', ''a'', ''b''] (open_files tiers_1m) = Inl ValueError"
proof -
  define s1 where "s1 = snd (force_close 2 (snd (force_close 2
    ((open_files tiers_1m)\<lparr>data := [''a''], counter := 1, files := map (\<lambda>k. (k, [''a''])) tiers_1m\<rparr>))))"
  have s1: "run_inv tiers_1m s1" "stop s1" "data s1 = [''a'']"
    by (simp_all add: s1_def force_close_def open_files_def run_inv_def tiers_1m_def)
  have "batch False (force_close 2) Break [''a'', ''a'', ''a'', ''b''] (open_files tiers_1m) =
      batch False (force_close 2) Break [''b''] s1"
    by (simp add: s1_def add_domain_def force_close_def open_files_def tiers_1m_def)
  also have "\<dots> = Inl ValueError" using unchecked_loop_raises [of s1 "''b''" 2 "[]"] s1 by simp
  finally show ?thesis .
qed

end
