(* ===== verification/Lcg.thy ===== *)
theory Lcg
  imports Py_Prelude
begin

text \<open>
  Linear congruential generators, the random number source of most of the modelled families, as an
  interface: a multiplier congruent to 1 modulo 4, an odd increment and a power of two as modulus.
  The client lemma is the period: the state comes back exactly after a multiple of the modulus, so
  the generator visits every residue before it repeats. The families interpret the locale with
  their constants. Below it, the loop that builds a string from repeated draws.
\<close>

section \<open>The period of a linear congruential generator\<close>

definition lcg_step :: "int \<Rightarrow> int \<Rightarrow> nat \<Rightarrow> int \<Rightarrow> int" where
  "lcg_step a c w x = (a * x + c) mod 2 ^ w"

text \<open>The sum of the first powers of the multiplier.\<close>

primrec geo :: "int \<Rightarrow> nat \<Rightarrow> int" where
  "geo a 0 = 0"
| "geo a (Suc n) = 1 + a * geo a n"

lemma geo_closed: "(a - 1) * geo a n = a ^ n - 1"
  by (induction n) (auto simp: algebra_simps)

lemma geo_add: "geo a (m + n) = geo a m + a ^ m * geo a n"
  by (induction m) (auto simp: algebra_simps)

lemma geo_double: "geo a (2 * m) = (1 + a ^ m) * geo a m"
  unfolding mult_2 geo_add by (simp add: algebra_simps)

lemma lcg_iter: "(lcg_step a c w ^^ n) x mod 2 ^ w = (a ^ n * x + c * geo a n) mod 2 ^ w"
proof (induction n)
  case (Suc n)
  have "(lcg_step a c w ^^ Suc n) x mod 2 ^ w = (a * ((lcg_step a c w ^^ n) x mod 2 ^ w) + c) mod 2 ^ w"
    by (simp add: lcg_step_def) (metis mod_add_left_eq mod_mult_right_eq)
  also have "\<dots> = (a * (a ^ n * x + c * geo a n) + c) mod 2 ^ w"
    unfolding Suc.IH by (metis mod_add_left_eq mod_mult_right_eq)
  also have "a * (a ^ n * x + c * geo a n) + c = a ^ Suc n * x + c * geo a (Suc n)"
    by (simp add: algebra_simps)
  finally show ?case .
qed simp

locale lcg =
  fixes a c :: int and w :: nat
  assumes mult_mod4: "a mod 4 = 1"
    and inc_odd: "odd c"
begin

lemma mult_odd: "odd a"
  using mult_mod4 by presburger

lemma pow_mod4: "a ^ m mod 4 = 1"
proof (induction m)
  case (Suc m)
  have "a ^ Suc m mod 4 = (a mod 4) * (a ^ m mod 4) mod 4" by (simp add: mod_mult_eq)
  then show ?case using Suc mult_mod4 by simp
qed simp

lemma geo_parity: "even (geo a n) \<longleftrightarrow> even n"
  by (induction n) (simp_all add: mult_odd)

lemma geo_dvd: "2 ^ k dvd geo a n \<longleftrightarrow> 2 ^ k dvd n"
proof (induction k arbitrary: n)
  case (Suc k)
  show ?case
  proof (cases "even n")
    case True
    then obtain m where m: "n = 2 * m" by blast
    obtain q where q: "1 + a ^ m = 2 * q" and "odd q"
    proof
      show "1 + a ^ m = 2 * ((1 + a ^ m) div 2)" and "odd ((1 + a ^ m) div 2)"
        using pow_mod4 [of m] by presburger+
    qed
    have cop: "coprime (2 ^ k) q" using \<open>odd q\<close> by simp
    have "2 ^ Suc k dvd geo a n \<longleftrightarrow> 2 ^ k dvd q * geo a m"
      by (simp add: m geo_double q mult.assoc)
    also have "\<dots> \<longleftrightarrow> 2 ^ k dvd geo a m"
      using cop by (simp add: coprime_dvd_mult_right_iff)
    also have "\<dots> \<longleftrightarrow> 2 ^ Suc k dvd n"
      by (simp add: m Suc.IH)
    finally show ?thesis .
  next
    case False
    then have "odd (geo a n)" by (simp add: geo_parity)
    with False show ?thesis
      by (metis dvd_mult_left power_Suc)
  qed
qed simp

lemma period:
  assumes "0 \<le> x" and "x < 2 ^ w"
  shows "(lcg_step a c w ^^ n) x = x \<longleftrightarrow> 2 ^ w dvd n"
proof -
  have range: "0 \<le> (lcg_step a c w ^^ n) x \<and> (lcg_step a c w ^^ n) x < 2 ^ w"
    using assms by (cases n) (auto simp: lcg_step_def)
  have "(lcg_step a c w ^^ n) x = x \<longleftrightarrow> (lcg_step a c w ^^ n) x mod 2 ^ w = x mod 2 ^ w"
    using range assms by simp
  also have "\<dots> \<longleftrightarrow> 2 ^ w dvd a ^ n * x + c * geo a n - x"
    by (simp add: lcg_iter mod_eq_dvd_iff)
  also have "a ^ n * x + c * geo a n - x = ((a - 1) * geo a n) * x + c * geo a n"
    unfolding geo_closed by (simp add: algebra_simps)
  also have "\<dots> = ((a - 1) * x + c) * geo a n"
    by (simp add: algebra_simps)
  also have "2 ^ w dvd \<dots> \<longleftrightarrow> 2 ^ w dvd geo a n"
    using mult_odd inc_odd by (intro coprime_dvd_mult_right_iff) simp
  finally show ?thesis by (simp add: geo_dvd)
qed

text \<open>No state comes up twice within one period.\<close>

lemma states_distinct:
  assumes "0 \<le> x" and "x < 2 ^ w" and "i < j" and "j < 2 ^ w + i"
  shows "(lcg_step a c w ^^ i) x \<noteq> (lcg_step a c w ^^ j) x"
proof
  assume eq: "(lcg_step a c w ^^ i) x = (lcg_step a c w ^^ j) x"
  define y where "y = (lcg_step a c w ^^ i) x"
  have y: "0 \<le> y" "y < 2 ^ w"
    using assms(1,2) by (cases i; simp add: y_def lcg_step_def)+
  have "(lcg_step a c w ^^ (j - i)) y = y"
    using eq assms(3) funpow_add [of "j - i" i "lcg_step a c w"] by (simp add: y_def)
  with y have "2 ^ w dvd j - i" by (simp add: period)
  with assms(3,4) show False
    by (metis add.commute dvd_imp_le less_diff_conv2 not_le zero_less_diff less_imp_le)
qed

text \<open>Hence every state is reached from every other, and the parity tells after how many steps.\<close>

lemma reaches:
  assumes "0 \<le> x" and "x < 2 ^ w" and "0 \<le> t" and "t < 2 ^ w"
  shows "\<exists>n < 2 ^ w. (lcg_step a c w ^^ n) x = t"
proof -
  define f where "f n = (lcg_step a c w ^^ n) x" for n
  have inj: "inj_on f {..<2 ^ w}"
  proof (rule linorder_inj_onI')
    fix i j :: nat assume "i \<in> {..<2 ^ w}" "j \<in> {..<2 ^ w}" "i < j"
    then show "f i \<noteq> f j" using states_distinct [OF assms(1,2), of i j] by (simp add: f_def)
  qed
  have sub: "f ` {..<2 ^ w} \<subseteq> {0..<2 ^ w}"
  proof (rule image_subsetI)
    fix n show "f n \<in> {0..<2 ^ w}" using assms(1,2) by (cases n) (simp_all add: f_def lcg_step_def)
  qed
  have "card (f ` {..<2 ^ w}) = card {0..<2 ^ w :: int}" using card_image [OF inj] by (simp add: nat_power_eq)
  then have "f ` {..<2 ^ w} = {0..<2 ^ w}" using sub by (intro card_subset_eq) simp_all
  then have "t \<in> f ` {..<2 ^ w}" using assms(3,4) by simp
  then show ?thesis by (auto simp: f_def)
qed

lemma parity:
  assumes "0 < w"
  shows "even ((lcg_step a c w ^^ n) x) \<longleftrightarrow> (even x \<longleftrightarrow> even n)"
proof (induction n)
  case (Suc n)
  have "even (y mod 2 ^ w) = even y" for y :: int using assms by (simp add: dvd_mod_iff)
  then show ?case using Suc mult_odd inc_odd by (simp add: lcg_step_def)
qed simp

end

section \<open>Building a string from repeated draws\<close>

fun repeat_chars :: "nat \<Rightarrow> ('g \<Rightarrow> char \<times> 'g) \<Rightarrow> 'g \<Rightarrow> string \<times> 'g" where
  "repeat_chars 0 f g = ([], g)"
| "repeat_chars (Suc n) f g =
     (let (c, g1) = f g; (cs, g2) = repeat_chars n f g1 in (c # cs, g2))"

lemma length_repeat_chars [simp]: "length (fst (repeat_chars n f g)) = n"
  by (induction n arbitrary: g) (auto simp: case_prod_beta Let_def)

lemma repeat_chars_invariant:
  assumes "\<And>g. I g \<Longrightarrow> Q (fst (f g)) \<and> I (snd (f g))" and "I g"
  shows "list_all Q (fst (repeat_chars n f g)) \<and> I (snd (repeat_chars n f g))"
  using assms(2) by (induction n arbitrary: g) (auto simp: case_prod_beta Let_def assms(1))

lemma repeat_chars_all:
  "(\<And>g. Q (fst (f g))) \<Longrightarrow> list_all Q (fst (repeat_chars n f g))"
  using repeat_chars_invariant [of "\<lambda>_. True" Q f g n] by simp

lemma repeat_chars_empty [simp]: "fst (repeat_chars n f g) = [] \<longleftrightarrow> n = 0"
  by (metis length_0_conv length_repeat_chars)

lemma repeat_chars_label [hostname_intros]:
  assumes "\<And>g. is_az (fst (f g))" and "0 < n" and "n \<le> 63"
  shows "is_label (fst (repeat_chars n f g))"
  by (rule is_label_az) (use assms in \<open>auto intro: repeat_chars_all\<close>)

lemma repeat_chars_hostname [hostname_intros]:
  assumes "\<And>g. is_az (fst (f g))" and "0 < n" and "n \<le> 63" and "is_suffix t"
  shows "is_hostname (fst (repeat_chars n f g) @ CHR ''.'' # t)"
  using assms by (intro is_hostname_label_suffix repeat_chars_label)

text \<open>
  The same generators with the state kept in a C \<open>int\<close>: one step of the C state is one step of the
  residue, so the period carries over.
\<close>

lemma c_int_lcg_iter:
  "((\<lambda>r. c_int (a * r + c)) ^^ n) x mod 2 ^ 32 = (lcg_step a c 32 ^^ n) (x mod 2 ^ 32)"
proof (induction n)
  case (Suc n)
  have "((\<lambda>r. c_int (a * r + c)) ^^ Suc n) x mod 2 ^ 32 = (a * ((\<lambda>r. c_int (a * r + c)) ^^ n) x + c) mod 2 ^ 32"
    by (simp add: c_int_mod [simplified])
  also have "\<dots> = (a * (((\<lambda>r. c_int (a * r + c)) ^^ n) x mod 2 ^ 32) + c) mod 2 ^ 32"
    by (metis mod_add_left_eq mod_mult_right_eq)
  also have "\<dots> = lcg_step a c 32 (((\<lambda>r. c_int (a * r + c)) ^^ n) x mod 2 ^ 32)"
    by (simp only: lcg_step_def)
  finally show ?case by (simp only: Suc.IH funpow.simps comp_def)
qed simp

lemma c_int_lcg_range:
  assumes "- (2 ^ 31) \<le> x" and "x < 2 ^ 31"
  shows "((\<lambda>r. c_int (a * r + c)) ^^ n) x = c_int (((\<lambda>r. c_int (a * r + c)) ^^ n) x)"
proof (cases n)
  case 0
  then show ?thesis using assms by (simp add: c_int_id)
next
  case (Suc m)
  then show ?thesis using c_int_mod by (simp add: c_int_cong)
qed

context lcg
begin

lemma c_int_period:
  assumes "w = 32" and "- (2 ^ 31) \<le> x" and "x < 2 ^ 31"
  shows "((\<lambda>r. c_int (a * r + c)) ^^ n) x = x \<longleftrightarrow> 2 ^ 32 dvd n"
proof -
  have "((\<lambda>r. c_int (a * r + c)) ^^ n) x = x \<longleftrightarrow>
      c_int (((\<lambda>r. c_int (a * r + c)) ^^ n) x) = c_int x"
    using c_int_lcg_range [OF assms(2,3)] c_int_id [OF assms(2,3)] by metis
  also have "\<dots> \<longleftrightarrow> (lcg_step a c 32 ^^ n) (x mod 2 ^ 32) = x mod 2 ^ 32"
    by (simp only: c_int_cong c_int_lcg_iter)
  also have "\<dots> \<longleftrightarrow> 2 ^ 32 dvd n"
    using period [of "x mod 2 ^ 32" n] assms(1) by simp
  finally show ?thesis .
qed

end

end
