(* ===== verification/Gen_Lcg.thy ===== *)
theory Gen_Lcg
  imports Dataset_Driver Lcg Py_Dates
begin

text \<open>
  The generators driven by a linear congruential generator that make one domain per iteration:
  alureon-dnschanger, corebot, fobber (two versions), vawtrak (three versions), ramdo and ramnit.
  For each: its random number source and its \<open>dga\<close> function, its main program over the shared
  driver, and that every run completes and writes well-formed host names only.
\<close>

lemma suffix_com: "is_suffix ''com''"
  by code_simp

lemma suffix_net: "is_suffix ''net''"
  by code_simp

lemma suffix_ddns: "is_suffix ''ddns.net''"
  by code_simp

lemma suffix_top: "is_suffix ''top''"
  by code_simp

lemma suffix_org: "is_suffix ''org''"
  by code_simp

lemmas common_suffixes = suffix_com suffix_net suffix_ddns suffix_top suffix_org

section \<open>alureon-dnschanger\<close>

text \<open>Class \<open>Rand\<close>: the state is a C \<open>int\<close>.\<close>

definition alureon_rand :: "int \<Rightarrow> int \<times> int" where
  "alureon_rand r = (let r' = c_int (214013 * r + 2531011) in ((drop_bit 16 r') AND 0x7FFF, r'))"

definition alureon_randint :: "int \<Rightarrow> int \<Rightarrow> int \<Rightarrow> int \<times> int" where
  "alureon_randint lower upper r =
     (let (v, r') = alureon_rand r in (lower + v mod (upper - lower + 1), r'))"

definition alureon_dga :: "int \<Rightarrow> string \<times> int" where
  "alureon_dga r =
     (let (sld, r') = repeat_chars 10 (\<lambda>r. let (v, r') = alureon_randint 97 122 r in (chr v, r')) r
      in (sld @ ''.com'', r'))"

text \<open>The random date of each iteration is computed and not used.\<close>

definition alureon_main :: "datetime list \<Rightarrow> (int \<times> gen_run) result" where
  "alureon_main dates =
     singles (\<lambda>_ r. Inr (alureon_dga r)) (on_collision ignore_collision) dates 521496385
       (open_files tiers_1m)"

lemma alureon_randint_az: "is_az (chr (fst (alureon_randint 97 122 r)))"
  by (simp add: alureon_randint_def case_prod_beta hostname_intros)

lemma alureon_dga_hostname: "is_hostname (fst (alureon_dga r))"
  using repeat_chars_hostname [of "\<lambda>r. let (v, r') = alureon_randint 97 122 r in (chr v, r')" 10 "''com''" r]
    alureon_randint_az suffix_com
  by (simp add: alureon_dga_def case_prod_beta)

interpretation alureon: lcg 214013 2531011 32
  by unfold_locales simp_all

interpretation alureon_run: single_source tiers_1m "\<lambda>(_::datetime) r. Inr (alureon_dga r)"
  "on_collision ignore_collision" "\<lambda>_. True" "\<lambda>_. True" is_hostname
proof unfold_locales
  fix g :: int
  show "\<exists>d g'. Inr (alureon_dga g) = (Inr (d, g') :: (string \<times> int) result) \<and> is_hostname d \<and> True"
    using alureon_dga_hostname [of g] by (metis prod.collapse)
qed (simp_all add: on_collision_def run_inv_collisions)

lemma alureon_main_clean: "clean_dataset tiers_1m (alureon_main dates)"
  unfolding alureon_main_def by (rule alureon_run.singles_clean) (simp_all add: list_all_iff)

section \<open>corebot\<close>

definition corebot_charset :: string where
  "corebot_charset = map chr [97..121] @ map chr [48..56]"

definition init_rand_and_chars :: "int \<Rightarrow> int \<Rightarrow> int \<Rightarrow> int \<Rightarrow> int \<Rightarrow> string \<times> int" where
  "init_rand_and_chars y m d nr_b r =
     (corebot_charset,
      (r + y + ((push_bit 16 nr_b + push_bit 8 m) OR d)) AND 0xFFFFFFFF)"

text \<open>The loop draws \<open>domain_len\<close> characters; an empty character set makes \<open>r % 0\<close> raise.\<close>

definition corebot_generate_domain :: "string \<Rightarrow> int \<Rightarrow> string result" where
  "corebot_generate_domain charset r =
     (let r1 = (1664525 * r + 1013904223) AND 0xFFFFFFFF;
          domain_len = 0xC + r1 mod (0x18 - 0xC)
      in if charset = [] then Inl ZeroDivisionError
         else Inr (fst (repeat_chars (nat domain_len)
                (\<lambda>r. let r' = (1664525 * r + 1013904223) AND 0xFFFFFFFF in (pick charset r', r')) r1)
              @ ''.ddns.net''))"

definition corebot_gen :: "datetime \<times> int \<Rightarrow> unit \<Rightarrow> (string \<times> unit) result" where
  "corebot_gen i g =
     (let (d, rnd) = i; (charset, r) = init_rand_and_chars (year d) (month d) (day d) 1 rnd
      in rbind (corebot_generate_domain charset r) (\<lambda>domain. Inr (domain, ())))"

definition corebot_main :: "(datetime \<times> int) list \<Rightarrow> (unit \<times> gen_run) result" where
  "corebot_main is = singles corebot_gen (on_collision ignore_collision) is () (open_files tiers_1m)"

lemma corebot_charset_alnum: "list_all is_alnum corebot_charset"
  by code_simp

lemma corebot_charset_not_Nil: "corebot_charset \<noteq> []"
  by code_simp

lemma corebot_generate_domain_hostname:
  "\<exists>l. corebot_generate_domain corebot_charset r = Inr (l @ ''.ddns.net'') \<and> 12 \<le> length l \<and> length l \<le> 23 \<and>
    is_hostname (l @ ''.ddns.net'')"
proof -
  define r1 where "r1 = (1664525 * r + 1013904223) AND 0xFFFFFFFF"
  define n where "n = nat (12 + r1 mod 12)"
  define l where "l = fst (repeat_chars n
    (\<lambda>r. let r' = (1664525 * r + 1013904223) AND 0xFFFFFFFF in (pick corebot_charset r', r')) r1)"
  have n: "12 \<le> n" "n \<le> 23" by (simp_all add: n_def)
  have "list_all is_alnum l"
    unfolding l_def
    by (rule repeat_chars_all) (simp add: Let_def pick_all corebot_charset_alnum corebot_charset_not_Nil)
  then have "is_label l"
    using n by (intro is_label_alnum) (auto simp: l_def)
  then have "is_hostname (l @ ''.ddns.net'')"
    using is_hostname_label_suffix [OF _ suffix_ddns] by simp
  moreover have "corebot_generate_domain corebot_charset r = Inr (l @ ''.ddns.net'')"
    by (simp add: corebot_generate_domain_def Let_def corebot_charset_not_Nil l_def n_def r1_def)
  ultimately show ?thesis using n by (intro exI [of _ l]) (simp add: l_def)
qed

interpretation corebot: lcg 1664525 1013904223 32
  by unfold_locales simp_all

interpretation corebot_run: single_source tiers_1m corebot_gen
  "on_collision ignore_collision" "\<lambda>_. True" "\<lambda>_. True" is_hostname
proof unfold_locales
  fix g :: unit and i :: "datetime \<times> int"
  obtain d rnd where i: "i = (d, rnd)" by (cases i)
  show "\<exists>d g'. corebot_gen i g = Inr (d, g') \<and> is_hostname d \<and> True"
    using corebot_generate_domain_hostname
      [of "snd (init_rand_and_chars (year d) (month d) (day d) 1 rnd)"]
    by (auto simp: corebot_gen_def i init_rand_and_chars_def)
qed (simp_all add: on_collision_def run_inv_collisions)

lemma corebot_main_clean: "clean_dataset tiers_1m (corebot_main is)"
  unfolding corebot_main_def by (rule corebot_run.singles_clean) (simp_all add: list_all_iff)

section \<open>fobber\<close>

definition ror32 :: "int \<Rightarrow> nat \<Rightarrow> int" where
  "ror32 v n = (drop_bit n v OR push_bit (32 - n) v) AND 0xFFFFFFFF"

definition fobber_step :: "int \<Rightarrow> int \<Rightarrow> int" where
  "fobber_step c r = ror32 ((321167 * r + c) AND 0xFFFFFFFF) 16"

definition fobber_next_domain :: "int \<Rightarrow> int \<Rightarrow> nat \<Rightarrow> string \<Rightarrow> int \<times> string" where
  "fobber_next_domain r c l tld =
     (let (s, r') = repeat_chars l
            (\<lambda>r. let r' = fobber_step c r in (chr ((r' AND 0x17FF) mod 26 + 97), r')) r
      in (r', s @ tld))"

text \<open>The two main programs differ in the start value, the increment, the length and the suffix.\<close>

definition fobber_v1_main :: "datetime list \<Rightarrow> (int \<times> gen_run) result" where
  "fobber_v1_main dates =
     singles (\<lambda>_ r. let (r', domain) = fobber_next_domain r (-1719405398) 17 ''.net'' in Inr (domain, r'))
       (on_collision ignore_collision) dates 0xC87C8A78 (open_files tiers_1m)"

definition fobber_v2_main :: "datetime list \<Rightarrow> (int \<times> gen_run) result" where
  "fobber_v2_main dates =
     singles (\<lambda>_ r. let (r', domain) = fobber_next_domain r (-1916503263) 10 ''.com'' in Inr (domain, r'))
       (on_collision ignore_collision) dates 0x851A3E59 (open_files tiers_1m)"

lemma fobber_next_domain_hostname:
  assumes "0 < l" and "l \<le> 63" and "is_suffix t"
  shows "is_hostname (snd (fobber_next_domain r c l (CHR ''.'' # t)))"
  using repeat_chars_hostname [of "\<lambda>r. let r' = fobber_step c r in (chr ((r' AND 0x17FF) mod 26 + 97), r')" l t r]
    assms by (simp add: fobber_next_domain_def case_prod_beta Let_def is_az_chr_mod')

lemma fobber_source:
  assumes "0 < l" and "l \<le> 63" and "is_suffix t"
  shows "\<exists>d g'. (let (r', domain) = fobber_next_domain r c l (CHR ''.'' # t) in Inr (domain, r')) =
    (Inr (d, g') :: (string \<times> int) result) \<and> is_hostname d \<and> True"
  using fobber_next_domain_hostname [OF assms] by (auto simp: case_prod_beta)

interpretation fobber_v1_run: single_source tiers_1m
  "\<lambda>(_::datetime) r. let (r', domain) = fobber_next_domain r (-1719405398) 17 ''.net'' in Inr (domain, r')"
  "on_collision ignore_collision" "\<lambda>_. True" "\<lambda>_. True" is_hostname
  by unfold_locales (rule fobber_source,
      simp_all add: common_suffixes on_collision_def run_inv_collisions)

interpretation fobber_v2_run: single_source tiers_1m
  "\<lambda>(_::datetime) r. let (r', domain) = fobber_next_domain r (-1916503263) 10 ''.com'' in Inr (domain, r')"
  "on_collision ignore_collision" "\<lambda>_. True" "\<lambda>_. True" is_hostname
  by unfold_locales (rule fobber_source,
      simp_all add: common_suffixes on_collision_def run_inv_collisions)

lemma fobber_main_clean:
  "clean_dataset tiers_1m (fobber_v1_main dates)" "clean_dataset tiers_1m (fobber_v2_main dates)"
  unfolding fobber_v1_main_def fobber_v2_main_def
  by (rule fobber_v1_run.singles_clean fobber_v2_run.singles_clean; simp add: list_all_iff)+

text \<open>The rotation is the rotation of 32-bit words.\<close>

lemma ror32_rotr:
  assumes "0 \<le> v" and "v < 2 ^ 32" and "n \<le> 32"
  shows "ror32 v n = uint (word_rotr n (word_of_int v :: 32 word))"
proof (rule bit_eqI)
  fix i :: nat
  have small: "\<not> bit v k" if "32 \<le> k" for k
    using assms(1,2) that
    by (metis bit_take_bit_iff leD take_bit_int_eq_self)
  have wrap: "(i + n) mod 32 = (if i + n < 32 then i + n else i + n - 32)" if "i < 32"
    using assms(3) that by (simp add: mod_if)
  have mask: "ror32 v n = take_bit 32 (drop_bit n v OR push_bit (32 - n) v)"
    by (simp add: ror32_def and_masks take_bit_eq_mod)
  show "bit (ror32 v n) i = bit (uint (word_rotr n (word_of_int v :: 32 word))) i"
  proof (cases "i < 32")
    case True
    have "bit (ror32 v n) i \<longleftrightarrow> bit v (i + n) \<or> 32 - n \<le> i \<and> bit v (i - (32 - n))"
      using True by (simp add: mask bit_take_bit_iff bit_or_iff bit_drop_bit_eq bit_push_bit_iff add.commute)
    also have "\<dots> \<longleftrightarrow> bit v ((i + n) mod 32)"
      using True small [of "i + n"] assms(3) by (auto simp: wrap)
    also have "\<dots> \<longleftrightarrow> bit (uint (word_rotr n (word_of_int v :: 32 word))) i"
      using True by (simp add: bit_uint_iff bit_word_rotr_iff bit_word_of_int_iff)
    finally show ?thesis .
  next
    case False
    then show ?thesis by (simp add: mask bit_take_bit_iff bit_or_iff bit_uint_iff)
  qed
qed

section \<open>ramdo\<close>

fun ramdo_loop :: "nat \<Rightarrow> int \<Rightarrow> int \<Rightarrow> nat \<Rightarrow> string" where
  "ramdo_loop 0 s r i = []"
| "ramdo_loop (Suc n) s r i =
     (let r1 = r AND 0xFFFFFFFF
      in chr (r1 mod 26 + 97) # ramdo_loop n s (r1 + (r1 XOR (s * int i ^ 2 * 26))) (i + 1))"

definition ramdo_dga :: "int \<Rightarrow> int \<Rightarrow> string" where
  "ramdo_dga seed nr =
     (let s = 2 * seed * (nr + 1); r = s XOR (26 * seed * nr)
      in ramdo_loop 16 s r 0 @ ''.org'')"

definition ramdo_main :: "(int \<times> int) list \<Rightarrow> (unit \<times> gen_run) result" where
  "ramdo_main is =
     singles (\<lambda>(seed, nr) _. Inr (ramdo_dga seed nr, ())) (on_collision (force_close 10)) is ()
       (open_files tiers_1m)"

lemma ramdo_loop_az: "list_all is_az (ramdo_loop n s r i)"
  by (induction n s r i rule: ramdo_loop.induct) (simp_all add: Let_def is_az_chr_mod')

lemma length_ramdo_loop: "length (ramdo_loop n s r i) = n"
  by (induction n s r i rule: ramdo_loop.induct) (simp_all add: Let_def)

lemma ramdo_dga_hostname: "is_hostname (ramdo_dga seed nr)"
proof -
  have "is_label (ramdo_loop 16 s r 0)" for s r
    by (rule is_label_az_length [OF ramdo_loop_az length_ramdo_loop]) simp_all
  then show ?thesis
    using is_hostname_label_suffix [OF _ suffix_org] by (simp add: ramdo_dga_def Let_def)
qed

interpretation ramdo_run: single_source tiers_1m "\<lambda>(seed, nr) (_::unit). Inr (ramdo_dga seed nr, ())"
  "on_collision (force_close 10)" "\<lambda>_. True" "\<lambda>_. True" is_hostname
  by unfold_locales
    (auto simp: ramdo_dga_hostname on_collision_def run_inv_collisions split: prod.splits)

lemma ramdo_main_clean: "clean_dataset tiers_1m (ramdo_main is)"
  unfolding ramdo_main_def by (rule ramdo_run.singles_clean) (simp_all add: list_all_iff)

section \<open>vawtrak, version 1\<close>

definition vawtrak_v1_rand :: "int \<Rightarrow> int" where
  "vawtrak_v1_rand r = c_uint (r * 1103515245 + 12345) AND 0x7FFFFFFF"

definition vawtrak_v1_dga :: "int \<Rightarrow> string \<times> int" where
  "vawtrak_v1_dga r =
     (let r1 = vawtrak_v1_rand r; len = r1 mod 5 + 7;
          (s, r2) = repeat_chars (nat len)
            (\<lambda>r. let r' = vawtrak_v1_rand r in (chr (r' mod 26 + 97), r')) r1
      in (s @ ''.top'', r2))"

text \<open>Each iteration makes a fresh \<open>Rand\<close> from a random seed.\<close>

definition vawtrak_v1_main :: "int list \<Rightarrow> (unit \<times> gen_run) result" where
  "vawtrak_v1_main seeds =
     singles (\<lambda>seed _. Inr (fst (vawtrak_v1_dga (c_uint seed)), ())) (on_collision (force_close 10))
       seeds () (open_files tiers_1m)"

lemma vawtrak_v1_hostname: "is_hostname (fst (vawtrak_v1_dga r))"
proof -
  have n: "0 < nat (vawtrak_v1_rand r mod 5 + 7)" "nat (vawtrak_v1_rand r mod 5 + 7) \<le> 63"
    using pos_mod_sign [of 5 "vawtrak_v1_rand r"] pos_mod_bound [of 5 "vawtrak_v1_rand r"] by simp_all
  show ?thesis
    using repeat_chars_hostname [OF _ n suffix_top,
        of "\<lambda>r. let r' = vawtrak_v1_rand r in (chr (r' mod 26 + 97), r')" "vawtrak_v1_rand r"]
    by (simp add: vawtrak_v1_dga_def Let_def case_prod_beta is_az_chr_mod')
qed

interpretation vawtrak_v1: lcg 1103515245 12345 31
  by unfold_locales simp_all

interpretation vawtrak_v1_run: single_source tiers_1m
  "\<lambda>seed (_::unit). Inr (fst (vawtrak_v1_dga (c_uint seed)), ())"
  "on_collision (force_close 10)" "\<lambda>_. True" "\<lambda>_. True" is_hostname
  by unfold_locales (auto simp: vawtrak_v1_hostname on_collision_def run_inv_collisions)

lemma vawtrak_v1_main_clean: "clean_dataset tiers_1m (vawtrak_v1_main seeds)"
  unfolding vawtrak_v1_main_def by (rule vawtrak_v1_run.singles_clean) (simp_all add: list_all_iff)

section \<open>vawtrak, versions 2 and 3\<close>

definition vawtrak_prng :: "int \<Rightarrow> int" where
  "vawtrak_prng r = c_int ((1103515245 * r + 12345) mod 2 ^ 31)"

definition vawtrak_consonants :: string where
  "vawtrak_consonants = ''cdfghlmnrstw''"

definition vawtrak_vowels :: string where
  "vawtrak_vowels = ''aeiou''"

text \<open>
  The loop that builds the name: \<open>p\<close> consonants, then a vowel, then a new \<open>p\<close>. The addition is
  stored in a C \<open>int\<close>; the versions differ in \<open>inc\<close> (2 and 0x1895120F).
\<close>

fun vawtrak_letters :: "int \<Rightarrow> nat \<Rightarrow> int \<Rightarrow> int \<Rightarrow> string \<times> int" where
  "vawtrak_letters inc 0 p r = ([], r)"
| "vawtrak_letters inc (Suc n) p r =
     (let tmp = vawtrak_prng (c_int (r + inc)) in
      if p \<noteq> 0 then
        let (cs, r') = vawtrak_letters inc n (p - 1) tmp in (pick vawtrak_consonants tmp # cs, r')
      else
        let r2 = vawtrak_prng tmp; (cs, r') = vawtrak_letters inc n (r2 mod 2 + 1) r2
        in (pick vawtrak_vowels tmp # cs, r'))"

definition vawtrak_dga :: "int \<Rightarrow> int \<Rightarrow> string \<times> int" where
  "vawtrak_dga inc r =
     (let r1 = vawtrak_prng r; len = r1 mod 5 + 7; r2 = vawtrak_prng r1; p = r2 mod 2;
          (s, r3) = vawtrak_letters inc (nat len) p r2
      in (s @ ''.com'', r3))"

text \<open>The main program picks one of two seed records and advances it in place.\<close>

definition vawtrak_gen :: "int \<Rightarrow> nat \<Rightarrow> int list \<Rightarrow> (string \<times> int list) result" where
  "vawtrak_gen inc k rs =
     (if k < length rs then let (d, r') = vawtrak_dga inc (rs ! k) in Inr (d, rs[k := r'])
      else Inl KeyError)"

definition vawtrak_v2_main :: "nat list \<Rightarrow> (int list \<times> gen_run) result" where
  "vawtrak_v2_main ks =
     singles (vawtrak_gen 2) (on_collision (force_close 10)) ks [5587634, 1485095876] (open_files tiers_1m)"

definition vawtrak_v3_main :: "nat list \<Rightarrow> (int list \<times> gen_run) result" where
  "vawtrak_v3_main ks =
     singles (vawtrak_gen 0x1895120F) (on_collision (force_close 10)) ks [0x874c49, 0x874c49]
       (open_files tiers_1m)"

lemma vawtrak_letters_az: "list_all is_az (fst (vawtrak_letters inc n p r))"
proof (induction inc n p r rule: vawtrak_letters.induct)
  case (2 inc n p r)
  have "list_all is_az vawtrak_consonants" "list_all is_az vawtrak_vowels"
    "vawtrak_consonants \<noteq> []" "vawtrak_vowels \<noteq> []" by code_simp+
  then show ?case using 2 by (simp add: Let_def case_prod_beta pick_all)
qed simp

lemma length_vawtrak_letters [simp]: "length (fst (vawtrak_letters inc n p r)) = n"
  by (induction inc n p r rule: vawtrak_letters.induct) (simp_all add: Let_def case_prod_beta)

lemma vawtrak_dga_hostname: "is_hostname (fst (vawtrak_dga inc r))"
proof -
  define n where "n = nat (vawtrak_prng r mod 5 + 7)"
  have n: "0 < n" "n \<le> 63"
    using pos_mod_sign [of 5 "vawtrak_prng r"] pos_mod_bound [of 5 "vawtrak_prng r"]
    by (simp_all add: n_def)
  have "is_label (fst (vawtrak_letters inc n p r'))" for p r'
    using n by (intro is_label_az_length [OF vawtrak_letters_az length_vawtrak_letters])
  then show ?thesis
    using is_hostname_label_suffix [OF _ suffix_com]
    by (simp add: vawtrak_dga_def Let_def case_prod_beta flip: n_def)
qed

lemma vawtrak_source:
  "length rs = 2 \<Longrightarrow> k < 2 \<Longrightarrow>
    \<exists>d g'. vawtrak_gen inc k rs = Inr (d, g') \<and> is_hostname d \<and> length g' = 2"
  using vawtrak_dga_hostname [of inc "rs ! k"] by (simp add: vawtrak_gen_def case_prod_beta)

interpretation vawtrak_v2_run: single_source tiers_1m "vawtrak_gen 2"
  "on_collision (force_close 10)" "\<lambda>rs. length rs = 2" "\<lambda>k. k < 2" is_hostname
  by unfold_locales (auto simp: vawtrak_source on_collision_def run_inv_collisions)

interpretation vawtrak_v3_run: single_source tiers_1m "vawtrak_gen 0x1895120F"
  "on_collision (force_close 10)" "\<lambda>rs. length rs = 2" "\<lambda>k. k < 2" is_hostname
  by unfold_locales (auto simp: vawtrak_source on_collision_def run_inv_collisions)

lemma vawtrak_main_clean:
  assumes "list_all (\<lambda>k. k < 2) ks"
  shows "clean_dataset tiers_1m (vawtrak_v2_main ks)" "clean_dataset tiers_1m (vawtrak_v3_main ks)"
  unfolding vawtrak_v2_main_def vawtrak_v3_main_def
  by (rule vawtrak_v2_run.singles_clean vawtrak_v3_run.singles_clean; use assms in simp)+

section \<open>ramnit\<close>

definition rand_int_modulus :: "int \<Rightarrow> int \<Rightarrow> int \<times> int" where
  "rand_int_modulus modulus ix =
     (let ix' = (16807 * (ix mod 127773) - 2836 * (ix div 127773)) AND 0xFFFFFFFF
      in (ix' mod modulus, ix'))"

definition ramnit_get_domain :: "string \<Rightarrow> int \<Rightarrow> string \<times> int" where
  "ramnit_get_domain tld value =
     (let seed_a = value;
          (v, value1) = rand_int_modulus 12 value; domain_len = v + 8;
          seed_b = value1;
          (domain, _) = repeat_chars (nat domain_len)
            (\<lambda>x. let (v, x') = rand_int_modulus 25 x in (chr (97 + v), x')) value1;
          m = seed_a * seed_b
      in (domain @ (if take 1 tld \<noteq> ''.'' then ''.'' else []) @ tld, (m + m div 2 ^ 32) mod 2 ^ 32))"

definition ramnit_seeds :: "int list" where
  "ramnit_seeds = [
      4011936703, 675843818, 1274854506, 2031459344, 2465513013, 1124253770,
      1378321992, 2538799770, 790544302, 1124253770, 1108585239, 1458440109,
      2039546858, 2435699865, 2695420049, 2960547961, 3738229229, 3801515385,
      3815882521, 3998246919, 4040478694, 4096376725, 4205202272, 57607789,
      697527549, 742724187, 2031459344, 1823844313, 3750708132, 3245545401,
      1690227383, 3489430955, 1274854506, 1321735650, 1526939975, 1499543098,
      113381493, 675843818, 840290331, 1617769919, 2391944259, 376310571]"

text \<open>
  The only entry of \<open>tlds\<close> is \<open>.com\<close>. An iteration's input is the seed index it would draw if its
  domain collides; the run starts from a drawn seed too.
\<close>

definition ramnit_collision :: "nat \<Rightarrow> int \<Rightarrow> gen_run \<Rightarrow> int \<times> gen_run" where
  "ramnit_collision k value s = (ramnit_seeds ! k, snd (force_close 10 s))"

definition ramnit_main :: "nat \<Rightarrow> nat list \<Rightarrow> (int \<times> gen_run) result" where
  "ramnit_main k0 ks =
     singles (\<lambda>_ value. Inr (ramnit_get_domain ''.com'' value)) ramnit_collision ks (ramnit_seeds ! k0)
       (open_files tiers_1m)"

lemma ramnit_get_domain_hostname: "is_hostname (fst (ramnit_get_domain ''.com'' value))"
proof -
  define n where "n = nat (fst (rand_int_modulus 12 value) + 8)"
  have n: "0 < n" "n \<le> 63" by (simp_all add: n_def rand_int_modulus_def Let_def)
  show ?thesis
    using repeat_chars_hostname [OF _ n suffix_com,
        of "\<lambda>x. let (v, x') = rand_int_modulus 25 x in (chr (97 + v), x')" "snd (rand_int_modulus 12 value)"]
    by (simp add: ramnit_get_domain_def Let_def case_prod_beta is_az_chr_mod n_def [symmetric])
      (simp add: rand_int_modulus_def Let_def is_az_chr_mod)
qed

interpretation ramnit_run: single_source tiers_1m "\<lambda>_ value. Inr (ramnit_get_domain ''.com'' value)"
  ramnit_collision "\<lambda>_. True" "\<lambda>_. True" is_hostname
proof unfold_locales
  fix g :: int
  show "\<exists>d g'. Inr (ramnit_get_domain ''.com'' g) = (Inr (d, g') :: (string \<times> int) result) \<and> is_hostname d \<and> True"
    using ramnit_get_domain_hostname [of g] by (metis prod.collapse)
qed (simp_all add: ramnit_collision_def run_inv_collisions)

lemma ramnit_main_clean: "clean_dataset tiers_1m (ramnit_main k0 ks)"
  unfolding ramnit_main_def by (rule ramnit_run.singles_clean) (simp_all add: list_all_iff)

section \<open>Pronounceable names\<close>

text \<open>No two vowels in a row and at most two consonants in a row: \<open>j\<close> more consonants may come, a vowel if \<open>v\<close>.\<close>

fun pronounceable :: "nat \<Rightarrow> bool \<Rightarrow> string \<Rightarrow> bool" where
  "pronounceable j v [] = True"
| "pronounceable j v (c # cs) =
     (if c \<in> set vawtrak_vowels then v \<and> pronounceable 2 False cs else 0 < j \<and> pronounceable (j - 1) True cs)"

lemma vawtrak_pick:
  "pick vawtrak_vowels r \<in> set vawtrak_vowels" "pick vawtrak_consonants r \<notin> set vawtrak_vowels"
proof -
  have "list_all (\<lambda>c. c \<notin> set vawtrak_vowels) vawtrak_consonants" by code_simp
  then show "pick vawtrak_consonants r \<notin> set vawtrak_vowels" by (rule pick_all) (simp add: vawtrak_consonants_def)
  show "pick vawtrak_vowels r \<in> set vawtrak_vowels" by (rule pick_in_set) (simp add: vawtrak_vowels_def)
qed

lemma vawtrak_letters_pronounceable:
  "0 \<le> p \<Longrightarrow> nat p \<le> j \<Longrightarrow> j \<le> 2 \<Longrightarrow> (p = 0 \<Longrightarrow> v) \<Longrightarrow> pronounceable j v (fst (vawtrak_letters inc n p r))"
proof (induction inc n p r arbitrary: j v rule: vawtrak_letters.induct)
  case (2 inc n p r)
  define tmp where "tmp = vawtrak_prng (c_int (r + inc))"
  define p' where "p' = vawtrak_prng tmp mod 2 + 1"
  have p': "0 < p'" "p' \<le> 2"
    using pos_mod_sign [of 2 "vawtrak_prng tmp"] pos_mod_bound [of 2 "vawtrak_prng tmp"] by (simp_all add: p'_def)
  show ?case
  proof (cases "p = 0")
    case True
    then have "pronounceable 2 False (fst (vawtrak_letters inc n p' (vawtrak_prng tmp)))"
      using "2.IH"(2) [OF tmp_def _ refl, of 2 False] p' by (simp add: p'_def)
    then show ?thesis
      using True "2.prems" by (simp add: Let_def case_prod_beta vawtrak_pick tmp_def p'_def)
  next
    case False
    then have "pronounceable (j - 1) True (fst (vawtrak_letters inc n (p - 1) tmp))"
      using "2.prems" by (intro "2.IH"(1) [OF tmp_def]) auto
    then show ?thesis
      using False "2.prems" by (auto simp: Let_def case_prod_beta vawtrak_pick tmp_def)
  qed
qed simp

section \<open>The stream of a generator\<close>

definition alureon_stream :: "nat \<Rightarrow> string list" where
  "alureon_stream n = map (\<lambda>i. fst (alureon_dga (((\<lambda>r. snd (alureon_dga r)) ^^ i) 521496385))) [0..<n]"

lemma outputs_iterate:
  "outputs (\<lambda>_ r. Inr (f r)) is r = Inr (map (\<lambda>i. fst (f (((\<lambda>r. snd (f r)) ^^ i) r))) [0..<length is])"
proof (induction "is" arbitrary: r)
  case (Cons i "is")
  have "map (\<lambda>i. fst (f (((\<lambda>r. snd (f r)) ^^ i) r))) [0..<length (i # is)] =
      fst (f r) # map (\<lambda>i. fst (f (((\<lambda>r. snd (f r)) ^^ i) (snd (f r))))) [0..<length is]"
    using funpow_swap1 [of "\<lambda>r. snd (f r)"] by (simp add: upt_conv_Cons map_Suc_upt [symmetric] del: upt_Suc)
  then show ?case using Cons [of "snd (f r)"] by (simp add: case_prod_beta)
qed simp

section \<open>Properties\<close>

text \<open>The generators of alureon, kraken (version 1), vawtrak (version 1) and corebot come back to a
  state exactly after a multiple of the modulus: from any seed they visit every state before repeating.\<close>

lemma lcg_full_period:
  "(((\<lambda>r. snd (alureon_rand r)) ^^ n) (c_int x) = c_int x \<longleftrightarrow> 2 ^ 32 dvd n) \<and>
   ((vawtrak_v1_rand ^^ n) (x mod 2 ^ 31) = x mod 2 ^ 31 \<longleftrightarrow> 2 ^ 31 dvd n) \<and>
   (((\<lambda>r. (1664525 * r + 1013904223) AND 0xFFFFFFFF) ^^ n) (c_uint x) = c_uint x \<longleftrightarrow> 2 ^ 32 dvd n)"
proof -
  have "(\<lambda>r. snd (alureon_rand r)) = (\<lambda>r. c_int (214013 * r + 2531011))"
    by (simp add: alureon_rand_def Let_def)
  then have "((\<lambda>r. snd (alureon_rand r)) ^^ n) (c_int x) = c_int x \<longleftrightarrow> 2 ^ 32 dvd n"
    using alureon.c_int_period [of "c_int x" n] c_int_bounds [of x] by simp
  moreover have "vawtrak_v1_rand = lcg_step 1103515245 12345 31"
  proof (rule ext)
    fix r :: int
    have "(2::int) ^ 31 dvd 2 ^ 32" by (simp add: le_imp_power_dvd)
    then show "vawtrak_v1_rand r = lcg_step 1103515245 12345 31 r"
      using mod_mod_cancel [of "2 ^ 31" "2 ^ 32" "r * 1103515245 + 12345"]
      by (simp add: vawtrak_v1_rand_def lcg_step_def c_uint_mod and_masks mult.commute)
  qed
  then have "(vawtrak_v1_rand ^^ n) (x mod 2 ^ 31) = x mod 2 ^ 31 \<longleftrightarrow> 2 ^ 31 dvd n"
    using vawtrak_v1.period [of "x mod 2 ^ 31" n] by simp
  moreover have "(\<lambda>r. (1664525 * r + 1013904223) AND 0xFFFFFFFF) = lcg_step 1664525 1013904223 32"
    by (simp add: lcg_step_def and_masks fun_eq_iff)
  then have "((\<lambda>r. (1664525 * r + 1013904223) AND 0xFFFFFFFF) ^^ n) (c_uint x) = c_uint x \<longleftrightarrow> 2 ^ 32 dvd n"
    using corebot.period [of "c_uint x" n] c_uint_bounds [of x] by simp
  ultimately show ?thesis by blast
qed

text \<open>fobber's rotation, written with shifts and a mask on unbounded integers, is the rotation of
  32-bit words.\<close>

theorem ror32_is_rotation:
  assumes "0 \<le> v" and "v < 2 ^ 32" and "n \<le> 32"
  shows "ror32 v n = uint (word_rotr n (word_of_int v :: 32 word))"
  using assms by (rule ror32_rotr)

theorem ror32_is_rotation_witness: "ror32 0x80000001 1 = uint (word_rotr 1 (0x80000001 :: 32 word))"
  using ror32_is_rotation [of "0x80000001" 1] by simp

text \<open>C21: The alureon script writes to each tier the first distinct domains of its random stream, and ends
  when one more than the largest tier has come up.\<close>

theorem alureon_files:
  "\<exists>g s. alureon_main dates = Inr (g, s) \<and>
     files s = map (\<lambda>k. (k, take k (uniq (alureon_stream (length dates))))) tiers_1m \<and>
     (stop s \<longleftrightarrow> 1000000 < length (uniq (alureon_stream (length dates))))"
  using t1m.singles_reference [OF outputs_iterate [of alureon_dga dates 521496385]]
  by (simp add: alureon_main_def alureon_stream_def tiers_1m_def)

text \<open>The names of vawtrak versions 2 and 3 are pronounceable: no two vowels in a row and at most two
  consonants in a row, for every seed.\<close>

lemma vawtrak_pronounceable:
  "\<exists>s. fst (vawtrak_dga inc r) = s @ ''.com'' \<and> 7 \<le> length s \<and> length s \<le> 11 \<and> pronounceable 2 True s"
proof -
  define n where "n = nat (vawtrak_prng r mod 5 + 7)"
  define p where "p = vawtrak_prng (vawtrak_prng r) mod 2"
  have n: "7 \<le> n" "n \<le> 11"
    using pos_mod_sign [of 5 "vawtrak_prng r"] pos_mod_bound [of 5 "vawtrak_prng r"] by (simp_all add: n_def)
  have p: "0 \<le> p" "nat p \<le> 2"
    using pos_mod_sign [of 2 "vawtrak_prng (vawtrak_prng r)"] pos_mod_bound [of 2 "vawtrak_prng (vawtrak_prng r)"]
    by (simp_all add: p_def)
  have "fst (vawtrak_dga inc r) = fst (vawtrak_letters inc n p (vawtrak_prng (vawtrak_prng r))) @ ''.com''"
    by (simp add: vawtrak_dga_def Let_def case_prod_beta n_def p_def)
  then show ?thesis
    using n vawtrak_letters_pronounceable [OF p, of True inc n]
    by (intro exI [of _ "fst (vawtrak_letters inc n p (vawtrak_prng (vawtrak_prng r)))"]) simp
qed

end
