(* ===== verification/Gen_Batch.thy ===== *)
theory Gen_Batch
  imports Gen_Lcg
begin

text \<open>
  The generators that make a batch of domains per iteration: cryptolocker, dircrypt, kraken (two
  versions), qadars and ccleaner. For each: its functions, its main
  program over the shared driver, and that every domain of a batch is a well-formed host name.
\<close>

section \<open>cryptolocker\<close>

definition cryptolocker_tlds :: "string list" where
  "cryptolocker_tlds = [''com'', ''net'', ''biz'', ''ru'', ''org'', ''co.uk'', ''info'']"

text \<open>One turn of the three shift registers of \<open>domainsFor\<close>.\<close>

definition cryptolocker_d :: "int \<Rightarrow> int" where
  "cryptolocker_d d =
     (((drop_bit 19 (push_bit 13 d AND 0xFFFFFFFF)) AND 0xFFFFFFFF)
      XOR ((push_bit 13 (drop_bit 1 d AND 0xFFFFFFFF)) AND 0xFFFFFFFF)
      XOR (drop_bit 19 d AND 0xFFFFFFFF)) AND 0xFFFFFFFF"

definition cryptolocker_m :: "int \<Rightarrow> int" where
  "cryptolocker_m m =
     (((drop_bit 25 (push_bit 2 m AND 0xFFFFFFFF)) AND 0xFFFFFFFF)
      XOR ((push_bit 7 (drop_bit 3 m AND 0xFFFFFFFF)) AND 0xFFFFFFFF)
      XOR (drop_bit 25 m AND 0xFFFFFFFF)) AND 0xFFFFFFFF"

definition cryptolocker_y :: "int \<Rightarrow> int" where
  "cryptolocker_y y =
     (((drop_bit 11 (push_bit 3 y AND 0xFFFFFFFF)) AND 0xFFFFFFFF)
      XOR ((push_bit 21 (drop_bit 4 y AND 0xFFFFFFFF)) AND 0xFFFFFFFF)
      XOR (drop_bit 11 y AND 0xFFFFFFFF)) AND 0xFFFFFFFF"

definition cryptolocker_char :: "int \<times> int \<times> int \<Rightarrow> char \<times> (int \<times> int \<times> int)" where
  "cryptolocker_char g =
     (let (d, m, y) = g; d' = cryptolocker_d d; m' = cryptolocker_m m; y' = cryptolocker_y y
      in (chr (97 + (y' XOR m' XOR d') mod 25), (d', m', y')))"

definition cryptolocker_domain :: "datetime \<Rightarrow> nat \<Rightarrow> string" where
  "cryptolocker_domain date z =
     (let d = day date * 65537; m = month date * 65537; y = (year date + int z) * 65537;
          s = ((drop_bit 3 d XOR drop_bit 8 y XOR drop_bit 11 y) AND 3) + 12;
          n = fst (repeat_chars (nat s) cryptolocker_char (d, m, y))
      in n @ ''.'' @ cryptolocker_tlds ! (z mod 7))"

definition domainsFor :: "datetime \<Rightarrow> string list" where
  "domainsFor date = map (cryptolocker_domain date) [0..<1000]"

definition cryptolocker_main :: "datetime list \<Rightarrow> (unit \<times> gen_run) result" where
  "cryptolocker_main dates =
     batches (\<lambda>date _. Inr (domainsFor date, ())) (batch True (force_close 10) Break) dates ()
       (open_files tiers_1m)"

lemma cryptolocker_tlds_suffix: "list_all is_suffix cryptolocker_tlds"
  by code_simp

lemma cryptolocker_tld: "is_suffix (cryptolocker_tlds ! (z mod 7))"
proof -
  have "length cryptolocker_tlds = 7" by (simp add: cryptolocker_tlds_def)
  then show ?thesis using cryptolocker_tlds_suffix by (simp add: list_all_length)
qed

lemma cryptolocker_domain_hostname: "is_hostname (cryptolocker_domain date z)"
proof -
  have "is_hostname (fst (repeat_chars (nat ((e AND 3) + 12)) cryptolocker_char g) @
      CHR ''.'' # cryptolocker_tlds ! (z mod 7))" for e g
    by (rule repeat_chars_hostname)
      (simp_all add: cryptolocker_tld cryptolocker_char_def case_prod_beta Let_def is_az_chr_mod and_masks)
  then show ?thesis by (simp add: cryptolocker_domain_def Let_def)
qed

lemma checked_force_body:
  "run_inv tiers_1m s \<Longrightarrow> \<exists>s'. batch True (force_close m) fin ds s = Inr s' \<and> run_inv tiers_1m s' \<and> True \<and>
    set (data s') \<subseteq> set (data s) \<union> set ds"
  using t1m.batch_checked [of "force_close m" s fin ds] by (simp add: run_inv_collisions)

interpretation cryptolocker_run: batch_source tiers_1m "\<lambda>date (_::unit). Inr (domainsFor date, ())"
  "batch True (force_close 10) Break" "\<lambda>_. True" "\<lambda>_. True" "\<lambda>_. True" is_hostname
  by unfold_locales
    (auto simp: domainsFor_def cryptolocker_domain_hostname list_all_iff checked_force_body [simplified])

lemma cryptolocker_main_clean: "clean_dataset tiers_1m (cryptolocker_main dates)"
  unfolding cryptolocker_main_def by (rule cryptolocker_run.batches_clean) (simp_all add: list_all_iff)

section \<open>dircrypt\<close>

text \<open>\<open>RandInt.rand_int_modulus\<close> computes what ramnit's does: \<open>/\<close> on integers is floor division.\<close>

definition dircrypt_domain :: "int \<Rightarrow> string \<times> int" where
  "dircrypt_domain seed =
     (let (v, seed1) = rand_int_modulus (12 + 1) seed; domain_len = v + 8;
          (s, seed2) = repeat_chars (nat domain_len)
            (\<lambda>x. let (v, x') = rand_int_modulus (25 + 1) x in (chr (97 + v), x')) seed1
      in (s @ ''.com'', seed2))"

fun dircrypt_get_domains :: "int \<Rightarrow> nat \<Rightarrow> string list" where
  "dircrypt_get_domains seed 0 = []"
| "dircrypt_get_domains seed (Suc nr) =
     (let (domain, seed') = dircrypt_domain seed in domain # dircrypt_get_domains seed' nr)"

definition dircrypt_main :: "int list \<Rightarrow> (unit \<times> gen_run) result" where
  "dircrypt_main seeds =
     batches (\<lambda>seed _. Inr (dircrypt_get_domains seed 30, ())) (batch False (break_on_collision 100) Break)
       seeds () (open_files tiers_1m)"

lemma dircrypt_domain_hostname: "is_hostname (fst (dircrypt_domain seed))"
proof -
  define n where "n = nat (fst (rand_int_modulus 13 seed) + 8)"
  have n: "0 < n" "n \<le> 63" by (simp_all add: n_def rand_int_modulus_def Let_def)
  show ?thesis
    using repeat_chars_hostname [OF _ n suffix_com,
        of "\<lambda>x. let (v, x') = rand_int_modulus 26 x in (chr (97 + v), x')" "snd (rand_int_modulus 13 seed)"]
    by (simp add: dircrypt_domain_def Let_def case_prod_beta n_def [symmetric])
      (simp add: rand_int_modulus_def Let_def is_az_chr_mod)
qed

lemma dircrypt_get_domains_hostnames: "list_all is_hostname (dircrypt_get_domains seed nr)"
  by (induction nr arbitrary: seed) (simp_all add: case_prod_beta Let_def dircrypt_domain_hostname)

lemma unforced_break_body:
  "run_inv tiers_1m s \<Longrightarrow> t1m.full_when_stopped s \<Longrightarrow>
    \<exists>s'. batch chk (break_on_collision m) fin ds s = Inr s' \<and> run_inv tiers_1m s' \<and>
      t1m.full_when_stopped s' \<and> set (data s') \<subseteq> set (data s) \<union> set ds"
  by (rule t1m.batch_unforced) (simp_all add: run_inv_collisions)

interpretation dircrypt_run: batch_source tiers_1m "\<lambda>seed (_::unit). Inr (dircrypt_get_domains seed 30, ())"
  "batch False (break_on_collision 100) Break" t1m.full_when_stopped "\<lambda>_. True" "\<lambda>_. True" is_hostname
  by unfold_locales
    (auto simp: dircrypt_get_domains_hostnames unforced_break_body t1m.full_when_stopped_open)

lemma dircrypt_main_clean: "clean_dataset tiers_1m (dircrypt_main seeds)"
  unfolding dircrypt_main_def by (rule dircrypt_run.batches_clean) (simp_all add: list_all_iff)

section \<open>kraken, version 1\<close>

text \<open>
  The constants of the two versions differ from the C library's generator in the increment, 12435.
  \<open>int(v / 9.0)\<close> on a 32-bit integer is truncation towards zero: the quotient of a non-multiple is
  at least 1/9 away from an integer, far more than the rounding error.
\<close>

definition kraken_v1_rand :: "int \<Rightarrow> int" where
  "kraken_v1_rand r = c_int (1103515245 * r + 12435)"

definition kraken_crop :: "int \<Rightarrow> int" where
  "kraken_crop r = (r div 256) mod 32768"

definition trunc_div :: "int \<Rightarrow> int \<Rightarrow> int" where
  "trunc_div a b = (if (a < 0) = (b < 0) then \<bar>a\<bar> div \<bar>b\<bar> else - (\<bar>a\<bar> div \<bar>b\<bar>))"

definition kraken_v1_tlds :: "string list" where
  "kraken_v1_tlds = [''dyndns.org'', ''yi.org'', ''dynserv.com'', ''mooo.com'']"

datatype seed_set = SeedA | SeedB

fun kraken_v1_seed :: "seed_set \<Rightarrow> bool \<Rightarrow> int" where
  "kraken_v1_seed SeedA True = - 0x0FCFBF88"
| "kraken_v1_seed SeedA False = 0x8924541"
| "kraken_v1_seed SeedB True = - 0x1FCFBF87"
| "kraken_v1_seed SeedB False = 0x7924542"

definition kraken_v1_start :: "int \<Rightarrow> seed_set \<Rightarrow> bool \<Rightarrow> int" where
  "kraken_v1_start domain_nr seed temp_file =
     (if temp_file then
        c_int (trunc_div (c_int (domain_nr * (domain_nr + 7) * (domain_nr + 12))) 9
          + domain_nr * (domain_nr + 1) + kraken_v1_seed seed True)
      else
        c_int (trunc_div (c_int ((domain_nr + 2) * (domain_nr + 7) * domain_nr)) 9
          + (domain_nr * 3 + 1) * domain_nr + kraken_v1_seed seed False))"

definition kraken_v1_dga :: "int \<Rightarrow> seed_set \<Rightarrow> bool \<Rightarrow> string" where
  "kraken_v1_dga index seed temp_file =
     (let domain_nr = index div 2 + 1000015;
          r0 = kraken_v1_start domain_nr seed temp_file;
          r1 = kraken_v1_rand r0; r2 = kraken_v1_rand r1; r3 = kraken_v1_rand r2;
          domain_length = (kraken_crop r1 * kraken_crop r2 - kraken_crop r3) mod 6 + 6;
          s = fst (repeat_chars (nat domain_length)
            (\<lambda>r. let r' = kraken_v1_rand r in (chr (kraken_crop r' mod 26 + 97), r')) r3)
      in s @ ''.'' @ kraken_v1_tlds ! nat (domain_nr mod 4))"

text \<open>An iteration makes four domains from the index, which counts the iterations.\<close>

definition kraken_v1_batch :: "int \<Rightarrow> string list" where
  "kraken_v1_batch dgaIndex =
     [kraken_v1_dga (dgaIndex * 2) SeedA False, kraken_v1_dga (dgaIndex * 2) SeedB False,
      kraken_v1_dga (dgaIndex * 2) SeedA True, kraken_v1_dga (dgaIndex * 2) SeedB True]"

text \<open>The inner loop does not look at \<open>stop\<close>, though a collision may set it.\<close>

definition kraken_v1_main :: "datetime list \<Rightarrow> gen_run result" where
  "kraken_v1_main dates =
     iterate (\<lambda>dgaIndex. batch False (force_close 2) Break (kraken_v1_batch (int dgaIndex)))
       [0..<length dates] (open_files tiers_1m)"

lemma kraken_v1_tld: "is_suffix (kraken_v1_tlds ! nat (k mod 4))"
proof -
  have "list_all is_suffix kraken_v1_tlds" by code_simp
  moreover have "nat (k mod 4) < length kraken_v1_tlds" by (simp add: kraken_v1_tlds_def nat_less_iff)
  ultimately show ?thesis by (simp add: list_all_length)
qed

lemma kraken_v1_dga_hostname: "is_hostname (kraken_v1_dga index seed temp_file)"
proof -
  have "is_hostname (fst (repeat_chars (nat (e mod 6 + 6))
      (\<lambda>r. let r' = kraken_v1_rand r in (chr (kraken_crop r' mod 26 + 97), r')) g) @
      CHR ''.'' # kraken_v1_tlds ! nat (k mod 4))" for e g k
    using pos_mod_sign [of 6 e] pos_mod_bound [of 6 e]
    by (intro repeat_chars_hostname kraken_v1_tld) (simp_all add: Let_def is_az_chr_mod')
  then show ?thesis by (simp add: kraken_v1_dga_def Let_def)
qed

lemma kraken_v1_main_outcome: "t1m.outcome is_hostname (kraken_v1_main dates)"
  unfolding kraken_v1_main_def
  by (intro t1m.keeps_open t1m.keeps_iterate t1m.keeps_batch)
    (simp_all add: run_inv_collisions kraken_v1_batch_def kraken_v1_dga_hostname)

interpretation kraken_v1: lcg 1103515245 12435 32
  by unfold_locales simp_all

section \<open>kraken, version 2\<close>

definition kraken_v2_rand :: "int \<Rightarrow> int" where
  "kraken_v2_rand r = (1103515245 * r + 12435) AND 0xFFFFFFFF"

datatype tld_set = TldSet1 | TldSet2

fun kraken_v2_tlds :: "tld_set \<Rightarrow> string list" where
  "kraken_v2_tlds TldSet1 = [''com'', ''net'', ''tv'', ''cc'']"
| "kraken_v2_tlds TldSet2 = [''dyndns.org'', ''yi.org'', ''dynserv.com'', ''mooo.com'']"

fun kraken_v2_seed :: "seed_set \<Rightarrow> bool \<Rightarrow> int" where
  "kraken_v2_seed SeedA True = 24938314"
| "kraken_v2_seed SeedA False = 24938315"
| "kraken_v2_seed SeedB True = 1600000"
| "kraken_v2_seed SeedB False = 1600001"

text \<open>
  \<open>unix\<close> is \<open>int(time.mktime(date.timetuple()))\<close>. A negative number of discards is an empty range.
\<close>

definition kraken_v2_discards :: "int \<Rightarrow> int \<Rightarrow> int" where
  "kraken_v2_discards unix domain_nr =
     (let discards = (unix - 1207000000) div 604800 + 2
      in if domain_nr mod 9 < 8 then if domain_nr mod 9 \<ge> 6 then discards - 1 else discards else 0)"

definition kraken_v2_dga :: "int \<Rightarrow> int \<Rightarrow> seed_set \<Rightarrow> bool \<Rightarrow> tld_set \<Rightarrow> string" where
  "kraken_v2_dga index unix seed temp_file tlds =
     (let domain_nr = index div 2;
          r = 3 * domain_nr + kraken_v2_seed seed temp_file;
          r0 = ((\<lambda>r. kraken_crop (kraken_v2_rand r)) ^^ nat (kraken_v2_discards unix domain_nr)) r;
          r1 = kraken_v2_rand r0; r2 = kraken_v2_rand r1; r3 = kraken_v2_rand r2;
          domain_length = (kraken_crop r1 * kraken_crop r2 + kraken_crop r3) mod 6 + 7;
          s = fst (repeat_chars (nat domain_length)
            (\<lambda>r. let r' = kraken_v2_rand r in (chr (kraken_crop r' mod 26 + 97), r')) r3)
      in s @ ''.'' @ kraken_v2_tlds tlds ! nat (domain_nr mod 4))"

lemma kraken_v2_tld: "is_suffix (kraken_v2_tlds ts ! nat (k mod 4))"
proof -
  have "list_all is_suffix (kraken_v2_tlds TldSet1)" "list_all is_suffix (kraken_v2_tlds TldSet2)"
    by code_simp+
  then have "list_all is_suffix (kraken_v2_tlds ts)" by (cases ts) simp_all
  moreover have "nat (k mod 4) < length (kraken_v2_tlds ts)" by (cases ts) (simp_all add: nat_less_iff)
  ultimately show ?thesis by (simp add: list_all_length)
qed

lemma kraken_v2_dga_hostname: "is_hostname (kraken_v2_dga index unix seed temp_file tlds)"
proof -
  have "is_hostname (fst (repeat_chars (nat (e mod 6 + 7))
      (\<lambda>r. let r' = kraken_v2_rand r in (chr (kraken_crop r' mod 26 + 97), r')) g) @
      CHR ''.'' # kraken_v2_tlds tlds ! nat (k mod 4))" for e g k
    using pos_mod_sign [of 6 e] pos_mod_bound [of 6 e]
    by (intro repeat_chars_hostname kraken_v2_tld) (simp_all add: Let_def is_az_chr_mod')
  then show ?thesis by (simp add: kraken_v2_dga_def Let_def)
qed

text \<open>
  The nested loops over \<open>temp_file\<close>, the suffix set and the seed; \<open>dgaIndex\<close> grows with each suffix set.
  Every loop looks at \<open>stop\<close>.
\<close>

definition kraken_v2_batch :: "int \<Rightarrow> int \<Rightarrow> string list" where
  "kraken_v2_batch unix dgaIndex =
     concat (map (\<lambda>(k, temp_file, ts).
         [kraken_v2_dga ((dgaIndex + k) * 2) unix SeedA temp_file ts,
          kraken_v2_dga ((dgaIndex + k) * 2) unix SeedB temp_file ts])
       [(0, False, TldSet1), (1, False, TldSet2), (2, True, TldSet1), (3, True, TldSet2)])"

definition kraken_v2_main :: "int list \<Rightarrow> (int \<times> gen_run) result" where
  "kraken_v2_main unixes =
     batches (\<lambda>unix dgaIndex. Inr (kraken_v2_batch unix dgaIndex, dgaIndex + 4))
       (batch True (force_close 10) Break) unixes 0 (open_files tiers_10k)"

interpretation kraken_v2_run: batch_source tiers_10k
  "\<lambda>unix (dgaIndex::int). Inr (kraken_v2_batch unix dgaIndex, dgaIndex + 4)"
  "batch True (force_close 10) Break" "\<lambda>_. True" "\<lambda>_. True" "\<lambda>_. True" is_hostname
proof unfold_locales
  fix s :: gen_run and ds :: "string list"
  assume "run_inv tiers_10k s"
  then show "\<exists>s'. batch True (force_close 10) Break ds s = Inr s' \<and> run_inv tiers_10k s' \<and> True \<and>
      set (data s') \<subseteq> set (data s) \<union> set ds"
    using t10k.batch_checked [of "force_close 10" s Break ds] by (simp add: run_inv_collisions)
qed (simp_all add: kraken_v2_batch_def kraken_v2_dga_hostname)

lemma kraken_v2_main_clean: "clean_dataset tiers_10k (kraken_v2_main unixes)"
  unfolding kraken_v2_main_def by (rule kraken_v2_run.batches_clean) (simp_all add: list_all_iff)

section \<open>qadars\<close>

definition qadars_seeds :: "int list" where
  "qadars_seeds = [0x89F5, 0x4449, 0xE1F1, 0xE1F2, 0xE08A, 0xE1F5]"

definition qadars_rand :: "int \<Rightarrow> int \<Rightarrow> int" where
  "qadars_rand r seed = (seed - 1043968403 * r) AND 0x7FFFFFFF"

definition alphanumeric :: string where
  "alphanumeric = ''abcdefghijklmnopqrstuvwxyz0123456789''"

definition qadars_tlds :: "int \<Rightarrow> string list" where
  "qadars_tlds seed =
     (if seed \<in> {0xE1F2, 0xE1F1, 0xE1F5} then [''.com'', ''.org'', ''.net''] else [''.net'', ''.org'', ''.top''])"

fun qadars_domains :: "int \<Rightarrow> nat \<Rightarrow> int \<Rightarrow> string list" where
  "qadars_domains seed 0 r = []"
| "qadars_domains seed (Suc n) r =
     (let (s, r1) = repeat_chars 12 (\<lambda>r. let r' = qadars_rand r seed in (pick alphanumeric r', r')) r;
          r2 = qadars_rand r1 seed
      in (s @ qadars_tlds seed ! nat (r2 mod 3)) # qadars_domains seed n r2)"

text \<open>The start value is the latest Thursday midnight not after the time \<open>unix\<close> (in seconds).\<close>

definition qadars_dga :: "int \<Rightarrow> int \<Rightarrow> string list" where
  "qadars_dga unix seed =
     (let b = 7 * 24 * 3600; c = 4 * 24 * 3600; r = unix - (unix - c) mod b
      in qadars_domains seed 200 r)"

definition qadars_main :: "int list \<Rightarrow> gen_run result" where
  "qadars_main unixes =
     iterate (\<lambda>unix. iterate (\<lambda>seed. batch False (force_close 10) Break (qadars_dga unix seed)) qadars_seeds)
       unixes (open_files tiers_1m)"

lemma alphanumeric_alnum: "list_all is_alnum alphanumeric" "alphanumeric \<noteq> []"
  by code_simp+

lemma qadars_tld: "\<exists>t. qadars_tlds seed ! nat (k mod 3) = CHR ''.'' # t \<and> is_suffix t"
proof -
  have ok: "list_all (\<lambda>t. t \<noteq> [] \<and> hd t = CHR ''.'' \<and> is_suffix (tl t)) [''.com'', ''.org'', ''.net'', ''.top'']"
    by code_simp
  have "qadars_tlds seed ! nat (k mod 3) \<in> set (qadars_tlds seed)"
    by (rule nth_mem) (simp add: qadars_tlds_def nat_less_iff)
  then have "qadars_tlds seed ! nat (k mod 3) \<in> set [''.com'', ''.org'', ''.net'', ''.top'']"
    by (auto simp: qadars_tlds_def split: if_splits)
  with ok have "let t = qadars_tlds seed ! nat (k mod 3) in t \<noteq> [] \<and> hd t = CHR ''.'' \<and> is_suffix (tl t)"
    unfolding list_all_iff Let_def by blast
  then show ?thesis by (metis list.collapse)
qed

lemma qadars_domains_hostnames: "list_all is_hostname (qadars_domains seed n r)"
proof (induction n arbitrary: r)
  case (Suc n)
  define f where "f = (\<lambda>r. let r' = qadars_rand r seed in (pick alphanumeric r', r'))"
  have "is_label (fst (repeat_chars 12 f r))"
    by (rule is_label_length [where n = 12]) (auto intro!: repeat_chars_all simp: f_def Let_def pick_all alphanumeric_alnum)
  moreover obtain t where "qadars_tlds seed ! nat (qadars_rand (snd (repeat_chars 12 f r)) seed mod 3) = CHR ''.'' # t"
    "is_suffix t" using qadars_tld by blast
  ultimately show ?case
    using Suc is_hostname_label_suffix by (simp add: case_prod_beta Let_def f_def)
qed simp

lemma qadars_main_outcome: "t1m.outcome is_hostname (qadars_main unixes)"
  unfolding qadars_main_def
  by (intro t1m.keeps_open t1m.keeps_iterate t1m.keeps_batch)
    (simp_all add: run_inv_collisions qadars_dga_def qadars_domains_hostnames Let_def)

section \<open>ccleaner\<close>

definition msvcrt_rand :: "int \<Rightarrow> int \<times> int" where
  "msvcrt_rand seed =
     (let new_seed = (0x343fd * seed + 0x269ec3) AND (push_bit 32 1 - 1);
          randval = drop_bit 16 new_seed AND 0x7fff
      in (randval, new_seed))"

definition ccleaner_dga :: "int \<Rightarrow> int \<Rightarrow> string" where
  "ccleaner_dga y m =
     (let (r1, seed1) = msvcrt_rand (y * 10000 + m); (r2, seed2) = msvcrt_rand seed1;
          (r3, seed3) = msvcrt_rand seed2
      in ''ab'' @ py_hex (r2 * r3) @ py_hex r1 @ ''.com'')"

text \<open>
  Every turn of the outer loop goes through the years 2000 to 2999 and the months 1 to 11; the final
  \<open>break\<close> leaves the loop over months only, and no loop looks at \<open>stop\<close> but the outermost.
\<close>

definition ccleaner_main :: "nat \<Rightarrow> gen_run result" where
  "ccleaner_main turns =
     iterate (\<lambda>_. for_loop (\<lambda>y. batch False (force_close 10) Break (map (ccleaner_dga y) [1..11])) [2000..2999])
       [0..<turns] (open_files tiers_10k)"

lemma msvcrt_rand_bound: "0 \<le> fst (msvcrt_rand seed)" "fst (msvcrt_rand seed) \<le> 32767"
proof -
  have "0 \<le> x mod 32768 \<and> x mod 32768 \<le> 32767" for x :: int by presburger
  then show "0 \<le> fst (msvcrt_rand seed)" "fst (msvcrt_rand seed) \<le> 32767"
    by (simp_all add: msvcrt_rand_def Let_def and_masks)
qed

lemma ccleaner_dga_hostname: "is_hostname (ccleaner_dga y m)"
proof -
  define r1 where "r1 = msvcrt_rand (y * 10000 + m)"
  define r2 where "r2 = msvcrt_rand (snd r1)"
  define r3 where "r3 = msvcrt_rand (snd r2)"
  let ?l = "''ab'' @ py_hex (fst r2 * fst r3) @ py_hex (fst r1)"
  have "fst r2 * fst r3 \<le> 32767 * 32767"
    using msvcrt_rand_bound by (intro mult_mono) (simp_all add: r2_def r3_def)
  then have "length (py_hex (fst r2 * fst r3)) \<le> 8" by (intro length_py_hex) simp_all
  moreover have "length (py_hex (fst r1)) \<le> 4"
    using msvcrt_rand_bound [of "y * 10000 + m"] by (intro length_py_hex) (simp_all add: r1_def)
  moreover have "list_all is_alnum ''ab''" by code_simp
  ultimately have "is_label ?l"
    by (intro is_label_alnum) (simp_all add: py_hex_alnum)
  then have "is_hostname (?l @ CHR ''.'' # ''com'')"
    by (rule is_hostname_label_suffix [OF _ suffix_com])
  then show ?thesis by (simp add: ccleaner_dga_def case_prod_beta r1_def r2_def r3_def Let_def)
qed

lemma ccleaner_main_outcome: "t10k.outcome is_hostname (ccleaner_main turns)"
  unfolding ccleaner_main_def
  by (intro t10k.keeps_open t10k.keeps_iterate t10k.keeps_for_loop t10k.keeps_batch)
    (simp_all add: run_inv_collisions ccleaner_dga_hostname list_all_iff)

section \<open>Properties\<close>

text \<open>The main programs of kraken (version 1), qadars and ccleaner, whose inner loops do not look at
  \<open>stop\<close>, either leave clean tiers behind or raise ValueError at a closed file; nothing else can happen.\<close>

lemma unchecked_datasets_outcome:
  "clean_or_closed tiers_1m (kraken_v1_main dates) \<and> clean_or_closed tiers_1m (qadars_main unixes) \<and>
   clean_or_closed tiers_10k (ccleaner_main turns)"
  using kraken_v1_main_outcome [of dates] qadars_main_outcome [of unixes] ccleaner_main_outcome [of turns]
  by (simp add: clean_or_closed_def t1m.outcome_def t10k.outcome_def)

end
