(* ===== verification/Gen_Date.thy ===== *)
theory Gen_Date
  imports Gen_Batch
begin

text \<open>
  The generators seeded by a date: symmi, ranbyus (version 2), necurs and proslikefan. For each: its functions, its main program over the shared driver, and what its names look
  like.
\<close>

section \<open>symmi\<close>

definition symmi_rand :: "int \<Rightarrow> int \<times> int" where
  "symmi_rand seed = (let s = (seed * 214013 + 2531011) AND 0xFFFFFFFF in (drop_bit 16 s AND 0x7FFF, s))"

definition symmi_symbols :: "nat \<Rightarrow> string" where
  "symmi_symbols offset = [''aeiouy'', ''bcdfghklmnpqrstvwxz''] ! offset"

text \<open>The loop of \<open>next_domain\<close>: \<open>offset_1\<close> is drawn at even positions and kept for the next one.\<close>

fun symmi_letters :: "nat \<Rightarrow> nat \<Rightarrow> nat \<Rightarrow> int \<Rightarrow> string \<times> int" where
  "symmi_letters 0 i offset_1 r = ([], r)"
| "symmi_letters (Suc n) i offset_1 r =
     (let (off, r1) = (if i mod 2 = 0 then let (v, r') = symmi_rand r in (if v AND 0x100 = 0 then 0 else 1, r')
                       else (offset_1, r));
          (s, r2) = symmi_rand r1;
          symbols = symmi_symbols ((off + i) mod 2);
          (cs, r3) = symmi_letters n (i + 1) off r2
      in (symbols ! nat (s mod (int (length symbols) - 1)) # cs, r3))"

fun symmi_dga :: "nat \<Rightarrow> int \<Rightarrow> string list" where
  "symmi_dga 0 r = []"
| "symmi_dga (Suc nr) r =
     (let (v, r1) = symmi_rand r; third_lvl_len = 8 + v mod (15 - 8 + 1);
          (domain, r2) = symmi_letters (nat third_lvl_len) 0 0 r1
      in (domain @ ''.ddns.net'') # symmi_dga nr r2)"

definition create_seed :: "datetime \<Rightarrow> int" where
  "create_seed date = 10000 * (day date div 16 * 100 + month date) + year date + 42"

definition symmi_main :: "datetime list \<Rightarrow> (unit \<times> gen_run) result" where
  "symmi_main dates =
     batches (\<lambda>d _. Inr (symmi_dga 64 (create_seed d), ())) (batch True (force_close 10) Break) dates ()
       (open_files tiers_1m)"

text \<open>In every pair of positions one letter is from each set.\<close>

fun mixed_pairs :: "string \<Rightarrow> bool" where
  "mixed_pairs (a # b # cs) \<longleftrightarrow>
     (a \<in> set ''aeiou'' \<and> b \<in> set ''bcdfghklmnpqrstvwx'' \<or> b \<in> set ''aeiou'' \<and> a \<in> set ''bcdfghklmnpqrstvwx'') \<and>
     mixed_pairs cs"
| "mixed_pairs [a] \<longleftrightarrow> a \<in> set ''aeiou'' \<or> a \<in> set ''bcdfghklmnpqrstvwx''"
| "mixed_pairs [] \<longleftrightarrow> True"

lemma symmi_symbol:
  "symmi_symbols 0 ! nat (s mod (int (length (symmi_symbols 0)) - 1)) \<in> set ''aeiou''"
  "symmi_symbols 1 ! nat (s mod (int (length (symmi_symbols 1)) - 1)) \<in> set ''bcdfghklmnpqrstvwx''"
proof -
  have "list_all (\<lambda>i. symmi_symbols 0 ! i \<in> set ''aeiou'') [0..<5]" "length (symmi_symbols 0) = 6"
    "list_all (\<lambda>i. symmi_symbols 1 ! i \<in> set ''bcdfghklmnpqrstvwx'') [0..<18]" "length (symmi_symbols 1) = 19"
    by code_simp+
  moreover have "nat (s mod 5) \<in> set [0..<5]" "nat (s mod 18) \<in> set [0..<18]" by (simp_all add: nat_less_iff)
  ultimately show
    "symmi_symbols 0 ! nat (s mod (int (length (symmi_symbols 0)) - 1)) \<in> set ''aeiou''"
    "symmi_symbols 1 ! nat (s mod (int (length (symmi_symbols 1)) - 1)) \<in> set ''bcdfghklmnpqrstvwx''"
    unfolding list_all_iff by fastforce+
qed

lemma length_symmi_letters [simp]: "length (fst (symmi_letters n i off r)) = n"
  by (induction n arbitrary: i off r) (simp_all add: Let_def case_prod_beta)

definition symmi_char :: "nat \<Rightarrow> int \<Rightarrow> char" where
  "symmi_char off s = symmi_symbols (off mod 2) ! nat (s mod (int (length (symmi_symbols (off mod 2))) - 1))"

lemma symmi_char_cases:
  "even off \<Longrightarrow> symmi_char off s \<in> set ''aeiou''" "odd off \<Longrightarrow> symmi_char off s \<in> set ''bcdfghklmnpqrstvwx''"
  using symmi_symbol [of s] by (simp_all add: symmi_char_def even_iff_mod_2_eq_zero odd_iff_mod_2_eq_one)

lemma symmi_letters_even:
  assumes "even i"
  obtains off r1 s r2 where
    "fst (symmi_letters (Suc n) i off0 r) = symmi_char (off + i) s # fst (symmi_letters n (i + 1) off r2)"
  using assms by (simp add: Let_def case_prod_beta symmi_char_def)

lemma symmi_letters_odd:
  assumes "odd i"
  obtains s r2 where
    "fst (symmi_letters (Suc n) i off r) = symmi_char (off + i) s # fst (symmi_letters n (i + 1) off r2)"
  using assms by (simp add: Let_def case_prod_beta symmi_char_def odd_iff_mod_2_eq_one)

lemma symmi_letters_mixed: "even i \<Longrightarrow> mixed_pairs (fst (symmi_letters n i off r))"
proof (induction n arbitrary: i off r rule: less_induct)
  case (less n)
  show ?case
  proof (cases n)
    case (Suc m)
    obtain o1 r1 s1 r2 where 1: "fst (symmi_letters n i off r) = symmi_char (o1 + i) s1 # fst (symmi_letters m (i + 1) o1 r2)"
      using symmi_letters_even [OF less.prems] Suc by metis
    show ?thesis
    proof (cases m)
      case 0
      then show ?thesis using 1 symmi_char_cases [of "o1 + i" s1] by auto
    next
      case (Suc k)
      obtain s2 r3 where 2: "fst (symmi_letters m (i + 1) o1 r2) =
          symmi_char (o1 + (i + 1)) s2 # fst (symmi_letters k (i + 1 + 1) o1 r3)"
        using symmi_letters_odd [of "i + 1"] less.prems Suc by (metis even_plus_one_iff)
      have "mixed_pairs (fst (symmi_letters k (i + 1 + 1) o1 r3))"
        using less.IH [of k "i + 1 + 1" o1 r3] less.prems Suc \<open>n = Suc m\<close> by simp
      moreover have "symmi_char (o1 + i) s1 \<in> set ''aeiou'' \<and> symmi_char (o1 + (i + 1)) s2 \<in> set ''bcdfghklmnpqrstvwx'' \<or>
          symmi_char (o1 + (i + 1)) s2 \<in> set ''aeiou'' \<and> symmi_char (o1 + i) s1 \<in> set ''bcdfghklmnpqrstvwx''"
        using symmi_char_cases [of "o1 + i" s1] symmi_char_cases [of "o1 + (i + 1)" s2]
        by (cases "even (o1 + i)") simp_all
      ultimately show ?thesis unfolding 1 2 by (simp only: mixed_pairs.simps simp_thms)
    qed
  qed simp
qed

lemma mixed_pairs_az: "mixed_pairs s \<Longrightarrow> list_all is_az s"
proof -
  have "list_all is_az ''aeiou''" "list_all is_az ''bcdfghklmnpqrstvwx''" by code_simp+
  then have az: "c \<in> set ''aeiou'' \<Longrightarrow> is_az c" "c \<in> set ''bcdfghklmnpqrstvwx'' \<Longrightarrow> is_az c" for c
    unfolding list_all_iff by blast+
  show "mixed_pairs s \<Longrightarrow> list_all is_az s"
    by (induction s rule: mixed_pairs.induct) (auto simp del: list.set dest: az)
qed

lemma symmi_domain_hostname:
  "is_hostname (fst (symmi_letters (nat (8 + v mod 8)) 0 0 r) @ ''.ddns.net'')"
proof -
  have n: "0 < nat (8 + v mod 8)" "nat (8 + v mod 8) \<le> 63" by simp_all
  have "is_label (fst (symmi_letters (nat (8 + v mod 8)) 0 0 r))"
    using n by (intro is_label_az_length [OF mixed_pairs_az [OF symmi_letters_mixed] length_symmi_letters]) simp_all
  then show ?thesis using is_hostname_label_suffix [OF _ suffix_ddns] by simp
qed

lemma symmi_dga_hostnames: "list_all is_hostname (symmi_dga nr r)"
  using symmi_domain_hostname by (induction nr arbitrary: r) (simp_all add: case_prod_beta Let_def)

interpretation symmi_run: batch_source tiers_1m "\<lambda>d (_::unit). Inr (symmi_dga 64 (create_seed d), ())"
  "batch True (force_close 10) Break" "\<lambda>_. True" "\<lambda>_. True" "\<lambda>_. True" is_hostname
  by unfold_locales (auto simp: symmi_dga_hostnames checked_force_body [simplified])

lemma symmi_main_clean: "clean_dataset tiers_1m (symmi_main dates)"
  unfolding symmi_main_def by (rule symmi_run.batches_clean) (simp_all add: list_all_iff)

section \<open>ranbyus, version 2\<close>

definition to_little_array :: "int \<Rightarrow> int list" where
  "to_little_array val = map (\<lambda>i. drop_bit (8 * i) val AND 0xFF) [0..<4]"

text \<open>The 16 bytes and the next state of the 64-bit generator.\<close>

definition pcg_random :: "int \<Rightarrow> int \<times> int list" where
  "pcg_random r =
     (let alpha = 0x5851F42D4C957F2D; inc = 0x14057B7EF767814F;
          step1 = alpha * r + inc; step2 = alpha * step1 + inc; step3 = alpha * step2 + inc;
          tmp = (drop_bit 24 step3 AND 0xFFFFFF00) OR drop_bit 24 (step3 AND 0xFFFFFFFF);
          a = ((tmp XOR step2) AND 0x000FFFFF) XOR step2;
          b = drop_bit 32 step2;
          c = (step1 AND 0xFFF00000) OR drop_bit 12 (drop_bit 32 step3 AND 0xFFFFFFFF);
          d = drop_bit 32 step1 AND 0xFFFFFFFF
      in (step3 AND 0xFFFFFFFFFFFFFFFF, to_little_array a @ to_little_array b @ to_little_array c @ to_little_array d))"

definition ranbyus_tlds :: "int \<Rightarrow> string list" where
  "ranbyus_tlds seed =
     (if seed = 0xCE7F8514 then [''in'', ''net'', ''org'', ''com'', ''me'', ''su'', ''tw'', ''cc'', ''pw'']
      else [''in'', ''me'', ''cc'', ''su'', ''tw'', ''net'', ''com'', ''pw'', ''org''])"

text \<open>
  Two calls fill the array; the slices grow it, so that position 16 is the first byte of the second
  call. Seventeen characters are used.
\<close>

fun ranbyus_domains :: "int \<Rightarrow> nat \<Rightarrow> int \<Rightarrow> int \<Rightarrow> string list" where
  "ranbyus_domains seed 0 x tld_index = []"
| "ranbyus_domains seed (Suc n) x tld_index =
     (let (x1, data1) = pcg_random x; (x2, data2) = pcg_random x1; random = data1 @ data2;
          domain = map (\<lambda>i. chr (random ! i mod 25 + 97)) [0..<17];
          tlds = ranbyus_tlds seed
      in (domain @ ''.'' @ tlds ! nat (tld_index mod (int (length tlds) - 1)))
         # ranbyus_domains seed n x2 (tld_index + 1))"

definition ranbyus_dga :: "int \<Rightarrow> int \<Rightarrow> int \<Rightarrow> int \<Rightarrow> string list" where
  "ranbyus_dga y m d seed = ranbyus_domains seed 40 ((d * m * y) XOR seed) d"

definition ranbyus_main :: "(datetime \<times> int) list \<Rightarrow> (unit \<times> gen_run) result" where
  "ranbyus_main is =
     batches (\<lambda>(d, seed) _. Inr (ranbyus_dga (year d) (month d) (day d) seed, ()))
       (batch True (force_close 10) Break) is () (open_files tiers_1m)"

lemma ranbyus_suffix:
  "is_suffix (ranbyus_tlds seed ! nat (k mod (int (length (ranbyus_tlds seed)) - 1)))"
proof -
  have "list_all is_suffix [''in'', ''net'', ''org'', ''com'', ''me'', ''su'', ''tw'', ''cc'', ''pw'']"
    "list_all is_suffix [''in'', ''me'', ''cc'', ''su'', ''tw'', ''net'', ''com'', ''pw'', ''org'']"
    by code_simp+
  then have "list_all is_suffix (ranbyus_tlds seed)" by (simp only: ranbyus_tlds_def split: if_split) simp
  moreover have "length (ranbyus_tlds seed) = 9" by (simp add: ranbyus_tlds_def)
  ultimately show ?thesis by (simp add: list_all_length nat_less_iff less_trans [OF pos_mod_bound])
qed

lemma ranbyus_domains_hostnames: "list_all is_hostname (ranbyus_domains seed n x t)"
proof (induction n arbitrary: x t)
  case (Suc n)
  have "is_label (map (\<lambda>i. chr (f i mod 25 + 97)) [0..<17])" for f :: "nat \<Rightarrow> int"
    by (rule is_label_az_length [of _ 17]) (auto simp: list_all_iff is_az_chr_mod')
  then show ?case
    using Suc is_hostname_label_suffix [OF _ ranbyus_suffix] by (simp add: Let_def case_prod_beta)
qed simp

interpretation ranbyus_run: batch_source tiers_1m
  "\<lambda>(d, seed) (_::unit). Inr (ranbyus_dga (year d) (month d) (day d) seed, ())"
  "batch True (force_close 10) Break" "\<lambda>_. True" "\<lambda>_. True" "\<lambda>_. True" is_hostname
  by unfold_locales
    (auto simp: ranbyus_dga_def ranbyus_domains_hostnames checked_force_body [simplified] split: prod.splits)

lemma ranbyus_main_clean: "clean_dataset tiers_1m (ranbyus_main is)"
  unfolding ranbyus_main_def by (rule ranbyus_run.batches_clean) (simp_all add: list_all_iff)

text \<open>Three steps of a 64-bit linear congruential generator with full period.\<close>

interpretation pcg: lcg "0x5851F42D4C957F2D" "0x14057B7EF767814F" 64
  by unfold_locales simp_all

lemma pcg_random_lcg:
  "fst (pcg_random r) = (lcg_step 0x5851F42D4C957F2D 0x14057B7EF767814F 64 ^^ 3) r"
proof -
  have m: "(a * (x mod k) + c) mod k = (a * x + c) mod k" for a x c k :: int
    by (metis mod_add_left_eq mod_mult_right_eq)
  show ?thesis by (simp add: pcg_random_def Let_def lcg_step_def and_masks numeral_3_eq_3 m)
qed

section \<open>necurs\<close>

definition pseudo_random :: "int \<Rightarrow> int" where
  "pseudo_random value =
     foldl (\<lambda>v index. (v + (((v * 7) XOR push_bit 15 v) + 8 * int index - drop_bit 5 v)) AND (push_bit 64 1 - 1))
       value [0..<nat ((value AND 0x7F) + 21)]"

definition necurs_tlds :: "string list" where
  "necurs_tlds =
     [''tj'', ''in'', ''jp'', ''tw'', ''ac'', ''cm'', ''la'', ''mn'', ''so'', ''sh'', ''sc'', ''nu'', ''nf'', ''mu'',
      ''ms'', ''mx'', ''ki'', ''im'', ''cx'', ''cc'', ''tv'', ''bz'', ''me'', ''eu'', ''de'', ''ru'', ''co'', ''su'', ''pw'',
      ''kz'', ''sx'', ''us'', ''ug'', ''ir'', ''to'', ''ga'', ''com'', ''net'', ''org'', ''biz'', ''xxx'', ''pro'']"

text \<open>The state of the loop over the letters: the index and \<open>n\<close>.\<close>

definition necurs_char :: "int \<times> int \<Rightarrow> char \<times> (int \<times> int)" where
  "necurs_char g =
     (let (i, n) = g; n1 = pseudo_random (n + i) in (chr (n1 mod 25 + 97), (i + 1, pseudo_random (n1 + 0xABBEDF))))"

definition generate_necurs_domain :: "int \<Rightarrow> int \<Rightarrow> datetime \<Rightarrow> string" where
  "generate_necurs_domain sequence_nr magic_nr date =
     (let n1 = pseudo_random (year date);
          n2 = pseudo_random (n1 + month date + 43690);
          n3 = pseudo_random (n2 + drop_bit 2 (day date));
          n4 = pseudo_random (n3 + sequence_nr);
          n5 = pseudo_random (n4 + magic_nr);
          (domain, (_, n)) = repeat_chars (nat (n5 mod 15 + 7)) necurs_char (0, n5)
      in domain @ ''.'' @ pick necurs_tlds n)"

definition necurs_main :: "(datetime \<times> int) list \<Rightarrow> (unit \<times> gen_run) result" where
  "necurs_main is =
     batches (\<lambda>(d, magic_number) _. Inr (map (\<lambda>k. generate_necurs_domain (int k) magic_number d) [0..<2048], ()))
       (batch True (force_close 10) Break) is () (open_files tiers_1m)"

lemma necurs_tlds_suffix: "list_all is_suffix necurs_tlds" "necurs_tlds \<noteq> []"
  by code_simp+

lemma necurs_domain_hostname: "is_hostname (generate_necurs_domain k magic d)"
proof -
  have "is_hostname (fst (repeat_chars (nat (e mod 15 + 7)) necurs_char g) @ CHR ''.'' # pick necurs_tlds n)" for e g n
    using pos_mod_sign [of 15 e] pos_mod_bound [of 15 e]
    by (intro repeat_chars_hostname)
      (simp_all add: necurs_char_def case_prod_beta Let_def is_az_chr_mod' pick_all necurs_tlds_suffix)
  then show ?thesis by (simp add: generate_necurs_domain_def Let_def case_prod_beta)
qed

lemma pseudo_random_range: "0 \<le> pseudo_random v" "pseudo_random v < 2 ^ 64"
proof -
  have step: "0 \<le> (x AND (push_bit 64 1 - 1) :: int) \<and> x AND (push_bit 64 1 - 1) < 2 ^ 64" for x :: int
    by (simp add: push_bit_eq_mult and_masks)
  have "nat ((v AND 0x7F) + 21) \<noteq> 0" by (simp add: nat_eq_iff add_nonneg_eq_0_iff)
  then obtain n where n: "nat ((v AND 0x7F) + 21) = Suc n" by (cases "nat ((v AND 0x7F) + 21)") simp_all
  show "0 \<le> pseudo_random v" "pseudo_random v < 2 ^ 64"
    unfolding pseudo_random_def n by (simp_all del: push_bit_of_1 add: step [simplified])
qed

interpretation necurs_run: batch_source tiers_1m
  "\<lambda>(d, magic) (_::unit). Inr (map (\<lambda>k. generate_necurs_domain (int k) magic d) [0..<2048], ())"
  "batch True (force_close 10) Break" "\<lambda>_. True" "\<lambda>_. True" "\<lambda>_. True" is_hostname
  by unfold_locales
    (auto simp: necurs_domain_hostname list_all_iff checked_force_body [simplified] split: prod.splits)

lemma necurs_main_clean: "clean_dataset tiers_1m (necurs_main is)"
  unfolding necurs_main_def by (rule necurs_run.batches_clean) (simp_all add: list_all_iff)

section \<open>proslikefan\<close>

definition hash_string :: "string \<Rightarrow> int" where
  "hash_string s = foldl (\<lambda>h c. c_int (push_bit 5 h - h + ord c)) 0 s"

text \<open>The number of letters depends on the running hash, which changes with every letter.\<close>

function proslikefan_loop :: "nat \<Rightarrow> int \<Rightarrow> string \<Rightarrow> string" where
  "proslikefan_loop k r domain =
     (if int k < r mod 7 + 6 then
        let r' = \<bar>hash_string (domain @ py_str r)\<bar> in proslikefan_loop (k + 1) r' (domain @ [chr (r' mod 26 + 97)])
      else domain)"
  by pat_completeness auto
termination
proof (relation "measure (\<lambda>(k, _, _). 12 - k)")
  show "((k + 1, r', d'), (k, r, d)) \<in> measure (\<lambda>(k, _, _). 12 - k)" if "int k < r mod 7 + 6" for k r r' d d'
    using that pos_mod_bound [of 7 r] by auto
qed simp

declare proslikefan_loop.simps [simp del]

definition proslikefan_tlds :: "string list" where
  "proslikefan_tlds = [''eu'', ''biz'', ''se'', ''info'', ''com'', ''net'', ''org'', ''ru'', ''in'', ''name'']"

definition proslikefan_magic :: "string list" where
  "proslikefan_magic = [''prospect'', ''OK'']"

definition proslikefan_dga :: "datetime \<Rightarrow> string \<Rightarrow> string \<Rightarrow> int \<Rightarrow> string" where
  "proslikefan_dga date magic tld i =
     (let seed_string = py_join ''.'' [magic, py_str (month date), py_str (day date), py_str (year date), tld];
          r = \<bar>hash_string seed_string\<bar> + i
      in proslikefan_loop 0 r [] @ ''.'' @ tld)"

text \<open>An input is the date and the two values \<open>random.choice\<close> draws in each of the ten turns.\<close>

definition proslikefan_batch :: "datetime \<Rightarrow> (nat \<Rightarrow> int \<times> int) \<Rightarrow> string list" where
  "proslikefan_batch d choice =
     map (\<lambda>i. proslikefan_dga d (pick proslikefan_magic (fst (choice i))) (pick proslikefan_tlds (snd (choice i))) (int i))
       [0..<10]"

definition proslikefan_main :: "(datetime \<times> (nat \<Rightarrow> int \<times> int)) list \<Rightarrow> (unit \<times> gen_run) result" where
  "proslikefan_main is =
     batches (\<lambda>(d, choice) _. Inr (proslikefan_batch d choice, ())) (batch True (force_close 10) Break)
       is () (open_files tiers_1m)"

lemma proslikefan_loop_shape:
  assumes "length domain = k" and "k \<le> 12" and "list_all is_az domain"
  shows "list_all is_az (proslikefan_loop k r domain) \<and> 6 \<le> length (proslikefan_loop k r domain) \<and>
    length (proslikefan_loop k r domain) \<le> 12"
  using assms
proof (induction k r domain rule: proslikefan_loop.induct)
  case (1 k r domain)
  show ?case
  proof (cases "int k < r mod 7 + 6")
    case True
    then have "k + 1 \<le> 12" using pos_mod_bound [of 7 r] by auto
    with 1 True show ?thesis
      by (subst (1 2 3) proslikefan_loop.simps) (simp add: Let_def is_az_chr_mod')
  next
    case False
    with "1.prems" pos_mod_sign [of 7 r] show ?thesis by (auto simp: proslikefan_loop.simps [of k r domain])
  qed
qed

lemma proslikefan_tlds_suffix: "list_all is_suffix proslikefan_tlds" "proslikefan_tlds \<noteq> []"
  by code_simp+

lemma proslikefan_dga_hostname:
  assumes "is_suffix tld"
  shows "is_hostname (proslikefan_dga date magic tld i)"
proof -
  have "is_label (proslikefan_loop 0 r [])" for r
    using proslikefan_loop_shape [of "[]" 0 r] by (intro is_label_az) auto
  then show ?thesis
    using is_hostname_label_suffix [OF _ assms] by (simp add: proslikefan_dga_def Let_def)
qed

lemma proslikefan_batch_hostnames: "list_all is_hostname (proslikefan_batch d choice)"
proof -
  have "is_suffix (pick proslikefan_tlds k)" for k
    by (rule pick_all) (rule proslikefan_tlds_suffix)+
  then show ?thesis by (auto simp: proslikefan_batch_def list_all_iff proslikefan_dga_hostname)
qed

interpretation proslikefan_run: batch_source tiers_1m
  "\<lambda>(d, choice) (_::unit). Inr (proslikefan_batch d choice, ())"
  "batch True (force_close 10) Break" "\<lambda>_. True" "\<lambda>_. True" "\<lambda>_. True" is_hostname
  by unfold_locales
    (auto simp: proslikefan_batch_hostnames checked_force_body [simplified] split: prod.splits)

lemma proslikefan_main_clean: "clean_dataset tiers_1m (proslikefan_main is)"
  unfolding proslikefan_main_def by (rule proslikefan_run.batches_clean) (simp_all add: list_all_iff)

section \<open>Properties\<close>

text \<open>A symmi name is a label of 8 to 15 letters in front of \<open>.ddns.net\<close>, and each of its pairs of
  letters has one vowel (never y) and one consonant (never z), in either order.\<close>

lemma symmi_names_alternate:
  "list_all (\<lambda>d. \<exists>l. d = l @ ''.ddns.net'' \<and> mixed_pairs l \<and> 8 \<le> length l \<and> length l \<le> 15) (symmi_dga nr r)"
proof (induction nr arbitrary: r)
  case (Suc nr)
  have "0 \<le> v mod 8 \<and> v mod 8 \<le> 7" for v :: int by presburger
  then have "8 \<le> nat (8 + v mod 8) \<and> nat (8 + v mod 8) \<le> 15" for v :: int by (simp add: nat_le_iff le_nat_iff)
  then show ?case
    using Suc symmi_letters_mixed [of 0] by (simp add: Let_def case_prod_beta del: mixed_pairs.simps)
qed simp

text \<open>The generator of ranbyus has full period: from any 64-bit state it comes back to that state
  after a multiple of \<open>2 ^ 64\<close> calls and never before.\<close>

lemma ranbyus_full_period:
  assumes "0 \<le> r" and "r < 2 ^ 64"
  shows "((\<lambda>x. fst (pcg_random x)) ^^ n) r = r \<longleftrightarrow> 2 ^ 64 dvd n"
proof -
  have "(\<lambda>x. fst (pcg_random x)) = lcg_step 0x5851F42D4C957F2D 0x14057B7EF767814F 64 ^^ 3"
    by (rule ext) (rule pcg_random_lcg)
  then have "((\<lambda>x. fst (pcg_random x)) ^^ n) r = (lcg_step 0x5851F42D4C957F2D 0x14057B7EF767814F 64 ^^ (3 * n)) r"
    by (simp only: funpow_mult mult.commute)
  also have "\<dots> = r \<longleftrightarrow> 2 ^ 64 dvd 3 * n" by (rule pcg.period [OF assms])
  also have "\<dots> \<longleftrightarrow> 2 ^ 64 dvd n"
    by (rule coprime_dvd_mult_right_iff) (simp only: coprime_power_left_iff coprime_left_2_iff_odd odd_numeral simp_thms)
  finally show ?thesis .
qed

lemma ranbyus_full_period_example:
  "((\<lambda>x. fst (pcg_random x)) ^^ 2) 42 = 42 \<longleftrightarrow> (2 :: nat) ^ 64 dvd 2"
  by (rule ranbyus_full_period) simp_all

text \<open>The loop of proslikefan, whose bound is recomputed from the hash of what has been built so
  far, ends after 6 to 12 letters for every start value.\<close>

lemma proslikefan_loop_ends:
  "list_all is_az (proslikefan_loop 0 r []) \<and> 6 \<le> length (proslikefan_loop 0 r []) \<and>
   length (proslikefan_loop 0 r []) \<le> 12"
  by (rule proslikefan_loop_shape) simp_all

end
