(* ===== verification/Py_Base64.thy ===== *)
theory Py_Base64
  imports Py_Prelude
begin

text \<open>
  Base64 as Python's \<open>base64\<close> module encodes it, standard and URL-safe, with a reader that shows the
  encoding loses nothing.
\<close>

definition b64_urlsafe :: string where
  "b64_urlsafe = ''ABCDEFGHIJKLMNOPQRSTUVWXYZabcdefghijklmnopqrstuvwxyz0123456789-_''"

definition b64_standard :: string where
  "b64_standard = ''ABCDEFGHIJKLMNOPQRSTUVWXYZabcdefghijklmnopqrstuvwxyz0123456789+/''"

text \<open>Three bytes are four groups of six bits; a last group of one or two bytes is filled up.\<close>

fun b64_encode :: "string \<Rightarrow> byte list \<Rightarrow> string" where
  "b64_encode abc [] = []"
| "b64_encode abc [a] = [abc ! (unat a div 4), abc ! (unat a mod 4 * 16), CHR ''='', CHR ''='']"
| "b64_encode abc [a, b] =
     [abc ! (unat a div 4), abc ! (unat a mod 4 * 16 + unat b div 16), abc ! (unat b mod 16 * 4), CHR ''='']"
| "b64_encode abc (a # b # c # bs) =
     [abc ! (unat a div 4), abc ! (unat a mod 4 * 16 + unat b div 16),
      abc ! (unat b mod 16 * 4 + unat c div 64), abc ! (unat c mod 64)] @ b64_encode abc bs"

definition b64_index :: "string \<Rightarrow> char \<Rightarrow> nat" where
  "b64_index abc c = length (takeWhile (\<lambda>x. x \<noteq> c) abc)"

fun b64_decode :: "string \<Rightarrow> string \<Rightarrow> byte list" where
  "b64_decode abc (w # x # y # z # s) =
     (let i = b64_index abc w; j = b64_index abc x; k = b64_index abc y; l = b64_index abc z in
      if y = CHR ''='' then [word_of_nat (i * 4 + j div 16)]
      else if z = CHR ''='' then [word_of_nat (i * 4 + j div 16), word_of_nat (j mod 16 * 16 + k div 4)]
      else [word_of_nat (i * 4 + j div 16), word_of_nat (j mod 16 * 16 + k div 4), word_of_nat (k mod 4 * 64 + l)]
        @ b64_decode abc s)"
| "b64_decode abc s = []"

definition b64_alphabet :: "string \<Rightarrow> bool" where
  "b64_alphabet abc \<longleftrightarrow> length abc = 64 \<and> distinct abc \<and> CHR ''='' \<notin> set abc"

lemma b64_alphabets: "b64_alphabet b64_urlsafe" "b64_alphabet b64_standard"
  by (simp_all add: b64_alphabet_def b64_urlsafe_def b64_standard_def)

lemma b64_index_nth:
  assumes "b64_alphabet abc" and "i < 64"
  shows "b64_index abc (abc ! i) = i" "abc ! i \<noteq> CHR ''=''"
proof -
  have len: "i < length abc" and d: "distinct abc" using assms by (simp_all add: b64_alphabet_def)
  have "abc ! j \<noteq> abc ! i" if "j < i" for j using that len d by (simp add: nth_eq_iff_index_eq)
  then have "takeWhile (\<lambda>x. x \<noteq> abc ! i) abc = take i abc"
    using len by (intro takeWhile_eq_take_P_nth) auto
  then show "b64_index abc (abc ! i) = i" using len by (simp add: b64_index_def)
  show "abc ! i \<noteq> CHR ''=''" using assms(1) nth_mem [OF len] unfolding b64_alphabet_def by metis
qed

lemma sextets:
  fixes a b c :: nat
  assumes "a < 256" and "b < 256" and "c < 256"
  shows "a div 4 < 64" "a mod 4 * 16 + b div 16 < 64" "b mod 16 * 4 + c div 64 < 64" "c mod 64 < 64"
    "a mod 4 * 16 < 64" "b mod 16 * 4 < 64"
    "a div 4 * 4 + (a mod 4 * 16 + b div 16) div 16 = a"
    "(a mod 4 * 16 + b div 16) mod 16 * 16 + (b mod 16 * 4 + c div 64) div 4 = b"
    "(b mod 16 * 4 + c div 64) mod 4 * 64 + c mod 64 = c"
    "a div 4 * 4 + a mod 4 * 16 div 16 = a" "(a mod 4 * 16 + b div 16) mod 16 * 16 + b mod 16 * 4 div 4 = b"
proof -
  have q: "a mod 4 < 4" "b div 16 < 16" "b mod 16 < 16" "c div 64 < 4" using assms by simp_all
  then have "(a mod 4 * 16 + b div 16) div 16 = a mod 4" "(a mod 4 * 16 + b div 16) mod 16 = b div 16"
    "(b mod 16 * 4 + c div 64) div 4 = b mod 16" "(b mod 16 * 4 + c div 64) mod 4 = c div 64"
    by simp_all
  then show "a div 4 * 4 + (a mod 4 * 16 + b div 16) div 16 = a"
    "(a mod 4 * 16 + b div 16) mod 16 * 16 + (b mod 16 * 4 + c div 64) div 4 = b"
    "(b mod 16 * 4 + c div 64) mod 4 * 64 + c mod 64 = c"
    "a div 4 * 4 + a mod 4 * 16 div 16 = a" "(a mod 4 * 16 + b div 16) mod 16 * 16 + b mod 16 * 4 div 4 = b"
    by simp_all
  show "a div 4 < 64" "c mod 64 < 64" using assms by simp_all
  show "a mod 4 * 16 + b div 16 < 64" "b mod 16 * 4 + c div 64 < 64" "a mod 4 * 16 < 64" "b mod 16 * 4 < 64"
    using q by linarith+
qed

lemma word_of_unat: "(word_of_nat (unat b) :: byte) = b"
  by simp

lemma b64_decode_encode:
  assumes "b64_alphabet abc"
  shows "b64_decode abc (b64_encode abc bs) = bs"
  using assms
proof (induction abc bs rule: b64_encode.induct)
  case (2 abc a)
  note s = sextets [OF unat_byte_less [of a] unat_byte_less [of a] unat_byte_less [of a]]
  show ?case by (simp only: b64_encode.simps b64_decode.simps Let_def b64_index_nth [OF "2.prems"] s simp_thms if_True
      word_of_unat)
next
  case (3 abc a b)
  note s = sextets [OF unat_byte_less [of a] unat_byte_less [of b] unat_byte_less [of b]]
  show ?case by (simp only: b64_encode.simps b64_decode.simps Let_def b64_index_nth [OF "3.prems"] s simp_thms if_True
      if_False word_of_unat)
next
  case (4 abc a b c bs)
  note s = sextets [OF unat_byte_less [of a] unat_byte_less [of b] unat_byte_less [of c]]
  show ?case by (simp only: b64_encode.simps b64_decode.simps Let_def b64_index_nth [OF "4.prems"] s simp_thms if_False
      word_of_unat append.simps "4.IH" [OF "4.prems"])
qed simp

end
