(* ===== verification/Gen_Days.thy ===== *)
theory Gen_Days
  imports Gen_Batch Py_Base64 "HOL-Library.Multiset"
begin

text \<open>
  The generators that walk back through the calendar: tempedreve and sisron. Besides the host names of
  their runs: the walk of tempedreve ends and visits every day once, its shuffle is a permutation, and
  a sisron name tells the date it was made from.
\<close>

section \<open>tempedreve\<close>

definition tempedreve_rand :: "int \<Rightarrow> int" where
  "tempedreve_rand r = (let r1 = (16843009 * r) AND 0xFFFFFFFF in (r1 + 65805) AND 0xFFFFFFFF)"

definition shuffle_step :: "string \<times> int \<Rightarrow> nat \<Rightarrow> string \<times> int" where
  "shuffle_step g j =
     (let (letters, r) = g; i = nat (r mod int (length letters))
      in (letters[j := letters ! i, i := letters ! j], tempedreve_rand r))"

definition tempedreve_shuffle :: "string \<Rightarrow> int \<Rightarrow> string" where
  "tempedreve_shuffle letters seed = fst (foldl shuffle_step (letters, seed) [0..<length letters])"

definition tempedreve_seed :: "int \<Rightarrow> int" where
  "tempedreve_seed days = (((1664525 * days) AND 0xFFFFFFFF) + 1013904223) AND 0xFFFFFFFF"

definition ascii_lowercase :: string where
  "ascii_lowercase = ''abcdefghijklmnopqrstuvwxyz''"

definition tempedreve_name :: "int \<Rightarrow> string" where
  "tempedreve_name days =
     (let seed = tempedreve_seed days; tlds = [''.com'', ''.net'', ''.org'', ''.info''];
          letters = tempedreve_shuffle ascii_lowercase seed;
          domain = fst (repeat_chars (nat (seed mod 5 + 7)) (\<lambda>r. (pick letters r, tempedreve_rand r)) seed)
      in domain @ tlds ! nat (seed AND 3))"

text \<open>\<open>d >= datetime(2015, 3, 23)\<close>: the time of day cannot be before midnight.\<close>

definition not_before_enddate :: "datetime \<Rightarrow> bool" where
  "not_before_enddate d \<longleftrightarrow>
     2015 < year d \<or> year d = 2015 \<and> (3 < month d \<or> month d = 3 \<and> 23 \<le> day d)"

function tempedreve_dga :: "datetime \<Rightarrow> string list" where
  "tempedreve_dga d =
     (if not_before_enddate d then tempedreve_name (days_since_unix_epoch d) # tempedreve_dga (prev_day d) else [])"
  by pat_completeness auto
termination
  by (relation "measures [\<lambda>d. nat (year d), \<lambda>d. nat (month d), \<lambda>d. nat (day d)]")
    (auto simp: prev_day_def not_before_enddate_def)

declare tempedreve_dga.simps [simp del]

definition tempedreve_collision :: "gen_run \<Rightarrow> flow \<times> gen_run" where
  "tempedreve_collision s =
     (let s1 = snd (force_close 10 s) in (if forceCloseCounter s1 mod 100 = 0 then Break else Continue, s1))"

definition tempedreve_main :: "datetime list \<Rightarrow> (unit \<times> gen_run) result" where
  "tempedreve_main dates =
     batches (\<lambda>d _. Inr (tempedreve_dga d, ())) (batch True tempedreve_collision Break) dates ()
       (open_files tiers_1m)"

lemma shuffle_step_mset:
  assumes "j < length (fst g)"
  shows "mset (fst (shuffle_step g j)) = mset (fst g)"
proof -
  have "nat (snd g mod int (length (fst g))) < length (fst g)"
    using assms by (cases "fst g = []") (simp_all add: nat_less_iff)
  with assms show ?thesis by (simp add: shuffle_step_def case_prod_beta Let_def mset_swap)
qed

lemma shuffle_steps_mset:
  "\<forall>j \<in> set js. j < length (fst g) \<Longrightarrow> mset (fst (foldl shuffle_step g js)) = mset (fst g)"
proof (induction js arbitrary: g)
  case (Cons j js)
  have m: "mset (fst (shuffle_step g j)) = mset (fst g)" using Cons.prems by (simp add: shuffle_step_mset)
  then have "length (fst (shuffle_step g j)) = length (fst g)" by (rule mset_eq_length)
  with Cons m show ?case by simp
qed simp

lemma mset_shuffle: "mset (tempedreve_shuffle letters seed) = mset letters"
  unfolding tempedreve_shuffle_def by (simp add: shuffle_steps_mset)

lemma tempedreve_name_hostname: "is_hostname (tempedreve_name days)"
proof -
  define seed where "seed = tempedreve_seed days"
  define letters where "letters = tempedreve_shuffle ascii_lowercase seed"
  have "set letters = set ascii_lowercase"
    unfolding letters_def by (rule mset_eq_setD) (rule mset_shuffle)
  moreover have "list_all is_az ascii_lowercase" "ascii_lowercase \<noteq> []" by code_simp+
  ultimately have "list_all is_az letters" "letters \<noteq> []" unfolding list_all_iff by auto
  then have az: "is_az (pick letters r)" for r by (rule pick_all)
  have t: "\<exists>t. [''.com'', ''.net'', ''.org'', ''.info''] ! nat (seed AND 3) = CHR ''.'' # t \<and> is_suffix t"
  proof -
    have "list_all is_suffix [''com'', ''net'', ''org'', ''info'']" by code_simp
    moreover have "nat (seed AND 3) < length [''com'', ''net'', ''org'', ''info'']" by (simp add: and_masks nat_less_iff)
    ultimately have "is_suffix ([''com'', ''net'', ''org'', ''info''] ! nat (seed AND 3))" by (simp only: list_all_length)
    moreover have "[''.com'', ''.net'', ''.org'', ''.info''] ! nat (seed AND 3) =
        CHR ''.'' # [''com'', ''net'', ''org'', ''info''] ! nat (seed AND 3)"
      using nth_map [of "nat (seed AND 3)" "[''com'', ''net'', ''org'', ''info'']" "Cons (CHR ''.'')"]
      by (simp add: and_masks nat_less_iff)
    ultimately show ?thesis by blast
  qed
  have "0 < nat (seed mod 5 + 7)" "nat (seed mod 5 + 7) \<le> 63"
    using pos_mod_sign [of 5 seed] pos_mod_bound [of 5 seed] by linarith+
  then have "is_hostname (fst (repeat_chars (nat (seed mod 5 + 7)) (\<lambda>r. (pick letters r, tempedreve_rand r)) seed)
      @ CHR ''.'' # t)" if "is_suffix t" for t
    using az that by (intro repeat_chars_hostname) simp_all
  then show ?thesis
    using t by (auto simp: tempedreve_name_def Let_def seed_def [symmetric] letters_def [symmetric])
qed

lemma tempedreve_dga_hostnames: "list_all is_hostname (tempedreve_dga d)"
proof (induction d rule: tempedreve_dga.induct)
  case (1 d)
  then show ?case by (subst tempedreve_dga.simps) (simp add: tempedreve_name_hostname)
qed

lemma tempedreve_collision_keeps:
  "run_inv tiers s \<Longrightarrow> run_inv tiers (snd (tempedreve_collision s))"
  "data (snd (tempedreve_collision s)) = data s"
  by (simp_all add: tempedreve_collision_def run_inv_force Let_def)

lemma tempedreve_body:
  "run_inv tiers_1m s \<Longrightarrow> \<exists>s'. batch True tempedreve_collision Break ds s = Inr s' \<and> run_inv tiers_1m s' \<and>
    set (data s') \<subseteq> set (data s) \<union> set ds"
  by (rule t1m.batch_checked) (simp_all add: tempedreve_collision_keeps)

interpretation tempedreve_run: batch_source tiers_1m "\<lambda>d (_::unit). Inr (tempedreve_dga d, ())"
  "batch True tempedreve_collision Break" "\<lambda>_. True" "\<lambda>_. True" "\<lambda>_. True" is_hostname
  by unfold_locales (simp_all add: tempedreve_dga_hostnames tempedreve_body)

lemma tempedreve_main_clean: "clean_dataset tiers_1m (tempedreve_main dates)"
  unfolding tempedreve_main_def by (rule tempedreve_run.batches_clean) (simp_all add: list_all_iff)

text \<open>The end date is day 16517; the walk goes down to it day by day.\<close>

lemma walk_last_day:
  assumes "not_before_enddate d" and "\<not> not_before_enddate (prev_day d)" and "1 \<le> month d" and "1 \<le> day d"
  shows "year d = 2015 \<and> month d = 3 \<and> day d = 23"
  using assms days_in_month_pos [of "year d" "month d - 1"] days_in_month_pos [of 2015 3]
  by (auto simp: not_before_enddate_def prev_day_def split: if_splits)

lemma days_enddate:
  assumes "year d = 2015" and "month d = 3" and "day d = 23"
  shows "days_since_unix_epoch d = 16517"
proof -
  have "[1..2] = [1, 2 :: int]" by code_simp
  with assms show ?thesis
    by (simp add: days_since_unix_epoch_def to_ordinal_def days_before_year_def days_before_month_def
        days_in_month_def is_leap_def)
qed

lemma prev_day_positive: "1 \<le> month d \<Longrightarrow> 1 \<le> day d \<Longrightarrow> 1 \<le> month (prev_day d) \<and> 1 \<le> day (prev_day d)"
  using days_in_month_pos [of "year d" "month d - 1"] by (auto simp: prev_day_def)

lemma tempedreve_walk:
  assumes "not_before_enddate d" and "1 \<le> month d" and "1 \<le> day d"
  shows "16517 \<le> days_since_unix_epoch d \<and>
    tempedreve_dga d = map tempedreve_name (rev [16517..days_since_unix_epoch d])"
  using assms
proof (induction d rule: tempedreve_dga.induct)
  case (1 d)
  have before: "days_since_unix_epoch (prev_day d) = days_since_unix_epoch d - 1"
    using "1.prems" by (simp add: days_since_unix_epoch_def to_ordinal_prev_day)
  show ?case
  proof (cases "not_before_enddate (prev_day d)")
    case True
    with 1 have ih: "16517 \<le> days_since_unix_epoch d - 1"
      "tempedreve_dga (prev_day d) = map tempedreve_name (rev [16517..days_since_unix_epoch d - 1])"
      using prev_day_positive [of d] by (simp_all add: before)
    then show ?thesis
      using "1.prems"(1) upto_rec2 [of 16517 "days_since_unix_epoch d"]
      by (simp add: tempedreve_dga.simps [of d])
  next
    case False
    then have "days_since_unix_epoch d = 16517"
      using walk_last_day [OF "1.prems"(1) False "1.prems"(2,3)] days_enddate by blast
    then show ?thesis
      using "1.prems"(1) False by (simp add: tempedreve_dga.simps [of d] tempedreve_dga.simps [of "prev_day d"])
  qed
qed

section \<open>sisron\<close>

text \<open>\<open>d.strftime("%d%m%Y")\<close>; years before 1900 raise ValueError.\<close>

definition strftime_dmY :: "datetime \<Rightarrow> string result" where
  "strftime_dmY d =
     (if year d < 1900 then Inl ValueError
      else Inr (pad_zeros 2 (py_str (day d)) @ pad_zeros 2 (py_str (month d)) @ py_str (year d)))"

definition ascii_bytes :: "string \<Rightarrow> byte list" where
  "ascii_bytes s = map (\<lambda>c. word_of_int (ord c)) s"

definition sisron_char :: "char \<Rightarrow> char" where
  "sisron_char c = (let l = lower_char c in if l = CHR ''='' then CHR ''a'' else l)"

definition sisron_label :: "string \<Rightarrow> string" where
  "sisron_label ds = map sisron_char (b64_encode b64_standard (ascii_bytes ds))"

definition sisron_tlds :: "string list" where
  "sisron_tlds = [''.com'', ''.org'', ''.net'', ''.info'']"

definition sisron_dga :: "datetime \<Rightarrow> nat \<Rightarrow> int \<Rightarrow> string result" where
  "sisron_dga d day_index tld_index =
     rbind (strftime_dmY (minus_days d day_index)) (\<lambda>ds.
       rbind (py_get sisron_tlds tld_index) (\<lambda>tld. Inr (sisron_label ds @ tld)))"

text \<open>The inner loop calls \<open>dga\<close> in each of its turns, after looking at \<open>stop\<close>.\<close>

definition sisron_turn :: "datetime \<Rightarrow> nat \<Rightarrow> gen_run \<Rightarrow> gen_run result" where
  "sisron_turn d i s =
     rbind (sisron_dga d (i mod 10) (int (i div 10))) (\<lambda>domain. batch True (force_close 10) Break [domain] s)"

definition sisron_main :: "datetime list \<Rightarrow> gen_run result" where
  "sisron_main dates = iterate (\<lambda>d. iterate (sisron_turn d) [0..<40]) dates (open_files tiers_1m)"

text \<open>The text of a digit triple: four characters that determine the digits, although case is lost.\<close>

definition sisron_first :: "nat \<Rightarrow> char \<times> char" where
  "sisron_first x = (sisron_char (b64_standard ! ((48 + x) div 4)), sisron_char (b64_standard ! ((48 + x) mod 4 * 16 + 3)))"

definition sisron_second :: "nat \<Rightarrow> char" where
  "sisron_second x = sisron_char (b64_standard ! ((48 + x) mod 16 * 4))"

definition sisron_third :: "nat \<Rightarrow> char" where
  "sisron_third x = sisron_char (b64_standard ! ((48 + x) mod 64))"

lemma sisron_parts_inj:
  "inj_on sisron_first (set [0..<10])" "inj_on sisron_second (set [0..<10])" "inj_on sisron_third (set [0..<10])"
proof -
  have "distinct (map sisron_first [0..<10])" "distinct (map sisron_second [0..<10])"
    "distinct (map sisron_third [0..<10])"
    by code_simp+
  then show "inj_on sisron_first (set [0..<10])" "inj_on sisron_second (set [0..<10])"
    "inj_on sisron_third (set [0..<10])"
    by (simp_all only: distinct_map)
qed

definition digit_chars :: "nat list \<Rightarrow> string" where
  "digit_chars ns = map hexdigit ns"

lemma unat_digit: "n < 10 \<Longrightarrow> unat (word_of_int (ord (hexdigit n)) :: byte) = 48 + n"
proof -
  have "list_all (\<lambda>n. ord (hexdigit n) = 48 + int n) [0..<10]" by code_simp
  moreover assume "n < 10"
  ultimately have "ord (hexdigit n) = int (48 + n)" by (simp add: list_all_iff)
  then have "(word_of_int (ord (hexdigit n)) :: byte) = word_of_nat (48 + n)" by simp
  with \<open>n < 10\<close> show "unat (word_of_int (ord (hexdigit n)) :: byte) = 48 + n"
    by (simp only: unat_of_nat) simp
qed

lemma sisron_label_digits:
  assumes "list_all (\<lambda>n. n < 10) [a, b, c, d, e, f, g, h]"
  shows "sisron_label (digit_chars [a, b, c, d, e, f, g, h]) =
    [fst (sisron_first a), snd (sisron_first a), sisron_second b, sisron_third c,
     fst (sisron_first d), snd (sisron_first d), sisron_second e, sisron_third f,
     fst (sisron_first g), snd (sisron_first g), sisron_second h, CHR ''a'']"
proof -
  have 16: "(48 + n) div 16 = 3" "(48 + n) div 64 = 0" if "n < 10" for n :: nat
    using that by (auto intro!: div_nat_eqI)
  have "sisron_char (CHR ''='') = CHR ''a''" by code_simp
  with assms 16 show ?thesis
    by (simp add: sisron_label_def digit_chars_def ascii_bytes_def unat_digit sisron_first_def sisron_second_def
        sisron_third_def)
qed

lemma sisron_label_inject:
  assumes "list_all (\<lambda>n. n < 10) xs" and "list_all (\<lambda>n. n < 10) ys" and "length xs = 8" and "length ys = 8"
    and "sisron_label (digit_chars xs) = sisron_label (digit_chars ys)"
  shows "xs = ys"
proof -
  obtain a b c d e f g h where x: "xs = [a, b, c, d, e, f, g, h]"
    using assms(3) by (auto simp: length_Suc_conv numeral_eq_Suc)
  obtain a' b' c' d' e' f' g' h' where y: "ys = [a', b', c', d', e', f', g', h']"
    using assms(4) by (auto simp: length_Suc_conv numeral_eq_Suc)
  have inj: "m < 10 \<Longrightarrow> n < 10 \<Longrightarrow> sisron_first m = sisron_first n \<Longrightarrow> m = n"
    "m < 10 \<Longrightarrow> n < 10 \<Longrightarrow> sisron_second m = sisron_second n \<Longrightarrow> m = n"
    "m < 10 \<Longrightarrow> n < 10 \<Longrightarrow> sisron_third m = sisron_third n \<Longrightarrow> m = n" for m n
    using sisron_parts_inj by (auto dest: inj_onD)
  show ?thesis
    using assms(5) assms(1,2) inj unfolding x y
    by (simp add: sisron_label_digits prod_eq_iff)
qed

lemma pad2_digits:
  assumes "0 \<le> n" and "n < 100"
  shows "pad_zeros 2 (py_str n) = digit_chars [nat n div 10, nat n mod 10]"
proof -
  have d: "digits 10 m = (if m < 10 then [m] else [m div 10, m mod 10])" if "m < 100" for m
    using that less_mult_imp_div_less [of m 10 10] by (simp add: digits.simps [of 10 m] digits.simps [of 10 "m div 10"])
  have "hexdigit 0 = CHR ''0''" by code_simp
  with assms d [of "nat n"] show ?thesis
    by (auto simp: pad_zeros_def py_str_def digit_chars_def nat_less_iff)
qed

lemma year_digits:
  assumes "1000 \<le> n" and "n < 10000"
  shows "py_str n = digit_chars [nat n div 1000, nat n div 100 mod 10, nat n div 10 mod 10, nat n mod 10]"
proof -
  have "digits 10 m = [m div 1000, m div 100 mod 10, m div 10 mod 10, m mod 10]" if "1000 \<le> m" "m < 10000" for m
  proof -
    have "m div 10 \<ge> 100" "m div 100 \<ge> 10" "m div 1000 < 10" using that by simp_all
    then show ?thesis
      by (simp add: digits.simps [of 10 m] digits.simps [of 10 "m div 10"] digits.simps [of 10 "m div 100"]
          digits.simps [of 10 "m div 1000"] div_mult2_eq [symmetric])
  qed
  moreover have "1000 \<le> nat n" "nat n < 10000" using assms by (simp_all add: nat_less_iff le_nat_iff)
  ultimately show ?thesis using assms by (simp add: py_str_def digit_chars_def)
qed

definition date_digits :: "datetime \<Rightarrow> nat list" where
  "date_digits d =
     (let p = nat (day d); q = nat (month d); r = nat (year d)
      in [p div 10, p mod 10, q div 10, q mod 10, r div 1000, r div 100 mod 10, r div 10 mod 10, r mod 10])"

lemma strftime_digits:
  assumes "is_datetime d" and "1900 \<le> year d"
  shows "strftime_dmY d = Inr (digit_chars (date_digits d))"
  using assms is_datetime_bounds [OF assms(1)]
  by (simp add: strftime_dmY_def pad2_digits year_digits date_digits_def Let_def digit_chars_def)

lemma date_digits_less:
  assumes "is_datetime d"
  shows "list_all (\<lambda>n. n < 10) (date_digits d)"
proof -
  have "nat (day d) div 10 < 10" "nat (month d) div 10 < 10" "nat (year d) div 1000 < 10"
    using is_datetime_bounds [OF assms] by (simp_all add: less_mult_imp_div_less nat_less_iff)
  then show ?thesis by (simp add: date_digits_def Let_def)
qed

lemma date_digits_inject:
  assumes "is_datetime d" and "is_datetime e" and "date_digits d = date_digits e"
  shows "year d = year e \<and> month d = month e \<and> day d = day e"
proof -
  have two: "m div 10 = n div 10 \<Longrightarrow> m mod 10 = n mod 10 \<Longrightarrow> m = n" for m n :: nat
    by (metis div_mult_mod_eq)
  have nested: "m div 1000 = m div 10 div 10 div 10" "m div 100 = m div 10 div 10" for m :: nat
    by (simp_all add: div_mult2_eq [symmetric])
  have "nat (day d) = nat (day e)" "nat (month d) = nat (month e)" "nat (year d) = nat (year e)"
    using assms(3) by (auto simp: date_digits_def Let_def nested intro!: two)
  then show ?thesis using is_datetime_bounds [OF assms(1)] is_datetime_bounds [OF assms(2)]
    by (simp add: eq_nat_nat_iff)
qed

lemma minus_days_datetime:
  assumes "is_datetime d" and "int k < year d"
  shows "is_datetime (minus_days d k) \<and> year d - int k \<le> year (minus_days d k)"
  using assms(2)
proof (induction k)
  case (Suc k)
  then have ih: "is_datetime (minus_days d k)" "year d - int k \<le> year (minus_days d k)" by simp_all
  with Suc.prems show ?case using prev_day_datetime [OF ih(1)] by (auto simp: minus_days_def)
qed (simp add: minus_days_def assms(1))

lemma sisron_dga_value:
  assumes "is_datetime d" and "1909 \<le> year d" and "k < 10" and "t < 4"
  shows "sisron_dga d k (int t) = Inr (sisron_label (digit_chars (date_digits (minus_days d k))) @ sisron_tlds ! t)"
proof -
  have "is_datetime (minus_days d k)" "1900 \<le> year (minus_days d k)"
    using minus_days_datetime [OF assms(1), of k] assms(2,3) by auto
  with assms(4) show ?thesis
    by (simp add: sisron_dga_def strftime_digits py_get_nth sisron_tlds_def)
qed

lemma sisron_parts_alnum:
  assumes "n < 10"
  shows "is_alnum (fst (sisron_first n))" "is_alnum (snd (sisron_first n))" "is_alnum (sisron_second n)"
    "is_alnum (sisron_third n)"
proof -
  have eq: "map sisron_first [0..<10] = zip ''mmmmnnnnoo'' ''dtjzdtjzdt''" "map sisron_second [0..<10] = ''aeimquycgk''"
    "map sisron_third [0..<10] = ''wxyz012345''"
    by code_simp+
  have "list_all is_alnum ''mmmmnnnnoo''" "list_all is_alnum ''dtjzdtjzdt''" "list_all is_alnum ''aeimquycgk''"
    "list_all is_alnum ''wxyz012345''"
    by code_simp+
  then have "list_all (\<lambda>p. is_alnum (fst p) \<and> is_alnum (snd p)) (map sisron_first [0..<10])"
    "list_all is_alnum (map sisron_second [0..<10])" "list_all is_alnum (map sisron_third [0..<10])"
    unfolding eq by simp_all
  with assms show "is_alnum (fst (sisron_first n))" "is_alnum (snd (sisron_first n))" "is_alnum (sisron_second n)"
    "is_alnum (sisron_third n)"
    unfolding list_all_iff by auto
qed

lemma sisron_label_shape:
  assumes "is_datetime d"
  shows "length (sisron_label (digit_chars (date_digits d))) = 12" "is_label (sisron_label (digit_chars (date_digits d)))"
proof -
  have "is_alnum (CHR ''a'')" by code_simp
  moreover obtain a b c d' e f g h where x: "date_digits d = [a, b, c, d', e, f, g, h]"
    by (simp only: date_digits_def Let_def)
  ultimately have "length (sisron_label (digit_chars (date_digits d))) = 12"
    "list_all is_alnum (sisron_label (digit_chars (date_digits d)))"
    using date_digits_less [OF assms] unfolding x
    by (simp_all add: sisron_label_digits sisron_parts_alnum)
  then show "length (sisron_label (digit_chars (date_digits d))) = 12" "is_label (sisron_label (digit_chars (date_digits d)))"
    by (simp_all add: is_label_length)
qed

lemma sisron_tld: "t < 4 \<Longrightarrow> \<exists>u. sisron_tlds ! t = CHR ''.'' # u \<and> is_suffix u"
proof -
  have "list_all (\<lambda>t. hd (sisron_tlds ! t) = CHR ''.'' \<and> sisron_tlds ! t \<noteq> [] \<and> is_suffix (tl (sisron_tlds ! t))) [0..<4]"
    by code_simp
  moreover assume "t < 4"
  ultimately have "hd (sisron_tlds ! t) = CHR ''.'' \<and> sisron_tlds ! t \<noteq> [] \<and> is_suffix (tl (sisron_tlds ! t))"
    by (simp add: list_all_iff)
  then show ?thesis by (metis list.collapse)
qed

lemma sisron_dga_hostname:
  assumes "is_datetime d" and "1909 \<le> year d" and "k < 10" and "t < 4"
  shows "\<exists>n. sisron_dga d k (int t) = Inr n \<and> is_hostname n"
proof -
  have "is_datetime (minus_days d k)" using minus_days_datetime [OF assms(1), of k] assms(2,3) by auto
  moreover obtain u where "sisron_tlds ! t = CHR ''.'' # u" "is_suffix u" using sisron_tld [OF assms(4)] by blast
  ultimately show ?thesis
    using sisron_label_shape(2) is_hostname_label_suffix sisron_dga_value [OF assms] by simp
qed

text \<open>Loops whose turns never raise.\<close>

context tiered
begin

lemma iterate_runs:
  assumes "\<And>x s. x \<in> set xs \<Longrightarrow> run_inv tiers s \<Longrightarrow> list_all P (data s) \<Longrightarrow>
      \<exists>s'. body x s = Inr s' \<and> run_inv tiers s' \<and> list_all P (data s')"
    and "run_inv tiers s" and "list_all P (data s)"
  shows "\<exists>s'. iterate body xs s = Inr s' \<and> run_inv tiers s' \<and> list_all P (data s')"
  using assms
proof (induction xs arbitrary: s)
  case (Cons x xs)
  show ?case
  proof (cases "stop s")
    case False
    obtain s1 where s1: "body x s = Inr s1" "run_inv tiers s1" "list_all P (data s1)"
      using Cons.prems(1) [of x s] Cons.prems(2,3) by auto
    with False Cons.IH [of s1] Cons.prems(1) show ?thesis by simp
  qed (use Cons.prems in simp)
qed simp

end

lemma sisron_turn_runs:
  assumes "is_datetime d" and "1909 \<le> year d" and "i < 40" and "run_inv tiers_1m s" and "list_all is_hostname (data s)"
  shows "\<exists>s'. sisron_turn d i s = Inr s' \<and> run_inv tiers_1m s' \<and> list_all is_hostname (data s')"
proof -
  have "i div 10 < 4" using assms(3) by (simp add: less_mult_imp_div_less)
  then obtain n where n: "sisron_dga d (i mod 10) (int (i div 10)) = Inr n" "is_hostname n"
    using sisron_dga_hostname [OF assms(1,2), of "i mod 10" "i div 10"] by auto
  obtain s' where "batch True (force_close 10) Break [n] s = Inr s'" "run_inv tiers_1m s'"
    "set (data s') \<subseteq> set (data s) \<union> set [n]"
    using checked_force_body [OF assms(4), of 10 Break "[n]"] by blast
  with n assms(5) show ?thesis by (auto simp: sisron_turn_def list_all_iff)
qed

lemma sisron_main_runs:
  assumes "list_all (\<lambda>d. is_datetime d \<and> 1909 \<le> year d) dates"
  shows "\<exists>s. sisron_main dates = Inr s \<and> run_inv tiers_1m s \<and> list_all is_hostname (data s)"
proof -
  have "\<exists>s'. iterate (sisron_turn d) [0..<40] s = Inr s' \<and> run_inv tiers_1m s' \<and> list_all is_hostname (data s')"
    if "d \<in> set dates" "run_inv tiers_1m s" "list_all is_hostname (data s)" for d s
    using that assms by (intro t1m.iterate_runs sisron_turn_runs) (auto simp: list_all_iff)
  then show ?thesis
    unfolding sisron_main_def by (rule t1m.iterate_runs [OF _ open_files_inv]) (auto simp: open_files_def)
qed

section \<open>Properties\<close>

text \<open>The generator of tempedreve ends for every date, and from a date not before 2015-03-23 it
  yields one name per day, from that day back to 2015-03-23 (day 16517 of the Unix epoch), each computed
  from its day number alone.\<close>

lemma tempedreve_one_name_per_day:
  assumes "is_datetime d" and "not_before_enddate d"
  shows "tempedreve_dga d = map tempedreve_name (rev [16517..days_since_unix_epoch d])"
  using tempedreve_walk [OF assms(2)] is_datetime_bounds [OF assms(1)] by blast

lemma tempedreve_one_name_per_day_example:
  "tempedreve_dga \<lparr>year = 2015, month = 4, day = 1, hour = 1, minute = 0\<rparr> =
    map tempedreve_name (rev [16517..days_since_unix_epoch \<lparr>year = 2015, month = 4, day = 1, hour = 1, minute = 0\<rparr>])"
  by (rule tempedreve_one_name_per_day)
    (simp_all add: is_datetime_def days_in_month_def not_before_enddate_def)

text \<open>\<open>shuffle\<close> only permutes the letters, whatever the seed.\<close>

lemma tempedreve_shuffle_permutes:
  "mset (tempedreve_shuffle letters seed) = mset letters"
  by (rule mset_shuffle)

text \<open>A sisron name identifies the day it was made from and its top-level domain, although the
  base64 text is folded to lower case.\<close>

lemma sisron_name_identifies_day:
  assumes "is_datetime d" and "1909 \<le> year d" and "j < 10" and "t < 4"
    and "is_datetime e" and "1909 \<le> year e" and "k < 10" and "u < 4"
    and "sisron_dga d j (int t) = sisron_dga e k (int u)"
  shows "year (minus_days d j) = year (minus_days e k) \<and> month (minus_days d j) = month (minus_days e k) \<and>
    day (minus_days d j) = day (minus_days e k) \<and> t = u"
proof -
  define d' e' where "d' = minus_days d j" and "e' = minus_days e k"
  have v: "is_datetime d'" "is_datetime e'"
    using minus_days_datetime [of d j] minus_days_datetime [of e k] assms by (auto simp: d'_def e'_def)
  have "sisron_label (digit_chars (date_digits d')) @ sisron_tlds ! t =
      sisron_label (digit_chars (date_digits e')) @ sisron_tlds ! u"
    using assms(9) sisron_dga_value [OF assms(1-4)] sisron_dga_value [OF assms(5-8)] by (simp add: d'_def e'_def)
  then have eq: "sisron_label (digit_chars (date_digits d')) = sisron_label (digit_chars (date_digits e'))"
    "sisron_tlds ! t = sisron_tlds ! u"
    using sisron_label_shape(1) [OF v(1)] sisron_label_shape(1) [OF v(2)] by (simp_all add: append_eq_append_conv)
  have "date_digits d' = date_digits e'"
    by (rule sisron_label_inject [OF date_digits_less [OF v(1)] date_digits_less [OF v(2)] _ _ eq(1)])
      (simp_all add: date_digits_def Let_def)
  moreover have "distinct sisron_tlds" "length sisron_tlds = 4" by (simp_all add: sisron_tlds_def)
  ultimately show ?thesis
    using date_digits_inject [OF v] eq(2) assms(4,8) by (simp add: d'_def e'_def nth_eq_iff_index_eq)
qed

lemma sisron_name_identifies_day_example:
  "(let d = \<lparr>year = 2020, month = 1, day = 1, hour = 1, minute = 0\<rparr>; e = \<lparr>year = 2020, month = 1, day = 1, hour = 2, minute = 0\<rparr>
    in year (minus_days d 1) = year (minus_days e 1) \<and> month (minus_days d 1) = month (minus_days e 1) \<and>
      day (minus_days d 1) = day (minus_days e 1) \<and> (2 :: nat) = 2)"
  unfolding Let_def
  by (rule sisron_name_identifies_day)
    (simp_all add: is_datetime_def days_in_month_def sisron_dga_def minus_days_def prev_day_def strftime_dmY_def)

end
