(* ===== verification/Gen_Chain.thy ===== *)
theory Gen_Chain
  imports Gen_Batch
begin

text \<open>
  The generators whose main program makes one domain per iteration from a state that lives on between the
  iterations: banjori and shiotob compute the next domain from the last one, simda advances one of six
  configurations.
\<close>

section \<open>Names with a new beginning\<close>

text \<open>Replacing leading letters by as many letters keeps a host name a host name.\<close>

lemma is_label_prefix:
  assumes "list_all is_az p" and "list_all is_az q" and "length p = length q" and "p \<noteq> []"
  shows "is_label (p @ w) = is_label (q @ w)"
proof -
  have h: "hd r \<noteq> CHR ''-''" "last r \<noteq> CHR ''-''" "list_all is_ldh r" if "list_all is_az r" "r \<noteq> []" for r
    using that hd_in_set [of r] last_in_set [of r] alnum_not_hyphen is_alnum_az
    by (auto simp: list_all_iff is_ldh_def)
  have "q \<noteq> []" using assms(3,4) by auto
  then show ?thesis
    using h [OF assms(1)] h [OF assms(2)] assms(3,4) by (auto simp: is_label_def last_append)
qed

lemma py_split_prefix:
  assumes "list_all is_az p"
  shows "py_split CHR ''.'' (p @ t) = (p @ hd (py_split CHR ''.'' t)) # tl (py_split CHR ''.'' t)"
  using assms
proof (induction p)
  case Nil
  then show ?case by simp
next
  case (Cons c p)
  then have "c \<noteq> CHR ''.''" by (auto simp: is_az_def)
  with Cons show ?case by simp
qed

lemma is_hostname_prefix:
  assumes "list_all is_az p" and "list_all is_az q" and "length p = length q" and "p \<noteq> []"
  shows "is_hostname (p @ t) = is_hostname (q @ t)"
  unfolding is_hostname_def py_split_prefix [OF assms(1)] py_split_prefix [OF assms(2)]
  using is_label_prefix [OF assms] assms(3) by simp

section \<open>banjori\<close>

definition map_to_lowercase_letter :: "int \<Rightarrow> int" where
  "map_to_lowercase_letter s = 97 + (s - 97) mod 26"

text \<open>Fewer than four characters raise IndexError.\<close>

fun banjori_next_domain :: "string \<Rightarrow> string result" where
  "banjori_next_domain (c0 # c1 # c2 # c3 # rest) =
     (let d0 = map_to_lowercase_letter (ord c0 + ord c3);
          d1 = map_to_lowercase_letter (d0 + 2 * ord c1);
          d2 = map_to_lowercase_letter (d0 + ord c2 - 1);
          d3 = map_to_lowercase_letter (d1 + d2 + ord c3)
      in Inr (chr d0 # chr d1 # chr d2 # chr d3 # rest))"
| "banjori_next_domain _ = Inl IndexError"

definition banjori_seeds :: "string list" where
  "banjori_seeds =
     [''xxxxedsafe.com'', ''xxxxhuxmiax.com'', ''xxxxierihon.com'', ''xxxxtomvader.com'', ''xxxxednog.com'',
      ''xxxxapontis.com'', ''xxxxefnomosk.com'', ''xxxxdminmont.com'', ''xxxxesroater.com'', ''xxxxggelds.com'',
      ''xxxxmobama.com'', ''antisemitismgavenuteq.com'', ''bandepictom.com'', ''buckbyplaywobb.com'',
      ''telemachuslazaroqok.com'', ''texanfoulilp.com'', ''clearasildeafeninguvuc.com'',
      ''marisagabardinedazyx.com'', ''pickfordlinnetavox.com'', ''snapplefrostbitecycz.com'',
      ''filtererwyatanb.com'', ''antwancorml.com'', ''stravinskycattederifg.com'', ''forepartbulkyf.com'',
      ''fundamentalistfanchonut.com'', ''criterionirkutskagl.com'', ''criminalcentricem.com'',
      ''babysatformalisticirekb.com'', ''earnestnessbiophysicalohax.com'', ''displeasuredehydratorysagp.com'',
      ''antisemitismgavenuteq.com'', ''cantorcajanunal.com'', ''andersensinaix.com'', ''formidablyhoosieraw.com'',
      ''gbpsenhancedysb.com'', ''genialitydevonianizuwb.com'', ''gerhardenslavetusul.com'',
      ''kennanerraticallyqozaw.com'', ''rozellaabettingk.com'', ''doniellefrictionlessv.com'',
      ''anshanarianaqh.com'', ''buckbyplaywobb.com'']"

text \<open>The state is the domain and the number of collisions; an input is the value \<open>random.choice\<close> would draw.\<close>

definition banjori_gen :: "int \<Rightarrow> string \<times> nat \<Rightarrow> (string \<times> (string \<times> nat)) result" where
  "banjori_gen _ g = rbind (banjori_next_domain (fst g)) (\<lambda>d. Inr (d, (d, snd g)))"

definition banjori_collision :: "int \<Rightarrow> string \<times> nat \<Rightarrow> gen_run \<Rightarrow> (string \<times> nat) \<times> gen_run" where
  "banjori_collision k g s =
     (let c = snd g + 1 in (if c mod 100 = 0 then (pick banjori_seeds k, 0) else (fst g, c), s))"

definition banjori_main :: "int \<Rightarrow> int list \<Rightarrow> ((string \<times> nat) \<times> gen_run) result" where
  "banjori_main k0 ks =
     singles banjori_gen banjori_collision ks (pick banjori_seeds k0, 0) (open_files tiers_500k)"

text \<open>The domains are a seed with other letters in its first four places.\<close>

definition banjori_like :: "string \<Rightarrow> string \<Rightarrow> bool" where
  "banjori_like seed d \<longleftrightarrow>
     length d = length seed \<and> drop 4 d = drop 4 seed \<and> list_all is_az (take 4 d)"

definition banjori_good :: "string \<times> nat \<Rightarrow> bool" where
  "banjori_good g \<longleftrightarrow> list_ex (\<lambda>seed. banjori_like seed (fst g)) banjori_seeds"

lemma banjori_seeds_ok:
  "list_all (\<lambda>s. is_hostname s \<and> 4 \<le> length s \<and> list_all is_az (take 4 s)) banjori_seeds" "banjori_seeds \<noteq> []"
  by code_simp+

lemma map_to_lowercase_letter_az: "is_az (chr (map_to_lowercase_letter s))"
  unfolding map_to_lowercase_letter_def by (rule is_az_chr_mod) simp_all

lemma banjori_next_like:
  assumes "4 \<le> length seed" and "drop 4 d = drop 4 seed" and "length d = length seed"
  shows "\<exists>d'. banjori_next_domain d = Inr d' \<and> banjori_like seed d'"
proof -
  have "Suc (Suc (Suc (Suc 0))) \<le> length d" using assms(1,3) by simp
  then obtain c0 c1 c2 c3 r where "d = c0 # c1 # c2 # c3 # r" unfolding Suc_le_length_iff by auto
  with assms show ?thesis
    by (simp add: banjori_like_def Let_def map_to_lowercase_letter_az)
qed

lemma banjori_like_hostname:
  assumes "seed \<in> set banjori_seeds" and "banjori_like seed d"
  shows "is_hostname d"
proof -
  have seed: "is_hostname seed" "4 \<le> length seed" "list_all is_az (take 4 seed)"
    using banjori_seeds_ok(1) assms(1) by (simp_all add: list_all_iff)
  have "is_hostname (take 4 d @ drop 4 d) = is_hostname (take 4 seed @ drop 4 d)"
    using seed assms(2) by (intro is_hostname_prefix) (auto simp: banjori_like_def)
  then show ?thesis using assms(2) seed(1) by (simp add: banjori_like_def)
qed

interpretation banjori_run: single_source tiers_500k banjori_gen banjori_collision banjori_good "\<lambda>_. True" is_hostname
proof unfold_locales
  fix g i
  assume "banjori_good g"
  then obtain seed where seed: "seed \<in> set banjori_seeds" "banjori_like seed (fst g)"
    by (auto simp: banjori_good_def list_ex_iff)
  then have "4 \<le> length seed" using banjori_seeds_ok(1) by (simp add: list_all_iff)
  then obtain d' where d': "banjori_next_domain (fst g) = Inr d'" "banjori_like seed d'"
    using banjori_next_like seed(2) unfolding banjori_like_def by blast
  then show "\<exists>d g'. banjori_gen i g = Inr (d, g') \<and> is_hostname d \<and> banjori_good g'"
    using seed(1) banjori_like_hostname by (auto simp: banjori_gen_def banjori_good_def list_ex_iff)
next
  fix g i s
  assume g: "banjori_good g"
  have "pick banjori_seeds i \<in> set banjori_seeds" by (rule pick_in_set) (rule banjori_seeds_ok)
  then have "banjori_good (pick banjori_seeds i, 0)"
    using banjori_seeds_ok(1) by (auto simp: banjori_good_def list_ex_iff list_all_iff banjori_like_def)
  with g show "banjori_good (fst (banjori_collision i g s))"
    by (simp add: banjori_collision_def Let_def banjori_good_def)
qed (simp_all add: banjori_collision_def Let_def)

lemma banjori_main_clean: "clean_dataset tiers_500k (banjori_main k0 ks)"
  unfolding banjori_main_def
proof (rule banjori_run.singles_clean)
  have "pick banjori_seeds k0 \<in> set banjori_seeds" by (rule pick_in_set) (rule banjori_seeds_ok)
  then show "banjori_good (pick banjori_seeds k0, 0)"
    using banjori_seeds_ok(1) by (auto simp: banjori_good_def list_ex_iff list_all_iff banjori_like_def)
qed (simp_all add: list_all_iff)

section \<open>shiotob\<close>

definition qwerty :: string where
  "qwerty = ''qwertyuiopasdfghjklzxcvbnm123945678''"

text \<open>\<open>domain[:-3]\<close>.\<close>

definition sum_of_characters :: "string \<Rightarrow> int" where
  "sum_of_characters domain = sum_list (map ord (take (length domain - 3) domain))"

definition shiotob_mix :: "int \<Rightarrow> int \<Rightarrow> int list \<Rightarrow> nat \<times> nat \<Rightarrow> int list" where
  "shiotob_mix old_len sof codes ij =
     (let (i, j) = ij; edi = j + i in
      if edi < 65 then
        let p = old_len * codes ! j; cl = p XOR codes ! edi XOR sof in codes[edi := cl AND 0xFF]
      else codes)"

definition shiotob_codes :: "string \<Rightarrow> int list" where
  "shiotob_codes domain =
     foldl (shiotob_mix (int (length domain) - 4) (sum_of_characters domain)) (map ord domain @ replicate 100 0)
       (concat (map (\<lambda>i. map (Pair i) [0..<66]) [0..<66]))"

definition shiotob_length :: "string \<Rightarrow> int list \<Rightarrow> int" where
  "shiotob_length domain codes =
     (let old_len = int (length domain) - 4; cx = ((codes ! 2 * old_len) XOR codes ! 0) AND 0xFF; n = cx div 16
      in if n < 10 then old_len else n)"

definition ends_with_net :: "string \<Rightarrow> bool" where
  "ends_with_net domain \<longleftrightarrow> 4 \<le> length domain \<and> drop (length domain - 4) domain = ''.net''"

definition get_next_domain :: "string \<Rightarrow> string result" where
  "get_next_domain domain =
     (let codes = shiotob_codes domain; tld = (if ends_with_net domain then ''.com'' else ''.net'')
      in rbind (rmap (\<lambda>i. py_get qwerty (codes ! i div 8)) [0..<nat (shiotob_length domain codes)])
           (\<lambda>hostname. Inr (hostname @ tld)))"

definition domainseeds :: "string list" where
  "domainseeds = [''wtipubctwiekhir.net'', ''n9oonpgabxe31.net'', ''dogcurbctw.com'', ''4ypv1eehphg3a.com'']"

definition shiotob_collision :: "int \<Rightarrow> string \<Rightarrow> gen_run \<Rightarrow> string \<times> gen_run" where
  "shiotob_collision k domain s =
     (if forceCloseCounter s mod 100 = 0 then pick domainseeds k else domain, snd (force_close 10 s))"

definition shiotob_main :: "int \<Rightarrow> int list \<Rightarrow> (string \<times> gen_run) result" where
  "shiotob_main k0 ks =
     singles (\<lambda>_ domain. rbind (get_next_domain domain) (\<lambda>d. Inr (d, d))) shiotob_collision ks
       (pick domainseeds k0) (open_files tiers_1m)"

lemma length_shiotob_mix [simp]: "length (shiotob_mix n sof codes ij) = length codes"
  by (simp add: shiotob_mix_def Let_def case_prod_beta)

lemma length_foldl_shiotob_mix [simp]: "length (foldl (shiotob_mix n sof) codes ijs) = length codes"
  by (induction ijs arbitrary: codes) simp_all

definition is_code :: "int \<Rightarrow> bool" where
  "is_code c \<longleftrightarrow> 0 \<le> c \<and> c < 256"

lemma shiotob_mix_codes:
  assumes "list_all is_code codes"
  shows "list_all is_code (shiotob_mix n sof codes ij)"
proof -
  have "is_code (x AND 0xFF)" for x by (simp add: is_code_def and_masks)
  with assms show ?thesis
    by (auto simp: shiotob_mix_def Let_def case_prod_beta list_all_iff dest!: set_update_subset_insert [THEN subsetD])
qed

lemma shiotob_codes_codes: "list_all is_code (shiotob_codes domain)"
proof -
  have "list_all is_code (foldl (shiotob_mix n sof) codes ijs)" if "list_all is_code codes" for n sof codes ijs
    using that by (induction ijs arbitrary: codes) (simp_all add: shiotob_mix_codes)
  moreover have "list_all is_code (map ord domain @ replicate 100 0)"
    by (simp add: list_all_iff is_code_def)
  ultimately show ?thesis unfolding shiotob_codes_def by blast
qed

text \<open>The names it makes from a name of 14 to 19 characters.\<close>

definition shiotob_name :: "string \<Rightarrow> bool" where
  "shiotob_name d \<longleftrightarrow>
     14 \<le> length d \<and> length d \<le> 19 \<and> list_all is_alnum (take (length d - 4) d) \<and>
     (drop (length d - 4) d = ''.com'' \<or> drop (length d - 4) d = ''.net'')"

lemma shiotob_length_range:
  assumes "14 \<le> length d" and "length d \<le> 19"
  shows "10 \<le> shiotob_length d (shiotob_codes d) \<and> shiotob_length d (shiotob_codes d) \<le> 15"
proof -
  have "(x AND 0xFF) div 16 \<le> 15" for x :: int
    using zdiv_mono1 [of "x mod 256" 255 16] by (simp add: and_masks)
  then show ?thesis using assms by (simp add: shiotob_length_def Let_def)
qed

lemma qwerty_reachable: "list_all (\<lambda>c. c \<in> set (take 32 qwerty) \<and> is_alnum c) (take 32 qwerty)" "length qwerty = 35"
  by code_simp+

lemma get_next_domain_shape:
  assumes "14 \<le> length d" and "length d \<le> 19"
  shows "\<exists>l. get_next_domain d = Inr (l @ (if ends_with_net d then ''.com'' else ''.net'')) \<and>
    10 \<le> length l \<and> length l \<le> 15 \<and> set l \<subseteq> set (take 32 qwerty)"
proof -
  define n where "n = nat (shiotob_length d (shiotob_codes d))"
  have n: "10 \<le> n" "n \<le> 15" using shiotob_length_range [OF assms] by (auto simp: n_def)
  have len: "length (shiotob_codes d) = length d + 100" by (simp add: shiotob_codes_def)
  have idx: "0 \<le> shiotob_codes d ! i div 8" "shiotob_codes d ! i div 8 < 32" if "i < n" for i
  proof -
    have "is_code (shiotob_codes d ! i)"
      using shiotob_codes_codes [of d] that n len by (simp add: list_all_length)
    then show "0 \<le> shiotob_codes d ! i div 8" "shiotob_codes d ! i div 8 < 32"
      using zdiv_mono1 [of "shiotob_codes d ! i" 255 8] by (simp_all add: is_code_def pos_imp_zdiv_nonneg_iff)
  qed
  define g where "g = (\<lambda>i. qwerty ! nat (shiotob_codes d ! i div 8))"
  have "rmap (\<lambda>i. py_get qwerty (shiotob_codes d ! i div 8)) [0..<n] = Inr (map g [0..<n])"
  proof (rule rmap_Inr)
    fix i assume "i \<in> set [0..<n]"
    then show "py_get qwerty (shiotob_codes d ! i div 8) = Inr (g i)"
      using idx [of i] qwerty_reachable(2) by (simp add: py_get_nth g_def)
  qed
  moreover have "g i \<in> set (take 32 qwerty)" if "i < n" for i
    using idx [OF that] qwerty_reachable(2) unfolding g_def set_conv_nth
    by (auto intro!: exI [of _ "nat (shiotob_codes d ! i div 8)"] simp: nat_less_iff)
  ultimately show ?thesis
    using n by (auto simp: get_next_domain_def Let_def n_def [symmetric])
qed

lemma shiotob_name_length: "shiotob_name d \<Longrightarrow> 14 \<le> length d \<and> length d \<le> 19"
  by (auto simp: shiotob_name_def)

lemma get_next_domain_name:
  assumes "shiotob_name d"
  shows "\<exists>d'. get_next_domain d = Inr d' \<and> shiotob_name d'"
proof -
  obtain l where l: "get_next_domain d = Inr (l @ (if ends_with_net d then ''.com'' else ''.net''))"
    "10 \<le> length l" "length l \<le> 15" "set l \<subseteq> set (take 32 qwerty)"
    using get_next_domain_shape shiotob_name_length [OF assms] by blast
  then have "list_all is_alnum l" using qwerty_reachable(1) unfolding list_all_iff by blast
  with l show ?thesis by (auto simp: shiotob_name_def)
qed

lemma shiotob_name_hostname:
  assumes "shiotob_name d"
  shows "is_hostname d"
proof -
  define l where "l = take (length d - 4) d"
  have l: "10 \<le> length l" "length l \<le> 15" "list_all is_alnum l" using assms by (auto simp: shiotob_name_def l_def)
  obtain t where d: "d = l @ CHR ''.'' # t" "t = ''com'' \<or> t = ''net''"
    using assms append_take_drop_id [of "length d - 4" d] unfolding shiotob_name_def l_def by metis
  from l have "is_label l" by (intro is_label_alnum) auto
  moreover have "is_suffix t" using d(2) suffix_com suffix_net by auto
  ultimately show ?thesis unfolding d(1) by (rule is_hostname_label_suffix)
qed

lemma domainseeds_names: "list_all shiotob_name domainseeds" "domainseeds \<noteq> []"
  by code_simp+

interpretation shiotob_run: single_source tiers_1m "\<lambda>_ domain. rbind (get_next_domain domain) (\<lambda>d. Inr (d, d))"
  shiotob_collision shiotob_name "\<lambda>_. True" is_hostname
proof unfold_locales
  fix g i
  assume "shiotob_name g"
  then obtain d where "get_next_domain g = Inr d" "shiotob_name d" using get_next_domain_name by blast
  then show "\<exists>d g'. rbind (get_next_domain g) (\<lambda>d. Inr (d, d)) = Inr (d, g') \<and> is_hostname d \<and> shiotob_name g'"
    by (simp add: shiotob_name_hostname)
next
  fix g i s
  assume "shiotob_name g"
  then show "shiotob_name (fst (shiotob_collision i g s))"
    using pick_all [OF domainseeds_names] by (simp add: shiotob_collision_def)
qed (simp_all add: shiotob_collision_def run_inv_force)

lemma shiotob_main_clean: "clean_dataset tiers_1m (shiotob_main k0 ks)"
  unfolding shiotob_main_def
  by (rule shiotob_run.singles_clean) (simp_all add: list_all_iff pick_all [OF domainseeds_names])

section \<open>simda\<close>

text \<open>The key of a configuration is a text until its first use, then the sum of its characters.\<close>

datatype simda_key = KeyText string | KeyInt int

record simda_config =
  name_length :: nat
  tld :: string
  key :: simda_key
  base :: int

definition simda_bases :: "simda_config list" where
  "simda_bases =
     [\<lparr>name_length = 7, tld = ''com'', key = KeyText ''1676d5775e05c50b46baa5579d4fc7'', base = 0x45AE94B2\<rparr>,
      \<lparr>name_length = 5, tld = ''eu'', key = KeyText ''1670cf21500911e1758e2b0dd5b4'', base = 0x45AE94B2\<rparr>,
      \<lparr>name_length = 7, tld = ''info'', key = KeyText ''167cd47c0a09c9036d6097b754ab2e73'', base = 0x45AE94B2\<rparr>,
      \<lparr>name_length = 7, tld = ''info'', key = KeyInt 2038, base = 0x45AE94B2\<rparr>,
      \<lparr>name_length = 11, tld = ''eu'', key = KeyText ''1670cf215403c56d8859a0636ffc74'', base = 0x45AE94B2\<rparr>,
      \<lparr>name_length = 7, tld = ''info'', key = KeyInt 2182, base = 0x45AE94B2\<rparr>]"

definition simda_consonants :: string where "simda_consonants = ''qwrtpsdfghjklzxcvbnmv''"
definition simda_vowels :: string where "simda_vowels = ''eyuioa''"

fun key_step :: "simda_key \<Rightarrow> int" where
  "key_step (KeyInt step) = step"
| "key_step (KeyText t) = sum_list (map ord t)"

definition simda_char :: "int \<Rightarrow> nat \<Rightarrow> char" where
  "simda_char b i =
     (let index = b div (3 + 2 * int i)
      in if i mod 2 = 0 then simda_consonants ! nat (index mod 20) else simda_vowels ! nat (index mod 6))"

definition simda_advance :: "simda_config \<Rightarrow> simda_config" where
  "simda_advance iv = (let step = key_step (key iv) in iv\<lparr>key := KeyInt step, base := base iv + step\<rparr>)"

definition simda_domain :: "simda_config \<Rightarrow> string" where
  "simda_domain iv = map (simda_char (base iv)) [0..<name_length iv] @ ''.'' @ tld iv"

text \<open>An input is the index that \<open>random.choice\<close> draws; the configuration is changed in place.\<close>

definition simda_gen :: "nat \<Rightarrow> simda_config list \<Rightarrow> (string \<times> simda_config list) result" where
  "simda_gen k bases =
     rbind (py_get bases (int k)) (\<lambda>iv. let iv' = simda_advance iv in Inr (simda_domain iv', bases[k := iv']))"

definition simda_main :: "nat list \<Rightarrow> (simda_config list \<times> gen_run) result" where
  "simda_main ks = singles simda_gen (on_collision (force_close 10)) ks simda_bases (open_files tiers_1m)"

text \<open>What a configuration keeps: a length that fits a label and a suffix.\<close>

definition simda_ok :: "simda_config \<Rightarrow> bool" where
  "simda_ok iv \<longleftrightarrow> 0 < name_length iv \<and> name_length iv \<le> 63 \<and> is_suffix (tld iv)"

fun alternating :: "bool \<Rightarrow> string \<Rightarrow> bool" where
  "alternating v [] = True"
| "alternating v (c # cs) \<longleftrightarrow> (v = (c \<in> set simda_vowels)) \<and> is_az c \<and> alternating (\<not> v) cs"

lemma simda_char_kind:
  "is_az (simda_char b i) \<and> (simda_char b i \<in> set simda_vowels) = odd i"
proof -
  have "list_all (\<lambda>j. is_az (simda_consonants ! j) \<and> simda_consonants ! j \<notin> set simda_vowels) [0..<20]"
    "list_all is_az simda_vowels" "length simda_vowels = 6"
    by code_simp+
  moreover have "nat (x mod 20) \<in> set [0..<20]" "nat (x mod 6) < 6" for x by (simp_all add: nat_less_iff)
  ultimately show ?thesis
    unfolding list_all_iff by (auto simp: simda_char_def Let_def even_iff_mod_2_eq_zero odd_iff_mod_2_eq_one)
qed

lemma alternating_map:
  assumes "\<And>i. is_az (f i) \<and> (f i \<in> set simda_vowels) = odd i"
  shows "alternating (odd m) (map f [m..<m + n])"
  using assms
proof (induction n arbitrary: m)
  case (Suc n)
  have "[m..<m + Suc n] = m # [Suc m..<Suc m + n]" by (simp add: upt_conv_Cons)
  then show ?case using Suc.IH [OF Suc.prems, of "Suc m"] Suc.prems [of m] by simp
qed simp

lemma simda_ok_advance [simp]: "simda_ok (simda_advance iv) = simda_ok iv"
  by (simp add: simda_ok_def simda_advance_def Let_def)

lemma simda_domain_hostname:
  assumes "simda_ok iv"
  shows "is_hostname (simda_domain iv)"
proof -
  have "is_label (map (simda_char (base iv)) [0..<name_length iv])"
    using assms simda_char_kind by (intro is_label_az_length) (auto simp: simda_ok_def list_all_iff)
  then show ?thesis using assms is_hostname_label_suffix by (simp add: simda_domain_def simda_ok_def)
qed

lemma simda_bases_ok: "length simda_bases = 6" "list_all simda_ok simda_bases"
proof -
  have "is_suffix ''com''" "is_suffix ''eu''" "is_suffix ''info''" by code_simp+
  then show "length simda_bases = 6" "list_all simda_ok simda_bases"
    by (simp_all add: simda_bases_def simda_ok_def)
qed

interpretation simda_run: single_source tiers_1m simda_gen "on_collision (force_close 10)"
  "\<lambda>bases. length bases = 6 \<and> list_all simda_ok bases" "\<lambda>k. k < 6" is_hostname
proof unfold_locales
  fix bases :: "simda_config list" and k :: nat
  assume b: "length bases = 6 \<and> list_all simda_ok bases" and k: "k < 6"
  then have "simda_ok (bases ! k)" by (simp add: list_all_length)
  moreover have "list_all simda_ok (bases[k := simda_advance (bases ! k)])"
    using b k calculation by (auto simp: list_all_length nth_list_update)
  ultimately show "\<exists>d g'. simda_gen k bases = Inr (d, g') \<and> is_hostname d \<and> length g' = 6 \<and> list_all simda_ok g'"
    using b k by (simp add: simda_gen_def py_get_nth simda_domain_hostname Let_def)
qed (simp_all add: on_collision_def run_inv_force)

lemma simda_main_clean: "list_all (\<lambda>k. k < 6) ks \<Longrightarrow> clean_dataset tiers_1m (simda_main ks)"
  unfolding simda_main_def by (rule simda_run.singles_clean) (simp_all add: simda_bases_ok)

text \<open>The base of a configuration after a number of uses.\<close>

lemma key_step_advance: "key_step (key (simda_advance iv)) = key_step (key iv)"
  by (simp add: simda_advance_def Let_def)

lemma base_advance: "base ((simda_advance ^^ n) iv) = base iv + int n * key_step (key iv)"
proof -
  have "key_step (key ((simda_advance ^^ n) iv)) = key_step (key iv)" for n
    by (induction n) (simp_all add: key_step_advance)
  then show ?thesis
    by (induction n) (simp_all add: simda_advance_def Let_def algebra_simps)
qed

section \<open>Properties\<close>

text \<open>Every domain shiotob derives from one of 14 to 19 characters has 10 to 15 characters out of the
  first 32 of its table (the last three are unreachable, as a comment says), and the other of the two
  top-level domains.\<close>

lemma shiotob_next_domain:
  assumes "14 \<le> length d" and "length d \<le> 19"
  shows "\<exists>l. get_next_domain d = Inr (l @ (if ends_with_net d then ''.com'' else ''.net'')) \<and>
    10 \<le> length l \<and> length l \<le> 15 \<and> set l \<subseteq> set (take 32 qwerty)"
  using assms by (rule get_next_domain_shape)

lemma shiotob_next_domain_witness:
  "\<exists>l. get_next_domain ''dogcurbctw.com'' = Inr (l @ ''.net'') \<and> 10 \<le> length l \<and> length l \<le> 15 \<and>
    set l \<subseteq> set (take 32 qwerty)"
  using shiotob_next_domain [of "''dogcurbctw.com''"] by (simp add: ends_with_net_def)

end
