(* ===== verification/Gen_Words.thy ===== *)
theory Gen_Words
  imports Gen_Batch
begin

text \<open>
  The generators that put words together: suppobox, pizd, rovnix, matsnu and gozi. The word lists that the
  scripts read from files are parameters; what the theorems need of them is a hypothesis on the list
  (pizd has its list in the script). The loops of these generators end for reasons that lie in the data,
  so they carry fuel, and what is shown is how much is enough.
\<close>

section \<open>Words\<close>

text \<open>A list of words from which labels can be built: letters only, none empty, none longer than \<open>m\<close>.\<close>

definition word_list :: "nat \<Rightarrow> string list \<Rightarrow> bool" where
  "word_list m ws \<longleftrightarrow> ws \<noteq> [] \<and> list_all (\<lambda>w. w \<noteq> [] \<and> length w \<le> m \<and> list_all is_az w) ws"

lemma word_list_get:
  assumes "word_list m ws" and "0 \<le> i" and "i < int (length ws)"
  shows "\<exists>w. py_get ws i = Inr w \<and> w \<noteq> [] \<and> length w \<le> m \<and> list_all is_az w"
proof -
  have "ws ! nat i \<in> set ws" using assms(2,3) by simp
  then show ?thesis using assms by (auto simp: py_get_nth word_list_def list_all_iff)
qed

lemma two_words_hostname:
  assumes "v \<noteq> []" and "length v \<le> 31" and "list_all is_az v" and "length w \<le> 31" and "list_all is_az w"
  shows "is_hostname (v @ w @ ''.net'')"
proof -
  have "is_label (v @ w)" using assms by (intro is_label_az) simp_all
  then show ?thesis using is_hostname_label_suffix [of "v @ w", OF _ suffix_net] by simp
qed

section \<open>suppobox\<close>

definition suppobox_shuffle :: "nat list" where
  "suppobox_shuffle = [3, 9, 13, 6, 2, 4, 11, 7, 14, 1, 10, 5, 8, 12, 0]"

definition suppobox_res :: "int \<Rightarrow> int list" where
  "suppobox_res seed =
     fst (foldl (\<lambda>(res, nr) i. (res[suppobox_shuffle ! i := nr mod 2], drop_bit 1 nr)) (replicate 16 0, seed) [0..<15])"

definition bits_index :: "int list \<Rightarrow> int" where
  "bits_index bs = foldl (\<lambda>a b. push_bit 1 a XOR b) 0 bs"

definition suppobox_domain :: "string list \<Rightarrow> int \<Rightarrow> string result" where
  "suppobox_domain words seed =
     (let res = suppobox_res seed; first_word_index = bits_index (take 7 res);
          second_word_index = bits_index (take 8 (drop 7 res)) + 0x80
      in rbind (py_get words first_word_index) (\<lambda>first_word.
         rbind (py_get words second_word_index) (\<lambda>second_word.
           Inr (first_word @ second_word @ ''.net''))))"

text \<open>The inner loop; \<open>None\<close> is a loop that has not ended yet. It never looks at \<open>stop\<close>.\<close>

fun suppobox_inner :: "nat \<Rightarrow> string list \<Rightarrow> int \<Rightarrow> nat \<Rightarrow> gen_run \<Rightarrow> gen_run result option" where
  "suppobox_inner 0 words genseed tmpExit s = None"
| "suppobox_inner (Suc fuel) words genseed tmpExit s =
     (case rbind (suppobox_domain words genseed) (\<lambda>d. add_domain d s) of
        Inl e \<Rightarrow> Some (Inl e)
      | Inr (Collision s1) \<Rightarrow>
          let s2 = snd (force_close 10 s1) in
          if length (data s2) < tmpExit + 1 then Some (Inr s2)
          else suppobox_inner fuel words (genseed + 1) (tmpExit + 1) s2
      | Inr (Written s1) \<Rightarrow> suppobox_inner fuel words (genseed + 1) tmpExit s1
      | Inr (Finished s1) \<Rightarrow> Some (Inr s1))"

text \<open>An input is the Unix time of the date drawn.\<close>

fun suppobox_outer :: "nat \<Rightarrow> string list \<Rightarrow> int list \<Rightarrow> gen_run \<Rightarrow> gen_run result option" where
  "suppobox_outer fuel words [] s = Some (Inr s)"
| "suppobox_outer fuel words (t # ts) s =
     (if stop s then Some (Inr s)
      else (case suppobox_inner fuel words (drop_bit 9 t) 0 s of
              None \<Rightarrow> None
            | Some (Inl e) \<Rightarrow> Some (Inl e)
            | Some (Inr s1) \<Rightarrow> suppobox_outer fuel words ts s1))"

definition suppobox_main :: "nat \<Rightarrow> string list \<Rightarrow> int list \<Rightarrow> gen_run result option" where
  "suppobox_main fuel words ts = suppobox_outer fuel words ts (open_files tiers_100k)"

text \<open>Only the low 15 bits of the seed count.\<close>

definition seed_bit :: "int \<Rightarrow> nat \<Rightarrow> int" where
  "seed_bit seed k = drop_bit k seed mod 2"

lemma seed_bit_cases: "seed_bit seed k = 0 \<or> seed_bit seed k = 1"
  by (auto simp: seed_bit_def)

lemma seed_bit_mod:
  assumes "k < 15"
  shows "seed_bit (seed mod 32768) k = seed_bit seed k"
proof -
  have b: "seed_bit s k = of_bool (bit s k)" for s
    by (simp add: seed_bit_def bit_iff_odd_drop_bit mod2_eq_if)
  have "seed mod 32768 = take_bit 15 seed" by (simp add: take_bit_eq_mod)
  then show ?thesis using assms by (simp add: b bit_take_bit_iff)
qed

lemma suppobox_res_bits:
  "suppobox_res seed = map (seed_bit seed) [14, 9, 4, 0, 5, 11, 3, 7, 12, 1, 10, 6, 13, 2, 8] @ [0]"
proof -
  have "[0..<15] = [0, 1, 2, 3, 4, 5, 6, 7, 8, 9, 10, 11, 12, 13, 14 :: nat]" by code_simp
  then show ?thesis
    by (simp add: suppobox_res_def suppobox_shuffle_def seed_bit_def numeral_eq_Suc)
qed

lemma bits_index_range:
  assumes "\<forall>b \<in> set bs. b = 0 \<or> b = 1"
  shows "0 \<le> bits_index bs \<and> bits_index bs < 2 ^ length bs"
  using assms
proof (induction bs rule: rev_induct)
  case (snoc b bs)
  have "push_bit 1 a XOR b = 2 * a + b" if "b = 0 \<or> b = 1" for a :: int
    using that by (auto simp: push_bit_double xor_one_eq)
  then have "bits_index (bs @ [b]) = 2 * bits_index bs + b" using snoc.prems by (simp add: bits_index_def)
  with snoc show ?case by auto
qed (simp add: bits_index_def)

definition suppobox_words :: "string list \<Rightarrow> bool" where
  "suppobox_words words \<longleftrightarrow> word_list 31 words \<and> 384 \<le> length words"

lemma suppobox_domain_ok:
  assumes "suppobox_words words"
  shows "\<exists>d. suppobox_domain words seed = Inr d \<and> is_hostname d"
proof -
  define i where "i = bits_index (take 7 (suppobox_res seed))"
  define j where "j = bits_index (take 8 (drop 7 (suppobox_res seed)))"
  have "0 \<le> i \<and> i < 2 ^ 7" "0 \<le> j \<and> j < 2 ^ 8"
    using bits_index_range [of "take 7 (suppobox_res seed)"] bits_index_range [of "take 8 (drop 7 (suppobox_res seed))"]
    by (auto simp: i_def j_def suppobox_res_bits seed_bit_cases)
  then have "0 \<le> i" "i < int (length words)" "0 \<le> j + 0x80" "j + 0x80 < int (length words)"
    using assms by (auto simp: suppobox_words_def)
  then obtain v w where "py_get words i = Inr v" "py_get words (j + 0x80) = Inr w" "v \<noteq> []" "length v \<le> 31"
    "list_all is_az v" "length w \<le> 31" "list_all is_az w"
    using word_list_get assms unfolding suppobox_words_def by metis
  then show ?thesis
    by (simp add: suppobox_domain_def Let_def i_def [symmetric] j_def [symmetric] two_words_hostname)
qed

lemma suppobox_domain_mod: "suppobox_domain words seed = suppobox_domain words (seed mod 32768)"
proof -
  have "suppobox_res seed = suppobox_res (seed mod 32768)" by (simp add: suppobox_res_bits seed_bit_mod)
  then show ?thesis by (simp only: suppobox_domain_def)
qed

definition suppobox_range :: "string list \<Rightarrow> string set" where
  "suppobox_range words = {d. \<exists>seed. suppobox_domain words seed = Inr d}"

lemma suppobox_range_card: "finite (suppobox_range words) \<and> card (suppobox_range words) \<le> 32768"
proof -
  have "suppobox_range words \<subseteq> (\<lambda>k. projr (suppobox_domain words k)) ` {0..<32768}"
  proof
    fix d assume "d \<in> suppobox_range words"
    then obtain seed where "suppobox_domain words (seed mod 32768) = Inr d"
      using suppobox_domain_mod [of words] by (auto simp: suppobox_range_def)
    then show "d \<in> (\<lambda>k. projr (suppobox_domain words k)) ` {0..<32768}"
      by (intro image_eqI [of _ _ "seed mod 32768"]) simp_all
  qed
  moreover have "card ((\<lambda>k. projr (suppobox_domain words k)) ` {0..<32768}) \<le> 32768"
    using card_image_le [of "{0..<32768 :: int}"] by simp
  ultimately show ?thesis
    by (meson card_mono finite_atLeastLessThan_int finite_imageI finite_subset le_trans)
qed

text \<open>What the loops keep: the invariant of a run, and that its domains come from the generator.\<close>

definition suppobox_state :: "string list \<Rightarrow> gen_run \<Rightarrow> bool" where
  "suppobox_state words s \<longleftrightarrow> run_inv tiers_100k s \<and> set (data s) \<subseteq> suppobox_range words"

lemma suppobox_state_size: "suppobox_state words s \<Longrightarrow> length (data s) \<le> 32768"
  using suppobox_range_card [of words] card_mono [of "suppobox_range words" "set (data s)"]
  by (auto simp: suppobox_state_def run_inv_def distinct_card [symmetric] dest: le_trans)

lemma suppobox_add:
  assumes "suppobox_state words s" and "suppobox_domain words seed = Inr d" and "add_domain d s = Inr r"
  shows "suppobox_state words (run_of r)"
  using t100k.add_domain_inv [of s d r] assms by (auto simp: suppobox_state_def suppobox_range_def)

lemma suppobox_add_error: "suppobox_state words s \<Longrightarrow> add_domain d s = Inl e \<Longrightarrow> e = ValueError"
  by (auto simp: suppobox_state_def t100k.add_domain_unfold split: if_splits)

lemma add_domain_length:
  assumes "add_domain d s = Inr r"
  shows "length (data (run_of r)) = (if is_Collision r then 0 else 1) + length (data s)"
  using assms by (auto simp: add_domain_def Let_def split: if_splits option.splits)

text \<open>The inner loop ends: every turn adds a domain or counts up \<open>tmpExit\<close>, and both are bounded.\<close>

definition suppobox_done :: "string list \<Rightarrow> gen_run result option \<Rightarrow> bool" where
  "suppobox_done words r =
     (case r of None \<Rightarrow> False | Some (Inl e) \<Rightarrow> e = ValueError | Some (Inr s) \<Rightarrow> suppobox_state words s)"

lemma suppobox_inner_ends:
  assumes "suppobox_words words" and "suppobox_state words s" and "tmpExit \<le> length (data s)"
    and "(32768 - length (data s)) + (32768 - tmpExit) < fuel"
  shows "suppobox_done words (suppobox_inner fuel words genseed tmpExit s)"
  using assms(2-4)
proof (induction fuel arbitrary: genseed tmpExit s)
  case (Suc fuel)
  note size = suppobox_state_size [OF Suc.prems(1)]
  obtain d where d: "suppobox_domain words genseed = Inr d" using suppobox_domain_ok [OF assms(1)] by blast
  show ?case
  proof (cases "add_domain d s")
    case (Inl e)
    then show ?thesis using d suppobox_add_error [OF Suc.prems(1)] by (simp add: suppobox_done_def)
  next
    case (Inr r)
    have st: "suppobox_state words (run_of r)" using suppobox_add [OF Suc.prems(1) d Inr] .
    note size' = suppobox_state_size [OF st] add_domain_length [OF Inr]
    show ?thesis
    proof (cases r)
      case (Collision s1)
      define s2 where "s2 = snd (force_close 10 s1)"
      have s2: "suppobox_state words s2" "data s2 = data s1"
        using st Collision by (simp_all add: s2_def suppobox_state_def run_inv_force)
      have eq: "suppobox_inner (Suc fuel) words genseed tmpExit s =
          (if length (data s2) < tmpExit + 1 then Some (Inr s2)
           else suppobox_inner fuel words (genseed + 1) (tmpExit + 1) s2)"
        using d Inr Collision by (simp add: s2_def Let_def)
      show ?thesis
      proof (cases "length (data s2) < tmpExit + 1")
        case True
        then show ?thesis unfolding eq using s2(1) by (simp add: suppobox_done_def)
      next
        case False
        have "suppobox_done words (suppobox_inner fuel words (genseed + 1) (tmpExit + 1) s2)"
          using False s2 Collision size' Suc.prems(3) size by (intro Suc.IH) auto
        then show ?thesis unfolding eq using False by simp
      qed
    next
      case (Written s1)
      have "suppobox_done words (suppobox_inner fuel words (genseed + 1) tmpExit s1)"
        using st Written size' Suc.prems(2,3) by (intro Suc.IH) auto
      then show ?thesis using d Inr Written by simp
    next
      case (Finished s1)
      then show ?thesis using d Inr st by (simp add: suppobox_done_def)
    qed
  qed
qed simp

lemma suppobox_done_simps [simp]:
  "\<not> suppobox_done words None" "suppobox_done words (Some (Inl e)) \<longleftrightarrow> e = ValueError"
  "suppobox_done words (Some (Inr s)) \<longleftrightarrow> suppobox_state words s"
  by (simp_all add: suppobox_done_def)

lemma suppobox_outer_ends:
  assumes "suppobox_words words" and "65537 \<le> fuel" and "suppobox_state words s"
  shows "suppobox_done words (suppobox_outer fuel words ts s)"
  using assms(3)
proof (induction ts arbitrary: s)
  case (Cons t ts)
  have inner: "suppobox_done words (suppobox_inner fuel words (drop_bit 9 t) 0 s)"
    using assms Cons.prems by (intro suppobox_inner_ends) auto
  show ?case
  proof (cases "stop s")
    case False
    then show ?thesis
      using inner Cons.IH by (cases "suppobox_inner fuel words (drop_bit 9 t) 0 s") (auto split: sum.splits)
  qed (use Cons.prems in simp)
qed simp

lemma suppobox_main_ends:
  assumes "suppobox_words words" and "65537 \<le> fuel"
  shows "suppobox_done words (suppobox_main fuel words ts)"
proof -
  have "suppobox_state words (open_files tiers_100k)"
    using open_files_inv [of tiers_100k] by (simp add: suppobox_state_def) (simp add: open_files_def)
  then show ?thesis unfolding suppobox_main_def by (rule suppobox_outer_ends [OF assms])
qed

text \<open>
  The outer loop ends as well. A collision brings the counter of collisions one step closer to ten times the number of domains,
  where \<open>stop\<close> is set, and a new domain moves that mark by ten; but there are 32768 domains at most.
\<close>

definition suppobox_live :: "gen_run \<Rightarrow> bool" where
  "suppobox_live s \<longleftrightarrow>
     stop s \<or> (forceCloseCounter s = 0 \<and> counter s = 0) \<or> forceCloseCounter s < 10 * counter s"

lemma suppobox_inner_force:
  assumes "suppobox_words words"
  shows "suppobox_inner fuel words genseed tmpExit s = Some (Inr s') \<Longrightarrow> suppobox_state words s \<Longrightarrow> suppobox_live s \<Longrightarrow>
    suppobox_state words s' \<and> suppobox_live s' \<and> (stop s' \<or> forceCloseCounter s < forceCloseCounter s')"
proof (induction fuel arbitrary: genseed tmpExit s)
  case (Suc fuel)
  obtain d where d: "suppobox_domain words genseed = Inr d" using suppobox_domain_ok [OF assms] by blast
  obtain r where r: "add_domain d s = Inr r" using Suc.prems(1) d by (cases "add_domain d s") auto
  have st: "suppobox_state words (run_of r)" using suppobox_add [OF Suc.prems(2) d r] .
  show ?case
  proof (cases r)
    case (Collision s1)
    define s2 where "s2 = snd (force_close 10 s1)"
    have s1: "s1 = s" "d \<in> set (data s)" using r Collision by (auto simp: add_domain_def Let_def split: if_splits option.splits)
    have s2: "suppobox_state words s2" "data s2 = data s"
      using st Collision s1 by (simp_all add: s2_def suppobox_state_def run_inv_force)
    have "counter s = length (data s)" using Suc.prems(2) by (simp add: suppobox_state_def run_inv_def)
    then have "0 < counter s" using s1(2) by (cases "data s") auto
    then have live: "suppobox_live s2" "stop s2 \<or> forceCloseCounter s < forceCloseCounter s2"
      using Suc.prems(3) by (auto simp: s2_def s1(1) force_close_def Let_def suppobox_live_def)
    have eq: "suppobox_inner (Suc fuel) words genseed tmpExit s =
        (if length (data s2) < tmpExit + 1 then Some (Inr s2)
         else suppobox_inner fuel words (genseed + 1) (tmpExit + 1) s2)"
      using d r Collision by (simp add: s2_def Let_def)
    have "forceCloseCounter s < forceCloseCounter s2"
      by (simp add: s2_def s1(1) force_close_def Let_def)
    then show ?thesis
      using Suc.IH [of "genseed + 1" "tmpExit + 1" s2] Suc.prems(1) eq s2(1) live(1)
      by (auto split: if_splits)
  next
    case (Written s1)
    have s1: "stop s1 = stop s" "counter s1 = counter s + 1" "forceCloseCounter s1 = forceCloseCounter s"
      using r Written by (auto simp: add_domain_def Let_def split: if_splits option.splits)
    then have "suppobox_live s1" using Suc.prems(3) by (auto simp: suppobox_live_def)
    then show ?thesis using Suc.IH [of "genseed + 1" tmpExit s1] Suc.prems(1) st s1 d r Written by auto
  next
    case (Finished s1)
    have "stop s1" using r Finished by (auto simp: add_domain_def Let_def split: if_splits option.splits)
    then show ?thesis using Suc.prems(1) st d r Finished by (auto simp: suppobox_live_def)
  qed
qed simp

lemma suppobox_outer_stops:
  assumes "suppobox_words words"
  shows "suppobox_outer fuel words ts s = Some (Inr s') \<Longrightarrow> suppobox_state words s \<Longrightarrow> suppobox_live s \<Longrightarrow>
    327680 \<le> length ts + forceCloseCounter s \<Longrightarrow> stop s'"
proof (induction ts arbitrary: s)
  case Nil
  have "counter s \<le> 32768" using suppobox_state_size [OF Nil.prems(2)] Nil.prems(2) by (simp add: suppobox_state_def run_inv_def)
  then show ?case using Nil.prems by (auto simp: suppobox_live_def)
next
  case (Cons t ts)
  show ?case
  proof (cases "stop s")
    case False
    then obtain s1 where s1: "suppobox_inner fuel words (drop_bit 9 t) 0 s = Some (Inr s1)" "suppobox_outer fuel words ts s1 = Some (Inr s')"
      using Cons.prems(1) by (auto split: option.splits sum.splits)
    note f = suppobox_inner_force [OF assms s1(1) Cons.prems(2,3)]
    show ?thesis
    proof (cases "stop s1")
      case True
      then have "s' = s1" using s1(2) by (cases ts) auto
      then show ?thesis using True by simp
    next
      case stop1: False
      then show ?thesis using Cons.IH [OF s1(2)] f Cons.prems(4) by auto
    qed
  qed (use Cons.prems in auto)
qed

lemma suppobox_main_stops:
  assumes "suppobox_words words" and "suppobox_main fuel words ts = Some (Inr s)" and "327680 \<le> length ts"
  shows "stop s"
proof -
  have "suppobox_state words (open_files tiers_100k)"
    using open_files_inv [of tiers_100k] by (simp add: suppobox_state_def) (simp add: open_files_def)
  moreover have "suppobox_live (open_files tiers_100k)" by (simp add: suppobox_live_def open_files_def)
  ultimately show ?thesis
    using suppobox_outer_stops [OF assms(1)] assms(2,3) unfolding suppobox_main_def by (metis trans_le_add1)
qed

lemma suppobox_range_hostname:
  assumes "suppobox_words words" and "d \<in> suppobox_range words"
  shows "is_hostname d"
proof -
  obtain seed where "suppobox_domain words seed = Inr d" using assms(2) by (auto simp: suppobox_range_def)
  then show ?thesis using suppobox_domain_ok [OF assms(1), of seed] by simp
qed

section \<open>pizd\<close>

text \<open>The word list of the script, in four parts.\<close>

definition pizd_words1 :: "string list" where
  "pizd_words1 =
     [''above'', ''action'', ''advance'', ''afraid'', ''against'', ''airplane'', ''almost'', ''alone'',
      ''already'', ''although'', ''always'', ''amount'', ''anger'', ''angry'', ''animal'', ''another'', ''answer'',
      ''appear'', ''apple'', ''around'', ''arrive'', ''article'', ''attempt'', ''banker'', ''basket'', ''battle'',
      ''beauty'', ''became'', ''because'', ''become'', ''before'', ''begin'', ''behind'', ''being'', ''believe'',
      ''belong'', ''beside'', ''better'', ''between'', ''beyond'', ''bicycle'', ''board'', ''borrow'', ''bottle'',
      ''bottom'', ''branch'', ''bread'', ''bridge'', ''bright'', ''bring'', ''broad'', ''broken'', ''brought'',
      ''brown'', ''building'', ''built'', ''business'', ''butter'', ''captain'', ''carry'', ''catch'', ''caught'',
      ''century'', ''chair'', ''chance'', ''character'', ''charge'', ''chief'', ''childhood'', ''children'',
      ''choose'', ''cigarette'', ''circle'', ''class'', ''clean'', ''clear'', ''close'', ''clothes'', ''college'',
      ''company'', ''complete'', ''condition'', ''consider'', ''contain'', ''continue'', ''control'', ''corner'',
      ''country'', ''course'', ''cover'', ''crowd'', ''daughter'', ''decide'', ''degree'', ''delight'', ''demand'']"

definition pizd_words2 :: "string list" where
  "pizd_words2 =
     [''desire'', ''destroy'', ''device'', ''difference'', ''different'', ''difficult'', ''dinner'', ''direct'',
      ''discover'', ''distance'', ''distant'', ''divide'', ''doctor'', ''dollar'', ''double'', ''doubt'',
      ''dress'', ''dried'', ''during'', ''early'', ''eearly'', ''effort'', ''either'', ''electric'',
      ''electricity'', ''english'', ''enough'', ''enter'', ''escape'', ''evening'', ''every'', ''except'',
      ''expect'', ''experience'', ''explain'', ''family'', ''famous'', ''fancy'', ''father'', ''fellow'',
      ''fence'', ''fifteen'', ''fight'', ''figure'', ''finger'', ''finish'', ''flier'', ''flower'', ''follow'',
      ''foreign'', ''forest'', ''forever'', ''forget'', ''fortieth'', ''forward'', ''found'', ''fresh'',
      ''friend'', ''further'', ''future'', ''garden'', ''gather'', ''general'', ''gentle'', ''gentleman'',
      ''glass'', ''glossary'', ''goodbye'', ''govern'', ''guard'', ''happen'', ''health'', ''heard'', ''heart'',
      ''heaven'', ''heavy'', ''history'', ''honor'', ''however'', ''hunger'', ''husband'', ''include'',
      ''increase'', ''indeed'', ''industry'', ''inside'', ''instead'', ''journey'', ''kitchen'', ''known'',
      ''labor'', ''ladder'', ''language'', ''large'', ''laugh'', ''laughter'']"

definition pizd_words3 :: "string list" where
  "pizd_words3 =
     [''leader'', ''leave'', ''length'', ''letter'', ''likely'', ''listen'', ''little'', ''machine'', ''manner'',
      ''market'', ''master'', ''material'', ''matter'', ''mayor'', ''measure'', ''meeting'', ''member'',
      ''method'', ''middle'', ''might'', ''million'', ''minute'', ''mister'', ''modern'', ''morning'', ''mother'',
      ''mountain'', ''movement'', ''nation'', ''nature'', ''nearly'', ''necessary'', ''needle'', ''neighbor'',
      ''neither'', ''niece'', ''night'', ''north'', ''nothing'', ''notice'', ''number'', ''object'', ''oclock'',
      ''office'', ''often'', ''opinion'', ''order'', ''orderly'', ''outside'', ''paint'', ''partial'', ''party'',
      ''people'', ''perfect'', ''perhaps'', ''period'', ''person'', ''picture'', ''pleasant'', ''please'',
      ''pleasure'', ''position'', ''possible'', ''power'', ''prepare'', ''present'', ''president'', ''pretty'',
      ''probable'', ''probably'', ''problem'', ''produce'', ''promise'', ''proud'', ''public'', ''quarter'',
      ''question'', ''quiet'', ''rather'', ''ready'', ''realize'', ''reason'', ''receive'', ''record'',
      ''remember'', ''report'', ''require'', ''result'', ''return'', ''ridden'', ''right'', ''river'', ''round'',
      ''safety'', ''school'', ''season'']"

definition pizd_words4 :: "string list" where
  "pizd_words4 =
     [''separate'', ''service'', ''settle'', ''severa'', ''several'', ''shake'', ''share'', ''shore'', ''short'',
      ''should'', ''shoulder'', ''shout'', ''silver'', ''simple'', ''single'', ''sister'', ''smell'', ''smoke'',
      ''soldier'', ''space'', ''speak'', ''special'', ''spent'', ''spread'', ''spring'', ''square'', ''station'',
      ''still'', ''store'', ''storm'', ''straight'', ''strange'', ''stranger'', ''stream'', ''street'',
      ''strength'', ''strike'', ''strong'', ''student'', ''subject'', ''succeed'', ''success'', ''sudden'',
      ''suffer'', ''summer'', ''supply'', ''suppose'', ''surprise'', ''sweet'', ''system'', ''therefore'',
      ''thick'', ''think'', ''third'', ''those'', ''though'', ''thought'', ''through'', ''thrown'', ''together'',
      ''toward'', ''trade'', ''train'', ''training'', ''travel'', ''trouble'', ''trust'', ''twelve'', ''twenty'',
      ''understand'', ''understood'', ''until'', ''valley'', ''value'', ''various'', ''wagon'', ''water'',
      ''weather'', ''welcome'', ''wheat'', ''whether'', ''while'', ''white'', ''whose'', ''window'', ''winter'',
      ''within'', ''without'', ''woman'', ''women'', ''wonder'', ''worth'', ''would'', ''write'', ''written'',
      ''yellow'']"

definition pizd_wordlist :: "string list" where
  "pizd_wordlist = pizd_words1 @ pizd_words2 @ pizd_words3 @ pizd_words4"

definition py_bin :: "int \<Rightarrow> string" where
  "py_bin n = (if n < 0 then ''-'' else []) @ ''0b'' @ map hexdigit (digits 2 (nat \<bar>n\<bar>))"

definition inv_key :: "nat list" where
  "inv_key = [0, 5, 10, 14, 9, 3, 11, 7, 2, 13, 4, 8, 1, 12, 6]"

text \<open>A character assigned to an element of an integer array.\<close>

definition bit_of_char :: "char \<Rightarrow> int result" where
  "bit_of_char c = (if c = CHR ''0'' then Inr 0 else if c = CHR ''1'' then Inr 1 else Inl ValueError)"

definition binary_value :: "int list \<Rightarrow> int" where
  "binary_value bs = foldl (\<lambda>a b. 2 * a + b) 0 bs"

text \<open>The loop fills 14 of the 15 places; the last stays 0.\<close>

definition pizd_nib :: "string \<Rightarrow> int list result" where
  "pizd_nib bin_temp =
     rbind (rmap (\<lambda>x. rbind (py_get bin_temp (int (inv_key ! x))) bit_of_char) [0..<14])
       (\<lambda>nib. Inr (nib @ replicate (length bin_temp - 14) 0))"

definition pizd_pick :: "string list \<Rightarrow> int list \<Rightarrow> string result" where
  "pizd_pick wordl nib =
     rbind (py_get wordl (binary_value (take 7 nib))) (\<lambda>first_word.
     rbind (py_get wordl (binary_value (drop 7 nib) + 128)) (\<lambda>second_word.
       Inr (first_word @ second_word @ ''.net'')))"

definition pizd_generate_domain :: "string \<Rightarrow> string list \<Rightarrow> string result" where
  "pizd_generate_domain timestamp wordl =
     (let bin_temp = drop (length timestamp - 15) timestamp
      in rbind (pizd_nib bin_temp) (pizd_pick wordl))"

text \<open>
  An input is \<open>time.mktime\<close> of the date in whole seconds. The generator also reads \<open>counter\<close>, which is its
  state here: it counts up with every new domain, and a collision leaves it at the driver's value.
\<close>

definition pizd_gen :: "int \<Rightarrow> nat \<Rightarrow> (string \<times> nat) result" where
  "pizd_gen t n =
     rbind (pizd_generate_domain (py_bin (t * 1000 + int n)) pizd_wordlist) (\<lambda>d. Inr (d, n + 1))"

definition pizd_collision :: "int \<Rightarrow> nat \<Rightarrow> gen_run \<Rightarrow> nat \<times> gen_run" where
  "pizd_collision t g s = (counter s, snd (force_close 10 s))"

definition pizd_main :: "int list \<Rightarrow> (nat \<times> gen_run) result" where
  "pizd_main ts = singles pizd_gen pizd_collision ts 0 (open_files tiers_1m)"

lemma pizd_wordlist_ok: "length pizd_wordlist = 384" "word_list 31 pizd_wordlist"
  by code_simp+

lemma rmap_length: "rmap f xs = Inr ys \<Longrightarrow> length ys = length xs"
  by (induction xs arbitrary: ys) (auto simp: rbind_eq_Inr)

lemma binary_value_range:
  assumes "\<forall>b \<in> set bs. b = 0 \<or> b = 1"
  shows "0 \<le> binary_value bs \<and> binary_value bs < 2 ^ length bs"
  using assms by (induction bs rule: rev_induct) (auto simp: binary_value_def)

definition pizd_nibs :: "int list set" where
  "pizd_nibs = (\<lambda>bs. bs @ [0]) ` {bs. set bs \<subseteq> {0, 1} \<and> length bs = 14}"

lemma pizd_nibs_card: "finite pizd_nibs" "card pizd_nibs \<le> 16384"
proof -
  have "finite {bs. set bs \<subseteq> {0, 1 :: int} \<and> length bs = 14}"
    "card {bs. set bs \<subseteq> {0, 1 :: int} \<and> length bs = 14} = 16384"
    by (simp_all add: finite_lists_length_eq card_lists_length_eq numeral_2_eq_2 [symmetric])
  then show "finite pizd_nibs" "card pizd_nibs \<le> 16384"
    unfolding pizd_nibs_def by (auto dest: card_image_le [of _ "\<lambda>bs. bs @ [0]"])
qed

lemma pizd_pick_ok:
  assumes "nib \<in> pizd_nibs"
  shows "\<exists>d. pizd_pick pizd_wordlist nib = Inr d \<and> is_hostname d"
proof -
  obtain bs where bs: "nib = bs @ [0]" "set bs \<subseteq> {0, 1}" "length bs = 14" using assms by (auto simp: pizd_nibs_def)
  have "0 \<le> binary_value (take 7 nib) \<and> binary_value (take 7 nib) < 2 ^ 7"
    "0 \<le> binary_value (drop 7 nib) \<and> binary_value (drop 7 nib) < 2 ^ 8"
    using binary_value_range [of "take 7 nib"] binary_value_range [of "drop 7 nib"] bs
    by (auto dest!: in_set_takeD in_set_dropD)
  then have "0 \<le> binary_value (take 7 nib)" "binary_value (take 7 nib) < int (length pizd_wordlist)"
    "0 \<le> binary_value (drop 7 nib) + 128" "binary_value (drop 7 nib) + 128 < int (length pizd_wordlist)"
    by (simp_all add: pizd_wordlist_ok)
  then obtain v w where "py_get pizd_wordlist (binary_value (take 7 nib)) = Inr v"
    "py_get pizd_wordlist (binary_value (drop 7 nib) + 128) = Inr w" "v \<noteq> []" "length v \<le> 31"
    "list_all is_az v" "length w \<le> 31" "list_all is_az w"
    using word_list_get [OF pizd_wordlist_ok(2)] by metis
  then show ?thesis by (simp add: pizd_pick_def two_words_hostname)
qed

lemma digits_length_ge:
  assumes "2 ^ k \<le> n"
  shows "k < length (digits 2 n)"
proof (rule ccontr)
  assume "\<not> k < length (digits 2 n)"
  moreover have "list_all (\<lambda>d. d < 2) ds \<Longrightarrow> foldl (\<lambda>a d. a * 2 + d) 0 ds < 2 ^ length ds" for ds :: "nat list"
    by (induction ds rule: rev_induct) auto
  then have "n < 2 ^ length (digits 2 n)" using digits_less [of 2 n] digits_value [of 2 n] by force
  moreover have "(2 :: nat) ^ length (digits 2 n) \<le> 2 ^ k" using calculation(1) by (intro power_increasing) simp_all
  ultimately show False using assms by linarith
qed

lemma py_bin_tail:
  assumes "16384 \<le> n"
  shows "\<exists>bs. length bs = 15 \<and> list_all (\<lambda>b. b < 2) bs \<and>
    drop (length (py_bin n) - 15) (py_bin n) = map hexdigit bs"
proof -
  define ds where "ds = digits 2 (nat n)"
  have len: "14 < length ds" unfolding ds_def using assms by (intro digits_length_ge) (simp add: le_nat_iff)
  have "py_bin n = ''0b'' @ map hexdigit ds" using assms by (simp add: py_bin_def ds_def)
  moreover have "length ds - 13 = Suc (Suc (length ds - 15))" using len by simp
  ultimately have "drop (length (py_bin n) - 15) (py_bin n) = map hexdigit (drop (length ds - 15) ds)"
    by (simp add: drop_map)
  moreover have "list_all (\<lambda>b. b < 2) (drop (length ds - 15) ds)"
    using digits_less [of 2 "nat n"] by (auto simp: ds_def list_all_iff dest: in_set_dropD)
  ultimately show ?thesis using len by (intro exI [of _ "drop (length ds - 15) ds"]) simp
qed

lemma pizd_nib_ok:
  assumes "length bs = 15" and "list_all (\<lambda>b. b < 2) bs"
  shows "\<exists>nib \<in> pizd_nibs. pizd_nib (map hexdigit bs) = Inr nib"
proof -
  have key: "inv_key ! x < 15" if "x < 14" for x
  proof -
    have "list_all (\<lambda>x. inv_key ! x < 15) [0..<14]" by code_simp
    with that show ?thesis by (simp add: list_all_iff)
  qed
  have bit: "bit_of_char (hexdigit b) = Inr (int b)" if "b < 2" for b
  proof -
    have "b = 0 \<or> b = 1" using that by auto
    then show ?thesis by (auto simp: bit_of_char_def hexdigit_def)
  qed
  have two: "bs ! (inv_key ! x) < 2" if "x < 14" for x
    using assms key [OF that] by (simp add: list_all_length)
  define nib where "nib = map (\<lambda>x. int (bs ! (inv_key ! x))) [0..<14]"
  have "rmap (\<lambda>x. rbind (py_get (map hexdigit bs) (int (inv_key ! x))) bit_of_char) [0..<14] = Inr nib"
    unfolding nib_def by (rule rmap_Inr) (simp add: py_get_nth assms(1) key bit two)
  then have "pizd_nib (map hexdigit bs) = Inr (nib @ [0])"
    using assms(1) by (simp add: pizd_nib_def)
  moreover have "set nib \<subseteq> {0, 1}" using two by (force simp: nib_def less_2_cases_iff)
  then have "nib @ [0] \<in> pizd_nibs" by (auto simp: pizd_nibs_def nib_def)
  ultimately show ?thesis by blast
qed

definition pizd_range :: "string set" where
  "pizd_range = {d. \<exists>nib \<in> pizd_nibs. pizd_pick pizd_wordlist nib = Inr d}"

lemma pizd_range_card: "finite pizd_range" "card pizd_range \<le> 16384"
proof -
  have sub: "pizd_range \<subseteq> (\<lambda>nib. projr (pizd_pick pizd_wordlist nib)) ` pizd_nibs"
    by (force simp: pizd_range_def)
  then show "finite pizd_range" using pizd_nibs_card(1) finite_surj by blast
  show "card pizd_range \<le> 16384"
    using surj_card_le [OF pizd_nibs_card(1) sub] pizd_nibs_card(2) by simp
qed

lemma pizd_range_hostname: "d \<in> pizd_range \<Longrightarrow> is_hostname d"
  using pizd_pick_ok by (force simp: pizd_range_def)

lemma pizd_gen_ok:
  assumes "17 \<le> t"
  shows "\<exists>d. pizd_gen t n = Inr (d, n + 1) \<and> d \<in> pizd_range"
proof -
  have "16384 \<le> t * 1000 + int n" using assms by simp
  then obtain bs where bs: "length bs = 15" "list_all (\<lambda>b. b < 2) bs"
    "drop (length (py_bin (t * 1000 + int n)) - 15) (py_bin (t * 1000 + int n)) = map hexdigit bs"
    using py_bin_tail by blast
  obtain nib where nib: "nib \<in> pizd_nibs" "pizd_nib (map hexdigit bs) = Inr nib" using pizd_nib_ok [OF bs(1,2)] by blast
  obtain d where "pizd_pick pizd_wordlist nib = Inr d" using pizd_pick_ok [OF nib(1)] by blast
  with nib bs(3) show ?thesis by (auto simp: pizd_gen_def pizd_generate_domain_def Let_def pizd_range_def)
qed

interpretation pizd_run: single_source tiers_1m pizd_gen pizd_collision "\<lambda>_. True" "\<lambda>t. 17 \<le> t" "\<lambda>d. d \<in> pizd_range"
  using pizd_gen_ok by unfold_locales (fastforce simp: pizd_collision_def run_inv_force)+

lemma distinct_in_finite:
  assumes "distinct xs" and "list_all (\<lambda>x. x \<in> A) xs" and "finite A"
  shows "length xs \<le> card A"
  using assms card_mono [of A "set xs"] by (auto simp: distinct_card list_all_iff)

lemma pizd_main_runs:
  assumes "list_all (\<lambda>t. 17 \<le> t) ts"
  shows "clean_dataset tiers_1m (pizd_main ts) \<and>
    (case pizd_main ts of Inr (n, s) \<Rightarrow> length (data s) \<le> 16384 | Inl _ \<Rightarrow> False)"
proof -
  obtain n s where s: "pizd_main ts = Inr (n, s)" "run_inv tiers_1m s" "list_all (\<lambda>d. d \<in> pizd_range) (data s)"
    using pizd_run.singles_dataset [OF TrueI assms, of 0] by (auto simp: pizd_main_def)
  then have "length (data s) \<le> 16384"
    using distinct_in_finite [OF _ s(3) pizd_range_card(1)] pizd_range_card(2) by (auto simp: run_inv_def)
  with s show ?thesis by (auto simp: clean_dataset_def list_all_iff pizd_range_hostname)
qed

section \<open>Properties\<close>

text \<open>C29: The main program of suppobox always comes to an end, although its inner loop is \<open>while True\<close>: with any
  list of at least 384 non-empty words of at most 31 lower-case letters, whatever dates are drawn, 65537 turns of the inner loop and
  327680 turns of the outer one are enough. It ends with tiers of well-formed host names and \<open>stop\<close> set, or with ValueError
  where it goes on writing after a forced close; and it never has more than 32768 domains, so the tiers of 50000 and 100000 are
  never filled.\<close>

theorem suppobox_ends:
  assumes "suppobox_words words" and "65537 \<le> fuel"
  shows "\<exists>r. suppobox_main fuel words ts = Some r \<and> clean_or_closed tiers_100k r \<and>
    (case r of Inl e \<Rightarrow> True | Inr s \<Rightarrow> length (data s) \<le> 32768 \<and> (327680 \<le> length ts \<longrightarrow> stop s))"
proof -
  note ends = suppobox_main_ends [OF assms, of ts]
  then obtain r where r: "suppobox_main fuel words ts = Some r" by (cases "suppobox_main fuel words ts") simp_all
  have "list_all is_hostname (data s)" if "suppobox_state words s" for s
    using that suppobox_range_hostname [OF assms(1)] by (auto simp: suppobox_state_def list_all_iff)
  with ends r suppobox_main_stops [OF assms(1)] show ?thesis
    by (cases r) (auto simp: clean_or_closed_def suppobox_state_size suppobox_state_def [of words, THEN iffD1])
qed

theorem suppobox_ends_witness:
  "\<exists>r. suppobox_main 65537 (replicate 384 ''word'') (replicate 327680 1500000000) = Some r \<and> clean_or_closed tiers_100k r \<and>
    (case r of Inl e \<Rightarrow> True | Inr s \<Rightarrow> length (data s) \<le> 32768 \<and> stop s)"
proof -
  have az: "list_all is_az ''word''" by code_simp
  have w: "suppobox_words (replicate 384 ''word'')"
    using az by (simp add: suppobox_words_def word_list_def list_all_iff)
  have l: "327680 \<le> length (replicate 327680 (1500000000 :: int))" by (simp only: length_replicate)
  show ?thesis using suppobox_ends [OF w order_refl, of "replicate 327680 1500000000"] l by (simp only: simp_thms)
qed

text \<open>The main program of pizd, given times from 17 seconds after the epoch on, never raises and leaves
  clean tiers behind; it reads 14 bits of the time, so it never has more than 16384 domains and the tiers
  from 50000 on are never filled.\<close>

lemma pizd_few_domains:
  assumes "list_all (\<lambda>t. 17 \<le> t) ts"
  shows "clean_dataset tiers_1m (pizd_main ts) \<and>
    (case pizd_main ts of Inr (n, s) \<Rightarrow> length (data s) \<le> 16384 | Inl _ \<Rightarrow> False)"
  using assms by (rule pizd_main_runs)

lemma pizd_few_domains_example:
  "clean_dataset tiers_1m (pizd_main [17, 1500000000]) \<and>
    (case pizd_main [17, 1500000000] of Inr (n, s) \<Rightarrow> length (data s) \<le> 16384 | Inl _ \<Rightarrow> False)"
  by (rule pizd_few_domains) simp

end
