(* ===== verification/Gen_Phrases.thy ===== *)
theory Gen_Phrases
  imports Gen_Words
begin

text \<open>
  The generators that join words until a name is long enough: matsnu, rovnix and gozi. Their loops end only
  because of what the word lists hold and what the random numbers draw: matsnu and gozi carry fuel, rovnix
  the list of its draws, and \<open>NoReturn\<close> is a loop still running when these are used up.
\<close>

section \<open>matsnu\<close>

text \<open>The fields of \<open>domain_generator\<close> that change; the words have been stripped of white space.\<close>

record matsnu_state =
  seed :: int
  next_domain_no :: int

definition choose_next_word :: "int \<Rightarrow> int \<Rightarrow> string list \<Rightarrow> int \<Rightarrow> string \<times> int" where
  "choose_next_word days no dictionary s =
     (let s1 = s AND 0xffff;
          s2 = (s1 * 0xef5eb) AND 0xffff;
          s3 = (s2 * days) AND 0xffff;
          s4 = (s3 * 0x39339) AND 0xffff;
          s5 = (s4 * no) AND 0xffff;
          s6 = (s5 XOR 0xef5eb) AND 0xffff
      in (pick dictionary s6, s6))"

definition matsnu_turn :: "int \<Rightarrow> int \<Rightarrow> string list \<Rightarrow> string list \<Rightarrow> string \<times> nat \<times> int \<Rightarrow> string \<times> nat \<times> int" where
  "matsnu_turn days no dict1 dict2 g =
     (let (domain, parity_flag, s) = g;
          (word, s') = choose_next_word days no (if domain = [] \<or> parity_flag = 0 then dict1 else dict2) s
      in (domain @ word @ (if s' AND 1 = 1 then ''-'' else []), (parity_flag + 1) mod 2, s'))"

text \<open>\<open>while len(domain) < 0x18\<close> with its \<open>break\<close> above 12.\<close>

fun matsnu_loop :: "nat \<Rightarrow> (string \<times> nat \<times> int \<Rightarrow> string \<times> nat \<times> int) \<Rightarrow> string \<times> nat \<times> int \<Rightarrow> (string \<times> int) result" where
  "matsnu_loop fuel turn g =
     (if \<not> length (fst g) < 0x18 \<or> 0xc < length (fst g) then Inr (fst g, snd (snd g))
      else (case fuel of 0 \<Rightarrow> Inl NoReturn | Suc f \<Rightarrow> matsnu_loop f turn (turn g)))"

declare matsnu_loop.simps [simp del]

definition drop_hyphen :: "string \<Rightarrow> string" where
  "drop_hyphen domain = (if last domain = CHR ''-'' then butlast domain else domain)"

definition matsnu_generate_domain :: "nat \<Rightarrow> string list \<Rightarrow> string list \<Rightarrow> int \<Rightarrow> matsnu_state \<Rightarrow>
    (string \<times> matsnu_state) result" where
  "matsnu_generate_domain fuel dict1 dict2 days g =
     rbind (matsnu_loop fuel (matsnu_turn days (next_domain_no g) dict1 dict2) ([], 0, seed g)) (\<lambda>(domain, s).
       Inr (drop_hyphen domain @ ''.com'', \<lparr>seed = s, next_domain_no = next_domain_no g + 1\<rparr>))"

definition matsnu_collision :: "datetime \<Rightarrow> matsnu_state \<Rightarrow> gen_run \<Rightarrow> matsnu_state \<times> gen_run" where
  "matsnu_collision d g s = (g\<lparr>next_domain_no := 1\<rparr>, snd (force_close 10 s))"

definition matsnu_main :: "nat \<Rightarrow> string list \<Rightarrow> string list \<Rightarrow> datetime list \<Rightarrow> (matsnu_state \<times> gen_run) result" where
  "matsnu_main fuel dict1 dict2 dates =
     singles (\<lambda>d. matsnu_generate_domain fuel dict1 dict2 (days_since_unix_epoch d)) matsnu_collision dates
       \<lparr>seed = 1, next_domain_no = 1\<rparr> (open_files tiers_1m)"

text \<open>What has been put together so far: a label but for at most one hyphen at the end.\<close>

definition phrase :: "string \<Rightarrow> bool" where
  "phrase d \<longleftrightarrow> list_all is_ldh d \<and> (d \<noteq> [] \<longrightarrow> hd d \<noteq> CHR ''-'') \<and>
     (d \<noteq> [] \<longrightarrow> last d \<noteq> CHR ''-'' \<or> butlast d \<noteq> [] \<and> last (butlast d) \<noteq> CHR ''-'')"

lemma phrase_word:
  assumes "phrase d" and "w \<noteq> []" and "list_all is_az w"
  shows "phrase (d @ w) \<and> phrase (d @ w @ ''-'')"
proof -
  have az: "is_az c \<Longrightarrow> is_ldh c \<and> c \<noteq> CHR ''-''" for c
    using alnum_not_hyphen [of c] by (simp add: is_ldh_def is_alnum_def)
  have "hd w \<noteq> CHR ''-''" "last w \<noteq> CHR ''-''" "list_all is_ldh w"
    using assms(2,3) az hd_in_set last_in_set by (auto simp: list_all_iff)
  moreover have "is_ldh (CHR ''-'')" by (simp add: is_ldh_def)
  ultimately show ?thesis
    using assms(1,2) by (auto simp: phrase_def hd_append last_append butlast_append)
qed

lemma phrase_label:
  assumes "phrase d" and "12 < length d" and "length d \<le> 63"
  shows "is_label (drop_hyphen d)"
proof -
  have ne: "d \<noteq> []" "butlast d \<noteq> []" using assms(2) by (auto simp: butlast_conv_take)
  have "hd (butlast d) = hd d" using ne by (cases d rule: rev_cases) auto
  with assms ne show ?thesis
    by (auto simp: phrase_def is_label_def drop_hyphen_def list_all_iff dest: in_set_butlastD)
qed

lemma matsnu_turn_phrase:
  assumes "word_list 13 dict1" and "word_list 13 dict2" and "phrase (fst g)"
  shows "phrase (fst (matsnu_turn days no dict1 dict2 g)) \<and>
    length (fst g) < length (fst (matsnu_turn days no dict1 dict2 g)) \<and>
    length (fst (matsnu_turn days no dict1 dict2 g)) \<le> length (fst g) + 14"
proof -
  define dict where "dict = (if fst g = [] \<or> fst (snd g) = 0 then dict1 else dict2)"
  define r where "r = choose_next_word days no dict (snd (snd g))"
  have wl: "word_list 13 dict" using assms(1,2) by (simp add: dict_def)
  then have "fst r \<noteq> [] \<and> length (fst r) \<le> 13 \<and> list_all is_az (fst r)"
    unfolding r_def choose_next_word_def Let_def fst_conv word_list_def using pick_all by blast
  moreover have "fst (matsnu_turn days no dict1 dict2 g) = fst g @ fst r @ (if snd r AND 1 = 1 then ''-'' else [])"
    by (simp add: matsnu_turn_def case_prod_beta Let_def r_def dict_def)
  ultimately show ?thesis using phrase_word [OF assms(3), of "fst r"] by auto
qed

lemma matsnu_loop_ends:
  assumes "word_list 13 dict1" and "word_list 13 dict2" and "phrase (fst g)" and "length (fst g) \<le> 26"
    and "13 - length (fst g) \<le> fuel"
  shows "\<exists>domain s. matsnu_loop fuel (matsnu_turn days no dict1 dict2) g = Inr (domain, s) \<and> phrase domain \<and>
    12 < length domain \<and> length domain \<le> 26"
  using assms(3-5)
proof (induction fuel arbitrary: g)
  case 0
  then show ?case by (simp add: matsnu_loop.simps)
next
  case (Suc fuel)
  show ?case
  proof (cases "12 < length (fst g)")
    case True
    with Suc.prems show ?thesis by (simp add: matsnu_loop.simps)
  next
    case False
    note turn = matsnu_turn_phrase [OF assms(1,2) Suc.prems(1), of days no]
    with False Suc.prems show ?thesis
      using Suc.IH [of "matsnu_turn days no dict1 dict2 g"] by (subst matsnu_loop.simps) auto
  qed
qed

lemma matsnu_generate_domain_ok:
  assumes "word_list 13 dict1" and "word_list 13 dict2" and "13 \<le> fuel"
  shows "\<exists>d g'. matsnu_generate_domain fuel dict1 dict2 days g = Inr (d, g') \<and> is_hostname d"
proof -
  have "\<exists>domain s. matsnu_loop fuel (matsnu_turn days (next_domain_no g) dict1 dict2) ([], 0, seed g) = Inr (domain, s) \<and>
      phrase domain \<and> 12 < length domain \<and> length domain \<le> 26"
    using assms by (intro matsnu_loop_ends) (simp_all add: phrase_def)
  then obtain domain s where
    l: "matsnu_loop fuel (matsnu_turn days (next_domain_no g) dict1 dict2) ([], 0, seed g) = Inr (domain, s)"
      "phrase domain" "12 < length domain" "length domain \<le> 26"
    by blast
  then have "is_hostname (drop_hyphen domain @ CHR ''.'' # ''com'')"
    by (intro is_hostname_label_suffix phrase_label suffix_com) simp_all
  with l(1) show ?thesis by (simp add: matsnu_generate_domain_def)
qed

text \<open>The generator under the hypothesis that its words are words; fuel 13 is enough.\<close>

lemma matsnu_source:
  assumes "word_list 13 dict1" and "word_list 13 dict2" and "13 \<le> fuel"
  shows "single_source tiers_1m (\<lambda>d. matsnu_generate_domain fuel dict1 dict2 (days_since_unix_epoch d)) matsnu_collision
    (\<lambda>_. True) (\<lambda>_. True) is_hostname"
proof unfold_locales
  fix g i
  show "\<exists>d g'. matsnu_generate_domain fuel dict1 dict2 (days_since_unix_epoch i) g = Inr (d, g') \<and> is_hostname d \<and> True"
    using matsnu_generate_domain_ok [OF assms] by blast
qed (simp_all add: matsnu_collision_def run_inv_force)

lemma matsnu_main_clean:
  assumes "word_list 13 dict1" and "word_list 13 dict2" and "13 \<le> fuel"
  shows "clean_dataset tiers_1m (matsnu_main fuel dict1 dict2 dates)"
  unfolding matsnu_main_def
  by (rule single_source.singles_clean [OF matsnu_source [OF assms]]) (simp_all add: list_all_iff)

section \<open>rovnix\<close>

text \<open>
  \<open>generateSeed\<close>, also used by pushdo: the days of the months before, and of the years. \<open>v4\<close> asks for a leap
  year and then changes the entry of December.
\<close>

definition month_days :: "int list" where
  "month_days = [0x1F, 0x1C, 0x1F, 0x1E, 0x1F, 0x1E, 0x1F, 0x1F, 0x1E, 0x1F, 0x1E, 0x1F]"

definition generateSeed :: "int \<Rightarrow> int \<Rightarrow> int \<Rightarrow> int" where
  "generateSeed a1 a2 a3 =
     (if 0 < a1 \<and> a2 - 1 \<le> 0xB \<and> a3 - 1 \<le> 0x1E then
        let v4 = (if a1 AND 0x80000003 < 0 then ((a1 AND 0x80000003) - 1) OR 0xFFFFFFFC = - 1
                  else a1 AND 0x80000003 = 0);
            v8 = (if v4 then month_days[11 := 0x1D] else month_days);
            v5 = (if 1 < a2 then sum_list (take (nat (a2 - 1)) v8) else 0);
            ecx = 365 * (a1 - a1 div 4); eax = 366 * (a1 div 4)
        in a3 + v5 + ecx + eax
      else 0)"

definition rovnix_choose_word :: "string list \<Rightarrow> int \<Rightarrow> int \<Rightarrow> int \<Rightarrow> int \<Rightarrow> int \<Rightarrow> string" where
  "rovnix_choose_word usdeclar s next_domain const1 const2 time =
     (let s' = ((((((((((s AND 0xFFFF) * const1) AND 0xFFFF) * time) AND 0xFFFF) * const2) AND 0xFFFF) * next_domain)
            AND 0xFFFF) XOR const1) AND 0xFFFF
      in pick usdeclar s')"

text \<open>The loop over the draws of \<open>random.randint(1, 10000)\<close>.\<close>

fun rovnix_loop :: "(int \<Rightarrow> string) \<Rightarrow> int list \<Rightarrow> string \<Rightarrow> string result" where
  "rovnix_loop word draws domain =
     (if length domain < 20 then
        (case draws of [] \<Rightarrow> Inl NoReturn | t # ts \<Rightarrow> rovnix_loop word ts (domain @ word t))
      else Inr domain)"

declare rovnix_loop.simps [simp del]

definition rovnix_tlds :: "string list" where
  "rovnix_tlds = [''.ru'', ''.com'', ''.net'', ''.biz'', ''.cn'']"

definition rovnix_generate_domain :: "string list \<Rightarrow> datetime \<Rightarrow> int list \<Rightarrow> int \<Rightarrow> string result" where
  "rovnix_generate_domain usdeclar d draws k =
     rbind (rovnix_loop (rovnix_choose_word usdeclar (generateSeed (year d) (month d) (day d)) 1 0xDEAD 0xBEEF) draws [])
       (\<lambda>domain. Inr (py_lower (domain @ pick rovnix_tlds k)))"

definition rovnix_main :: "string list \<Rightarrow> (datetime \<times> int list \<times> int) list \<Rightarrow> (unit \<times> gen_run) result" where
  "rovnix_main usdeclar is =
     singles (\<lambda>(d, draws, k) _. rbind (rovnix_generate_domain usdeclar d draws k) (\<lambda>n. Inr (n, ())))
       (on_collision (force_close 10)) is () (open_files tiers_1m)"

text \<open>Words of letters and digits in either case, possibly empty.\<close>

definition text_words :: "nat \<Rightarrow> string list \<Rightarrow> bool" where
  "text_words m ws \<longleftrightarrow> ws \<noteq> [] \<and> list_all (\<lambda>w. length w \<le> m \<and> list_all is_alnum (py_lower w)) ws"

lemma py_lower_append: "py_lower (a @ b) = py_lower a @ py_lower b"
  by (simp add: py_lower_def)

lemma rovnix_loop_ends:
  assumes word: "\<And>t. length (word t) \<le> 15 \<and> list_all is_alnum (py_lower (word t))"
    and "length domain \<le> 34" and "list_all is_alnum (py_lower domain)"
    and "20 \<le> length domain + length (filter (\<lambda>t. word t \<noteq> []) draws)"
  shows "\<exists>l. rovnix_loop word draws domain = Inr l \<and> 20 \<le> length l \<and> length l \<le> 34 \<and> list_all is_alnum (py_lower l)"
  using assms(2-4)
proof (induction draws arbitrary: domain)
  case Nil
  then show ?case by (simp add: rovnix_loop.simps)
next
  case (Cons t draws)
  show ?case
  proof (cases "length domain < 20")
    case True
    have "20 \<le> length (domain @ word t) + length (filter (\<lambda>t. word t \<noteq> []) draws)"
      using Cons.prems(3) by (cases "word t") simp_all
    then have "\<exists>l. rovnix_loop word draws (domain @ word t) = Inr l \<and> 20 \<le> length l \<and> length l \<le> 34 \<and>
        list_all is_alnum (py_lower l)"
      using True Cons.prems(2) word [of t] by (intro Cons.IH) (simp_all add: py_lower_append)
    then show ?thesis using True by (simp add: rovnix_loop.simps [of _ "t # draws"])
  next
    case False
    with Cons.prems show ?thesis by (simp add: rovnix_loop.simps [of _ "t # draws"])
  qed
qed

definition rovnix_input :: "string list \<Rightarrow> datetime \<times> int list \<times> int \<Rightarrow> bool" where
  "rovnix_input usdeclar i =
     (case i of (d, draws, k) \<Rightarrow> 20 \<le> length (filter (\<lambda>t.
        rovnix_choose_word usdeclar (generateSeed (year d) (month d) (day d)) 1 0xDEAD 0xBEEF t \<noteq> []) draws))"

lemma rovnix_tld: "\<exists>t. py_lower (pick rovnix_tlds k) = CHR ''.'' # t \<and> is_suffix t"
proof -
  have "list_all (\<lambda>t. py_lower t \<noteq> [] \<and> hd (py_lower t) = CHR ''.'' \<and> is_suffix (tl (py_lower t))) rovnix_tlds"
    "rovnix_tlds \<noteq> []"
    by code_simp+
  then have "py_lower (pick rovnix_tlds k) \<noteq> [] \<and> hd (py_lower (pick rovnix_tlds k)) = CHR ''.'' \<and>
      is_suffix (tl (py_lower (pick rovnix_tlds k)))"
    by (rule pick_all)
  then show ?thesis by (cases "py_lower (pick rovnix_tlds k)") simp_all
qed

lemma rovnix_generate_domain_ok:
  assumes "text_words 15 usdeclar" and "rovnix_input usdeclar (d, draws, k)"
  shows "\<exists>n. rovnix_generate_domain usdeclar d draws k = Inr n \<and> is_hostname n"
proof -
  define word where "word = rovnix_choose_word usdeclar (generateSeed (year d) (month d) (day d)) 1 0xDEAD 0xBEEF"
  have "length (word t) \<le> 15 \<and> list_all is_alnum (py_lower (word t))" for t
    using assms(1) pick_all [of "\<lambda>w. length w \<le> 15 \<and> list_all is_alnum (py_lower w)" usdeclar]
    unfolding text_words_def word_def rovnix_choose_word_def Let_def by blast
  then obtain l where l: "rovnix_loop word draws [] = Inr l" "20 \<le> length l" "length l \<le> 34" "list_all is_alnum (py_lower l)"
    using rovnix_loop_ends [of word "[]" draws] assms(2) by (auto simp: rovnix_input_def word_def py_lower_def)
  obtain t where t: "py_lower (pick rovnix_tlds k) = CHR ''.'' # t" "is_suffix t" using rovnix_tld by blast
  have "is_label (py_lower l)" using l by (intro is_label_length [of _ "length l"]) auto
  then have "is_hostname (py_lower l @ CHR ''.'' # t)" using t(2) by (rule is_hostname_label_suffix)
  with l(1) t(1) show ?thesis
    by (simp add: rovnix_generate_domain_def word_def [symmetric] py_lower_append)
qed

lemma rovnix_source:
  assumes "text_words 15 usdeclar"
  shows "single_source tiers_1m (\<lambda>(d, draws, k) (_::unit). rbind (rovnix_generate_domain usdeclar d draws k) (\<lambda>n. Inr (n, ())))
    (on_collision (force_close 10)) (\<lambda>_. True) (rovnix_input usdeclar) is_hostname"
proof unfold_locales
  fix g :: unit and i
  assume "rovnix_input usdeclar i"
  then show "\<exists>d g'. (case i of (d, draws, k) \<Rightarrow> \<lambda>_. rbind (rovnix_generate_domain usdeclar d draws k) (\<lambda>n. Inr (n, ()))) g =
      Inr (d, g') \<and> is_hostname d \<and> True"
    using rovnix_generate_domain_ok [OF assms] by (cases i) fastforce
qed (simp_all add: on_collision_def run_inv_force)

lemma rovnix_main_clean:
  assumes "text_words 15 usdeclar" and "list_all (rovnix_input usdeclar) is"
  shows "clean_dataset tiers_1m (rovnix_main usdeclar is)"
  unfolding rovnix_main_def
  by (rule single_source.singles_clean [OF rovnix_source [OF assms(1)]]) (simp_all add: assms(2))

text \<open>The leap year branch of \<open>generateSeed\<close> changes nothing: December is never summed up.\<close>

lemma generateSeed_no_leap:
  assumes "0 < a1" and "1 \<le> a2" and "a2 \<le> 12" and "1 \<le> a3" and "a3 \<le> 31"
  shows "generateSeed a1 a2 a3 = a3 + sum_list (take (nat (a2 - 1)) month_days) + 365 * a1 + a1 div 4"
proof -
  have "take (nat (a2 - 1)) (month_days[11 := 0x1D]) = take (nat (a2 - 1)) month_days"
    using assms(3) by (simp add: take_update_cancel)
  moreover have "a2 = 1 \<or> 1 < a2" using assms(2) by auto
  ultimately show ?thesis using assms by (auto simp: generateSeed_def Let_def algebra_simps)
qed

section \<open>gozi\<close>

definition gozi_rand :: "int \<Rightarrow> int" where
  "gozi_rand r = c_uint (1664525 * r + 1013904223)"

text \<open>A turn of the loop draws a word, halves it or not, and appends it where it fits.\<close>

definition gozi_piece :: "string list \<Rightarrow> int \<Rightarrow> nat" where
  "gozi_piece words r1 =
     (let l = length (pick words r1) in if gozi_rand r1 mod 3 = 0 then drop_bit 1 l else l)"

definition gozi_turn :: "string list \<Rightarrow> int \<Rightarrow> string \<Rightarrow> string" where
  "gozi_turn words r1 domain =
     (let l = gozi_piece words r1 in if length domain + l \<le> 24 then domain @ take l (pick words r1) else domain)"

fun gozi_loop :: "nat \<Rightarrow> string list \<Rightarrow> nat \<Rightarrow> int \<Rightarrow> string \<Rightarrow> string result" where
  "gozi_loop fuel words n r domain =
     (if length domain < n then
        if words = [] then Inl ZeroDivisionError
        else (case fuel of 0 \<Rightarrow> Inl NoReturn
              | Suc f \<Rightarrow> let r1 = gozi_rand r in gozi_loop f words n (gozi_rand r1) (gozi_turn words r1 domain))
      else Inr domain)"

declare gozi_loop.simps [simp del]

definition gozi_dga :: "nat \<Rightarrow> string list \<Rightarrow> int \<Rightarrow> string result" where
  "gozi_dga fuel words r =
     (let v = gozi_rand (gozi_rand r)
      in rbind (gozi_loop fuel words (nat (v mod 12 + 12)) v []) (\<lambda>domain. Inr (domain @ ''.com'')))"

definition gozi_seed :: "datetime \<Rightarrow> int" where
  "gozi_seed d =
     (let days_passed = (days_since_unix_epoch d - days_since_unix_epoch \<lparr>year = 2015, month = 1, day = 1, hour = 0, minute = 0\<rparr>) div 4
      in push_bit 16 1 + days_passed - 306607824)"

definition gozi_main :: "nat \<Rightarrow> string list \<Rightarrow> datetime list \<Rightarrow> (unit \<times> gen_run) result" where
  "gozi_main fuel words dates =
     singles (\<lambda>d _. rbind (gozi_dga fuel words (c_uint (gozi_seed d))) (\<lambda>n. Inr (n, ())))
       (on_collision (force_close 10)) dates () (open_files tiers_1m)"

lemma gozi_rand_step: "gozi_rand = lcg_step 1664525 1013904223 32"
  by (rule ext) (simp add: gozi_rand_def lcg_step_def c_uint_mod)

lemma gozi_rand_range: "0 \<le> gozi_rand r" "gozi_rand r < 2 ^ 32"
  by (simp_all add: gozi_rand_def c_uint_bounds [simplified])

text \<open>
  Why the loop ends: the generator visits all its states, half of them (those of one parity) as the
  state that draws a word; a state that draws a piece of one or two letters makes the name longer, since
  there is always room for two.
\<close>

definition short_piece :: "string list \<Rightarrow> int \<Rightarrow> bool" where
  "short_piece words t \<longleftrightarrow> 0 \<le> t \<and> t < 2 ^ 32 \<and> 1 \<le> gozi_piece words t \<and> gozi_piece words t \<le> 2"

definition gozi_words :: "string list \<Rightarrow> bool" where
  "gozi_words words \<longleftrightarrow>
     words \<noteq> [] \<and> list_all (list_all is_az) words \<and>
     (\<exists>t. even t \<and> short_piece words t) \<and> (\<exists>t. odd t \<and> short_piece words t)"

lemma gozi_reaches_short:
  assumes "gozi_words words" and "0 \<le> r" and "r < 2 ^ 32"
  shows "\<exists>j < 2 ^ 31. short_piece words (gozi_rand ((gozi_rand ^^ (2 * j)) r))"
proof -
  obtain t where t: "even t \<longleftrightarrow> odd r" "short_piece words t"
    using assms(1) unfolding gozi_words_def by (cases "even r") auto
  then obtain n where n: "n < 2 ^ 32" "(gozi_rand ^^ n) r = t"
    using corebot.reaches [OF assms(2,3), of t] by (auto simp: short_piece_def gozi_rand_step)
  have "odd n" using corebot.parity [of n r] n(2) t(1) by (auto simp: gozi_rand_step)
  then obtain j where j: "n = Suc (2 * j)" by (metis oddE Suc_eq_plus1)
  then show ?thesis using n t(2) by (intro exI [of _ j]) auto
qed

lemma gozi_piece_le: "gozi_piece words r \<le> length (pick words r)"
  by (simp add: gozi_piece_def Let_def drop_bit_eq_div)

lemma gozi_turn_grows:
  assumes "short_piece words r1" and "length domain \<le> 22"
  shows "length domain < length (gozi_turn words r1 domain)"
  using assms gozi_piece_le [of words r1] by (auto simp: short_piece_def gozi_turn_def Let_def)

lemma gozi_turn_keeps:
  assumes "gozi_words words" and "length domain \<le> 24" and "list_all is_az domain"
  shows "length (gozi_turn words r1 domain) \<le> 24 \<and> list_all is_az (gozi_turn words r1 domain) \<and>
    length domain \<le> length (gozi_turn words r1 domain)"
proof -
  have "list_all is_az (pick words r1)" using assms(1) pick_all [of "list_all is_az" words] by (simp add: gozi_words_def)
  then have "list_all is_az (take l (pick words r1))" for l by (auto simp: list_all_iff dest: in_set_takeD)
  with assms show ?thesis using gozi_piece_le [of words r1] by (simp add: gozi_turn_def Let_def)
qed

definition gozi_loop_result :: "string list \<Rightarrow> nat \<Rightarrow> nat \<Rightarrow> int \<Rightarrow> string \<Rightarrow> bool" where
  "gozi_loop_result words n fuel r domain \<longleftrightarrow>
     (\<exists>l. gozi_loop fuel words n r domain = Inr l \<and> n \<le> length l \<and> length l \<le> 24 \<and> list_all is_az l)"

lemma gozi_loop_result_turn:
  assumes "gozi_words words" and "length domain < n"
  shows "gozi_loop_result words n (Suc fuel) r domain \<longleftrightarrow>
    gozi_loop_result words n fuel (gozi_rand (gozi_rand r)) (gozi_turn words (gozi_rand r) domain)"
  using assms by (simp add: gozi_loop_result_def gozi_loop.simps [of "Suc fuel"] gozi_words_def Let_def)

lemma gozi_loop_result_grown:
  assumes words: "gozi_words words" and n: "n \<le> 23"
    and later: "\<And>r dom fuel. length domain < length dom \<Longrightarrow> length dom \<le> 24 \<Longrightarrow> list_all is_az dom \<Longrightarrow>
      0 \<le> r \<Longrightarrow> r < 2 ^ 32 \<Longrightarrow> F \<le> fuel \<Longrightarrow> gozi_loop_result words n fuel r dom"
    and dom: "length domain < n" "list_all is_az domain"
    and "short_piece words (gozi_rand ((gozi_rand ^^ (2 * j)) r))" and "F + Suc j \<le> fuel"
  shows "gozi_loop_result words n fuel r domain"
  using assms(6,7)
proof (induction j arbitrary: r fuel)
  case 0
  then obtain f where f: "fuel = Suc f" "F \<le> f" by (cases fuel) auto
  have "length domain < length (gozi_turn words (gozi_rand r) domain)"
    using 0 dom n by (intro gozi_turn_grows) auto
  then have "gozi_loop_result words n f (gozi_rand (gozi_rand r)) (gozi_turn words (gozi_rand r) domain)"
    using gozi_turn_keeps [OF words, of domain "gozi_rand r"] dom n f(2) gozi_rand_range by (intro later) auto
  then show ?case using gozi_loop_result_turn [OF words dom(1)] f(1) by simp
next
  case (Suc j)
  then obtain f where f: "fuel = Suc f" "F + Suc j \<le> f" by (cases fuel) auto
  define dom' where "dom' = gozi_turn words (gozi_rand r) domain"
  have keeps: "length dom' \<le> 24" "list_all is_az dom'" "length domain \<le> length dom'"
    using gozi_turn_keeps [OF words, of domain "gozi_rand r"] dom n by (auto simp: dom'_def)
  have "gozi_loop_result words n f (gozi_rand (gozi_rand r)) dom'"
  proof (cases "length domain < length dom'")
    case True
    then show ?thesis using keeps f(2) gozi_rand_range by (intro later) auto
  next
    case False
    with keeps have "dom' = domain"
      using gozi_piece_le [of words "gozi_rand r"] by (auto simp: dom'_def gozi_turn_def Let_def split: if_splits)
    moreover have "short_piece words (gozi_rand ((gozi_rand ^^ (2 * j)) (gozi_rand (gozi_rand r))))"
      using Suc.prems(1) by (simp add: funpow_swap1)
    ultimately show ?thesis using Suc.IH [of "gozi_rand (gozi_rand r)" f] f(2) by simp
  qed
  then show ?case using gozi_loop_result_turn [OF words dom(1)] f(1) by (simp add: dom'_def)
qed

lemma gozi_loop_ends:
  assumes "gozi_words words" and "n \<le> 23"
  shows "length domain \<le> 24 \<Longrightarrow> list_all is_az domain \<Longrightarrow> 0 \<le> r \<Longrightarrow> r < 2 ^ 32 \<Longrightarrow>
    (24 - length domain) * 2 ^ 31 \<le> fuel \<Longrightarrow> gozi_loop_result words n fuel r domain"
proof (induction "24 - length domain" arbitrary: domain r fuel rule: less_induct)
  case less
  show ?case
  proof (cases "length domain < n")
    case True
    obtain j where j: "j < 2 ^ 31" "short_piece words (gozi_rand ((gozi_rand ^^ (2 * j)) r))"
      using gozi_reaches_short [OF assms(1) less.prems(3,4)] by blast
    have m: "(24 - length domain) * 2 ^ 31 = (23 - length domain) * 2 ^ 31 + 2 ^ 31"
      using True assms(2) by (simp add: Suc_diff_le [symmetric] algebra_simps)
    show ?thesis
    proof (rule gozi_loop_result_grown [OF assms _ True less.prems(2) j(2)])
      show "(23 - length domain) * 2 ^ 31 + Suc j \<le> fuel" using less.prems(5) j(1) m by linarith
    next
      fix r' :: int and dom fuel'
      assume "length domain < length dom" "length dom \<le> 24" "list_all is_az dom" "0 \<le> r'" "r' < 2 ^ 32"
        "(23 - length domain) * 2 ^ 31 \<le> fuel'"
      moreover have "(24 - length dom) * 2 ^ 31 \<le> (23 - length domain) * 2 ^ 31"
        using \<open>length domain < length dom\<close> by (intro mult_le_mono1) auto
      ultimately show "gozi_loop_result words n fuel' r' dom" by (intro less.hyps) auto
    qed
  next
    case False
    with less.prems show ?thesis by (simp add: gozi_loop_result_def gozi_loop.simps)
  qed
qed

lemma gozi_dga_ok:
  assumes "gozi_words words" and "24 * 2 ^ 31 \<le> fuel"
  shows "\<exists>l. gozi_dga fuel words r = Inr (l @ ''.com'') \<and> 12 \<le> length l \<and> length l \<le> 24 \<and> list_all is_az l"
proof -
  define v where "v = gozi_rand (gozi_rand r)"
  have "nat (v mod 12 + 12) \<le> 23" using pos_mod_bound [of 12 v] by auto
  then have "gozi_loop_result words (nat (v mod 12 + 12)) fuel v []"
    using assms gozi_rand_range [of "gozi_rand r"] by (intro gozi_loop_ends) (auto simp: v_def)
  moreover have "12 \<le> nat (v mod 12 + 12)" using pos_mod_sign [of 12 v] by (simp add: le_nat_iff)
  ultimately show ?thesis by (auto simp: gozi_loop_result_def gozi_dga_def Let_def v_def [symmetric] intro: le_trans)
qed

lemma gozi_source:
  assumes "gozi_words words" and "24 * 2 ^ 31 \<le> fuel"
  shows "single_source tiers_1m (\<lambda>d (_::unit). rbind (gozi_dga fuel words (c_uint (gozi_seed d))) (\<lambda>n. Inr (n, ())))
    (on_collision (force_close 10)) (\<lambda>_. True) (\<lambda>_. True) is_hostname"
proof unfold_locales
  fix g :: unit and d :: datetime
  obtain l where l: "gozi_dga fuel words (c_uint (gozi_seed d)) = Inr (l @ ''.com'')" "12 \<le> length l" "length l \<le> 24"
    "list_all is_az l"
    using gozi_dga_ok [OF assms] by blast
  have "is_label l" using l by (intro is_label_az) auto
  then have "is_hostname (l @ ''.com'')" using is_hostname_label_suffix [OF _ suffix_com] by simp
  with l(1) show "\<exists>n g'. rbind (gozi_dga fuel words (c_uint (gozi_seed d))) (\<lambda>n. Inr (n, ())) = Inr (n, g') \<and>
      is_hostname n \<and> True"
    by simp
qed (simp_all add: on_collision_def run_inv_force)

lemma gozi_main_clean:
  assumes "gozi_words words" and "24 * 2 ^ 31 \<le> fuel"
  shows "clean_dataset tiers_1m (gozi_main fuel words dates)"
  unfolding gozi_main_def
  by (rule single_source.singles_clean [OF gozi_source [OF assms]]) (simp_all add: list_all_iff)

section \<open>Properties\<close>

text \<open>C28: The loop of gozi, which throws away every word that does not fit, ends for every state of its
  generator: if the word list has a piece of one or two letters for an even and for an odd state, then
  24 times \<open>2 ^ 31\<close> turns are enough, since the generator visits all its states. The name has 12 to 24 letters.\<close>

theorem gozi_ends:
  assumes "gozi_words words" and "24 * 2 ^ 31 \<le> fuel"
  shows "\<exists>l. gozi_dga fuel words r = Inr (l @ ''.com'') \<and> 12 \<le> length l \<and> length l \<le> 24 \<and> list_all is_az l"
  using assms by (rule gozi_dga_ok)

theorem gozi_ends_witness:
  "\<exists>l. gozi_dga (24 * 2 ^ 31) [''and'', ''the'', ''with''] 7 = Inr (l @ ''.com'') \<and> 12 \<le> length l \<and> length l \<le> 24 \<and>
    list_all is_az l"
proof (rule gozi_ends)
  have "list_all (list_all is_az) [''and'', ''the'', ''with'']" by code_simp
  moreover have "gozi_piece [''and'', ''the'', ''with''] 4 = 1" "gozi_piece [''and'', ''the'', ''with''] 1 = 1" by code_simp+
  then have "short_piece [''and'', ''the'', ''with''] 4" "short_piece [''and'', ''the'', ''with''] 1"
    by (simp_all add: short_piece_def)
  then have "\<exists>t. even t \<and> short_piece [''and'', ''the'', ''with''] t" "\<exists>t. odd t \<and> short_piece [''and'', ''the'', ''with''] t"
    by (metis even_numeral, metis odd_one)
  ultimately show "gozi_words [''and'', ''the'', ''with'']" by (simp add: gozi_words_def)
qed simp

text \<open>\<open>generateSeed\<close> of rovnix and pushdo adds the days of the month, of the months before it and of the
  years, but ignores the leap day: the branch for leap years changes the entry of December, which is
  never added.\<close>

lemma generateSeed_ignores_leap_day:
  assumes "0 < a1" and "1 \<le> a2" and "a2 \<le> 12" and "1 \<le> a3" and "a3 \<le> 31"
  shows "generateSeed a1 a2 a3 = a3 + sum_list (take (nat (a2 - 1)) month_days) + 365 * a1 + a1 div 4"
  using assms by (rule generateSeed_no_leap)

lemma generateSeed_ignores_leap_day_example:
  "generateSeed 2020 3 1 = 1 + sum_list (take 2 month_days) + 365 * 2020 + 2020 div 4 \<and>
   generateSeed 2020 3 1 = generateSeed 2020 2 29"
  using generateSeed_ignores_leap_day [of 2020 3 1] generateSeed_ignores_leap_day [of 2020 2 29]
  by (simp add: month_days_def numeral_eq_Suc)

end
