(* ===== verification/Py_Hash.thy ===== *)
theory Py_Hash
  imports Py_Prelude
begin

text \<open>
  The digests of Python's \<open>hashlib\<close> that the generators use, on lists of bytes: MD5, SHA-1 and SHA-256,
  checked against published test vectors; and \<open>hexdigest\<close>. The lemmas that the generators need are the sizes.
\<close>

type_synonym word32 = "32 word"

section \<open>Words, bytes and padding\<close>

text \<open>Rotations; the two shifted parts have no bit in common, so they may be added.\<close>

definition rotl32 :: "nat \<Rightarrow> word32 \<Rightarrow> word32" where
  "rotl32 n w = push_bit n w + drop_bit (32 - n) w"

definition rotr32 :: "nat \<Rightarrow> word32 \<Rightarrow> word32" where
  "rotr32 n w = drop_bit n w + push_bit (32 - n) w"

definition word_of_le :: "byte list \<Rightarrow> word32" where
  "word_of_le bs = foldr (\<lambda>b w. push_bit 8 w OR ucast b) bs 0"

definition word_of_be :: "byte list \<Rightarrow> word32" where
  "word_of_be bs = foldl (\<lambda>w b. push_bit 8 w OR ucast b) 0 bs"

definition word_bytes_le :: "word32 \<Rightarrow> byte list" where
  "word_bytes_le w = [ucast w, ucast (drop_bit 8 w), ucast (drop_bit 16 w), ucast (drop_bit 24 w)]"

definition word_bytes_be :: "word32 \<Rightarrow> byte list" where
  "word_bytes_be w = rev (word_bytes_le w)"

text \<open>A one bit, zeros up to 8 bytes before the end of a block, and the length in bits.\<close>

definition pad_message :: "byte list \<Rightarrow> byte list \<Rightarrow> byte list" where
  "pad_message len_bytes msg = msg @ 0x80 # replicate ((119 - length msg mod 64) mod 64) 0 @ len_bytes"

definition length_lo :: "byte list \<Rightarrow> word32" where
  "length_lo msg = word_of_int (8 * int (length msg))"

definition length_hi :: "byte list \<Rightarrow> word32" where
  "length_hi msg = word_of_int (drop_bit 32 (8 * int (length msg)))"

function chunks :: "nat \<Rightarrow> 'a list \<Rightarrow> 'a list list" where
  "chunks k xs = (if xs = [] \<or> k = 0 then [] else take k xs # chunks k (drop k xs))"
  by pat_completeness auto
termination
  by (relation "measure (\<lambda>(k, xs). length xs)") auto

declare chunks.simps [simp del]

section \<open>MD5\<close>

definition md5_shift :: "nat list" where
  "md5_shift = concat (map (\<lambda>r. concat (replicate 4 r)) [[7, 12, 17, 22], [5, 9, 14, 20], [4, 11, 16, 23], [6, 10, 15, 21]])"

definition md5_const :: "word32 list" where
  "md5_const =
     [0xd76aa478, 0xe8c7b756, 0x242070db, 0xc1bdceee, 0xf57c0faf, 0x4787c62a, 0xa8304613, 0xfd469501, 0x698098d8,
      0x8b44f7af, 0xffff5bb1, 0x895cd7be, 0x6b901122, 0xfd987193, 0xa679438e, 0x49b40821, 0xf61e2562, 0xc040b340,
      0x265e5a51, 0xe9b6c7aa, 0xd62f105d, 0x02441453, 0xd8a1e681, 0xe7d3fbc8, 0x21e1cde6, 0xc33707d6, 0xf4d50d87,
      0x455a14ed, 0xa9e3e905, 0xfcefa3f8, 0x676f02d9, 0x8d2a4c8a, 0xfffa3942, 0x8771f681, 0x6d9d6122, 0xfde5380c,
      0xa4beea44, 0x4bdecfa9, 0xf6bb4b60, 0xbebfbc70, 0x289b7ec6, 0xeaa127fa, 0xd4ef3085, 0x04881d05, 0xd9d4d039,
      0xe6db99e5, 0x1fa27cf8, 0xc4ac5665, 0xf4292244, 0x432aff97, 0xab9423a7, 0xfc93a039, 0x655b59c3, 0x8f0ccc92,
      0xffeff47d, 0x85845dd1, 0x6fa87e4f, 0xfe2ce6e0, 0xa3014314, 0x4e0811a1, 0xf7537e82, 0xbd3af235, 0x2ad7d2bb,
      0xeb86d391]"

definition md5_round :: "nat \<Rightarrow> word32 \<Rightarrow> word32 \<Rightarrow> word32 \<Rightarrow> word32 \<times> nat" where
  "md5_round i b c d =
     (if i < 16 then ((b AND c) OR (NOT b AND d), i)
      else if i < 32 then ((d AND b) OR (NOT d AND c), (5 * i + 1) mod 16)
      else if i < 48 then (b XOR c XOR d, (3 * i + 5) mod 16)
      else (c XOR (b OR NOT d), 7 * i mod 16))"

definition md5_step :: "word32 list \<Rightarrow> word32 \<times> word32 \<times> word32 \<times> word32 \<Rightarrow> nat \<times> nat \<times> word32 \<Rightarrow>
    word32 \<times> word32 \<times> word32 \<times> word32" where
  "md5_step block st isk =
     (let (a, b, c, d) = st; (i, s, k) = isk; (f, g) = md5_round i b c d
      in (d, b + rotl32 s (a + f + k + block ! g), b, c))"

definition md5_block :: "word32 \<times> word32 \<times> word32 \<times> word32 \<Rightarrow> byte list \<Rightarrow> word32 \<times> word32 \<times> word32 \<times> word32" where
  "md5_block st bytes =
     (let block = map word_of_le (chunks 4 bytes); (a0, b0, c0, d0) = st;
          (a, b, c, d) = foldl (md5_step block) st (zip [0..<64] (zip md5_shift md5_const))
      in (a0 + a, b0 + b, c0 + c, d0 + d))"

definition md5_padded :: "byte list \<Rightarrow> byte list" where
  "md5_padded msg = pad_message (word_bytes_le (length_lo msg) @ word_bytes_le (length_hi msg)) msg"

definition md5_digest :: "word32 \<times> word32 \<times> word32 \<times> word32 \<Rightarrow> byte list" where
  "md5_digest st = (case st of (a, b, c, d) \<Rightarrow> concat (map word_bytes_le [a, b, c, d]))"

definition md5_init :: "word32 \<times> word32 \<times> word32 \<times> word32" where
  "md5_init = (0x67452301, 0xefcdab89, 0x98badcfe, 0x10325476)"

definition md5 :: "byte list \<Rightarrow> byte list" where
  "md5 msg = md5_digest (foldl md5_block md5_init (chunks 64 (md5_padded msg)))"

section \<open>SHA-1\<close>

text \<open>The schedules are built with the latest word first.\<close>

definition sha1_extend :: "word32 list \<Rightarrow> nat \<Rightarrow> word32 list" where
  "sha1_extend w i = rotl32 1 (w ! 2 XOR w ! 7 XOR w ! 13 XOR w ! 15) # w"

definition sha1_schedule :: "word32 list \<Rightarrow> word32 list" where
  "sha1_schedule block = rev (foldl sha1_extend (rev block) [0..<64])"

definition sha1_round :: "nat \<Rightarrow> word32 \<Rightarrow> word32 \<Rightarrow> word32 \<Rightarrow> word32 \<times> word32" where
  "sha1_round i b c d =
     (if i < 20 then ((b AND c) OR (NOT b AND d), 0x5a827999)
      else if i < 40 then (b XOR c XOR d, 0x6ed9eba1)
      else if i < 60 then ((b AND c) OR (b AND d) OR (c AND d), 0x8f1bbcdc)
      else (b XOR c XOR d, 0xca62c1d6))"

definition sha1_step :: "word32 \<times> word32 \<times> word32 \<times> word32 \<times> word32 \<Rightarrow> nat \<times> word32 \<Rightarrow>
    word32 \<times> word32 \<times> word32 \<times> word32 \<times> word32" where
  "sha1_step st iw =
     (let (a, b, c, d, e) = st; (i, w) = iw; (f, k) = sha1_round i b c d
      in (rotl32 5 a + f + e + k + w, a, rotl32 30 b, c, d))"

definition sha1_add :: "word32 \<times> word32 \<times> word32 \<times> word32 \<times> word32 \<Rightarrow>
    word32 \<times> word32 \<times> word32 \<times> word32 \<times> word32 \<Rightarrow> word32 \<times> word32 \<times> word32 \<times> word32 \<times> word32" where
  "sha1_add st t = (case (st, t) of ((a0, b0, c0, d0, e0), (a, b, c, d, e)) \<Rightarrow> (a0 + a, b0 + b, c0 + c, d0 + d, e0 + e))"

definition sha1_block :: "word32 \<times> word32 \<times> word32 \<times> word32 \<times> word32 \<Rightarrow> byte list \<Rightarrow>
    word32 \<times> word32 \<times> word32 \<times> word32 \<times> word32" where
  "sha1_block st bytes =
     sha1_add st (foldl sha1_step st (zip [0..<80] (sha1_schedule (map word_of_be (chunks 4 bytes)))))"

definition sha_padded :: "byte list \<Rightarrow> byte list" where
  "sha_padded msg = pad_message (word_bytes_be (length_hi msg) @ word_bytes_be (length_lo msg)) msg"

definition sha1_digest :: "word32 \<times> word32 \<times> word32 \<times> word32 \<times> word32 \<Rightarrow> byte list" where
  "sha1_digest st = (case st of (a, b, c, d, e) \<Rightarrow> concat (map word_bytes_be [a, b, c, d, e]))"

definition sha1_init :: "word32 \<times> word32 \<times> word32 \<times> word32 \<times> word32" where
  "sha1_init = (0x67452301, 0xefcdab89, 0x98badcfe, 0x10325476, 0xc3d2e1f0)"

definition sha1 :: "byte list \<Rightarrow> byte list" where
  "sha1 msg = sha1_digest (foldl sha1_block sha1_init (chunks 64 (sha_padded msg)))"

section \<open>SHA-256\<close>

text \<open>The constants of the 64 rounds, eight at a time.\<close>

definition sha256_const1 :: "word32 list" where
  "sha256_const1 = [0x428a2f98, 0x71374491, 0xb5c0fbcf, 0xe9b5dba5, 0x3956c25b, 0x59f111f1, 0x923f82a4, 0xab1c5ed5]"

definition sha256_const2 :: "word32 list" where
  "sha256_const2 = [0xd807aa98, 0x12835b01, 0x243185be, 0x550c7dc3, 0x72be5d74, 0x80deb1fe, 0x9bdc06a7, 0xc19bf174]"

definition sha256_const3 :: "word32 list" where
  "sha256_const3 = [0xe49b69c1, 0xefbe4786, 0x0fc19dc6, 0x240ca1cc, 0x2de92c6f, 0x4a7484aa, 0x5cb0a9dc, 0x76f988da]"

definition sha256_const4 :: "word32 list" where
  "sha256_const4 = [0x983e5152, 0xa831c66d, 0xb00327c8, 0xbf597fc7, 0xc6e00bf3, 0xd5a79147, 0x06ca6351, 0x14292967]"

definition sha256_const5 :: "word32 list" where
  "sha256_const5 = [0x27b70a85, 0x2e1b2138, 0x4d2c6dfc, 0x53380d13, 0x650a7354, 0x766a0abb, 0x81c2c92e, 0x92722c85]"

definition sha256_const6 :: "word32 list" where
  "sha256_const6 = [0xa2bfe8a1, 0xa81a664b, 0xc24b8b70, 0xc76c51a3, 0xd192e819, 0xd6990624, 0xf40e3585, 0x106aa070]"

definition sha256_const7 :: "word32 list" where
  "sha256_const7 = [0x19a4c116, 0x1e376c08, 0x2748774c, 0x34b0bcb5, 0x391c0cb3, 0x4ed8aa4a, 0x5b9cca4f, 0x682e6ff3]"

definition sha256_const8 :: "word32 list" where
  "sha256_const8 = [0x748f82ee, 0x78a5636f, 0x84c87814, 0x8cc70208, 0x90befffa, 0xa4506ceb, 0xbef9a3f7, 0xc67178f2]"

definition sha256_const :: "word32 list" where
  "sha256_const =
     concat [sha256_const1, sha256_const2, sha256_const3, sha256_const4, sha256_const5, sha256_const6, sha256_const7,
       sha256_const8]"

definition sha256_small :: "nat \<Rightarrow> nat \<Rightarrow> nat \<Rightarrow> word32 \<Rightarrow> word32" where
  "sha256_small i j k w = rotr32 i w XOR rotr32 j w XOR drop_bit k w"

definition sha256_extend :: "word32 list \<Rightarrow> nat \<Rightarrow> word32 list" where
  "sha256_extend w i = (w ! 15 + sha256_small 7 18 3 (w ! 14) + w ! 6 + sha256_small 17 19 10 (w ! 1)) # w"

definition sha256_schedule :: "word32 list \<Rightarrow> word32 list" where
  "sha256_schedule block = rev (foldl sha256_extend (rev block) [0..<48])"

record sha256_state =
  s_a :: word32
  s_b :: word32
  s_c :: word32
  s_d :: word32
  s_e :: word32
  s_f :: word32
  s_g :: word32
  s_h :: word32

definition sha256_big :: "nat \<Rightarrow> nat \<Rightarrow> nat \<Rightarrow> word32 \<Rightarrow> word32" where
  "sha256_big i j k w = rotr32 i w XOR rotr32 j w XOR rotr32 k w"

definition sha256_mix :: "sha256_state \<Rightarrow> word32 \<Rightarrow> sha256_state" where
  "sha256_mix st t1 =
     \<lparr>s_a = t1 + sha256_big 2 13 22 (s_a st) + ((s_a st AND s_b st) XOR (s_a st AND s_c st) XOR (s_b st AND s_c st)),
      s_b = s_a st, s_c = s_b st, s_d = s_c st, s_e = s_d st + t1, s_f = s_e st, s_g = s_f st, s_h = s_g st\<rparr>"

definition sha256_step :: "sha256_state \<Rightarrow> word32 \<times> word32 \<Rightarrow> sha256_state" where
  "sha256_step st kw =
     sha256_mix st (s_h st + sha256_big 6 11 25 (s_e st) + ((s_e st AND s_f st) XOR (NOT (s_e st) AND s_g st))
       + fst kw + snd kw)"

definition sha256_add :: "sha256_state \<Rightarrow> sha256_state \<Rightarrow> sha256_state" where
  "sha256_add st t =
     \<lparr>s_a = s_a st + s_a t, s_b = s_b st + s_b t, s_c = s_c st + s_c t, s_d = s_d st + s_d t,
          s_e = s_e st + s_e t, s_f = s_f st + s_f t, s_g = s_g st + s_g t, s_h = s_h st + s_h t\<rparr>"

definition sha256_block :: "sha256_state \<Rightarrow> byte list \<Rightarrow> sha256_state" where
  "sha256_block st bytes =
     sha256_add st (foldl sha256_step st (zip sha256_const (sha256_schedule (map word_of_be (chunks 4 bytes)))))"

definition sha256_init :: sha256_state where
  "sha256_init =
     \<lparr>s_a = 0x6a09e667, s_b = 0xbb67ae85, s_c = 0x3c6ef372, s_d = 0xa54ff53a,
      s_e = 0x510e527f, s_f = 0x9b05688c, s_g = 0x1f83d9ab, s_h = 0x5be0cd19\<rparr>"

definition sha256_digest :: "sha256_state \<Rightarrow> byte list" where
  "sha256_digest st =
     concat (map word_bytes_be [s_a st, s_b st, s_c st, s_d st, s_e st, s_f st, s_g st, s_h st])"

definition sha256 :: "byte list \<Rightarrow> byte list" where
  "sha256 msg = sha256_digest (foldl sha256_block sha256_init (chunks 64 (sha_padded msg)))"

section \<open>Hexadecimal text\<close>

definition hex_byte :: "byte \<Rightarrow> string" where
  "hex_byte b = [hexdigit (unat (drop_bit 4 b)), hexdigit (unat (b AND 15))]"

definition hexdigest :: "byte list \<Rightarrow> string" where
  "hexdigest bs = concat (map hex_byte bs)"

definition ascii_encode_bytes :: "string \<Rightarrow> byte list" where
  "ascii_encode_bytes s = map (\<lambda>c. word_of_int (ord c)) s"

lemma length_word_bytes [simp]: "length (word_bytes_le w) = 4" "length (word_bytes_be w) = 4"
  by (simp_all add: word_bytes_be_def word_bytes_le_def)

lemma length_md5 [simp]: "length (md5 msg) = 16"
  by (simp add: md5_def md5_digest_def split: prod.splits)

lemma length_sha1 [simp]: "length (sha1 msg) = 20"
  by (simp add: sha1_def sha1_digest_def split: prod.splits)

lemma length_sha256 [simp]: "length (sha256 msg) = 32"
  by (simp add: sha256_def sha256_digest_def)

lemma length_hexdigest [simp]: "length (hexdigest bs) = 2 * length bs"
  by (induction bs) (simp_all add: hexdigest_def hex_byte_def)

definition is_hex :: "char \<Rightarrow> bool" where
  "is_hex c \<longleftrightarrow> is_digit c \<or> 97 \<le> ord c \<and> ord c \<le> 102"

lemma is_hex_hexdigit: "n < 16 \<Longrightarrow> is_hex (hexdigit n)"
proof -
  have "list_all is_hex ''0123456789abcdef''" by code_simp
  then show "n < 16 \<Longrightarrow> is_hex (hexdigit n)"
    unfolding hexdigit_def list_all_length by simp
qed

lemma is_hex_alnum: "is_hex c \<Longrightarrow> is_alnum c"
  by (auto simp: is_hex_def is_alnum_def is_az_def)

lemma unat_nibbles: "unat (drop_bit 4 (b :: byte)) = unat b div 16" "unat ((b :: byte) AND 15) = unat b mod 16"
  using take_bit_eq_mask [of 4 "unat b"]
  by (simp_all add: drop_bit_eq_div unat_div_distrib unsigned_and_eq mask_eq_exp_minus_1 take_bit_eq_mod)

lemma hexdigest_hex: "list_all is_hex (hexdigest bs)"
proof -
  have "unat (drop_bit 4 b) < 16" "unat (b AND 15) < 16" for b :: byte
    using unat_byte_less [of b] by (simp_all add: unat_nibbles less_mult_imp_div_less)
  then show ?thesis by (induction bs) (simp_all add: hexdigest_def hex_byte_def is_hex_hexdigit)
qed

lemma hexdigest_alnum: "list_all is_alnum (hexdigest bs)"
  using hexdigest_hex [of bs] is_hex_alnum by (auto simp: list_all_iff)

section \<open>Test vectors\<close>

lemma md5_abc: "hexdigest (md5 (ascii_encode_bytes ''abc'')) = ''900150983cd24fb0d6963f7d28e17f72''"
  by code_simp

lemma sha1_abc: "hexdigest (sha1 (ascii_encode_bytes ''abc'')) = ''a9993e364706816aba3e25717850c26c9cd0d89d''"
  by code_simp

text \<open>The evaluation of SHA-256 in three stages: the schedule and the two halves of the rounds.\<close>

lemma sha256_abc_schedule:
  "sha256_schedule (map word_of_be (chunks 4 (sha_padded (ascii_encode_bytes ''abc'')))) =
     [0x61626380, 0x00000000, 0x00000000, 0x00000000, 0x00000000, 0x00000000, 0x00000000, 0x00000000, 0x00000000,
      0x00000000, 0x00000000, 0x00000000, 0x00000000, 0x00000000, 0x00000000, 0x00000018, 0x61626380, 0x000f0000,
      0x7da86405, 0x600003c6, 0x3e9d7b78, 0x0183fc00, 0x12dcbfdb, 0xe2e2c38e, 0xc8215c1a, 0xb73679a2, 0xe5bc3909,
      0x32663c5b, 0x9d209d67, 0xec8726cb, 0x702138a4, 0xd3b7973b] @
     [0x93f5997f, 0x3b68ba73, 0xaff4ffc1, 0xf10a5c62, 0x0a8b3996, 0x72af830a, 0x9409e33e, 0x24641522, 0x9f47bf94,
      0xf0a64f5a, 0x3e246a79, 0x27333ba3, 0x0c4763f2, 0x840abf27, 0x7a290d5d, 0x065c43da, 0xfb3e89cb, 0xcc7617db,
      0xb9e66c34, 0xa9993667, 0x84badedd, 0xc21462bc, 0x1487472c, 0xb20f7a99, 0xef57b9cd, 0xebe6b238, 0x9fe3095e,
      0x78bc8d4b, 0xa43fcf15, 0x668b2ff8, 0xeeaba2cc, 0x12b1edeb]"
  by code_simp

lemma sha256_abc_first:
  "foldl sha256_step sha256_init (zip (take 32 sha256_const)
     [0x61626380, 0x00000000, 0x00000000, 0x00000000, 0x00000000, 0x00000000, 0x00000000, 0x00000000, 0x00000000,
      0x00000000, 0x00000000, 0x00000000, 0x00000000, 0x00000000, 0x00000000, 0x00000018, 0x61626380, 0x000f0000,
      0x7da86405, 0x600003c6, 0x3e9d7b78, 0x0183fc00, 0x12dcbfdb, 0xe2e2c38e, 0xc8215c1a, 0xb73679a2, 0xe5bc3909,
      0x32663c5b, 0x9d209d67, 0xec8726cb, 0x702138a4, 0xd3b7973b]) =
     \<lparr>s_a = 0x73b33bf5, s_b = 0xea992a22, s_c = 0xa0060b30, s_d = 0x363482c9,
      s_e = 0xba591112, s_f = 0x0109ab3a, s_g = 0xade79437, s_h = 0x6112a3b7\<rparr>"
  by code_simp

lemma sha256_abc_second:
  "foldl sha256_step
     \<lparr>s_a = 0x73b33bf5, s_b = 0xea992a22, s_c = 0xa0060b30, s_d = 0x363482c9,
      s_e = 0xba591112, s_f = 0x0109ab3a, s_g = 0xade79437, s_h = 0x6112a3b7\<rparr>
     (zip (drop 32 sha256_const)
     [0x93f5997f, 0x3b68ba73, 0xaff4ffc1, 0xf10a5c62, 0x0a8b3996, 0x72af830a, 0x9409e33e, 0x24641522, 0x9f47bf94,
      0xf0a64f5a, 0x3e246a79, 0x27333ba3, 0x0c4763f2, 0x840abf27, 0x7a290d5d, 0x065c43da, 0xfb3e89cb, 0xcc7617db,
      0xb9e66c34, 0xa9993667, 0x84badedd, 0xc21462bc, 0x1487472c, 0xb20f7a99, 0xef57b9cd, 0xebe6b238, 0x9fe3095e,
      0x78bc8d4b, 0xa43fcf15, 0x668b2ff8, 0xeeaba2cc, 0x12b1edeb]) =
     \<lparr>s_a = 0x506e3058, s_b = 0xd39a2165, s_c = 0x04d24d6c, s_d = 0xb85e2ce9,
      s_e = 0x5ef50f24, s_f = 0xfb121210, s_g = 0x948d25b6, s_h = 0x961f4894\<rparr>"
  by code_simp

lemma sha256_abc: "hexdigest (sha256 (ascii_encode_bytes ''abc'')) =
    ''ba7816bf8f01cfea414140de5dae2223b00361a396177a9cb410ff61f20015ad''"
proof -
  have "chunks 64 (sha_padded (ascii_encode_bytes ''abc'')) = [sha_padded (ascii_encode_bytes ''abc'')]" by code_simp
  moreover have "zip sha256_const (xs @ ys) = zip (take 32 sha256_const) xs @ zip (drop 32 sha256_const) ys"
    if "length xs = 32" for xs ys :: "word32 list"
  proof -
    have "length sha256_const = 64" by code_simp
    then have "sha256_const = take 32 sha256_const @ drop 32 sha256_const" "length (take 32 sha256_const) = 32" by simp_all
    with that show ?thesis by (metis zip_append)
  qed
  ultimately have "sha256 (ascii_encode_bytes ''abc'') = sha256_digest (sha256_add sha256_init
      \<lparr>s_a = 0x506e3058, s_b = 0xd39a2165, s_c = 0x04d24d6c, s_d = 0xb85e2ce9,
      s_e = 0x5ef50f24, s_f = 0xfb121210, s_g = 0x948d25b6, s_h = 0x961f4894\<rparr>)"
    by (simp only: sha256_def sha256_block_def foldl.simps sha256_abc_schedule foldl_append sha256_abc_first
        sha256_abc_second list.size)
  moreover have "hexdigest (sha256_digest (sha256_add sha256_init
      \<lparr>s_a = 0x506e3058, s_b = 0xd39a2165, s_c = 0x04d24d6c, s_d = 0xb85e2ce9,
      s_e = 0x5ef50f24, s_f = 0xfb121210, s_g = 0x948d25b6, s_h = 0x961f4894\<rparr>)) =
      ''ba7816bf8f01cfea414140de5dae2223b00361a396177a9cb410ff61f20015ad''"
    by code_simp
  ultimately show ?thesis by simp
qed

end
