(* ===== verification/Struct_Bytes.thy ===== *)
theory Struct_Bytes
  imports Py_Prelude Py_Float
begin

text \<open>
  Byte strings and the formats of Python's \<open>struct\<close> module that the scripts use: unsigned integers of
  one, two and four bytes in either byte order, and \<open>'<f'\<close> (binary32, little endian).
\<close>

section \<open>Unsigned integers\<close>

fun le_bytes :: "nat \<Rightarrow> nat \<Rightarrow> byte list" where
  "le_bytes 0 n = []"
| "le_bytes (Suc k) n = word_of_nat (n mod 256) # le_bytes k (n div 256)"

fun of_le :: "byte list \<Rightarrow> nat" where
  "of_le [] = 0"
| "of_le (b # bs) = unat b + 256 * of_le bs"

definition be_bytes :: "nat \<Rightarrow> nat \<Rightarrow> byte list" where
  "be_bytes k n = rev (le_bytes k n)"

definition of_be :: "byte list \<Rightarrow> nat" where
  "of_be bs = of_le (rev bs)"

lemma length_le_bytes [simp]: "length (le_bytes k n) = k"
  by (induction k arbitrary: n) simp_all

lemma length_be_bytes [simp]: "length (be_bytes k n) = k"
  by (simp add: be_bytes_def)

lemma of_le_le_bytes: "n < 256 ^ k \<Longrightarrow> of_le (le_bytes k n) = n"
proof (induction k arbitrary: n)
  case (Suc k)
  have "n div 256 < 256 ^ k" using Suc.prems by (simp add: less_mult_imp_div_less)
  then show ?case using Suc.IH [of "n div 256"] by (simp add: unat_of_nat)
qed simp

lemma of_be_be_bytes: "n < 256 ^ k \<Longrightarrow> of_be (be_bytes k n) = n"
  by (simp add: of_be_def be_bytes_def of_le_le_bytes)

lemma unat_byte: "unat (b :: byte) < 256"
  using unsigned_less [of b, where ?'a = nat] by simp

lemma of_le_bound: "of_le bs < 256 ^ length bs"
proof (induction bs)
  case (Cons b bs)
  then show ?case using unat_byte [of b] by simp
qed simp

lemma of_be_bound: "of_be bs < 256 ^ length bs"
  using of_le_bound [of "rev bs"] by (simp add: of_be_def)

lemma le_bytes_of_le: "le_bytes (length bs) (of_le bs) = bs"
proof (induction bs)
  case (Cons b bs)
  have "(unat b + 256 * of_le bs) mod 256 = unat b" "(unat b + 256 * of_le bs) div 256 = of_le bs"
    using unat_byte [of b] by simp_all
  then show ?case using Cons by simp
qed simp

lemma be_bytes_of_be: "be_bytes (length bs) (of_be bs) = bs"
  using le_bytes_of_le [of "rev bs"] by (simp add: be_bytes_def of_be_def)

lemma be_bytes_2: "be_bytes 2 n = [word_of_nat (n div 256 mod 256), word_of_nat (n mod 256)]"
  by (simp add: be_bytes_def numeral_2_eq_2)

lemma be_bytes_4:
  "be_bytes 4 n = [word_of_nat (n div 16777216 mod 256), word_of_nat (n div 65536 mod 256),
     word_of_nat (n div 256 mod 256), word_of_nat (n mod 256)]"
proof -
  have "be_bytes (Suc (Suc (Suc (Suc 0)))) n =
      [word_of_nat (n div 256 div 256 div 256 mod 256), word_of_nat (n div 256 div 256 mod 256),
       word_of_nat (n div 256 mod 256), word_of_nat (n mod 256)]"
    by (simp only: be_bytes_def le_bytes.simps rev.simps append.simps)
  moreover have "Suc (Suc (Suc (Suc 0))) = 4" by simp
  ultimately show ?thesis by (simp only: div_mult2_eq [symmetric]) simp
qed

lemma of_be_2: "of_be [a, b] = 256 * unat a + unat b"
  by (simp add: of_be_def)

text \<open>\<open>struct.pack\<close> of one field: a value out of range raises \<open>struct.error\<close>.\<close>

definition pack_le :: "nat \<Rightarrow> int \<Rightarrow> byte list result" where
  "pack_le k n = (if 0 \<le> n \<and> n < 256 ^ k then Inr (le_bytes k (nat n)) else Inl StructError)"

definition pack_be :: "nat \<Rightarrow> int \<Rightarrow> byte list result" where
  "pack_be k n = (if 0 \<le> n \<and> n < 256 ^ k then Inr (be_bytes k (nat n)) else Inl StructError)"

text \<open>\<open>struct.unpack\<close> of one field: a buffer of another size raises \<open>struct.error\<close>.\<close>

definition unpack_le :: "nat \<Rightarrow> byte list \<Rightarrow> nat result" where
  "unpack_le k bs = (if length bs = k then Inr (of_le bs) else Inl StructError)"

definition unpack_be :: "nat \<Rightarrow> byte list \<Rightarrow> nat result" where
  "unpack_be k bs = (if length bs = k then Inr (of_be bs) else Inl StructError)"

lemma unpack_pack_le: "pack_le k n = Inr bs \<Longrightarrow> unpack_le k bs = Inr (nat n)"
  by (auto simp: pack_le_def unpack_le_def of_le_le_bytes nat_less_iff split: if_splits)

lemma unpack_pack_be: "pack_be k n = Inr bs \<Longrightarrow> unpack_be k bs = Inr (nat n)"
  by (auto simp: pack_be_def unpack_be_def of_be_be_bytes nat_less_iff split: if_splits)

text \<open>A sequence of big-endian fields with their sizes, as in \<open>struct.pack('!HHIH', ...)\<close>.\<close>

fun pack_fields :: "(nat \<times> int) list \<Rightarrow> byte list result" where
  "pack_fields [] = Inr []"
| "pack_fields ((k, n) # fs) = rbind (pack_be k n) (\<lambda>bs. rbind (pack_fields fs) (\<lambda>rest. Inr (bs @ rest)))"

lemma pack_fields_ok:
  "list_all (\<lambda>(k, n). 0 \<le> n \<and> n < 256 ^ k) fs \<Longrightarrow>
    pack_fields fs = Inr (concat (map (\<lambda>(k, n). be_bytes k (nat n)) fs))"
  by (induction fs rule: pack_fields.induct) (simp_all add: pack_be_def)

lemma pack_fields_length: "pack_fields fs = Inr bs \<Longrightarrow> length bs = sum_list (map fst fs)"
  by (induction fs arbitrary: bs rule: pack_fields.induct)
    (auto simp: pack_be_def rbind_eq_Inr split: if_splits)

section \<open>Single precision\<close>

text \<open>
  The 32 bits of a non-negative binary32 number: for a significand of 24 bits and quantum
  \<open>q\<close>, the biased exponent is one more than \<open>q + 149\<close> with the leading one of the significand dropped,
  which is the sum below; subnormal numbers have no leading one and exponent field 0.
\<close>

definition f32_magnitude :: "real \<Rightarrow> nat" where
  "f32_magnitude y =
     (if y = 0 then 0
      else let q = quantum 24 (-149) y in nat ((q + 149) * 2 ^ 23 + \<lfloor>y / 2 powi q\<rfloor>))"

definition pack_f32 :: "real \<Rightarrow> byte list result" where
  "pack_f32 x =
     (let y = fl32 x in
      if 2 ^ 128 \<le> \<bar>y\<bar> then Inl OverflowError
      else Inr (le_bytes 4 ((if y < 0 then 2 ^ 31 else 0) + f32_magnitude \<bar>y\<bar>)))"

text \<open>The value of finite 32-bit patterns (exponent field below 255).\<close>

definition f32_value :: "nat \<Rightarrow> real" where
  "f32_value n =
     (let e = n div 2 ^ 23; m = n mod 2 ^ 23
      in if e = 0 then of_nat m * 2 powi (-149) else of_nat (2 ^ 23 + m) * 2 powi (int e - 150))"

definition unpack_f32 :: "byte list \<Rightarrow> real result" where
  "unpack_f32 bs =
     rbind (unpack_le 4 bs) (\<lambda>n. Inr (if 2 ^ 31 \<le> n then - f32_value (n - 2 ^ 31) else f32_value n))"

lemma f32_magnitude_value:
  assumes "fl32 y = y" and "0 \<le> y" and "y < 2 ^ 128"
  shows "f32_magnitude y < 2 ^ 31 \<and> f32_value (f32_magnitude y) = y"
proof (cases "y = 0")
  case False
  define q where "q = quantum 24 (-149) y"
  define m where "m = rne (y / 2 powi q)"
  have ym: "y = of_int m * 2 powi q"
    using assms(1) False by (simp add: fl32_def fround_def q_def m_def)
  have pos: "0 < y" using False assms(2) by simp
  then have "0 < of_int m * (2 powi q :: real)" by (simp only: ym [symmetric])
  then have m0: "0 < m" using powi_pos [of q] by (auto simp: zero_less_mult_iff simp del: powi_pos)
  have "y < 2 ^ 24 * 2 powi q" using quantum_bound [OF False, of 24 "-149"] pos by (simp add: q_def)
  then have "of_int m * 2 powi q < (2 ^ 24 :: real) * 2 powi q" by (simp only: ym [symmetric])
  then have "(of_int m :: real) < of_int (2 ^ 24)" by simp
  then have m1: "m < 2 ^ 24" by (simp only: of_int_less_iff)
  have mag: "f32_magnitude y = nat ((q + 149) * 2 ^ 23 + m)"
  proof -
    have "y / 2 powi q = of_int m" by (subst ym) simp
    then show ?thesis using False by (simp add: f32_magnitude_def Let_def q_def [symmetric])
  qed
  have e: "2 powi \<lfloor>log 2 y\<rfloor> \<le> y" using log2_floor(1) pos by blast
  show ?thesis
  proof (cases "m < 2 ^ 23")
    case True
    have q149: "q = -149"
    proof (rule ccontr)
      assume "q \<noteq> -149"
      then have "q + 23 = \<lfloor>log 2 y\<rfloor>" using pos by (auto simp: q_def quantum_def max_def split: if_splits)
      then have "2 powi (q + 23) \<le> y" using e by simp
      then have "(2 ^ 23 :: real) * 2 powi q \<le> of_int m * 2 powi q"
        unfolding ym [symmetric] by (simp add: power_int_add)
      then have "(of_int (2 ^ 23) :: real) \<le> of_int m" by (simp add: mult.commute)
      then have "2 ^ 23 \<le> m" by (simp only: of_int_le_iff)
      with True show False by simp
    qed
    have mg: "f32_magnitude y = nat m" using mag by (simp add: q149)
    have nm: "nat m < 2 ^ 23" using True by (simp add: nat_less_iff)
    then have "f32_value (nat m) = of_nat (nat m) * 2 powi (-149)" by (simp add: f32_value_def)
    also have "\<dots> = y" using m0 by (subst ym) (simp add: q149)
    finally show ?thesis using mg nm by simp
  next
    case False
    define M where "M = nat (m - 2 ^ 23)"
    have M: "M < 2 ^ 23" "m = 2 ^ 23 + int M" using False m1 by (simp_all add: M_def nat_less_iff)
    have q0: "-149 \<le> q" by (simp add: q_def quantum_def)
    have "\<lfloor>log 2 y\<rfloor> < 128"
    proof (rule ccontr)
      assume "\<not> \<lfloor>log 2 y\<rfloor> < 128"
      then have "(2::real) powi 128 \<le> 2 powi \<lfloor>log 2 y\<rfloor>" by (intro powi_mono) simp
      with e assms(3) show False by simp
    qed
    then have q1: "q < 105" using pos by (simp add: q_def quantum_def)
    have bits: "f32_magnitude y = nat (q + 150) * 2 ^ 23 + M"
      using q0 by (simp add: mag M(2) nat_add_distrib nat_mult_distrib) 
    have split: "f32_magnitude y div 2 ^ 23 = nat (q + 150)" "f32_magnitude y mod 2 ^ 23 = M"
      using M(1) unfolding bits by simp_all
    have "f32_magnitude y < 2 ^ 31"
    proof -
      have "nat (q + 150) \<le> 254" using q1 by simp
      then have "nat (q + 150) * 2 ^ 23 \<le> 254 * 2 ^ 23" by (rule mult_right_mono) simp
      then show ?thesis unfolding bits using M(1) by simp
    qed
    moreover have "f32_value (f32_magnitude y) = y"
    proof -
      have "y = of_nat (2 ^ 23 + M) * 2 powi q" by (subst ym) (simp add: M(2))
      moreover have "f32_value (f32_magnitude y) = of_nat (2 ^ 23 + M) * 2 powi q"
        using q0 unfolding f32_value_def split Let_def by simp
      ultimately show ?thesis by simp
    qed
    ultimately show ?thesis by blast
  qed
qed (simp add: f32_magnitude_def f32_value_def)

text \<open>Reading back what was written gives the number rounded to single precision.\<close>

lemma unpack_pack_f32:
  assumes "pack_f32 x = Inr bs"
  shows "length bs = 4 \<and> unpack_f32 bs = Inr (fl32 x)"
proof -
  define y where "y = fl32 x"
  have idem: "fl32 y = y" by (simp add: y_def fl32_def fround_idem)
  have small: "\<bar>y\<bar> < 2 ^ 128" using assms by (auto simp: pack_f32_def y_def [symmetric] split: if_splits)
  have "fl32 \<bar>y\<bar> = \<bar>y\<bar>" using idem f32.uminus [of y] by (simp add: abs_if)
  then have m: "f32_magnitude \<bar>y\<bar> < 2 ^ 31" "f32_value (f32_magnitude \<bar>y\<bar>) = \<bar>y\<bar>"
    using f32_magnitude_value [of "\<bar>y\<bar>"] small by simp_all
  define n where "n = (if y < 0 then 2 ^ 31 else 0) + f32_magnitude \<bar>y\<bar>"
  have n: "n < 256 ^ 4" using m(1) by (cases "y < 0") (simp_all add: n_def)
  have bs: "bs = le_bytes 4 n" using assms small by (simp add: pack_f32_def y_def [symmetric] n_def Let_def)
  have "unpack_f32 bs = Inr (if 2 ^ 31 \<le> n then - f32_value (n - 2 ^ 31) else f32_value n)"
    using n by (simp only: bs unpack_f32_def unpack_le_def length_le_bytes of_le_le_bytes rbind.simps if_True refl)
  also have "\<dots> = Inr y" using m by (auto simp: n_def)
  finally show ?thesis by (simp add: bs y_def)
qed

end
