(* ===== verification/Gen_Hash.thy ===== *)
theory Gen_Hash
  imports Gen_Words Py_Hash Struct_Bytes
begin

text \<open>
  The generators that take their names from a hash: dyre and padcrypt (SHA-256), chinad (SHA-1), murofet
  (three versions) and zeus-newgoz (MD5). A string that is hashed is the list of its bytes; what the
  theorems say holds whatever the digests are.
\<close>

text \<open>A top-level domain as the scripts write it, with its dot.\<close>

definition dot_suffix :: "string \<Rightarrow> bool" where
  "dot_suffix t \<longleftrightarrow> t \<noteq> [] \<and> hd t = CHR ''.'' \<and> is_suffix (tl t)"

lemma dot_suffix_hostname: "is_label l \<Longrightarrow> dot_suffix t \<Longrightarrow> is_hostname (l @ t)"
  using is_hostname_label_suffix [of l "tl t"] by (cases t) (simp_all add: dot_suffix_def)

text \<open>\<open>int(s, 16)\<close> of a string of lower-case hexadecimal digits.\<close>

definition hex_digit_value :: "char \<Rightarrow> int" where
  "hex_digit_value c = (if is_digit c then ord c - 48 else ord c - 87)"

definition hex_value :: "string \<Rightarrow> int" where
  "hex_value s = foldl (\<lambda>n c. 16 * n + hex_digit_value c) 0 s"

lemma hex_digit_value_range: "is_hex c \<Longrightarrow> 0 \<le> hex_digit_value c \<and> hex_digit_value c < 16"
  by (auto simp: is_hex_def hex_digit_value_def is_digit_def)

lemma hex_value_snoc: "hex_value (s @ [c]) = 16 * hex_value s + hex_digit_value c"
  by (simp add: hex_value_def)

lemma hex_value_range: "list_all is_hex s \<Longrightarrow> 0 \<le> hex_value s \<and> hex_value s < 16 ^ length s"
proof (induction s rule: rev_induct)
  case (snoc c s)
  then show ?case using hex_digit_value_range [of c] by (simp add: hex_value_snoc)
qed (simp add: hex_value_def)

section \<open>dyre\<close>

definition dyre_tlds :: "string list" where
  "dyre_tlds = [''.cc'', ''.ws'', ''.to'', ''.in'', ''.hk'', ''.cn'', ''.tk'', ''.so'']"

definition dyre_dga :: "int \<Rightarrow> datetime \<Rightarrow> string" where
  "dyre_dga num date =
     (let date_str = py_str (year date) @ ''-'' @ py_str (month date) @ ''-'' @ py_str (day date);
          hash = take 33 (drop 3 (hexdigest (sha256 (ascii_encode_bytes (date_str @ py_str num)))));
          replace_char = chr (0xFF AND ((num mod 26) + 97))
      in replace_char # hash @ pick dyre_tlds num)"

definition dyre_main :: "(datetime \<times> int) list \<Rightarrow> (unit \<times> gen_run) result" where
  "dyre_main is =
     singles (\<lambda>(d, num) _. Inr (dyre_dga num d, ())) (on_collision (force_close 10)) is () (open_files tiers_1m)"

lemma slice_hex: "list_all is_alnum (take n (drop k (hexdigest bs)))"
  using hexdigest_alnum [of bs] by (auto simp: list_all_iff dest: in_set_takeD in_set_dropD)

lemma dyre_dga_hostname: "is_hostname (dyre_dga num date)"
proof -
  have "0xFF AND (num mod 26 + 97) = num mod 26 + 97"
    using pos_mod_bound [of 26 num] by (simp add: and.commute [of 255] and_masks)
  then have "is_az (chr (0xFF AND (num mod 26 + 97)))" using is_az_chr_mod' [of 26 num] by simp
  then have "is_label (chr (0xFF AND (num mod 26 + 97)) # take 33 (drop 3 (hexdigest (sha256 m))))" for m
    by (intro is_label_length [of _ 34]) (simp_all add: slice_hex is_alnum_az)
  moreover have "list_all dot_suffix dyre_tlds" "dyre_tlds \<noteq> []" by code_simp+
  then have "dot_suffix (pick dyre_tlds num)" by (rule pick_all)
  ultimately show ?thesis using dot_suffix_hostname by (simp add: dyre_dga_def Let_def) (metis append_Cons)
qed

interpretation dyre_run: single_source tiers_1m "\<lambda>(d, num) (_::unit). Inr (dyre_dga num d, ())"
  "on_collision (force_close 10)" "\<lambda>_. True" "\<lambda>_. True" is_hostname
  by unfold_locales (auto simp: dyre_dga_hostname on_collision_def run_inv_force)

lemma dyre_main_clean: "clean_dataset tiers_1m (dyre_main is)"
  unfolding dyre_main_def by (rule dyre_run.singles_clean) (simp_all add: list_all_iff)

section \<open>padcrypt\<close>

record padcrypt_config =
  nr_domains :: nat
  tlds :: "string list"
  digit_mapping :: string
  separator :: string

definition padcrypt_tlds :: "string list" where
  "padcrypt_tlds =
     [''com'', ''co.uk'', ''de'', ''org'', ''net'', ''eu'', ''info'', ''online'', ''co'', ''cc'', ''website'']"

definition padcrypt_configs :: "string \<Rightarrow> padcrypt_config result" where
  "padcrypt_configs nr =
     (if nr = ''2.2.86.1'' then
        Inr \<lparr>nr_domains = 24, tlds = padcrypt_tlds, digit_mapping = ''abcdnfolmk'', separator = '':''\<rparr>
      else if nr = ''2.2.97.0'' then
        Inr \<lparr>nr_domains = 24 * 3, tlds = padcrypt_tlds, digit_mapping = ''abcdnfolmk'', separator = ''|''\<rparr>
      else Inl KeyError)"

definition padcrypt_letter :: "string \<Rightarrow> char \<Rightarrow> char" where
  "padcrypt_letter dm hh = (if is_digit hh then dm ! nat (ord hh - 48) else hh)"

definition padcrypt_domain :: "padcrypt_config \<Rightarrow> datetime \<Rightarrow> nat \<Rightarrow> string" where
  "padcrypt_domain config date i =
     (let seed_str = py_str (day date) @ ''-'' @ py_str (month date) @ ''-'' @ py_str (year date) @ separator config @
            py_str (int i);
          h = hexdigest (sha256 (ascii_encode_bytes seed_str));
          domain = map (padcrypt_letter (digit_mapping config)) (take 16 (drop 3 h));
          tld_index = hex_value [last h];
          tld_index' = (if int (length (tlds config)) \<le> tld_index then 0 else tld_index)
      in domain @ ''.'' @ tlds config ! nat tld_index')"

definition padcrypt_dga :: "datetime \<Rightarrow> string \<Rightarrow> string list result" where
  "padcrypt_dga date config_nr =
     rbind (padcrypt_configs config_nr) (\<lambda>config. Inr (map (padcrypt_domain config date) [0..<nr_domains config]))"

definition padcrypt_main :: "datetime list \<Rightarrow> (unit \<times> gen_run) result" where
  "padcrypt_main dates =
     batches (\<lambda>d _. rbind (padcrypt_dga d ''2.2.97.0'') (\<lambda>ds. Inr (ds, ()))) (batch False ignore_collision Break)
       dates () (open_files tiers_1m)"

lemma padcrypt_letter_az:
  assumes "is_hex c"
  shows "is_az (padcrypt_letter ''abcdnfolmk'' c)"
proof (cases "is_digit c")
  case True
  have "list_all is_az ''abcdnfolmk''" by code_simp
  moreover have "nat (ord c - 48) < length ''abcdnfolmk''" using True by (auto simp: is_digit_def)
  ultimately show ?thesis using True by (simp only: padcrypt_letter_def list_all_length if_True)
next
  case False
  with assms show ?thesis by (auto simp: padcrypt_letter_def is_hex_def is_az_def)
qed

lemma padcrypt_domain_hostname:
  assumes "tlds config = padcrypt_tlds" and "digit_mapping config = ''abcdnfolmk''"
  shows "is_hostname (padcrypt_domain config date i)"
proof -
  define h where "h = hexdigest (sha256 (ascii_encode_bytes (py_str (day date) @ ''-'' @ py_str (month date) @ ''-'' @
    py_str (year date) @ separator config @ py_str (int i))))"
  define k where "k = nat (if 11 \<le> hex_value [last h] then 0 else hex_value [last h])"
  have hex: "list_all is_hex h" by (simp add: h_def hexdigest_hex)
  have len: "length h = 64" by (simp add: h_def)
  then have "h \<noteq> []" by auto
  then have "0 \<le> hex_value [last h]" using hex hex_value_range [of "[last h]"] by (auto simp: list_all_iff)
  then have "k < length padcrypt_tlds" by (auto simp: k_def padcrypt_tlds_def)
  moreover have "list_all is_suffix padcrypt_tlds" by code_simp
  ultimately have suffix: "is_suffix (padcrypt_tlds ! k)" by (simp add: list_all_length)
  have "list_all is_az (map (padcrypt_letter ''abcdnfolmk'') (take 16 (drop 3 h)))"
    using hex padcrypt_letter_az by (auto simp: list_all_iff dest: in_set_takeD in_set_dropD)
  then have "is_label (map (padcrypt_letter ''abcdnfolmk'') (take 16 (drop 3 h)))"
    by (intro is_label_az) (simp_all add: len)
  then have "is_hostname (map (padcrypt_letter ''abcdnfolmk'') (take 16 (drop 3 h)) @ CHR ''.'' # padcrypt_tlds ! k)"
    using suffix by (rule is_hostname_label_suffix)
  moreover have "int (length padcrypt_tlds) = 11" by (simp add: padcrypt_tlds_def)
  then have "padcrypt_domain config date i =
      map (padcrypt_letter ''abcdnfolmk'') (take 16 (drop 3 h)) @ CHR ''.'' # padcrypt_tlds ! k"
    unfolding padcrypt_domain_def Let_def assms h_def [symmetric] k_def by simp
  ultimately show ?thesis by simp
qed

lemma padcrypt_dga_ok:
  "\<exists>ds. padcrypt_dga date ''2.2.97.0'' = Inr ds \<and> list_all is_hostname ds \<and> length ds = 72"
  by (auto simp: padcrypt_dga_def padcrypt_configs_def list_all_iff intro!: padcrypt_domain_hostname)

lemma unforced_ignore_body:
  "run_inv tiers_1m s \<Longrightarrow> t1m.full_when_stopped s \<Longrightarrow>
    \<exists>s'. batch chk ignore_collision fin ds s = Inr s' \<and> run_inv tiers_1m s' \<and>
      t1m.full_when_stopped s' \<and> set (data s') \<subseteq> set (data s) \<union> set ds"
  by (rule t1m.batch_unforced) (simp_all add: run_inv_collisions)

interpretation padcrypt_run: batch_source tiers_1m "\<lambda>d (_::unit). rbind (padcrypt_dga d ''2.2.97.0'') (\<lambda>ds. Inr (ds, ()))"
  "batch False ignore_collision Break" t1m.full_when_stopped "\<lambda>_. True" "\<lambda>_. True" is_hostname
proof unfold_locales
  fix d :: datetime and g :: unit
  show "\<exists>ds g'. rbind (padcrypt_dga d ''2.2.97.0'') (\<lambda>ds. Inr (ds, ())) = Inr (ds, g') \<and> list_all is_hostname ds \<and> True"
    using padcrypt_dga_ok [of d] by auto
qed (simp_all add: unforced_ignore_body t1m.full_when_stopped_open)

lemma padcrypt_main_clean: "clean_dataset tiers_1m (padcrypt_main dates)"
  unfolding padcrypt_main_def by (rule padcrypt_run.batches_clean) (simp_all add: list_all_iff)

section \<open>chinad\<close>

definition chinad_tlds :: "string list" where
  "chinad_tlds = [''.com'', ''.org'', ''.net'', ''.biz'', ''.info'', ''.ru'', ''.cn'']"

text \<open>The bytes of the digest with each group of four reversed.\<close>

definition swap_words :: "byte list \<Rightarrow> byte list" where
  "swap_words h = concat (map (\<lambda>i. map (\<lambda>j. h ! (i * 4 + (3 - j))) [0..<4]) [0..<5])"

definition chinad_domain :: "datetime \<Rightarrow> nat \<Rightarrow> string" where
  "chinad_domain date nr =
     (let data = map word_of_int [year date mod 100, month date, day date, int nr] @ replicate 12 0;
          h_le = swap_words (sha1 data)
      in map (\<lambda>r. pick alphanumeric (uint r AND 0xFF)) (take 16 h_le) @ pick chinad_tlds (uint (h_le ! 16)))"

definition chinad_dga :: "datetime \<Rightarrow> string list" where
  "chinad_dga date = map (chinad_domain date) [0..<0x100]"

definition chinad_main :: "datetime list \<Rightarrow> (unit \<times> gen_run) result" where
  "chinad_main dates =
     batches (\<lambda>d _. Inr (chinad_dga d, ())) (batch False (break_on_collision 1000) Break) dates () (open_files tiers_1m)"

lemma length_swap_words: "length (swap_words h) = 20"
  by (simp add: swap_words_def numeral_eq_Suc)

lemma chinad_domain_hostname: "is_hostname (chinad_domain date nr)"
proof -
  have "is_label (map (\<lambda>r. pick alphanumeric (uint r AND 0xFF)) (take 16 (swap_words h)))" for h
    by (intro is_label_length [of _ 16])
      (simp_all add: length_swap_words list_all_iff pick_all [OF alphanumeric_alnum])
  moreover have "list_all dot_suffix chinad_tlds" "chinad_tlds \<noteq> []" by code_simp+
  then have "dot_suffix (pick chinad_tlds k)" for k by (rule pick_all)
  ultimately show ?thesis by (simp add: chinad_domain_def Let_def dot_suffix_hostname)
qed

interpretation chinad_run: batch_source tiers_1m "\<lambda>d (_::unit). Inr (chinad_dga d, ())"
  "batch False (break_on_collision 1000) Break" t1m.full_when_stopped "\<lambda>_. True" "\<lambda>_. True" is_hostname
  by unfold_locales
    (auto simp: chinad_dga_def list_all_iff chinad_domain_hostname unforced_break_body t1m.full_when_stopped_open)

lemma chinad_main_clean: "clean_dataset tiers_1m (chinad_main dates)"
  unfolding chinad_main_def by (rule chinad_run.batches_clean) (simp_all add: list_all_iff)

section \<open>murofet\<close>

text \<open>
  In all three versions the \<open>return\<close> stands inside the loop over \<open>index\<close>, so that the loop is left in its
  first turn: the names are those of index 0.
\<close>

definition index_bytes :: "int \<Rightarrow> int list" where
  "index_bytes r = map (\<lambda>i. drop_bit (8 * i) r AND 0xFF) [0..<4]"

definition murofet_seed :: "datetime \<Rightarrow> int \<Rightarrow> int list" where
  "murofet_seed date index =
     [((year date AND 0xFF) + 0x30) AND 0xFF, month date, (day date div 7) * 7] @ index_bytes index"

text \<open>\<open>for i, tld in enumerate(tlds)\<close>: the first whose distance from the end divides the index.\<close>

fun murofet_tld :: "int \<Rightarrow> string list \<Rightarrow> string" where
  "murofet_tld index [] = []"
| "murofet_tld index (tld # ts) = (if index mod int (length (tld # ts)) = 0 then tld else murofet_tld index ts)"

definition letter_up_to_z :: "int \<Rightarrow> string" where
  "letter_up_to_z c = (if c \<le> ord (CHR ''z'') then [chr c] else [])"

definition murofet_v1_letters :: "byte \<Rightarrow> string" where
  "murofet_v1_letters m =
     (let d = (uint m AND 0x1F) + ord (CHR ''a''); c = drop_bit 3 (uint m) + ord (CHR ''a'')
      in if d \<noteq> c then letter_up_to_z d @ letter_up_to_z c else [])"

definition murofet_v1_domain :: "datetime \<Rightarrow> int \<Rightarrow> string" where
  "murofet_v1_domain date index =
     concat (map murofet_v1_letters (md5 (map word_of_int (murofet_seed date index)))) @
       murofet_tld index [''.ru'', ''.biz'', ''.info'', ''.org'', ''.net'', ''.com'']"

definition murofet_v1_dga :: "datetime \<Rightarrow> string" where
  "murofet_v1_dga date = murofet_v1_domain date 0"

definition murofet_v1_main :: "datetime list \<Rightarrow> (unit \<times> gen_run) result" where
  "murofet_v1_main dates =
     singles (\<lambda>d _. Inr (murofet_v1_dga d, ())) (on_collision (force_close 100)) dates () (open_files tiers_1m)"

definition murofet_v2_seed :: "datetime \<Rightarrow> int \<Rightarrow> int list" where
  "murofet_v2_seed date index =
     [((year date AND 0xFF) + 0x30) AND 0xFF, month date AND 0xFF, day date AND 0xFF, 0] @
       index_bytes (index AND 0xFFFFFFFE)"

definition key_byte :: "int \<Rightarrow> nat \<Rightarrow> int" where
  "key_byte key i = (if key \<noteq> 0 then drop_bit (8 * (i mod 4)) key AND 0xFF else 0)"

definition murofet_v2_letters :: "byte \<Rightarrow> string" where
  "murofet_v2_letters m = letter_up_to_z ((uint m AND 0xF) + drop_bit 4 (uint m) + ord (CHR ''a''))"

definition murofet_v2_domain :: "datetime \<Rightarrow> int \<Rightarrow> int \<Rightarrow> string" where
  "murofet_v2_domain date key index =
     concat (map murofet_v2_letters
       (md5 (map (\<lambda>i. word_of_int (murofet_v2_seed date index ! i XOR key_byte key i)) [0..<8]))) @
       murofet_tld index [''.biz'', ''.info'', ''.org'', ''.net'', ''.com'']"

definition murofet_v2_dga :: "datetime \<Rightarrow> int \<Rightarrow> string" where
  "murofet_v2_dga date key = murofet_v2_domain date key 0"

definition murofet_v2_keys :: "int list" where
  "murofet_v2_keys = [0xD6D7A4BE, 0xDEADC2DE, 0xD6D7A4B1, 0x8811EEA2, 0x78E4A3C0, 0xED79A19C, 0xA4D7EE01]"

definition murofet_v2_main :: "(datetime \<times> int) list \<Rightarrow> (unit \<times> gen_run) result" where
  "murofet_v2_main is =
     singles (\<lambda>(d, k) _. Inr (murofet_v2_dga d (pick murofet_v2_keys k), ())) (on_collision (force_close 10)) is ()
       (open_files tiers_1m)"

definition murofet_v3_letters :: "byte \<Rightarrow> string" where
  "murofet_v3_letters m =
     (let a = (uint m AND 0xF) + ord (CHR ''a''); b = drop_bit 4 (uint m) + ord (CHR ''q'')
      in if ord (CHR ''z'') < b then [chr a, chr (b - ord (CHR ''J'')), chr (a mod 10 + ord (CHR ''0''))]
         else [chr a, chr b])"

definition murofet_v3_domain :: "datetime \<Rightarrow> int \<Rightarrow> string" where
  "murofet_v3_domain date index =
     concat (map murofet_v3_letters (md5 (map word_of_int (murofet_seed date index)))) @
       murofet_tld index [''.ru'', ''.biz'', ''.info'', ''.org'', ''.net'', ''.com'']"

definition murofet_v3_dga :: "datetime \<Rightarrow> string" where
  "murofet_v3_dga date = murofet_v3_domain date 0"

definition murofet_v3_main :: "datetime list \<Rightarrow> (unit \<times> gen_run) result" where
  "murofet_v3_main dates =
     singles (\<lambda>d _. Inr (murofet_v3_dga d, ())) (on_collision (force_close 10)) dates () (open_files tiers_1m)"

text \<open>The shape of the names: a label per byte of the digest.\<close>

lemma concat_bytes:
  assumes "\<And>m. a \<le> length (f m) \<and> length (f m) \<le> b \<and> list_all Q (f m)"
  shows "a * length ms \<le> length (concat (map f ms)) \<and> length (concat (map f ms)) \<le> b * length ms \<and>
    list_all Q (concat (map f ms))"
  using assms by (induction ms) (auto simp: algebra_simps intro: add_mono)

lemma ord_a: "ord (CHR ''a'') = 97"
  by (simp add: ord_def)

lemma letter_up_to_z: "97 \<le> c \<Longrightarrow> list_all is_az (letter_up_to_z c) \<and> length (letter_up_to_z c) \<le> 1"
  by (simp add: letter_up_to_z_def is_az_chr ord_def)

lemma uint_byte: "0 \<le> uint (m :: byte)" "uint (m :: byte) < 256"
  using uint_bounded [of m] by simp_all

lemma murofet_v1_shape:
  "\<exists>l. murofet_v1_dga date = l @ ''.ru'' \<and> length l \<le> 32 \<and> list_all is_az l"
proof -
  have "0 \<le> length (murofet_v1_letters m) \<and> length (murofet_v1_letters m) \<le> 2 \<and> list_all is_az (murofet_v1_letters m)" for m
  proof -
    define d c where "d = (uint m AND 31) + 97" and "c = drop_bit 3 (uint m) + 97"
    have "97 \<le> d" "97 \<le> c" using uint_byte(1) [of m] by (simp_all add: d_def c_def)
    then have "list_all is_az (letter_up_to_z d @ letter_up_to_z c) \<and> length (letter_up_to_z d @ letter_up_to_z c) \<le> 2"
      using letter_up_to_z [of d] letter_up_to_z [of c] by simp
    moreover have "murofet_v1_letters m = (if d \<noteq> c then letter_up_to_z d @ letter_up_to_z c else [])"
      unfolding murofet_v1_letters_def Let_def ord_a d_def c_def by (rule refl)
    ultimately show ?thesis by simp
  qed
  then have "length (concat (map murofet_v1_letters (md5 ms))) \<le> 32 \<and> list_all is_az (concat (map murofet_v1_letters (md5 ms)))"
    for ms using concat_bytes [of 0 murofet_v1_letters 2 is_az "md5 ms"] by simp
  then show ?thesis by (simp add: murofet_v1_dga_def murofet_v1_domain_def)
qed

lemma murofet_v2_shape:
  "\<exists>l. murofet_v2_dga date key = l @ ''.biz'' \<and> length l \<le> 16 \<and> list_all is_az l"
proof -
  have "0 \<le> length (murofet_v2_letters m) \<and> length (murofet_v2_letters m) \<le> 1 \<and> list_all is_az (murofet_v2_letters m)" for m
    using letter_up_to_z [of "(uint m AND 15) + drop_bit 4 (uint m) + 97"] uint_byte [of m]
    by (simp add: murofet_v2_letters_def ord_def)
  then have "length (concat (map murofet_v2_letters (md5 ms))) \<le> 16 \<and> list_all is_az (concat (map murofet_v2_letters (md5 ms)))"
    for ms using concat_bytes [of 0 murofet_v2_letters 1 is_az "md5 ms"] by simp
  then show ?thesis by (simp add: murofet_v2_dga_def murofet_v2_domain_def)
qed

lemma murofet_v3_letters:
  "2 \<le> length (murofet_v3_letters m) \<and> length (murofet_v3_letters m) \<le> 3 \<and> list_all is_alnum (murofet_v3_letters m)"
proof -
  have a: "is_alnum (chr ((uint m AND 15) + 97))"
    by (simp add: and_masks is_alnum_az is_az_chr_mod')
  have b: "drop_bit 4 (uint m) \<le> 15" "0 \<le> drop_bit 4 (uint m)"
    using uint_byte [of m] by (simp_all add: drop_bit_eq_div div_int_pos_iff)
  have c: "is_alnum (chr (x mod 10 + 48))" for x
    by (intro is_alnum_digit is_digit_chr) simp_all
  have ords: "ord (CHR ''z'') = 122" "ord (CHR ''q'') = 113" "ord (CHR ''J'') = 74" "ord (CHR ''0'') = 48"
    by (simp_all add: ord_def)
  show ?thesis
  proof (cases "9 < drop_bit 4 (uint m)")
    case True
    then have "is_alnum (chr (drop_bit 4 (uint m) + 113 - 74))" using b by (intro is_alnum_digit is_digit_chr) simp_all
    with True a c show ?thesis by (simp add: murofet_v3_letters_def Let_def ord_a ords)
  next
    case False
    then have "is_alnum (chr (drop_bit 4 (uint m) + 113))" using b by (intro is_alnum_az is_az_chr) simp_all
    with False a show ?thesis by (simp add: murofet_v3_letters_def Let_def ord_a ords)
  qed
qed

lemma murofet_v3_hostname: "is_hostname (murofet_v3_dga date)"
proof -
  have "is_label (concat (map murofet_v3_letters (md5 m)))" for m
  proof (rule is_label_alnum)
    have "32 \<le> length (concat (map murofet_v3_letters (md5 m))) \<and> length (concat (map murofet_v3_letters (md5 m))) \<le> 48"
      using concat_bytes [of 2 murofet_v3_letters 3 is_alnum "md5 m"] murofet_v3_letters by simp
    then show "concat (map murofet_v3_letters (md5 m)) \<noteq> []" "length (concat (map murofet_v3_letters (md5 m))) \<le> 63"
      by (fastforce simp del: concat_eq_Nil_conv, simp)
    show "list_all is_alnum (concat (map murofet_v3_letters (md5 m)))"
      using concat_bytes [of 2 murofet_v3_letters 3 is_alnum "md5 m"] murofet_v3_letters by simp
  qed
  moreover have "dot_suffix ''.ru''" by code_simp
  ultimately show ?thesis by (simp add: murofet_v3_dga_def murofet_v3_domain_def dot_suffix_hostname)
qed

text \<open>
  How many names there can be: a name depends on its date through the low byte of the year, the month
  and the week of the month (version 2: the day and the key).
\<close>

lemma card_image_factor:
  assumes factor: "\<And>x y. x \<in> A \<Longrightarrow> y \<in> A \<Longrightarrow> k x = k y \<Longrightarrow> f x = f y"
    and "k ` A \<subseteq> B" and "finite B"
  shows "finite (f ` A) \<and> card (f ` A) \<le> card B"
proof -
  have "f x = f (inv_into A k (k x))" if "x \<in> A" for x
    using that by (intro factor) (auto simp: inv_into_into f_inv_into_f)
  then have "f ` A = (\<lambda>b. f (inv_into A k b)) ` k ` A" by (auto simp: image_image)
  moreover have "finite (k ` A)" using assms(2,3) by (rule finite_subset)
  moreover have "card (k ` A) \<le> card B" using assms(2,3) by (simp add: card_mono)
  ultimately show ?thesis using card_image_le [of "k ` A" "\<lambda>b. f (inv_into A k b)"] by (metis finite_imageI le_trans)
qed

definition week_key :: "datetime \<Rightarrow> int \<times> int \<times> int" where
  "week_key d = (year d AND 0xFF, month d, day d div 7)"

definition day_key :: "datetime \<times> int \<Rightarrow> int \<times> int \<times> int \<times> int" where
  "day_key i = (year (fst i) AND 0xFF, month (fst i), day (fst i), snd i mod 7)"

lemma week_key_range: "week_key ` {d. is_datetime d} \<subseteq> {0..<256} \<times> {1..12} \<times> {0..<5}"
proof (rule image_subsetI)
  fix d assume "d \<in> {d. is_datetime d}"
  then have "is_datetime d" by simp
  from is_datetime_bounds [OF this] show "week_key d \<in> {0..<256} \<times> {1..12} \<times> {0..<5}"
    by (auto simp: week_key_def and_masks div_int_pos_iff)
qed

lemma day_key_range: "day_key ` {i. is_datetime (fst i)} \<subseteq> {0..<256} \<times> {1..12} \<times> {1..31} \<times> {0..<7}"
proof (rule image_subsetI)
  fix i :: "datetime \<times> int" assume "i \<in> {i. is_datetime (fst i)}"
  then have "is_datetime (fst i)" by simp
  from is_datetime_bounds [OF this] show "day_key i \<in> {0..<256} \<times> {1..12} \<times> {1..31} \<times> {0..<7}"
    by (auto simp: day_key_def and_masks)
qed

lemma card_keys:
  "card ({0..<256::int} \<times> {1..12::int} \<times> {0..<5::int}) = 15360"
  "card ({0..<256::int} \<times> {1..12::int} \<times> {1..31::int} \<times> {0..<7::int}) = 666624"
  by (simp_all add: card_cartesian_product)

definition murofet_v2_name :: "datetime \<times> int \<Rightarrow> string" where
  "murofet_v2_name i = murofet_v2_dga (fst i) (pick murofet_v2_keys (snd i))"

lemma murofet_v1_count: "finite (murofet_v1_dga ` {d. is_datetime d}) \<and> card (murofet_v1_dga ` {d. is_datetime d}) \<le> 15360"
proof -
  have "murofet_v1_dga x = murofet_v1_dga y" if "week_key x = week_key y" for x y
    using that unfolding murofet_v1_dga_def murofet_v1_domain_def murofet_seed_def week_key_def by (simp only: prod.inject)
  then show ?thesis unfolding card_keys(1) [symmetric] by (rule card_image_factor [OF _ week_key_range]) simp_all
qed

lemma murofet_v3_count: "finite (murofet_v3_dga ` {d. is_datetime d}) \<and> card (murofet_v3_dga ` {d. is_datetime d}) \<le> 15360"
proof -
  have "murofet_v3_dga x = murofet_v3_dga y" if "week_key x = week_key y" for x y
    using that unfolding murofet_v3_dga_def murofet_v3_domain_def murofet_seed_def week_key_def by (simp only: prod.inject)
  then show ?thesis unfolding card_keys(1) [symmetric] by (rule card_image_factor [OF _ week_key_range]) simp_all
qed

lemma murofet_v2_count:
  "finite (murofet_v2_name ` {i. is_datetime (fst i)}) \<and> card (murofet_v2_name ` {i. is_datetime (fst i)}) \<le> 666624"
proof -
  have "length murofet_v2_keys = 7" by (simp add: murofet_v2_keys_def)
  then have "murofet_v2_name x = murofet_v2_name y" if "day_key x = day_key y" for x y
    using that unfolding murofet_v2_name_def murofet_v2_dga_def murofet_v2_domain_def murofet_v2_seed_def day_key_def pick_def
    by (simp only: prod.inject of_nat_numeral)
  then show ?thesis unfolding card_keys(2) [symmetric] by (rule card_image_factor [OF _ day_key_range]) simp_all
qed

text \<open>A generator whose names come from a finite set: the runs and their size, once for all three.\<close>

lemma finite_source:
  "single_source tiers_1m (\<lambda>i (_::unit). Inr (f i, ())) (on_collision (force_close m)) (\<lambda>_. True) (\<lambda>i. i \<in> A)
    (\<lambda>d. d \<in> f ` A)"
  by unfold_locales (auto simp: on_collision_def run_inv_force)

lemma finite_source_run:
  assumes "list_all (\<lambda>i. i \<in> A) is" and "finite (f ` A) \<and> card (f ` A) \<le> n"
  shows "\<exists>s. singles (\<lambda>i (_::unit). Inr (f i, ())) (on_collision (force_close m)) is () (open_files tiers_1m) = Inr ((), s) \<and>
    run_inv tiers_1m s \<and> set (data s) \<subseteq> f ` A \<and> length (data s) \<le> n"
proof -
  obtain s where s: "singles (\<lambda>i (_::unit). Inr (f i, ())) (on_collision (force_close m)) is () (open_files tiers_1m) = Inr ((), s)"
    "run_inv tiers_1m s" "list_all (\<lambda>d. d \<in> f ` A) (data s)"
    using single_source.singles_dataset [OF finite_source [of f m A] TrueI, of "is"] assms(1) by auto
  then have "length (data s) \<le> n"
    using distinct_in_finite [OF _ s(3)] assms(2) by (auto simp: run_inv_def)
  with s show ?thesis by (auto simp: list_all_iff)
qed

definition short_run :: "nat \<Rightarrow> (string \<Rightarrow> bool) \<Rightarrow> (unit \<times> gen_run) result \<Rightarrow> bool" where
  "short_run n P r =
     (case r of Inl _ \<Rightarrow> False
      | Inr (_, s) \<Rightarrow> run_inv tiers_1m s \<and> list_all P (data s) \<and> length (data s) \<le> n)"

lemma finite_source_short:
  assumes "list_all (\<lambda>i. i \<in> A) is" and "finite (f ` A) \<and> card (f ` A) \<le> n" and "\<And>i. i \<in> A \<Longrightarrow> P (f i)"
  shows "short_run n P (singles (\<lambda>i (_::unit). Inr (f i, ())) (on_collision (force_close m)) is () (open_files tiers_1m))"
  using finite_source_run [OF assms(1,2), of m] assms(3) by (fastforce simp: short_run_def list_all_iff)

text \<open>At most \<open>n\<close> letters in front of a top-level domain.\<close>

definition letters_and :: "nat \<Rightarrow> string \<Rightarrow> string \<Rightarrow> bool" where
  "letters_and n tld d \<longleftrightarrow> (\<exists>l. d = l @ tld \<and> length l \<le> n \<and> list_all is_az l)"

lemma murofet_v1_main_short:
  assumes "list_all is_datetime dates"
  shows "short_run 15360 (letters_and 32 ''.ru'') (murofet_v1_main dates)"
  unfolding murofet_v1_main_def
  by (rule finite_source_short [OF _ murofet_v1_count]) (use assms in \<open>simp_all add: letters_and_def murofet_v1_shape\<close>)

lemma murofet_v3_main_short:
  assumes "list_all is_datetime dates"
  shows "short_run 15360 is_hostname (murofet_v3_main dates)"
  unfolding murofet_v3_main_def
  by (rule finite_source_short [OF _ murofet_v3_count]) (use assms in \<open>simp_all add: murofet_v3_hostname\<close>)

lemma murofet_v2_main_short:
  assumes "list_all (\<lambda>i. is_datetime (fst i)) is"
  shows "short_run 666624 (letters_and 16 ''.biz'') (murofet_v2_main is)"
proof -
  have "murofet_v2_main is =
      singles (\<lambda>i _. Inr (murofet_v2_name i, ())) (on_collision (force_close 10)) is () (open_files tiers_1m)"
    by (simp only: murofet_v2_main_def murofet_v2_name_def case_prod_unfold)
  also have "short_run 666624 (letters_and 16 ''.biz'') \<dots>"
    by (rule finite_source_short [OF _ murofet_v2_count])
      (use assms in \<open>simp_all add: letters_and_def murofet_v2_shape murofet_v2_name_def\<close>)
  finally show ?thesis .
qed

section \<open>zeus-newgoz\<close>

definition zeus_key :: "byte list" where
  "zeus_key = [0x01, 0x05, 0x19, 0x35]"

definition get_seed :: "int \<Rightarrow> datetime \<Rightarrow> string result" where
  "get_seed seq_nr date =
     rbind (pack_le 4 seq_nr) (\<lambda>seq.
     rbind (pack_le 2 (year date)) (\<lambda>y.
     rbind (pack_le 2 (month date)) (\<lambda>m.
     rbind (pack_le 2 (day date)) (\<lambda>d.
       Inr (hexdigest (md5 (seq @ y @ zeus_key @ m @ zeus_key @ d @ zeus_key)))))))"

fun zeus_digits :: "nat \<Rightarrow> int \<Rightarrow> string" where
  "zeus_digits 0 s = []"
| "zeus_digits (Suc n) s =
     (let edx = s mod 36; s' = s div 36;
          c = (if 9 < edx then chr (ord (CHR ''a'') + (edx - 10)) else chr (edx + ord (CHR ''0'')))
      in c # (if s' = 0 then [] else zeus_digits n s'))"

definition generate_domain_part :: "int \<Rightarrow> nat \<Rightarrow> string" where
  "generate_domain_part s nr = rev (zeus_digits (nr - 1) s)"

definition hex_to_int :: "string \<Rightarrow> int" where
  "hex_to_int s = hex_value (concat (rev (map (\<lambda>x. take 2 (drop x s)) [0, 2, 4, 6])))"

definition zeus_tld :: "int \<Rightarrow> string" where
  "zeus_tld seq_nr =
     (if seq_nr mod 4 = 0 then ''.com'' else if seq_nr mod 3 = 0 then ''.org''
      else if seq_nr mod 2 = 0 then ''.biz'' else ''.net'')"

definition zeus_parts :: "string \<Rightarrow> string list" where
  "zeus_parts seed_value =
     map (\<lambda>i. generate_domain_part (hex_to_int (take 8 (drop (i * 2) seed_value))) 8) [0, 4, 8, 12]"

definition create_domain :: "int \<Rightarrow> datetime \<Rightarrow> string result" where
  "create_domain seq_nr date =
     rbind (get_seed seq_nr date) (\<lambda>seed_value. Inr (concat (zeus_parts seed_value) @ zeus_tld seq_nr))"

definition zeus_main :: "(datetime \<times> int) list \<Rightarrow> (unit \<times> gen_run) result" where
  "zeus_main is =
     singles (\<lambda>(d, seq_nr) _. rbind (create_domain seq_nr d) (\<lambda>n. Inr (n, ()))) (on_collision (force_close 10)) is ()
       (open_files tiers_1m)"

text \<open>The digits: a part is the base-36 numeral of its seed, and the seed is four bytes of the digest.\<close>

definition base36_digit :: "char \<Rightarrow> int" where
  "base36_digit c = (if is_digit c then ord c - 48 else ord c - 87)"

definition base36_value :: "string \<Rightarrow> int" where
  "base36_value s = foldl (\<lambda>n c. 36 * n + base36_digit c) 0 s"

lemma ord_0: "ord (CHR ''0'') = 48"
  by (simp add: ord_def)

definition base36_char :: "int \<Rightarrow> char" where
  "base36_char e = (if 9 < e then chr (ord (CHR ''a'') + (e - 10)) else chr (e + ord (CHR ''0'')))"

lemma base36_char: "0 \<le> e \<Longrightarrow> e < 36 \<Longrightarrow> base36_digit (base36_char e) = e \<and> is_alnum (base36_char e)"
  using is_az_chr [of "e + 87"] is_digit_chr [of "e + 48"]
  by (cases "9 < e") (simp_all add: base36_char_def base36_digit_def ord_a ord_0 is_digit_def is_alnum_def algebra_simps)

lemma zeus_digits_step:
  "zeus_digits (Suc n) s = base36_char (s mod 36) # (if s div 36 = 0 then [] else zeus_digits n (s div 36))"
  by (simp add: base36_char_def Let_def)

declare zeus_digits.simps(2) [simp del]

lemma zeus_digits_value:
  "0 \<le> s \<Longrightarrow> s < 36 ^ n \<Longrightarrow> 0 < n \<Longrightarrow> base36_value (rev (zeus_digits n s)) = s"
proof (induction n arbitrary: s)
  case (Suc n)
  have c: "base36_digit (base36_char (s mod 36)) = s mod 36" by (intro base36_char [THEN conjunct1]) simp_all
  show ?case
  proof (cases "s div 36 = 0")
    case True
    then have "s mod 36 = s" by (metis div_mult_mod_eq add_0 mult_zero_left)
    with True c show ?thesis by (simp add: zeus_digits_step base36_value_def)
  next
    case False
    have "s div 36 < 36 ^ n" using Suc.prems(2) by (simp add: div_less_iff_less_mult mult.commute)
    moreover from this have "0 < n" using False Suc.prems(1) by (cases n) auto
    ultimately have "base36_value (rev (zeus_digits n (s div 36))) = s div 36"
      using Suc.prems(1) by (intro Suc.IH) (simp_all add: div_int_pos_iff)
    with False c show ?thesis by (simp add: zeus_digits_step base36_value_def)
  qed
qed simp

lemma zeus_digits_shape: "0 \<le> s \<Longrightarrow> 0 < n \<Longrightarrow> zeus_digits n s \<noteq> [] \<and> length (zeus_digits n s) \<le> n \<and> list_all is_alnum (zeus_digits n s)"
proof (induction n arbitrary: s)
  case (Suc n)
  have "is_alnum (base36_char (s mod 36))" by (intro base36_char [THEN conjunct2]) simp_all
  moreover have "length (zeus_digits n (s div 36)) \<le> n \<and> list_all is_alnum (zeus_digits n (s div 36))"
    using Suc.IH [of "s div 36"] Suc.prems(1) by (cases n) (simp_all add: div_int_pos_iff)
  ultimately show ?case by (simp add: zeus_digits_step)
qed simp

lemma hex_digit_hexdigit: "n < 16 \<Longrightarrow> hex_digit_value (hexdigit n) = int n"
proof -
  have "list_all (\<lambda>n. hex_digit_value (hexdigit n) = int n) [0..<16]" by code_simp
  then show "n < 16 \<Longrightarrow> hex_digit_value (hexdigit n) = int n" by (simp add: list_all_iff)
qed

lemma hex_byte_value: "16 * (16 * n + hex_digit_value (hexdigit (unat (drop_bit 4 b)))) + hex_digit_value (hexdigit (unat (b AND 15))) =
    256 * n + int (unat (b :: byte))"
proof -
  have "unat b div 16 < 16" "unat b mod 16 < 16" using unat_byte_less [of b] by (simp_all add: less_mult_imp_div_less)
  then have "hex_digit_value (hexdigit (unat (drop_bit 4 b))) = int (unat b div 16)"
    "hex_digit_value (hexdigit (unat (b AND 15))) = int (unat b mod 16)"
    by (simp_all only: unat_nibbles hex_digit_hexdigit)
  moreover have "16 * int (unat b div 16) + int (unat b mod 16) = int (unat b)" by presburger
  ultimately show ?thesis by simp
qed

lemma hex_to_int_bytes: "hex_to_int (hexdigest [a, b, c, d]) = int (of_le [a, b, c, d])"
proof -
  have "hex_to_int (hexdigest [a, b, c, d]) = hex_value (hex_byte d @ hex_byte c @ hex_byte b @ hex_byte a)"
    by (simp add: hex_to_int_def hexdigest_def hex_byte_def)
  also have "\<dots> = int (of_le [a, b, c, d])"
    by (simp only: hex_value_def hex_byte_def append.simps foldl.simps hex_byte_value of_le.simps) simp
  finally show ?thesis .
qed

lemma hexdigest_Cons: "hexdigest (b # bs) = hexdigit (unat (drop_bit 4 b)) # hexdigit (unat (b AND 15)) # hexdigest bs"
  by (simp add: hexdigest_def hex_byte_def)

lemma take_hexdigest: "take (2 * n) (hexdigest bs) = hexdigest (take n bs)"
proof (induction bs arbitrary: n)
  case (Cons b bs)
  then show ?case by (cases n) (simp_all add: hexdigest_Cons hexdigest_def [of "[]"])
qed (simp add: hexdigest_def)

lemma drop_hexdigest: "drop (2 * n) (hexdigest bs) = hexdigest (drop n bs)"
proof (induction bs arbitrary: n)
  case (Cons b bs)
  then show ?case by (cases n) (simp_all add: hexdigest_Cons)
qed (simp add: hexdigest_def)

lemma four_elements: "length xs = 4 \<Longrightarrow> \<exists>a b c d. xs = [a, b, c, d]"
  by (auto simp: length_Suc_conv numeral_eq_Suc)

text \<open>The four little-endian words of a digest of 16 bytes.\<close>

definition digest_words :: "byte list \<Rightarrow> int list" where
  "digest_words bs = map (\<lambda>i. int (of_le (take 4 (drop i bs)))) [0, 4, 8, 12]"

lemma zeus_parts_words:
  assumes "length bs = 16"
  shows "map base36_value (zeus_parts (hexdigest bs)) = digest_words bs \<and>
    list_all (\<lambda>part. part \<noteq> [] \<and> length part \<le> 7 \<and> list_all is_alnum part) (zeus_parts (hexdigest bs))"
proof -
  have part: "hex_to_int (take 8 (drop (2 * i) (hexdigest bs))) = int (of_le (take 4 (drop i bs)))" if "i + 4 \<le> 16" for i
  proof -
    have "length (take 4 (drop i bs)) = 4" using assms that by simp
    then obtain a b c d where "take 4 (drop i bs) = [a, b, c, d]" using four_elements by blast
    then show ?thesis using hex_to_int_bytes [of a b c d] take_hexdigest [of 4] drop_hexdigest [of i] by simp
  qed
  have bound: "int (of_le (take 4 xs)) < 36 ^ 7" for xs
    using of_le_bound [of "take 4 xs"] power_increasing [of "length (take 4 xs)" 4 "256::nat"] by simp
  have "base36_value (generate_domain_part (int (of_le (take 4 xs))) 8) = int (of_le (take 4 xs))" for xs
    using zeus_digits_value [of "int (of_le (take 4 xs))" 7] bound [of xs] by (simp add: generate_domain_part_def)
  moreover have "generate_domain_part (int n) 8 \<noteq> [] \<and> length (generate_domain_part (int n) 8) \<le> 7 \<and>
      list_all is_alnum (generate_domain_part (int n) 8)" for n
    using zeus_digits_shape [of "int n" 7] by (simp add: generate_domain_part_def list_all_iff)
  ultimately show ?thesis
    using part [of 0] part [of 4] part [of 8] part [of 12] by (simp add: zeus_parts_def digest_words_def)
qed

definition zeus_message :: "int \<Rightarrow> datetime \<Rightarrow> byte list" where
  "zeus_message seq_nr date =
     le_bytes 4 (nat seq_nr) @ le_bytes 2 (nat (year date)) @ zeus_key @ le_bytes 2 (nat (month date)) @ zeus_key @
       le_bytes 2 (nat (day date)) @ zeus_key"

lemma get_seed_ok:
  assumes "is_datetime date" and "0 \<le> seq_nr" and "seq_nr < 2 ^ 32"
  shows "get_seed seq_nr date = Inr (hexdigest (md5 (zeus_message seq_nr date)))"
  using is_datetime_bounds [OF assms(1)] assms(2,3) by (simp add: get_seed_def pack_le_def zeus_message_def)

lemma zeus_tld_suffix: "dot_suffix (zeus_tld n)"
proof -
  have "dot_suffix ''.com''" "dot_suffix ''.org''" "dot_suffix ''.biz''" "dot_suffix ''.net''" by code_simp+
  then show ?thesis by (simp add: zeus_tld_def)
qed

lemma create_domain_ok:
  assumes "is_datetime date" and "0 \<le> seq_nr" and "seq_nr < 2 ^ 32"
  shows "\<exists>parts. create_domain seq_nr date = Inr (concat parts @ zeus_tld seq_nr) \<and>
    map base36_value parts = digest_words (md5 (zeus_message seq_nr date)) \<and>
    is_hostname (concat parts @ zeus_tld seq_nr)"
proof -
  define parts where "parts = zeus_parts (hexdigest (md5 (zeus_message seq_nr date)))"
  note words = zeus_parts_words [of "md5 (zeus_message seq_nr date)", simplified, folded parts_def]
  have "length parts = 4" by (simp add: parts_def zeus_parts_def)
  then obtain a b c d where "parts = [a, b, c, d]" using four_elements by blast
  with words have "is_label (concat parts)" by (intro is_label_alnum) auto
  with words show ?thesis
    using get_seed_ok [OF assms] dot_suffix_hostname [OF _ zeus_tld_suffix]
    by (auto simp: create_domain_def parts_def)
qed

definition zeus_input :: "datetime \<times> int \<Rightarrow> bool" where
  "zeus_input i \<longleftrightarrow> is_datetime (fst i) \<and> 0 \<le> snd i \<and> snd i < 2 ^ 32"

interpretation zeus_run: single_source tiers_1m
  "\<lambda>(d, seq_nr) (_::unit). rbind (create_domain seq_nr d) (\<lambda>n. Inr (n, ()))" "on_collision (force_close 10)"
  "\<lambda>_. True" zeus_input is_hostname
proof unfold_locales
  fix g :: unit and i
  assume "zeus_input i"
  then show "\<exists>d g'. (case i of (d, seq_nr) \<Rightarrow> \<lambda>_. rbind (create_domain seq_nr d) (\<lambda>n. Inr (n, ()))) g = Inr (d, g') \<and>
      is_hostname d \<and> True"
    using create_domain_ok [of "fst i" "snd i"] by (auto simp: zeus_input_def case_prod_beta)
qed (simp_all add: on_collision_def run_inv_force)

lemma zeus_main_clean: "list_all zeus_input is \<Longrightarrow> clean_dataset tiers_1m (zeus_main is)"
  unfolding zeus_main_def by (rule zeus_run.singles_clean) simp_all

section \<open>Properties\<close>

text \<open>The \<open>return\<close> inside murofet's loop over \<open>index\<close> leaves few names: for any dates the main programs never
  raise, but versions 1 and 3 end up with at most 15360 domains and version 2 with at most 666624, so their
  largest tiers are never filled. The names are at most 32 (version 2: 16) letters in front of \<open>.ru\<close> (\<open>.biz\<close>),
  and well-formed host names in version 3.\<close>

lemma murofet_few_domains:
  assumes "list_all is_datetime dates" and "list_all (\<lambda>i. is_datetime (fst i)) is"
  shows "short_run 15360 (letters_and 32 ''.ru'') (murofet_v1_main dates) \<and>
    short_run 666624 (letters_and 16 ''.biz'') (murofet_v2_main is) \<and>
    short_run 15360 is_hostname (murofet_v3_main dates)"
  using murofet_v1_main_short [OF assms(1)] murofet_v2_main_short [OF assms(2)] murofet_v3_main_short [OF assms(1)] by simp

lemma murofet_few_domains_example:
  "short_run 15360 (letters_and 32 ''.ru'') (murofet_v1_main [\<lparr>year = 2020, month = 2, day = 29, hour = 1, minute = 0\<rparr>]) \<and>
   short_run 666624 (letters_and 16 ''.biz'') (murofet_v2_main [(\<lparr>year = 1970, month = 1, day = 1, hour = 1, minute = 0\<rparr>, 3)]) \<and>
   short_run 15360 is_hostname (murofet_v3_main [\<lparr>year = 2020, month = 2, day = 29, hour = 1, minute = 0\<rparr>])"
  by (rule murofet_few_domains) (simp_all add: is_datetime_def days_in_month_def is_leap_def)

text \<open>zeus-newgoz raises nothing for a sequence number of 32 bits and a date; its name is made of four
  parts that, read as base-36 numerals, are the four little-endian words of the MD5 digest, so that no
  bit of the digest is lost in a part; and the name is a well-formed host name.\<close>

lemma zeus_parts_are_digest:
  assumes "is_datetime date" and "0 \<le> seq_nr" and "seq_nr < 2 ^ 32"
  shows "\<exists>parts. create_domain seq_nr date = Inr (concat parts @ zeus_tld seq_nr) \<and>
    map base36_value parts = digest_words (md5 (zeus_message seq_nr date)) \<and>
    is_hostname (concat parts @ zeus_tld seq_nr)"
  using assms by (rule create_domain_ok)

lemma zeus_parts_are_digest_example:
  "\<exists>parts. create_domain 4294967295 \<lparr>year = 2014, month = 7, day = 11, hour = 1, minute = 0\<rparr> = Inr (concat parts @ ''.org'') \<and>
    map base36_value parts =
      digest_words (md5 (zeus_message 4294967295 \<lparr>year = 2014, month = 7, day = 11, hour = 1, minute = 0\<rparr>)) \<and>
    is_hostname (concat parts @ ''.org'')"
  using zeus_parts_are_digest [of "\<lparr>year = 2014, month = 7, day = 11, hour = 1, minute = 0\<rparr>" 4294967295]
  by (simp add: is_datetime_def days_in_month_def zeus_tld_def)

end
