(* ===== verification/Gen_Md5.thy ===== *)
theory Gen_Md5
  imports Gen_Phrases Gen_Hash
begin

text \<open>
  The generators that draw their numbers from a chain of MD5 digests, pushdo and nymaim, and the RC4 cipher
  that comes with pushdo. \<open>%08x\<close> and \<open>decode("hex")\<close> between the links of pushdo's chain may raise; it is
  shown that they do not.
\<close>

section \<open>RC4\<close>

text \<open>The state of the cipher: its box and the two indices.\<close>

record rc4_state =
  box :: "int list"
  idx_x :: int
  idx_y :: int

definition swap :: "'a list \<Rightarrow> nat \<Rightarrow> nat \<Rightarrow> 'a list" where
  "swap xs i j = xs[i := xs ! j, j := xs ! i]"

definition rc4_mix :: "string \<Rightarrow> rc4_state \<Rightarrow> nat \<Rightarrow> rc4_state" where
  "rc4_mix key st i =
     (let x = (idx_x st + box st ! i + ord (key ! (i mod length key))) mod 256
      in st\<lparr>box := swap (box st) i (nat x), idx_x := x\<rparr>)"

definition rc4_schedule :: "string \<Rightarrow> rc4_state result" where
  "rc4_schedule key =
     (if key = [] then Inl ZeroDivisionError
      else Inr ((foldl (rc4_mix key) \<lparr>box = [0..255], idx_x = 0, idx_y = 0\<rparr> [0..<256])\<lparr>idx_x := 0, idx_y := 0\<rparr>))"

definition rc4_step :: "rc4_state \<Rightarrow> rc4_state" where
  "rc4_step st =
     (let x = (idx_x st + 1) mod 256; y = (idx_y st + box st ! nat x) mod 256
      in \<lparr>box = swap (box st) (nat x) (nat y), idx_x = x, idx_y = y\<rparr>)"

definition rc4_byte :: "rc4_state \<Rightarrow> int" where
  "rc4_byte st = box st ! nat ((box st ! nat (idx_x st) + box st ! nat (idx_y st)) mod 256)"

fun rc4_stream :: "rc4_state \<Rightarrow> string \<Rightarrow> string" where
  "rc4_stream st [] = []"
| "rc4_stream st (c # cs) = (let st' = rc4_step st in chr (ord c XOR rc4_byte st') # rc4_stream st' cs)"

definition rc4crypt :: "string \<Rightarrow> string \<Rightarrow> string result" where
  "rc4crypt s key = rbind (rc4_schedule key) (\<lambda>st. Inr (rc4_stream st s))"

text \<open>The invariant: the box stays a permutation of the bytes, and the indices are bytes.\<close>

definition rc4_inv :: "rc4_state \<Rightarrow> bool" where
  "rc4_inv st \<longleftrightarrow>
     length (box st) = 256 \<and> set (box st) = {0..255} \<and> 0 \<le> idx_x st \<and> idx_x st < 256 \<and> 0 \<le> idx_y st \<and> idx_y st < 256"

lemma set_swap: "i < length xs \<Longrightarrow> j < length xs \<Longrightarrow> set (swap xs i j) = set xs"
  by (simp add: swap_def)

lemma length_swap [simp]: "length (swap xs i j) = length xs"
  by (simp add: swap_def)

lemma rc4_mix_inv: "rc4_inv st \<Longrightarrow> i < 256 \<Longrightarrow> rc4_inv (rc4_mix key st i)"
  by (simp add: rc4_inv_def rc4_mix_def Let_def set_swap nat_less_iff)

lemma rc4_step_inv: "rc4_inv st \<Longrightarrow> rc4_inv (rc4_step st)"
  by (simp add: rc4_inv_def rc4_step_def Let_def set_swap nat_less_iff)

lemma rc4_schedule_inv:
  assumes "key \<noteq> []"
  shows "\<exists>st. rc4_schedule key = Inr st \<and> rc4_inv st"
proof -
  have "rc4_inv (foldl (rc4_mix key) st is)" if "rc4_inv st" "\<forall>i \<in> set is. i < 256" for st "is"
    using that by (induction "is" arbitrary: st) (simp_all add: rc4_mix_inv)
  moreover have "rc4_inv \<lparr>box = [0..255], idx_x = 0, idx_y = 0\<rparr>"
    by (simp add: rc4_inv_def)
  ultimately have "rc4_inv (foldl (rc4_mix key) \<lparr>box = [0..255], idx_x = 0, idx_y = 0\<rparr> [0..<256])" by simp
  then show ?thesis using assms by (simp add: rc4_schedule_def rc4_inv_def)
qed

lemma rc4_byte_range: "rc4_inv st \<Longrightarrow> 0 \<le> rc4_byte st \<and> rc4_byte st < 256"
proof -
  assume "rc4_inv st"
  then have "rc4_byte st \<in> set (box st)" unfolding rc4_byte_def rc4_inv_def by (intro nth_mem) (simp add: nat_less_iff)
  with \<open>rc4_inv st\<close> show ?thesis by (simp add: rc4_inv_def)
qed

lemma xor_byte: "0 \<le> b \<Longrightarrow> b < 256 \<Longrightarrow> ord (chr (ord c XOR b)) = ord c XOR b"
  using OR_upper [of "ord c" 8 b] XOR_upper [of "ord c" 8 b] by (intro ord_chr) simp_all

lemma rc4_stream_involution: "rc4_inv st \<Longrightarrow> rc4_stream st (rc4_stream st s) = s"
proof (induction s arbitrary: st)
  case (Cons c s)
  have inv: "rc4_inv (rc4_step st)" using Cons.prems by (rule rc4_step_inv)
  then have "ord (chr (ord c XOR rc4_byte (rc4_step st))) XOR rc4_byte (rc4_step st) = ord c"
    using rc4_byte_range by (simp add: xor_byte xor.assoc)
  then show ?case using Cons.IH [OF inv] by (simp add: Let_def)
qed simp

lemma length_rc4_stream [simp]: "length (rc4_stream st s) = length s"
  by (induction s arbitrary: st) (simp_all add: Let_def)

section \<open>pushdo\<close>

text \<open>
  \<open>s.decode("hex")\<close> of lower-case digits, as the script makes them: an odd length or another character
  raises TypeError. \<open>"%08x" % n\<close> is used for numbers that are not negative.
\<close>

fun unhex :: "string \<Rightarrow> byte list result" where
  "unhex [] = Inr []"
| "unhex [c] = Inl TypeError"
| "unhex (c # d # s) =
     (if is_hex c \<and> is_hex d
      then rbind (unhex s) (\<lambda>bs. Inr (word_of_int (16 * hex_digit_value c + hex_digit_value d) # bs))
      else Inl TypeError)"

definition format_08x :: "int \<Rightarrow> string" where
  "format_08x n = pad_zeros 8 (py_hex n)"

definition generateString :: "int \<Rightarrow> byte list result" where
  "generateString s =
     rbind (unhex (format_08x s)) (\<lambda>tmp. rbind (rmap (py_get tmp) [0, 1, 2, 3]) (\<lambda>cs. Inr (rev cs)))"

definition pushdo_piece :: "int \<Rightarrow> string" where
  "pushdo_piece bl =
     (let v1 = ''aiou''; v2 = ''aeiouy''; c1 = ''bcdfghjklmnpqrstvwxz''; c2 = ''zxtsrqpnmlkgfdcb'';
          first = c1 ! nat (bl mod 0x13); al = v2 ! nat ((bl + 1) mod 5); bl2 = bl + 2
      in [first, al] @
        (if ord al = 0x65 then (if bl2 AND 7 \<noteq> 0 then [v1 ! nat (bl2 mod 3)] else [])
         else if bl2 AND 1 \<noteq> 0 then [c2 ! nat ((bl2 + 1) mod 0xF)] else []))"

fun pushdo_name :: "byte list \<Rightarrow> nat \<Rightarrow> string \<Rightarrow> string" where
  "pushdo_name [] n buf = buf"
| "pushdo_name (c # cs) n buf = (if n < length buf then buf else pushdo_name cs n (buf @ pushdo_piece (uint c)))"

definition generateDomain :: "byte list \<Rightarrow> nat \<Rightarrow> string" where
  "generateDomain mdhash n = pushdo_name mdhash n []"

definition pushdo_next_seed :: "string \<Rightarrow> byte list result" where
  "pushdo_next_seed hashit =
     (let s5 = format_08x (hex_value (take 8 hashit) + 0x01000000)
      in unhex (if length s5 mod 2 \<noteq> 0 then CHR ''0'' # s5 else s5))"

text \<open>The loop of \<open>dga\<close>; each turn draws the top-level domain.\<close>

fun pushdo_chain :: "int list \<Rightarrow> byte list \<Rightarrow> string list result" where
  "pushdo_chain [] s = Inr []"
| "pushdo_chain (r # rs) s =
     (let hashit = hexdigest (md5 s)
      in rbind (unhex hashit) (\<lambda>md.
         rbind (pushdo_next_seed hashit) (\<lambda>s'.
         rbind (pushdo_chain rs s') (\<lambda>ds.
           Inr ((generateDomain md 0x0A @ pick [''.kz'', ''.com''] r) # ds)))))"

definition pushdo_dga :: "datetime \<Rightarrow> (nat \<Rightarrow> int) \<Rightarrow> string list result" where
  "pushdo_dga date choice =
     rbind (generateString (generateSeed (year date) (month date) (day date)))
       (pushdo_chain (map choice [0..<0x1E]))"

definition pushdo_main :: "(datetime \<times> (nat \<Rightarrow> int)) list \<Rightarrow> (unit \<times> gen_run) result" where
  "pushdo_main is =
     batches (\<lambda>(d, choice) _. rbind (pushdo_dga d choice) (\<lambda>ds. Inr (ds, ()))) (batch True (force_close 10) Break) is ()
       (open_files tiers_1m)"

lemma unhex_ok: "even (length s) \<Longrightarrow> list_all is_hex s \<Longrightarrow> \<exists>bs. unhex s = Inr bs \<and> length bs = length s div 2"
  by (induction s rule: unhex.induct) auto

lemma unhex_hexdigest: "unhex (hexdigest bs) = Inr bs"
proof (induction bs)
  case (Cons b bs)
  have "is_hex (hexdigit (unat (drop_bit 4 b)))" "is_hex (hexdigit (unat (b AND 15)))"
    using hexdigest_hex [of "[b]"] by (simp_all add: hexdigest_def hex_byte_def)
  moreover have "16 * hex_digit_value (hexdigit (unat (drop_bit 4 b))) + hex_digit_value (hexdigit (unat (b AND 15))) = uint b"
    using hex_byte_value [of 0 b] hex_digit_hexdigit [of 0] by simp
  ultimately show ?case using Cons.IH by (simp add: hexdigest_Cons)
qed (simp add: hexdigest_def)

lemma format_08x_hex:
  assumes "n < 16 ^ k" and "8 \<le> k"
  shows "list_all is_hex (format_08x n) \<and> 8 \<le> length (format_08x n) \<and> length (format_08x n) \<le> k"
proof -
  have "list_all is_hex (py_hex n)"
    using digits_less [of 16 "nat n"] by (auto simp: py_hex_def list_all_iff is_hex_hexdigit)
  moreover have "is_hex (CHR ''0'')" by code_simp
  ultimately show ?thesis
    using length_py_hex [OF assms(1)] assms(2) by (auto simp: format_08x_def pad_zeros_def list_all_iff)
qed

lemma generateString_ok:
  assumes "n < 2 ^ 32"
  shows "\<exists>bs. generateString n = Inr bs"
proof -
  have f: "list_all is_hex (format_08x n)" "length (format_08x n) = 8" using format_08x_hex [of n 8] assms by simp_all
  then obtain tmp where tmp: "unhex (format_08x n) = Inr tmp" "length tmp = 4" using unhex_ok [of "format_08x n"] by auto
  have "rmap (py_get tmp) [0, 1, 2, 3] = Inr (map (\<lambda>i. tmp ! nat i) [0, 1, 2, 3])"
    by (rule rmap_Inr) (use tmp(2) in \<open>auto simp: py_get_nth\<close>)
  with tmp(1) show ?thesis by (simp add: generateString_def)
qed

lemma pushdo_next_seed_ok:
  assumes "list_all is_hex h"
  shows "\<exists>bs. pushdo_next_seed h = Inr bs"
proof -
  have "list_all is_hex (take 8 h)" using assms by (auto simp: list_all_iff dest: in_set_takeD)
  then have "hex_value (take 8 h) < 16 ^ length (take 8 h)" using hex_value_range by blast
  also have "\<dots> \<le> (16::int) ^ 8" by (intro power_increasing) simp_all
  finally have "hex_value (take 8 h) < 16 ^ 8" .
  then have f: "list_all is_hex (format_08x (hex_value (take 8 h) + 0x01000000))"
    using format_08x_hex [of "hex_value (take 8 h) + 0x01000000" 9] by simp
  moreover have "is_hex (CHR ''0'')" by code_simp
  ultimately show ?thesis
    using unhex_ok [of "format_08x (hex_value (take 8 h) + 0x01000000)"]
      unhex_ok [of "CHR ''0'' # format_08x (hex_value (take 8 h) + 0x01000000)"]
    by (cases "even (length (format_08x (hex_value (take 8 h) + 0x01000000)))")
      (auto simp: pushdo_next_seed_def Let_def even_iff_mod_2_eq_zero [symmetric])
qed

text \<open>Every byte adds two or three letters, so the name is complete after six of the sixteen bytes.\<close>

lemma pushdo_piece_az: "0 \<le> b \<Longrightarrow> 2 \<le> length (pushdo_piece b) \<and> length (pushdo_piece b) \<le> 3 \<and> list_all is_az (pushdo_piece b)"
proof -
  have t: "list_all is_az ''aiou''" "list_all is_az ''aeiouy''" "list_all is_az ''bcdfghjklmnpqrstvwxz''"
    "list_all is_az ''zxtsrqpnmlkgfdcb''"
    by code_simp+
  have "nat (k mod 3) < length ''aiou''" "nat (k mod 5) < length ''aeiouy''" "nat (k mod 0x13) < length ''bcdfghjklmnpqrstvwxz''"
    "nat (k mod 0xF) < length ''zxtsrqpnmlkgfdcb''" for k :: int
    using pos_mod_bound [of 3 k] pos_mod_bound [of 5 k] pos_mod_bound [of "0x13" k] pos_mod_bound [of "0xF" k]
    by (simp_all add: nat_less_iff)
  then have "is_az (''aiou'' ! nat (k mod 3))" "is_az (''aeiouy'' ! nat (k mod 5))"
    "is_az (''bcdfghjklmnpqrstvwxz'' ! nat (k mod 0x13))" "is_az (''zxtsrqpnmlkgfdcb'' ! nat (k mod 0xF))" for k :: int
    using t unfolding list_all_length by blast+
  then show ?thesis by (simp only: pushdo_piece_def Let_def append.simps list.pred_inject list.size if_split) auto
qed

lemma pushdo_name_shape:
  assumes "list_all is_az buf" and "length buf \<le> 13" and "10 < length buf + 2 * length cs"
  shows "10 < length (pushdo_name cs 10 buf) \<and> length (pushdo_name cs 10 buf) \<le> 13 \<and> list_all is_az (pushdo_name cs 10 buf)"
  using assms
proof (induction cs arbitrary: buf)
  case (Cons c cs)
  show ?case
  proof (cases "10 < length buf")
    case False
    have "2 \<le> length (pushdo_piece (uint c)) \<and> length (pushdo_piece (uint c)) \<le> 3 \<and> list_all is_az (pushdo_piece (uint c))"
      by (rule pushdo_piece_az) simp
    then have "10 < length (pushdo_name cs 10 (buf @ pushdo_piece (uint c))) \<and>
        length (pushdo_name cs 10 (buf @ pushdo_piece (uint c))) \<le> 13 \<and>
        list_all is_az (pushdo_name cs 10 (buf @ pushdo_piece (uint c)))"
      using False Cons.prems by (intro Cons.IH) simp_all
    then show ?thesis using False by simp
  next
    case True
    then show ?thesis using Cons.prems by simp
  qed
qed simp

lemma pushdo_domain_hostname:
  "is_hostname (generateDomain (md5 s) 10 @ pick [''.kz'', ''.com''] r)"
proof -
  have "10 < length (generateDomain (md5 s) 10) \<and> length (generateDomain (md5 s) 10) \<le> 13 \<and>
      list_all is_az (generateDomain (md5 s) 10)"
    unfolding generateDomain_def by (rule pushdo_name_shape) simp_all
  then have "is_label (generateDomain (md5 s) 10)" by (intro is_label_az) auto
  moreover have "list_all dot_suffix [''.kz'', ''.com'']" by code_simp
  ultimately show ?thesis using dot_suffix_hostname pick_all [of dot_suffix "[''.kz'', ''.com'']"] by blast
qed

lemma pushdo_chain_ok: "\<exists>ds. pushdo_chain rs s = Inr ds \<and> length ds = length rs \<and> list_all is_hostname ds"
proof (induction rs arbitrary: s)
  case (Cons r rs)
  obtain s' where s': "pushdo_next_seed (hexdigest (md5 s)) = Inr s'"
    using pushdo_next_seed_ok [OF hexdigest_hex] by blast
  obtain ds where "pushdo_chain rs s' = Inr ds" "length ds = length rs" "list_all is_hostname ds" using Cons.IH by blast
  with s' show ?case by (simp add: Let_def unhex_hexdigest pushdo_domain_hostname)
qed simp

lemma generateSeed_bound:
  assumes "is_datetime d"
  shows "generateSeed (year d) (month d) (day d) < 2 ^ 32"
proof -
  note b = is_datetime_bounds [OF assms]
  have "sum_list (take k month_days) \<le> sum_list (take 12 month_days)" for k
  proof (cases "k < 12")
    case True
    have "list_all (\<lambda>k. sum_list (take k month_days) \<le> sum_list (take 12 month_days)) [0..<12]" by code_simp
    with True show ?thesis by (simp add: list_all_iff del: upt_rec_numeral)
  qed (simp add: month_days_def)
  moreover have "sum_list (take 12 month_days) = 365" by code_simp
  ultimately have "sum_list (take (nat (month d - 1)) month_days) \<le> 365" by metis
  then show ?thesis using generateSeed_no_leap [of "year d" "month d" "day d"] b by simp
qed

lemma pushdo_dga_ok:
  assumes "is_datetime d"
  shows "\<exists>ds. pushdo_dga d choice = Inr ds \<and> length ds = 30 \<and> list_all is_hostname ds"
proof -
  obtain bs where "generateString (generateSeed (year d) (month d) (day d)) = Inr bs"
    using generateString_ok [OF generateSeed_bound [OF assms]] by blast
  then show ?thesis using pushdo_chain_ok [of "map choice [0..<0x1E]" bs] by (simp add: pushdo_dga_def del: upt_rec_numeral)
qed

interpretation pushdo_run: batch_source tiers_1m "\<lambda>(d, choice) (_::unit). rbind (pushdo_dga d choice) (\<lambda>ds. Inr (ds, ()))"
  "batch True (force_close 10) Break" "\<lambda>_. True" "\<lambda>_. True" "\<lambda>i. is_datetime (fst i)" is_hostname
proof unfold_locales
  fix g :: unit and i :: "datetime \<times> (nat \<Rightarrow> int)"
  assume "is_datetime (fst i)"
  from pushdo_dga_ok [OF this, of "snd i"]
  show "\<exists>ds g'. (case i of (d, choice) \<Rightarrow> \<lambda>_. rbind (pushdo_dga d choice) (\<lambda>ds. Inr (ds, ()))) g = Inr (ds, g') \<and>
      list_all is_hostname ds \<and> True"
    by (auto simp: case_prod_beta)
qed (simp_all add: checked_force_body [simplified])

lemma pushdo_main_clean: "list_all (\<lambda>i. is_datetime (fst i)) is \<Longrightarrow> clean_dataset tiers_1m (pushdo_main is)"
  unfolding pushdo_main_def by (rule pushdo_run.batches_clean) simp_all

section \<open>nymaim\<close>

text \<open>
  The tables of \<open>words.json\<close> are a parameter; \<open>getval\<close> returns the value and the next \<open>hashstring\<close>. The
  names of a call are a set, which the main program walks through in an order of Python's own: a
  parameter too.
\<close>

record nymaim_tables =
  firstword :: "string list"
  separators :: "string list"
  secondword :: "string list"
  tld_words :: "string list"

definition md5_hex :: "string \<Rightarrow> string" where
  "md5_hex s = hexdigest (md5 (ascii_encode_bytes s))"

definition nymaim_init :: "string \<Rightarrow> int \<Rightarrow> int \<Rightarrow> string" where
  "nymaim_init s y yday = md5_hex (md5_hex s @ py_str y @ py_str yday)"

definition getval :: "string \<Rightarrow> int \<times> string" where
  "getval hashstring = (hex_value (take 8 hashstring), md5_hex (drop 7 hashstring))"

text \<open>\<open>ss[r.getval() % len(ss)]\<close> for the four tables in turn; an empty table raises ZeroDivisionError.\<close>

fun nymaim_name :: "string list list \<Rightarrow> string \<Rightarrow> (string \<times> string) result" where
  "nymaim_name [] r = Inr ([], r)"
| "nymaim_name (ss # tables) r =
     (if ss = [] then Inl ZeroDivisionError
      else rbind (nymaim_name tables (snd (getval r))) (\<lambda>(rest, r'). Inr (pick ss (fst (getval r)) @ rest, r')))"

fun nymaim_names :: "nat \<Rightarrow> nymaim_tables \<Rightarrow> string \<Rightarrow> string list result" where
  "nymaim_names 0 wt r = Inr []"
| "nymaim_names (Suc n) wt r =
     rbind (nymaim_name [firstword wt, separators wt, secondword wt, tld_words wt] r) (\<lambda>(d, r').
     rbind (nymaim_names n wt r') (\<lambda>ds. Inr (d # ds)))"

text \<open>\<open>date.timetuple().tm_yday - 1\<close>.\<close>

definition nymaim_yday :: "datetime \<Rightarrow> int" where
  "nymaim_yday date = days_before_month (year date) (month date) + day date - 1"

definition nymaim_dga :: "nymaim_tables \<Rightarrow> datetime \<Rightarrow> string \<Rightarrow> string list result" where
  "nymaim_dga wt date s =
     rbind (rmap (\<lambda>dayoffset. nymaim_names 64 wt (nymaim_init s (year date mod 100) (nymaim_yday date - int dayoffset)))
         [0..<10 + 1])
       (\<lambda>dss. Inr (remdups (concat dss)))"

definition nymaim_main :: "nymaim_tables \<Rightarrow> (string list \<Rightarrow> string list) \<Rightarrow> datetime list \<Rightarrow> (unit \<times> gen_run) result" where
  "nymaim_main wt order dates =
     batches (\<lambda>d _. rbind (nymaim_dga wt d ''3138C81ED54AD5F8E905555A6623C9C9'') (\<lambda>ds. Inr (order ds, ())))
       (batch False ignore_collision Continue) dates () (open_files tiers_1m)"

text \<open>What the theorems need of the tables, and what those of the repository satisfy.\<close>

definition nymaim_ok :: "nymaim_tables \<Rightarrow> bool" where
  "nymaim_ok wt \<longleftrightarrow>
     word_list 18 (firstword wt) \<and> word_list 18 (secondword wt) \<and>
     separators wt \<noteq> [] \<and> set (separators wt) \<subseteq> {[], ''-''} \<and> tld_words wt \<noteq> [] \<and> list_all dot_suffix (tld_words wt)"

lemma hyphenated_label:
  assumes "a \<noteq> []" and "list_all is_az a" and "b \<noteq> []" and "list_all is_az b" and "s = [] \<or> s = ''-''"
    and "length a + length b \<le> 62"
  shows "is_label (a @ s @ b)"
proof -
  have az: "is_az c \<Longrightarrow> is_ldh c \<and> c \<noteq> CHR ''-''" for c
    using alnum_not_hyphen [of c] by (simp add: is_ldh_def is_alnum_def)
  have "hd a \<noteq> CHR ''-''" "last b \<noteq> CHR ''-''" using assms(1-4) az hd_in_set last_in_set by (auto simp: list_all_iff)
  moreover have "list_all is_ldh (a @ s @ b)" using assms(2,4,5) az by (auto simp: list_all_iff is_ldh_def)
  ultimately show ?thesis using assms(1,3,5,6) by (auto simp: is_label_def)
qed

lemma nymaim_name_ok:
  assumes "nymaim_ok wt"
  shows "\<exists>d r'. nymaim_name [firstword wt, separators wt, secondword wt, tld_words wt] r = Inr (d, r') \<and> is_hostname d"
proof -
  have ne: "firstword wt \<noteq> []" "separators wt \<noteq> []" "secondword wt \<noteq> []" "tld_words wt \<noteq> []"
    using assms by (simp_all add: nymaim_ok_def word_list_def)
  have word: "pick ws k \<noteq> [] \<and> length (pick ws k) \<le> 18 \<and> list_all is_az (pick ws k)" if "word_list 18 ws" for ws k
    using that pick_all [of "\<lambda>w. w \<noteq> [] \<and> length w \<le> 18 \<and> list_all is_az w" ws] unfolding word_list_def by blast
  have "is_label (pick (firstword wt) i @ pick (separators wt) j @ pick (secondword wt) k)" for i j k
  proof (rule hyphenated_label)
    show "pick (separators wt) j = [] \<or> pick (separators wt) j = ''-''"
      using assms pick_in_set [OF ne(2), of j] by (auto simp: nymaim_ok_def)
  qed (use assms word [of "firstword wt" i] word [of "secondword wt" k] in \<open>auto simp: nymaim_ok_def\<close>)
  moreover have "dot_suffix (pick (tld_words wt) k)" for k using assms ne(4) by (simp add: nymaim_ok_def pick_all)
  ultimately have "is_hostname ((pick (firstword wt) i @ pick (separators wt) j @ pick (secondword wt) k) @ pick (tld_words wt) l)" for i j k l
    by (rule dot_suffix_hostname)
  then show ?thesis using ne by simp
qed

lemma nymaim_names_ok: "nymaim_ok wt \<Longrightarrow> \<exists>ds. nymaim_names n wt r = Inr ds \<and> list_all is_hostname ds"
proof (induction n arbitrary: r)
  case (Suc n)
  obtain d r' where d: "nymaim_name [firstword wt, separators wt, secondword wt, tld_words wt] r = Inr (d, r')" "is_hostname d"
    using nymaim_name_ok [OF Suc.prems] by blast
  obtain ds where "nymaim_names n wt r' = Inr ds" "list_all is_hostname ds" using Suc.IH [OF Suc.prems] by blast
  with d show ?case by (simp del: nymaim_name.simps)
qed simp

lemma rmap_exists: "(\<And>x. x \<in> set xs \<Longrightarrow> \<exists>y. f x = Inr y \<and> Q y) \<Longrightarrow> \<exists>ys. rmap f xs = Inr ys \<and> list_all Q ys"
proof (induction xs)
  case (Cons x xs)
  obtain y where "f x = Inr y" "Q y" using Cons.prems [of x] by auto
  moreover obtain ys where "rmap f xs = Inr ys" "list_all Q ys" using Cons.IH Cons.prems by auto
  ultimately show ?case by simp
qed simp

lemma nymaim_dga_ok: "nymaim_ok wt \<Longrightarrow> \<exists>ds. nymaim_dga wt d s = Inr ds \<and> list_all is_hostname ds"
proof -
  assume ok: "nymaim_ok wt"
  have "\<exists>dss. rmap (\<lambda>dayoffset. nymaim_names 64 wt (nymaim_init s (year d mod 100) (nymaim_yday d - int dayoffset))) [0..<10 + 1] =
      Inr dss \<and> list_all (list_all is_hostname) dss"
    by (rule rmap_exists) (rule nymaim_names_ok [OF ok])
  then show ?thesis by (auto simp: nymaim_dga_def list_all_iff simp del: upt_rec_numeral)
qed

lemma nymaim_source:
  assumes "nymaim_ok wt" and "\<And>ds. set (order ds) \<subseteq> set ds"
  shows "batch_source tiers_1m (\<lambda>d (_::unit). rbind (nymaim_dga wt d s) (\<lambda>ds. Inr (order ds, ())))
    (batch False ignore_collision Continue) t1m.full_when_stopped (\<lambda>_. True) (\<lambda>_. True) is_hostname"
proof unfold_locales
  fix g :: unit and d
  show "\<exists>ds g'. rbind (nymaim_dga wt d s) (\<lambda>ds. Inr (order ds, ())) = Inr (ds, g') \<and> list_all is_hostname ds \<and> True"
    using nymaim_dga_ok [OF assms(1), of d s] assms(2) by (fastforce simp: list_all_iff)
qed (simp_all add: unforced_ignore_body t1m.full_when_stopped_open)

lemma nymaim_main_clean:
  assumes "nymaim_ok wt" and "\<And>ds. set (order ds) \<subseteq> set ds"
  shows "clean_dataset tiers_1m (nymaim_main wt order dates)"
  unfolding nymaim_main_def
  by (rule batch_source.batches_clean [OF nymaim_source [OF assms]]) (simp_all add: list_all_iff)

section \<open>Properties\<close>

text \<open>C32: The box of RC4 is a permutation of the 256 bytes after the key schedule of any key that is not empty,
  and stays one for as long as the cipher runs; the two indices stay bytes.\<close>

theorem rc4_box_permutation:
  assumes "key \<noteq> []"
  shows "\<exists>st. rc4_schedule key = Inr st \<and> (\<forall>n. distinct (box ((rc4_step ^^ n) st)) \<and> rc4_inv ((rc4_step ^^ n) st))"
proof -
  obtain st where st: "rc4_schedule key = Inr st" "rc4_inv st" using rc4_schedule_inv [OF assms] by blast
  have "rc4_inv ((rc4_step ^^ n) st)" for n using st(2) by (induction n) (simp_all add: rc4_step_inv)
  moreover have "distinct (box s)" if "rc4_inv s" for s
    using that by (intro card_distinct) (simp add: rc4_inv_def)
  ultimately show ?thesis using st(1) by blast
qed

theorem rc4_box_permutation_witness:
  "\<exists>st. rc4_schedule ''Key'' = Inr st \<and> (\<forall>n. distinct (box ((rc4_step ^^ n) st)) \<and> rc4_inv ((rc4_step ^^ n) st))"
  by (rule rc4_box_permutation) simp

text \<open>C31: Encrypting twice with the same key gives the text back, whatever the text and the key, and the cipher
  text is as long as the text; only the empty key raises.\<close>

theorem rc4_roundtrip:
  assumes "key \<noteq> []"
  shows "\<exists>t. rc4crypt s key = Inr t \<and> length t = length s \<and> rc4crypt t key = Inr s"
proof -
  obtain st where "rc4_schedule key = Inr st" "rc4_inv st" using rc4_schedule_inv [OF assms] by blast
  then show ?thesis by (simp add: rc4crypt_def rc4_stream_involution)
qed

theorem rc4_roundtrip_witness:
  "\<exists>t. rc4crypt ''Plaintext'' ''Key'' = Inr t \<and> length t = 9 \<and> rc4crypt t ''Key'' = Inr ''Plaintext''"
  using rc4_roundtrip [of "''Key''" "''Plaintext''"] by (simp add: eval_nat_numeral)

end
