(* ===== verification/Gen_Twister.thy ===== *)
theory Gen_Twister
  imports Gen_Md5 Py_Float
begin

text \<open>
  The generator of qakbot: a CRC-32 of the date seeds a Mersenne twister, which the script writes on
  unbounded integers with masks and updates in place. The twister is compared with its recurrence on 32-bit
  words.
\<close>

section \<open>The Mersenne twister\<close>

definition int32 :: "int \<Rightarrow> int" where
  "int32 x = 0xFFFFFFFF AND x"

record mt19937 =
  mt_index :: nat
  mt :: "int list"

definition mt_init_step :: "int list \<Rightarrow> nat \<Rightarrow> int list" where
  "mt_init_step m i = m[i := int32 (1812433253 * (m ! (i - 1) XOR drop_bit 30 (m ! (i - 1))) + int i)]"

definition mt_init :: "int \<Rightarrow> mt19937" where
  "mt_init s = \<lparr>mt_index = 624, mt = foldl mt_init_step ((replicate 624 0)[0 := s]) [1..<624]\<rparr>"

definition twist_step :: "int list \<Rightarrow> nat \<Rightarrow> int list" where
  "twist_step m i =
     (let y = int32 ((m ! i AND 0x80000000) + (m ! ((i + 1) mod 624) AND 0x7fffffff));
          v = m ! ((i + 397) mod 624) XOR drop_bit 1 y
      in m[i := if y mod 2 \<noteq> 0 then v XOR 0x9908b0df else v])"

definition twist :: "mt19937 \<Rightarrow> mt19937" where
  "twist st = \<lparr>mt_index = 0, mt = foldl twist_step (mt st) [0..<624]\<rparr>"

definition temper :: "int \<Rightarrow> int" where
  "temper y =
     (let y1 = y XOR drop_bit 11 y; y2 = y1 XOR (push_bit 7 y1 AND 2636928640); y3 = y2 XOR (push_bit 15 y2 AND 4022730752)
      in y3 XOR drop_bit 18 y3)"

definition extract_number :: "mt19937 \<Rightarrow> int \<times> mt19937" where
  "extract_number st =
     (let st1 = (if 624 \<le> mt_index st then twist st else st)
      in (int32 (temper (mt st1 ! mt_index st1)), st1\<lparr>mt_index := mt_index st1 + 1\<rparr>))"

text \<open>
  \<open>int(lower + float(r) / (2**28) * (upper - lower + 1))\<close> for the small bounds of the script: the numbers
  have few bits and every float operation is exact (lemma \<open>rand_int_exact\<close>), so this is floor division.
\<close>

definition rand_int :: "int \<Rightarrow> int \<Rightarrow> mt19937 \<Rightarrow> int \<times> mt19937" where
  "rand_int lower upper st =
     (let (r, st') = extract_number st in (lower + ((r AND 0xFFFFFFF) * (upper - lower + 1)) div 2 ^ 28, st'))"

section \<open>The recurrence\<close>

definition mt_mix :: "word32 \<Rightarrow> word32 \<Rightarrow> word32" where
  "mt_mix a b =
     (let y = (a AND 0x80000000) + (b AND 0x7fffffff) in drop_bit 1 y XOR (if odd y then 0x9908b0df else 0))"

function mt_x :: "word32 \<Rightarrow> nat \<Rightarrow> word32" where
  "mt_x s k =
     (if k = 0 then s
      else if k < 624 then 1812433253 * (mt_x s (k - 1) XOR drop_bit 30 (mt_x s (k - 1))) + of_nat k
      else mt_x s (k - 227) XOR mt_mix (mt_x s (k - 624)) (mt_x s (k - 623)))"
  by pat_completeness auto
termination by (relation "measure snd") auto

declare mt_x.simps [simp del]

definition mt_temper :: "word32 \<Rightarrow> word32" where
  "mt_temper y =
     (let y1 = y XOR drop_bit 11 y; y2 = y1 XOR (push_bit 7 y1 AND 2636928640); y3 = y2 XOR (push_bit 15 y2 AND 4022730752)
      in y3 XOR drop_bit 18 y3)"

lemma mt_x_init: "0 < k \<Longrightarrow> k < 624 \<Longrightarrow> mt_x s k = 1812433253 * (mt_x s (k - 1) XOR drop_bit 30 (mt_x s (k - 1))) + of_nat k"
  by (simp add: mt_x.simps [of s k])

lemma mt_x_next: "mt_x s (k + 624) = mt_x s (k + 397) XOR mt_mix (mt_x s k) (mt_x s (k + 1))"
  by (subst mt_x.simps) (simp add: add.commute)

text \<open>Integers that stand for words: the masked operations are those of the words.\<close>

lemma int32_uint: "int32 x = uint (word_of_int x :: word32)"
  by (simp add: int32_def uint_word_of_int and.commute [of "0xFFFFFFFF"] and_masks)

lemma uint_drop: "uint (drop_bit n w :: word32) = drop_bit n (uint w)"
  by (rule bit_eqI) (auto simp: bit_simps)

lemma uint_shift_xor: "uint (w XOR drop_bit n w :: word32) = uint w XOR drop_bit n (uint w)"
  by (simp only: unsigned_xor_eq uint_drop)

lemma uint_push_and: "uint (push_bit n w AND c :: word32) = push_bit n (uint w) AND uint c"
  by (rule bit_eqI) (auto simp: bit_simps dest: bit_imp_le_length)

lemma odd_uint: "odd (w :: word32) \<longleftrightarrow> uint w mod 2 \<noteq> 0"
proof -
  have "odd w \<longleftrightarrow> bit (uint w) 0" by (simp only: bit_0 [symmetric] bit_uint_iff) simp
  also have "\<dots> \<longleftrightarrow> odd (uint w)" by (simp only: bit_0)
  also have "\<dots> \<longleftrightarrow> uint w mod 2 \<noteq> 0" by presburger
  finally show ?thesis .
qed

lemma init_value:
  fixes w :: word32
  shows "int32 (1812433253 * (uint w XOR drop_bit 30 (uint w)) + int i) = uint (1812433253 * (w XOR drop_bit 30 w) + of_nat i)"
proof -
  have "word_of_int (uint w XOR drop_bit 30 (uint w)) = w XOR drop_bit 30 w"
    using uint_shift_xor [of w 30] by (metis word_of_int_uint)
  then show ?thesis by (simp add: int32_uint)
qed

lemma twist_value:
  fixes a b c :: word32
  defines "y \<equiv> int32 ((uint a AND 0x80000000) + (uint b AND 0x7fffffff))"
  shows "(if y mod 2 \<noteq> 0 then (uint c XOR drop_bit 1 y) XOR 0x9908b0df else uint c XOR drop_bit 1 y) =
    uint (c XOR mt_mix a b)"
proof -
  define w where "w = (a AND 0x80000000) + (b AND 0x7fffffff)"
  have c: "uint (0x80000000 :: word32) = 0x80000000" "uint (0x7fffffff :: word32) = 0x7fffffff" by simp_all
  have "uint a AND 0x80000000 = uint (a AND 0x80000000)" "uint b AND 0x7fffffff = uint (b AND 0x7fffffff)"
    by (simp_all only: unsigned_and_eq c)
  then have "word_of_int ((uint a AND 0x80000000) + (uint b AND 0x7fffffff)) = w"
    by (simp only: w_def wi_hom_add [symmetric] word_of_int_uint)
  then have y: "y = uint w" by (simp only: y_def int32_uint)
  have k: "uint (0x9908b0df :: word32) = 0x9908b0df" by simp
  show ?thesis
  proof (cases "odd w")
    case True
    then show ?thesis
      unfolding mt_mix_def Let_def w_def [symmetric] y unsigned_xor_eq uint_drop xor.assoc
      by (simp only: odd_uint if_True not_False_eq_True refl simp_thms k)
  next
    case False
    then show ?thesis
      unfolding mt_mix_def Let_def w_def [symmetric] y unsigned_xor_eq uint_drop xor.assoc
      by (simp only: odd_uint if_False simp_thms unsigned_0 xor.right_neutral)
  qed
qed

lemma temper_value: "temper (uint w) = uint (mt_temper w)"
proof -
  have c: "uint (2636928640 :: word32) = 2636928640" "uint (4022730752 :: word32) = 4022730752" by simp_all
  have "uint (v XOR (push_bit n v AND k)) = uint v XOR (push_bit n (uint v) AND uint k)" for v k :: word32 and n
    by (simp only: unsigned_xor_eq uint_push_and)
  then show ?thesis by (simp only: temper_def mt_temper_def Let_def uint_shift_xor c)
qed

text \<open>The in-place updates: what the list holds after \<open>i\<close> turns of each loop.\<close>

lemma mt_init_fold:
  assumes "n \<le> 623"
  shows "length (foldl mt_init_step ((replicate 624 0)[0 := uint s]) [1..<Suc n]) = 624 \<and>
    (\<forall>j \<le> n. foldl mt_init_step ((replicate 624 0)[0 := uint s]) [1..<Suc n] ! j = uint (mt_x s j))"
  using assms
proof (induction n)
  case 0
  then show ?case by (simp add: mt_x.simps [of s 0])
next
  case (Suc n)
  define m where "m = foldl mt_init_step ((replicate 624 0)[0 := uint s]) [1..<Suc n]"
  have m: "length m = 624" "\<forall>j \<le> n. m ! j = uint (mt_x s j)" using Suc by (simp_all add: m_def)
  have "foldl mt_init_step ((replicate 624 0)[0 := uint s]) [1..<Suc (Suc n)] = mt_init_step m (Suc n)"
    by (simp add: m_def)
  moreover have "mt_init_step m (Suc n) = m[Suc n := uint (mt_x s (Suc n))]"
    using m(2) Suc.prems mt_x_init [of "Suc n" s] by (simp add: mt_init_step_def init_value del: of_nat_Suc)
  ultimately show ?case using m Suc.prems by (auto simp: nth_list_update le_Suc_eq)
qed

definition mt_holds :: "word32 \<Rightarrow> nat \<Rightarrow> int list \<Rightarrow> bool" where
  "mt_holds s b m \<longleftrightarrow> length m = 624 \<and> (\<forall>j < 624. m ! j = uint (mt_x s (b + j)))"

lemma mt_init_holds: "mt_holds s 0 (mt (mt_init (uint s)))"
  using mt_init_fold [of 623 s] by (auto simp: mt_holds_def mt_init_def)

lemma twist_fold:
  assumes "mt_holds s b m" and "i \<le> 624"
  shows "length (foldl twist_step m [0..<i]) = 624 \<and>
    (\<forall>j < 624. foldl twist_step m [0..<i] ! j = uint (mt_x s (if j < i then b + 624 + j else b + j)))"
  using assms(2)
proof (induction i)
  case 0
  then show ?case using assms(1) by (simp add: mt_holds_def)
next
  case (Suc i)
  define l where "l = foldl twist_step m [0..<i]"
  have l: "length l = 624" "\<And>j. j < 624 \<Longrightarrow> l ! j = uint (mt_x s (if j < i then b + 624 + j else b + j))"
    using Suc by (simp_all add: l_def)
  have a: "l ! i = uint (mt_x s (b + i))" using l(2) [of i] Suc.prems by simp
  have n: "l ! ((i + 1) mod 624) = uint (mt_x s (b + i + 1))"
    using l(2) [of "(i + 1) mod 624"] Suc.prems by (cases "i = 623") (simp_all add: ac_simps)
  have f: "l ! ((i + 397) mod 624) = uint (mt_x s (b + i + 397))"
  proof (cases "i + 397 < 624")
    case True
    then show ?thesis using l(2) [of "i + 397"] by (simp add: ac_simps)
  next
    case False
    then have "(i + 397) mod 624 = i - 227" using Suc.prems by (simp add: mod_if)
    then show ?thesis using l(2) [of "i - 227"] False Suc.prems by (simp add: ac_simps)
  qed
  have "twist_step l i = l[i := uint (mt_x s (b + i + 397) XOR mt_mix (mt_x s (b + i)) (mt_x s (b + i + 1)))]"
    unfolding twist_step_def Let_def a n f twist_value ..
  also have "mt_x s (b + i + 397) XOR mt_mix (mt_x s (b + i)) (mt_x s (b + i + 1)) = mt_x s (b + 624 + i)"
    using mt_x_next [of s "b + i"] by (simp add: ac_simps)
  finally show ?case using l Suc.prems by (auto simp: l_def [symmetric] nth_list_update less_Suc_eq)
qed

lemma twist_holds: "mt_holds s b m \<Longrightarrow> mt_holds s (b + 624) (foldl twist_step m [0..<624])"
  using twist_fold [of s b m 624] by (auto simp: mt_holds_def)

text \<open>The state after any number of calls, and what a call returns.\<close>

definition mt_at :: "word32 \<Rightarrow> nat \<Rightarrow> mt19937 \<Rightarrow> bool" where
  "mt_at s k st \<longleftrightarrow> mt_index st \<le> 624 \<and> (\<exists>b. mt_holds s b (mt st) \<and> b + mt_index st = k)"

lemma mt_at_init: "mt_at s 624 (mt_init (uint s))"
  using mt_init_holds [of s] by (auto simp: mt_at_def mt_init_def)

lemma extract_number_at:
  assumes "mt_at s k st"
  shows "fst (extract_number st) = uint (mt_temper (mt_x s k)) \<and> mt_at s (Suc k) (snd (extract_number st))"
proof -
  obtain b where b: "mt_holds s b (mt st)" "b + mt_index st = k" "mt_index st \<le> 624" using assms by (auto simp: mt_at_def)
  define st1 where "st1 = (if 624 \<le> mt_index st then twist st else st)"
  define c where "c = (if 624 \<le> mt_index st then b + 624 else b)"
  have h: "mt_holds s c (mt st1)" "c + mt_index st1 = k" "mt_index st1 < 624"
    using b twist_holds [OF b(1)] by (auto simp: st1_def c_def twist_def)
  then have "mt st1 ! mt_index st1 = uint (mt_x s k)" by (auto simp: mt_holds_def)
  then have "fst (extract_number st) = int32 (uint (mt_temper (mt_x s k)))"
    by (simp add: extract_number_def Let_def st1_def [symmetric] temper_value)
  moreover have "snd (extract_number st) = st1\<lparr>mt_index := mt_index st1 + 1\<rparr>"
    by (simp add: extract_number_def Let_def st1_def)
  ultimately show ?thesis using h by (auto simp: int32_uint mt_at_def)
qed

lemma extract_iterate:
  assumes "mt_at s k st"
  shows "mt_at s (k + n) (((snd \<circ> extract_number) ^^ n) st)"
  using assms by (induction n) (simp_all add: extract_number_at)

text \<open>The float computation of \<open>rand_int\<close> is exact for bounds like those of the script.\<close>

lemma fl_scaled:
  assumes "\<bar>m\<bar> \<le> 2 ^ 53"
  shows "fl (of_int m / 2 ^ 28) = of_int m / 2 ^ 28"
  unfolding fl_def
proof (rule fround_fix [of _ m "- 28"])
  have "(2 :: real) powi (- 28) = inverse (2 ^ 28)" by (simp only: power_int_minus power_int_numeral)
  then show "real_of_int m / 2 ^ 28 = of_int m * 2 powi (- 28)" by (simp only: divide_inverse)
  show "\<bar>m\<bar> \<le> 2 ^ nat 53" using assms by (simp only: nat_numeral)
  show "- 1074 \<le> (- 28 :: int)" "0 < (53 :: int)" by simp_all
qed

lemma rand_int_exact:
  assumes "0 \<le> r" and "r < 2 ^ 28" and "0 \<le> lower" and "lower < 2 ^ 10" and "0 \<le> k" and "k < 2 ^ 10"
  shows "\<lfloor>fl (of_int lower + fl (fl (of_int r / 2 ^ 28) * of_int k))\<rfloor> = lower + r * k div 2 ^ 28"
proof -
  have p: "0 \<le> r * k" "r * k \<le> 2 ^ 28 * 2 ^ 10"
    using assms mult_mono [of r "2 ^ 28" k "2 ^ 10"] by simp_all
  have "fl (of_int r / 2 ^ 28) = of_int r / 2 ^ 28" using assms(1,2) by (intro fl_scaled) simp
  then have a: "fl (of_int r / 2 ^ 28) * of_int k = of_int (r * k) / 2 ^ 28"
    by (simp only: of_int_mult times_divide_eq_left)
  have b: "fl (of_int (r * k) / 2 ^ 28) = of_int (r * k) / 2 ^ 28" using p by (intro fl_scaled) simp
  have "of_int lower + of_int (r * k) / 2 ^ 28 = (of_int (lower * 2 ^ 28 + r * k) / 2 ^ 28 :: real)"
    by (simp add: add_divide_distrib)
  moreover have "fl (of_int (lower * 2 ^ 28 + r * k) / 2 ^ 28) = of_int (lower * 2 ^ 28 + r * k) / 2 ^ 28"
    using p assms(3,4) by (intro fl_scaled) simp
  ultimately have "fl (of_int lower + fl (fl (of_int r / 2 ^ 28) * of_int k)) = of_int (lower * 2 ^ 28 + r * k) / 2 ^ 28"
    by (simp only: a b)
  moreover have "\<lfloor>of_int (lower * 2 ^ 28 + r * k) / 2 ^ 28 :: real\<rfloor> = (lower * 2 ^ 28 + r * k) div 2 ^ 28"
    using floor_divide_of_int_eq [of "lower * 2 ^ 28 + r * k" "2 ^ 28", where ?'a = real] by (simp only: of_int_power of_int_numeral)
  moreover have "(lower * 2 ^ 28 + r * k) div 2 ^ 28 = lower + r * k div 2 ^ 28" by simp
  ultimately show ?thesis by (simp only:)
qed

section \<open>qakbot\<close>

text \<open>\<open>binascii.crc32\<close>, made unsigned by \<open>c_uint\<close>: the reflected polynomial, bit by bit.\<close>

definition crc_shift :: "int \<Rightarrow> int" where
  "crc_shift c = (if c mod 2 = 1 then 0xEDB88320 XOR (c div 2) else c div 2)"

definition crc_byte :: "int \<Rightarrow> char \<Rightarrow> int" where
  "crc_byte c ch = foldl (\<lambda>c _. crc_shift c) (c XOR ord ch) [0..<8]"

definition crc32 :: "string \<Rightarrow> int" where
  "crc32 s = 0xFFFFFFFF XOR foldl crc_byte 0xFFFFFFFF s"

lemma crc32_check: "crc32 ''123456789'' = 0xCBF43926"
  by code_simp

definition month_names :: "string list" where
  "month_names = [''jan'', ''feb'', ''mar'', ''apr'', ''may'', ''jun'', ''jul'', ''aug'', ''sep'', ''oct'', ''nov'', ''dec'']"

text \<open>\<open>strftime\<close> raises before 1900.\<close>

definition date_to_seed :: "datetime \<Rightarrow> int \<Rightarrow> int result" where
  "date_to_seed d s =
     (let dx = (day d - 1) div 10
      in if year d < 1900 then Inl ValueError
         else Inr (crc32 (py_str (if dx \<le> 2 then dx else 2) @ ''.'' @ month_names ! nat (month d - 1) @ ''.'' @
           py_str (year d) @ ''.'' @ format_08x s)))"

definition qakbot_tlds :: "string list" where
  "qakbot_tlds = [''com'', ''net'', ''org'', ''info'', ''biz'', ''org'']"

definition qakbot_dga :: "mt19937 \<Rightarrow> string" where
  "qakbot_dga st =
     (let (tld_nr, st1) = rand_int 0 (int (length qakbot_tlds) - 1) st; (n, st2) = rand_int 8 25 st1
      in fst (repeat_chars (nat n) (\<lambda>st. let (v, st') = rand_int 0 25 st in (chr (v + ord (CHR ''a'')), st')) st2) @ ''.'' @
        qakbot_tlds ! nat tld_nr)"

definition qakbot_gen :: "datetime \<times> int \<times> bool \<Rightarrow> string result" where
  "qakbot_gen i =
     (case i of (d, version, sandbox) \<Rightarrow>
        rbind (date_to_seed d version) (\<lambda>s. Inr (qakbot_dga (mt_init (s + (if sandbox then 1 else 0))))))"

definition qakbot_main :: "(datetime \<times> int \<times> bool) list \<Rightarrow> (unit \<times> gen_run) result" where
  "qakbot_main is =
     singles (\<lambda>i _. rbind (qakbot_gen i) (\<lambda>n. Inr (n, ()))) (on_collision (force_close 10)) is () (open_files tiers_100k)"

lemma rand_int_range: "lower \<le> upper \<Longrightarrow> lower \<le> fst (rand_int lower upper st) \<and> fst (rand_int lower upper st) \<le> upper"
proof -
  assume "lower \<le> upper"
  define r where "r = fst (extract_number st) AND 0xFFFFFFF"
  have r: "0 \<le> r" "r < 2 ^ 28"
    using and_mask_mod [of "fst (extract_number st)" 28] by (simp_all add: r_def)
  then have "r * (upper - lower + 1) < 2 ^ 28 * (upper - lower + 1)" using \<open>lower \<le> upper\<close> by (intro mult_strict_right_mono) auto
  then have "r * (upper - lower + 1) div 2 ^ 28 < upper - lower + 1" by (simp add: div_less_iff_less_mult mult.commute)
  moreover have "0 \<le> r * (upper - lower + 1) div 2 ^ 28" using r \<open>lower \<le> upper\<close> by (simp add: div_int_pos_iff)
  ultimately show ?thesis by (simp add: rand_int_def case_prod_beta r_def)
qed

lemma qakbot_dga_hostname: "is_hostname (qakbot_dga st)"
proof -
  define tld_nr st1 where "tld_nr = fst (rand_int 0 (int (length qakbot_tlds) - 1) st)"
    and "st1 = snd (rand_int 0 (int (length qakbot_tlds) - 1) st)"
  define n st2 where "n = fst (rand_int 8 25 st1)" and "st2 = snd (rand_int 8 25 st1)"
  define f where "f = (\<lambda>st. let (v, st') = rand_int 0 25 st in (chr (v + ord (CHR ''a'')), st'))"
  have l: "length qakbot_tlds = 6" by (simp add: qakbot_tlds_def)
  have "nat tld_nr < length qakbot_tlds" using rand_int_range [of 0 5 st] by (simp add: tld_nr_def l nat_less_iff)
  moreover have "list_all is_suffix qakbot_tlds" by code_simp
  ultimately have "is_suffix (qakbot_tlds ! nat tld_nr)" by (simp add: list_all_length)
  moreover have "is_az (fst (f st))" for st
    using rand_int_range [of 0 25 st] by (simp add: f_def case_prod_beta ord_a is_az_chr)
  moreover have "8 \<le> n" "n \<le> 25" using rand_int_range [of 8 25 st1] by (simp_all add: n_def)
  ultimately have "is_hostname (fst (repeat_chars (nat n) f st2) @ CHR ''.'' # qakbot_tlds ! nat tld_nr)"
    by (intro repeat_chars_hostname) simp_all
  then show ?thesis
    by (simp add: qakbot_dga_def case_prod_beta Let_def tld_nr_def st1_def n_def st2_def f_def)
qed

definition qakbot_input :: "datetime \<times> int \<times> bool \<Rightarrow> bool" where
  "qakbot_input i \<longleftrightarrow> 1900 \<le> year (fst i)"

interpretation qakbot_run: single_source tiers_100k "\<lambda>i (_::unit). rbind (qakbot_gen i) (\<lambda>n. Inr (n, ()))"
  "on_collision (force_close 10)" "\<lambda>_. True" qakbot_input is_hostname
  by unfold_locales
    (auto simp: qakbot_gen_def qakbot_input_def date_to_seed_def Let_def qakbot_dga_hostname on_collision_def run_inv_force)

lemma qakbot_main_clean: "list_all qakbot_input is \<Longrightarrow> clean_dataset tiers_100k (qakbot_main is)"
  unfolding qakbot_main_def by (rule qakbot_run.singles_clean) simp_all

section \<open>Properties\<close>

text \<open>C23: The twister of qakbot, on unbounded integers and updated in place, block by block, yields for every
  seed of 32 bits the outputs of the Mersenne twister MT19937 as its recurrence on 32-bit words defines
  them: its \<open>n\<close>-th call returns the tempered element \<open>624 + n\<close>.\<close>

theorem twister_is_mt19937:
  assumes "0 \<le> s" and "s < 2 ^ 32"
  shows "fst (extract_number (((snd \<circ> extract_number) ^^ n) (mt_init s))) = uint (mt_temper (mt_x (word_of_int s) (624 + n)))"
proof -
  have "uint (word_of_int s :: word32) = s" using assms by (simp add: uint_word_of_int)
  then show ?thesis
    using extract_number_at [OF extract_iterate [OF mt_at_init [of "word_of_int s"], of n]] by simp
qed

theorem twister_is_mt19937_witness:
  "fst (extract_number (((snd \<circ> extract_number) ^^ 1000) (mt_init 5489))) = uint (mt_temper (mt_x 5489 1624))"
  using twister_is_mt19937 [of 5489 1000] by simp

end
