(* ===== verification/Gen_Tables.thy ===== *)
theory Gen_Tables
  imports Gen_Md5
begin

text \<open>
  The generators with a table of their own: pykspa, whose seeds come from a file, and tinba, whose
  table of configurations is changed by every call. tinba looks for each letter in a loop \<open>while True\<close>,
  which carries fuel here.
\<close>

section \<open>pykspa\<close>

fun sld_loop :: "nat \<Rightarrow> int \<Rightarrow> int \<Rightarrow> int \<Rightarrow> int \<Rightarrow> string" where
  "sld_loop 0 i n a s = []"
| "sld_loop (Suc k) i n a s =
     (let index = (a + ((s * ((s mod 5) + (s mod 123456) + i * ((s AND 1) + (s mod 4567)))) AND 0xFFFFFFFF)) mod 26;
          a' = (a + n) AND 0xFFFFFFFFF;
          s' = s + (((7837632 * s * n) AND 0xFFFFFFFF) + 82344) mod (541 * n + 4)
      in chr (ord (CHR ''a'') + index) # sld_loop k (i + 1) n a' s')"

definition get_sld :: "int \<Rightarrow> int \<Rightarrow> string" where
  "get_sld n s = sld_loop (nat n) 0 n (n * n) s"

definition pykspa_tlds :: "string list" where
  "pykspa_tlds = [''com'', ''net'', ''org'', ''info'', ''cc'']"

definition pykspa_domain :: "int \<Rightarrow> nat \<Rightarrow> string" where
  "pykspa_domain s dga_nr = get_sld ((s + int dga_nr) mod 7 + 6) s @ ''.'' @ pykspa_tlds ! nat (s AND 3)"

fun pykspa_names :: "nat \<Rightarrow> nat \<Rightarrow> int \<Rightarrow> string list" where
  "pykspa_names 0 dga_nr s = []"
| "pykspa_names (Suc k) dga_nr s =
     (let s' = s + (s mod (int dga_nr + 1) + 1) in pykspa_domain s' dga_nr # pykspa_names k (Suc dga_nr) s')"

text \<open>\<open>dt\<close> is the Unix time \<open>time.mktime\<close> gives for the date; \<open>seeds\<close> the file of the set, which maps day numbers to seeds in hexadecimal.\<close>

definition pykspa_generate_domains :: "(string \<Rightarrow> string option) \<Rightarrow> int \<Rightarrow> nat \<Rightarrow> nat \<Rightarrow> string list" where
  "pykspa_generate_domains seeds dt nr set_nr =
     (let days = (if set_nr = 1 then 20 else 1); index = dt div (days * 3600 * 24)
      in (case seeds (py_str index) of None \<Rightarrow> []
          | Some s \<Rightarrow> remdups (pykspa_names nr 0 (hex_value s))))"

text \<open>\<open>order\<close> is the order in which Python walks through a set.\<close>

definition genNoise :: "(string \<Rightarrow> string option) \<Rightarrow> (string list \<Rightarrow> string list) \<Rightarrow> int list \<Rightarrow> (unit \<times> gen_run) result" where
  "genNoise seeds order dts =
     batches (\<lambda>dt _. Inr (order (pykspa_generate_domains seeds dt 100 2), ())) (batch False ignore_collision Break) dts ()
       (open_files tiers_100k)"

definition genUseful :: "(string \<Rightarrow> string option) \<Rightarrow> (string list \<Rightarrow> string list) \<Rightarrow> int list \<Rightarrow> (unit \<times> gen_run) result" where
  "genUseful seeds order dts =
     batches (\<lambda>dt _. Inr (order (pykspa_generate_domains seeds dt 100 1), ())) (batch False ignore_collision Break) dts ()
       (open_files tiers_10k)"

lemma sld_loop_az: "list_all is_az (sld_loop k i n a s)"
  by (induction k arbitrary: i a s) (simp_all add: Let_def ord_a is_az_chr_mod)

lemma length_sld_loop [simp]: "length (sld_loop k i n a s) = k"
  by (induction k arbitrary: i a s) (simp_all add: Let_def)

lemma pykspa_domain_hostname: "is_hostname (pykspa_domain s dga_nr)"
proof -
  define n where "n = (s + int dga_nr) mod 7 + 6"
  have n: "6 \<le> n" "n \<le> 12" using pos_mod_bound [of 7 "s + int dga_nr"] by (simp_all add: n_def)
  have len: "length (get_sld n s) = nat n" by (simp add: get_sld_def)
  with n have "is_label (get_sld n s)"
    by (intro is_label_length [of _ "nat n"]) (auto simp: get_sld_def list_all_iff is_alnum_az sld_loop_az [unfolded list_all_iff])
  moreover have "nat (s AND 3) < length pykspa_tlds" by (simp add: and_masks nat_less_iff pykspa_tlds_def less_trans [OF pos_mod_bound])
  moreover have "list_all is_suffix pykspa_tlds" by code_simp
  ultimately show ?thesis
    using is_hostname_label_suffix by (simp add: pykspa_domain_def n_def [symmetric] list_all_length)
qed

lemma pykspa_names_hostnames: "list_all is_hostname (pykspa_names k dga_nr s)"
  by (induction k arbitrary: dga_nr s) (simp_all add: Let_def pykspa_domain_hostname)

lemma length_pykspa_names [simp]: "length (pykspa_names k dga_nr s) = k"
  by (induction k arbitrary: dga_nr s) (simp_all add: Let_def)

lemma pykspa_generate_domains_hostnames: "list_all is_hostname (pykspa_generate_domains seeds dt nr k)"
  using pykspa_names_hostnames [of nr 0] by (auto simp: pykspa_generate_domains_def Let_def list_all_iff split: option.splits)

declare pykspa_names.simps [simp del]

text \<open>The top-level domain \<open>cc\<close> is never chosen: two bits of the seed select one of five.\<close>

lemma pykspa_never_cc: "\<exists>l. pykspa_domain s dga_nr = l @ ''.com'' \<or> pykspa_domain s dga_nr = l @ ''.net'' \<or>
    pykspa_domain s dga_nr = l @ ''.org'' \<or> pykspa_domain s dga_nr = l @ ''.info''"
proof -
  have "nat (s AND 3) < 4" by (simp add: and_masks nat_less_iff)
  then have "pykspa_tlds ! nat (s AND 3) \<in> {''com'', ''net'', ''org'', ''info''}"
    by (auto simp: pykspa_tlds_def less_Suc_eq numeral_eq_Suc)
  then show ?thesis by (auto simp: pykspa_domain_def)
qed

definition pykspa_range :: "(string \<Rightarrow> string option) \<Rightarrow> string set" where
  "pykspa_range seeds = (\<Union>i \<in> dom seeds. set (pykspa_names 100 0 (hex_value (the (seeds i)))))"

lemma pykspa_range_card:
  assumes "finite (dom seeds)"
  shows "finite (pykspa_range seeds)" "card (pykspa_range seeds) \<le> 100 * card (dom seeds)"
proof -
  show "finite (pykspa_range seeds)" using assms by (simp add: pykspa_range_def)
  have "card (set (pykspa_names 100 0 s)) \<le> 100" for s using card_length [of "pykspa_names 100 0 s"] by simp
  then have "(\<Sum>i \<in> dom seeds. card (set (pykspa_names 100 0 (hex_value (the (seeds i)))))) \<le> 100 * card (dom seeds)"
    using sum_bounded_above [of "dom seeds" "\<lambda>i. card (set (pykspa_names 100 0 (hex_value (the (seeds i)))))" 100]
    by (simp add: mult.commute)
  then show "card (pykspa_range seeds) \<le> 100 * card (dom seeds)"
    unfolding pykspa_range_def using card_UN_le [OF assms] le_trans by blast
qed

lemma pykspa_generate_domains_range: "set (pykspa_generate_domains seeds dt 100 k) \<subseteq> pykspa_range seeds"
proof -
  have "set (pykspa_names 100 0 (hex_value x)) \<subseteq> pykspa_range seeds" if "seeds i = Some x" for i x
    using that unfolding pykspa_range_def by (intro subsetI UN_I [of i]) auto
  note sub = this
  define index where "index = dt div ((if k = 1 then 20 else 1) * 3600 * 24)"
  have "pykspa_generate_domains seeds dt 100 k =
      (case seeds (py_str index) of None \<Rightarrow> [] | Some s \<Rightarrow> remdups (pykspa_names 100 0 (hex_value s)))"
    by (simp only: pykspa_generate_domains_def Let_def index_def)
  then show ?thesis using sub [of "py_str index"] by (cases "seeds (py_str index)") simp_all
qed

lemma pykspa_range_hostname: "d \<in> pykspa_range seeds \<Longrightarrow> is_hostname d"
  using pykspa_names_hostnames [of 100 0] by (auto simp: pykspa_range_def list_all_iff)

text \<open>Both main programs, for tiers of any kind.\<close>

lemma pykspa_source:
  assumes "tiered tiers" and "\<And>ds. set (order ds) \<subseteq> set ds"
  shows "batch_source tiers (\<lambda>dt (_::unit). Inr (order (pykspa_generate_domains seeds dt 100 k), ()))
    (batch False ignore_collision Break) (tiered.full_when_stopped tiers) (\<lambda>_. True) (\<lambda>_. True)
    (\<lambda>d. d \<in> pykspa_range seeds)"
proof (intro batch_source.intro batch_source_axioms.intro)
  show "tiered tiers" by (rule assms(1))
  show "\<exists>ds g'. Inr (order (pykspa_generate_domains seeds dt 100 k), ()) = Inr (ds, g') \<and>
      list_all (\<lambda>d. d \<in> pykspa_range seeds) ds \<and> True" for dt
    using assms(2) [of "pykspa_generate_domains seeds dt 100 k"] pykspa_generate_domains_range [of seeds dt k]
    by (auto simp: list_all_iff)
  show "\<exists>s'. batch False ignore_collision Break ds s = Inr s' \<and> run_inv tiers s' \<and> tiered.full_when_stopped tiers s' \<and>
      set (data s') \<subseteq> set (data s) \<union> set ds" if "run_inv tiers s" "tiered.full_when_stopped tiers s" for s ds
    using that by (intro tiered.batch_unforced [OF assms(1)]) (simp_all add: run_inv_collisions)
qed (rule tiered.full_when_stopped_open [OF assms(1)])

lemma pykspa_run:
  assumes "tiered tiers" and "\<And>ds. set (order ds) \<subseteq> set ds" and "finite (dom seeds)"
  shows "\<exists>s. batches (\<lambda>dt (_::unit). Inr (order (pykspa_generate_domains seeds dt 100 k), ()))
      (batch False ignore_collision Break) dts () (open_files tiers) = Inr ((), s) \<and>
    run_inv tiers s \<and> list_all is_hostname (data s) \<and> length (data s) \<le> 100 * card (dom seeds)"
proof -
  obtain s where s: "batches (\<lambda>dt (_::unit). Inr (order (pykspa_generate_domains seeds dt 100 k), ()))
      (batch False ignore_collision Break) dts () (open_files tiers) = Inr ((), s)"
    "run_inv tiers s" "list_all (\<lambda>d. d \<in> pykspa_range seeds) (data s)"
    using batch_source.batches_run [OF pykspa_source [OF assms(1,2)] TrueI _ open_files_inv
        tiered.full_when_stopped_open [OF assms(1)], of dts seeds k]
    by (auto simp: list_all_iff open_files_def)
  then have "length (data s) \<le> 100 * card (dom seeds)"
    using distinct_in_finite [OF _ s(3) pykspa_range_card(1) [OF assms(3)]] pykspa_range_card(2) [OF assms(3)]
    by (auto simp: run_inv_def)
  with s show ?thesis by (auto simp: list_all_iff pykspa_range_hostname)
qed

text \<open>Both main programs are runs over the tiers of their sets.\<close>

lemma genNoise_run:
  assumes "\<And>ds. set (order ds) \<subseteq> set ds" and "finite (dom seeds)"
  shows "\<exists>s. genNoise seeds order dts = Inr ((), s) \<and> run_inv tiers_100k s \<and> list_all is_hostname (data s) \<and>
    length (data s) \<le> 100 * card (dom seeds)"
  unfolding genNoise_def by (rule pykspa_run [OF t100k.tiered_axioms assms])

lemma genUseful_run:
  assumes "\<And>ds. set (order ds) \<subseteq> set ds" and "finite (dom seeds)"
  shows "\<exists>s. genUseful seeds order dts = Inr ((), s) \<and> run_inv tiers_10k s \<and> list_all is_hostname (data s) \<and>
    length (data s) \<le> 100 * card (dom seeds)"
  unfolding genUseful_def by (rule pykspa_run [OF t10k.tiered_axioms assms])

section \<open>tinba\<close>

record tinba_config =
  seed_text :: string
  domain :: string
  tinba_tlds :: "string list"

definition dga_configurations :: "tinba_config list" where
  "dga_configurations =
     [\<lparr>seed_text = ''oGkS3w3sGGOGG7oc'', domain = ''ssrgwnrmgrxe.com'', tinba_tlds = [''com'']\<rparr>,
      \<lparr>seed_text = ''jc74FlUna852Ji9o'', domain = ''blackfreeqazyio.cc'', tinba_tlds = [''com'', ''net'', ''in'', ''ru'']\<rparr>,
      \<lparr>seed_text = ''yqokqFC2TPBFfJcG'', domain = ''watchthisnow.xyz'', tinba_tlds = [''pw'', ''us'', ''xyz'', ''club'']\<rparr>,
      \<lparr>seed_text = ''j193HsnW72Yqns7u'', domain = ''j193hsne720uie8i.cc'', tinba_tlds = [''com'', ''net'', ''biz'', ''org'']\<rparr>]"

definition tinba_mix :: "int \<Rightarrow> int \<Rightarrow> int \<Rightarrow> int \<Rightarrow> int" where
  "tinba_mix tmp seed_sum a b = (((tmp + a) XOR (seed_sum AND 0xFF)) + b) AND 0xFF"

text \<open>\<open>while True\<close> of one letter; \<open>seed_sum\<close> is the field of the configuration.\<close>

fun tinba_letter :: "nat \<Rightarrow> int \<Rightarrow> int \<Rightarrow> int \<Rightarrow> int \<Rightarrow> (int \<times> int) result" where
  "tinba_letter 0 a b tmp seed_sum = Inl NoReturn"
| "tinba_letter (Suc fuel) a b tmp seed_sum =
     (let tmp' = tinba_mix tmp seed_sum a b
      in if 0x61 < tmp' \<and> tmp' < 0x7a then Inr (tmp', seed_sum) else tinba_letter fuel a b tmp' (seed_sum + 1))"

fun tinba_letters :: "nat \<Rightarrow> string \<Rightarrow> int list \<Rightarrow> int \<Rightarrow> int \<Rightarrow> string result" where
  "tinba_letters fuel old [] tmp seed_sum = Inr []"
| "tinba_letters fuel old (i # is) tmp seed_sum =
     rbind (py_get old i) (\<lambda>a. rbind (py_get old (i + 1)) (\<lambda>b.
     rbind (tinba_letter fuel (ord a) (ord b) tmp seed_sum) (\<lambda>(tmp', seed_sum').
     rbind (tinba_letters fuel old is tmp' seed_sum') (\<lambda>cs. Inr (chr tmp' # cs)))))"

definition tinba_pad :: "tinba_config \<Rightarrow> tinba_config" where
  "tinba_pad c = c\<lparr>seed_text := seed_text c @ replicate (17 - length (seed_text c)) (chr 0)\<rparr>"

definition tinba_dga :: "nat \<Rightarrow> tinba_config \<Rightarrow> int \<Rightarrow> (string \<times> tinba_config) result" where
  "tinba_dga fuel c k =
     rbind (py_get (seed_text c) 15) (\<lambda>s15.
     rbind (tinba_letters fuel (domain c) [0..11] (ord s15 AND 0xFF) (sum_list (map ord (take 16 (seed_text c))))) (\<lambda>base_domain.
       let d = base_domain @ ''.'' @ pick (tinba_tlds c) k in Inr (d, c\<lparr>domain := d\<rparr>)))"

text \<open>The main program draws a configuration and a top-level domain; the state is the table.\<close>

definition tinba_gen :: "nat \<Rightarrow> int \<times> int \<Rightarrow> tinba_config list \<Rightarrow> (string \<times> tinba_config list) result" where
  "tinba_gen fuel i g =
     (let j = nat (fst i mod int (length g)); c = tinba_pad (g ! j)
      in rbind (tinba_dga fuel c (snd i)) (\<lambda>(d, c'). Inr (d, g[j := c'])))"

definition tinba_main :: "nat \<Rightarrow> (int \<times> int) list \<Rightarrow> (tinba_config list \<times> gen_run) result" where
  "tinba_main fuel is =
     singles (tinba_gen fuel) (on_collision (force_close 10)) is dga_configurations (open_files tiers_1m)"

text \<open>First names of the first and the last configuration; 256 turns per letter are enough there.\<close>

lemma tinba_first_names:
  "map_sum id fst (tinba_dga 256 (tinba_pad (dga_configurations ! 0)) 0) = Inr ''gllcsbqrbfch.com''"
  "map_sum id fst (tinba_dga 256 (tinba_pad (dga_configurations ! 3)) 0) = Inr ''pyjeufkvmjkn.com''"
  by code_simp+

text \<open>What a configuration keeps: a seed of 17 characters, a domain of at least 13, good top-level domains.\<close>

definition tinba_ok :: "tinba_config \<Rightarrow> bool" where
  "tinba_ok c \<longleftrightarrow>
     16 \<le> length (seed_text c) \<and> 13 \<le> length (domain c) \<and> tinba_tlds c \<noteq> [] \<and> list_all is_suffix (tinba_tlds c)"

lemma tinba_letter_range:
  "tinba_letter fuel a b tmp s = Inr (t, s') \<Longrightarrow> 0x61 < t \<and> t < 0x7a"
  by (induction fuel arbitrary: tmp s) (auto simp: Let_def split: if_splits)

lemma tinba_letter_error: "tinba_letter fuel a b tmp s = Inl e \<Longrightarrow> e = NoReturn"
  by (induction fuel arbitrary: tmp s) (auto simp: Let_def split: if_splits)

lemma tinba_letter_more:
  "tinba_letter fuel a b tmp s = Inr r \<Longrightarrow> fuel \<le> fuel' \<Longrightarrow> tinba_letter fuel' a b tmp s = Inr r"
proof (induction fuel arbitrary: tmp s fuel')
  case (Suc fuel)
  then show ?case by (cases fuel') (auto simp: Let_def split: if_splits)
qed simp

lemma tinba_letters_shape:
  assumes "list_all (\<lambda>i. 0 \<le> i \<and> i + 1 < int (length old)) is"
  shows "tinba_letters fuel old is tmp s = Inl NoReturn \<or>
    (\<exists>cs. tinba_letters fuel old is tmp s = Inr cs \<and> length cs = length is \<and> list_all is_az cs)"
  using assms
proof (induction "is" arbitrary: tmp s)
  case (Cons i "is")
  obtain a b where ab: "py_get old i = Inr a" "py_get old (i + 1) = Inr b" using Cons.prems by (simp add: py_get_nth)
  show ?case
  proof (cases "tinba_letter fuel (ord a) (ord b) tmp s")
    case (Inl e)
    then show ?thesis using ab tinba_letter_error by simp
  next
    case (Inr r)
    then have "0x61 < fst r \<and> fst r < 0x7a" by (intro tinba_letter_range [of fuel _ _ _ _ "fst r" "snd r"]) simp
    then have "is_az (chr (fst r))" by (simp add: is_az_chr)
    with Inr ab Cons.IH [of "fst r" "snd r"] Cons.prems show ?thesis by (auto simp: case_prod_beta)
  qed
qed simp

lemma tinba_dga_shape:
  assumes "tinba_ok c"
  shows "tinba_dga fuel c k = Inl NoReturn \<or>
    (\<exists>d. tinba_dga fuel c k = Inr (d, c\<lparr>domain := d\<rparr>) \<and> is_hostname d \<and> tinba_ok (c\<lparr>domain := d\<rparr>))"
proof -
  obtain s15 where s15: "py_get (seed_text c) 15 = Inr s15" using assms by (simp add: tinba_ok_def py_get_nth)
  have t: "list_all is_suffix (tinba_tlds c)" "tinba_tlds c \<noteq> []" using assms by (simp_all add: tinba_ok_def)
  have suffix: "is_suffix (pick (tinba_tlds c) k)" using pick_all [OF t] .
  have i: "list_all (\<lambda>i. 0 \<le> i \<and> i + 1 < int (length (domain c))) [0..11]"
    using assms by (auto simp: tinba_ok_def list_all_iff)
  from tinba_letters_shape [OF i, of fuel "ord s15 AND 0xFF" "sum_list (map ord (take 16 (seed_text c)))"]
  show ?thesis
  proof
    assume "\<exists>cs. tinba_letters fuel (domain c) [0..11] (ord s15 AND 0xFF) (sum_list (map ord (take 16 (seed_text c)))) = Inr cs \<and>
      length cs = length [0..11] \<and> list_all is_az cs"
    then obtain cs where cs: "tinba_letters fuel (domain c) [0..11] (ord s15 AND 0xFF)
        (sum_list (map ord (take 16 (seed_text c)))) = Inr cs" "length cs = 12" "list_all is_az cs"
      by (auto simp del: upto_rec_numeral)
    then have "is_hostname (cs @ CHR ''.'' # pick (tinba_tlds c) k)"
      using suffix by (intro is_hostname_label_suffix is_label_az) auto
    then show ?thesis using s15 cs assms by (simp add: tinba_dga_def tinba_ok_def Let_def del: upto_rec_numeral)
  next
    assume "tinba_letters fuel (domain c) [0..11] (ord s15 AND 0xFF) (sum_list (map ord (take 16 (seed_text c)))) = Inl NoReturn"
    then show ?thesis using s15 by (simp add: tinba_dga_def del: upto_rec_numeral)
  qed
qed

text \<open>The table keeps its four good configurations; the outcome of a run, with what it may hang on.\<close>

definition tinba_table :: "tinba_config list \<Rightarrow> bool" where
  "tinba_table g \<longleftrightarrow> length g = 4 \<and> list_all tinba_ok (map tinba_pad g)"

lemma tinba_pad_ok [simp]: "tinba_ok c \<Longrightarrow> tinba_ok (tinba_pad c)"
  by (simp add: tinba_ok_def tinba_pad_def)

lemma tinba_configurations_table: "tinba_table dga_configurations"
proof -
  have "list_all is_suffix (concat (map tinba_tlds dga_configurations))" by code_simp
  then show ?thesis by (simp add: tinba_table_def tinba_ok_def dga_configurations_def tinba_pad_def)
qed

lemma tinba_gen_shape:
  assumes "tinba_table g"
  shows "tinba_gen fuel i g = Inl NoReturn \<or>
    (\<exists>d g'. tinba_gen fuel i g = Inr (d, g') \<and> is_hostname d \<and> tinba_table g')"
proof -
  define j where "j = nat (fst i mod int (length g))"
  have j: "j < length g" using assms by (simp add: j_def tinba_table_def nat_less_iff)
  then have "tinba_ok (tinba_pad (g ! j))" using assms by (simp add: tinba_table_def list_all_length)
  from tinba_dga_shape [OF this, of fuel "snd i"] show ?thesis
  proof
    assume "\<exists>d. tinba_dga fuel (tinba_pad (g ! j)) (snd i) = Inr (d, (tinba_pad (g ! j))\<lparr>domain := d\<rparr>) \<and> is_hostname d \<and>
      tinba_ok ((tinba_pad (g ! j))\<lparr>domain := d\<rparr>)"
    then obtain d where d: "tinba_dga fuel (tinba_pad (g ! j)) (snd i) = Inr (d, (tinba_pad (g ! j))\<lparr>domain := d\<rparr>)"
      "is_hostname d" "tinba_ok ((tinba_pad (g ! j))\<lparr>domain := d\<rparr>)"
      by blast
    then have "tinba_table (g[j := (tinba_pad (g ! j))\<lparr>domain := d\<rparr>])"
      using assms j by (auto simp: tinba_table_def list_all_length nth_list_update)
    with d show ?thesis by (simp add: tinba_gen_def Let_def j_def [symmetric])
  qed (simp add: tinba_gen_def Let_def j_def [symmetric])
qed

definition clean_or_hangs :: "nat list \<Rightarrow> ('g \<times> gen_run) result \<Rightarrow> bool" where
  "clean_or_hangs tiers r = (case r of Inl e \<Rightarrow> e = NoReturn | Inr _ \<Rightarrow> clean_dataset tiers r)"

lemma tinba_run:
  assumes "tinba_table g" and "run_inv tiers_1m s" and "list_all is_hostname (data s)"
  shows "clean_or_hangs tiers_1m (singles (tinba_gen fuel) (on_collision (force_close 10)) is g s)"
  using assms
proof (induction "is" arbitrary: g s)
  case (Cons i "is")
  show ?case
  proof (cases "stop s")
    case True
    with Cons.prems show ?thesis by (simp add: clean_or_hangs_def clean_dataset_def)
  next
    case False
    from tinba_gen_shape [OF Cons.prems(1), of fuel i] show ?thesis
    proof
      assume "\<exists>d g'. tinba_gen fuel i g = Inr (d, g') \<and> is_hostname d \<and> tinba_table g'"
      then obtain d g' where d: "tinba_gen fuel i g = Inr (d, g')" "is_hostname d" "tinba_table g'" by blast
      obtain r where r: "add_domain d s = Inr r" using t1m.add_domain_open [OF Cons.prems(2) False] by blast
      have "run_inv tiers_1m (run_of r)" "list_all is_hostname (data (run_of r))"
        using t1m.add_domain_inv [OF Cons.prems(2) r] d(2) Cons.prems(3) by (auto simp: list_all_iff)
      then show ?thesis
        using False d r Cons.IH [of g'] 
        by (cases r) (simp_all add: on_collision_def run_inv_force clean_or_hangs_def clean_dataset_def)
    qed (simp add: clean_or_hangs_def False)
  qed
qed (simp add: clean_or_hangs_def clean_dataset_def)

lemma tinba_main_run: "clean_or_hangs tiers_1m (tinba_main fuel is)"
  unfolding tinba_main_def by (rule tinba_run [OF tinba_configurations_table open_files_inv]) (simp add: open_files_def)

section \<open>Properties\<close>

text \<open>pykspa derives at most 100 domains from each seed of its file, whatever the dates: both main
  programs never raise, their tiers are prefixes of distinct well-formed host names, and there are never
  more than 100 times as many as seeds in the file, in whichever order Python walks through a set.\<close>

theorem pykspa_few_domains:
  assumes "\<And>ds. set (order ds) \<subseteq> set ds" and "finite (dom seeds)"
  shows "(\<exists>s. genNoise seeds order dts = Inr ((), s) \<and> run_inv tiers_100k s \<and> list_all is_hostname (data s) \<and>
      length (data s) \<le> 100 * card (dom seeds)) \<and>
    (\<exists>s. genUseful seeds order dts = Inr ((), s) \<and> run_inv tiers_10k s \<and> list_all is_hostname (data s) \<and>
      length (data s) \<le> 100 * card (dom seeds))"
  using genNoise_run [of order, OF assms] genUseful_run [of order, OF assms] by blast

theorem pykspa_few_domains_witness:
  "(\<exists>s. genNoise [''15772'' \<mapsto> ''8f7f893''] rev [1362787200] = Inr ((), s) \<and> run_inv tiers_100k s \<and>
      list_all is_hostname (data s) \<and> length (data s) \<le> 100) \<and>
   (\<exists>s. genUseful [''15772'' \<mapsto> ''8f7f893''] rev [1362787200] = Inr ((), s) \<and> run_inv tiers_10k s \<and>
      list_all is_hostname (data s) \<and> length (data s) \<le> 100)"
  using pykspa_few_domains [of rev "[''15772'' \<mapsto> ''8f7f893'']" "[1362787200]"] by simp

end
