(* ===== verification/Gen_Bedep.thy ===== *)
theory Gen_Bedep
  imports Gen_Days Gen_Hash Metrics Struct_Bytes
begin

text \<open>
  The generator of bedep: exchange rates parsed with a faulty \<open>atof\<close>, a table of disguised primes with the
  factors of their predecessors, and a walk through a cyclic group modulo such a prime. The tables the
  script reads are a parameter; the first of them is written out for the examples.
\<close>

section \<open>Python primitives\<close>

text \<open>\<open>a % b\<close> and \<open>a / b\<close> on integers, and \<open>pow(b, e, m)\<close>.\<close>

definition py_mod :: "int \<Rightarrow> int \<Rightarrow> int result" where
  "py_mod a b = (if b = 0 then Inl ZeroDivisionError else Inr (a mod b))"

definition py_div :: "int \<Rightarrow> int \<Rightarrow> int result" where
  "py_div a b = (if b = 0 then Inl ZeroDivisionError else Inr (a div b))"

definition py_pow :: "int \<Rightarrow> int \<Rightarrow> int \<Rightarrow> int result" where
  "py_pow b e m =
     (if e < 0 then Inl TypeError else if m = 0 then Inl ValueError else Inr (b ^ nat e mod m))"

lemma py_pow_ok: "0 \<le> e \<Longrightarrow> m \<noteq> 0 \<Longrightarrow> py_pow b e m = Inr (b ^ nat e mod m)"
  by (simp add: py_pow_def)

text \<open>Evaluated by repeated squaring.\<close>

function pow_mod :: "int \<Rightarrow> int \<Rightarrow> int \<Rightarrow> int" where
  "pow_mod b e m =
     (if e \<le> 0 then 1 mod m
      else let p = pow_mod (b * b mod m) (e div 2) m in if e mod 2 = 1 then b * p mod m else p)"
  by pat_completeness auto
termination by (relation "measure (\<lambda>(b, e, m). nat e)") auto

declare pow_mod.simps [simp del]

lemma pow_mod_power: "pow_mod b e m = b ^ nat e mod m"
proof (induction b e m rule: pow_mod.induct)
  case (1 b e m)
  show ?case
  proof (cases "e \<le> 0")
    case False
    define k where "k = nat (e div 2)"
    have "pow_mod (b * b mod m) (e div 2) m = (b * b) ^ k mod m"
      using False 1 by (simp add: k_def power_mod)
    moreover have "(b * b) ^ k = b ^ (2 * k)" by (simp add: power_mult power2_eq_square)
    moreover have "nat e = 2 * k + (if e mod 2 = 1 then 1 else 0)"
    proof -
      have "e = 2 * int k + e mod 2" "e mod 2 = 0 \<or> e mod 2 = 1" using False by (auto simp: k_def)
      then show ?thesis by auto
    qed
    ultimately show ?thesis
      using False by (simp add: pow_mod.simps [of b e m] Let_def mod_mult_right_eq)
  qed (simp add: pow_mod.simps)
qed

lemma py_pow_code [code]:
  "py_pow b e m = (if e < 0 then Inl TypeError else if m = 0 then Inl ValueError else Inr (pow_mod b e m))"
  by (simp add: py_pow_def pow_mod_power)

text \<open>The bits of a finite binary64 number, as \<open>f32_magnitude\<close> does it for binary32.\<close>

definition f64_magnitude :: "real \<Rightarrow> int" where
  "f64_magnitude y =
     (if y = 0 then 0 else let q = quantum 53 (-1074) y in (q + 1074) * 2 ^ 52 + \<lfloor>y / 2 powi q\<rfloor>)"

definition f64_bits :: "real \<Rightarrow> int" where
  "f64_bits y = (if y < 0 then 2 ^ 63 else 0) + f64_magnitude \<bar>y\<bar>"

text \<open>\<open>float(n)\<close> of an integer.\<close>

definition float_of_int :: "int \<Rightarrow> real result" where
  "float_of_int n = (let y = fl (of_int n) in if 2 ^ 1024 \<le> \<bar>y\<bar> then Inl OverflowError else Inr y)"

section \<open>The object\<close>

record bedep_config =
  value1 :: int
  value2 :: int
  value3 :: int
  table :: string
  max_currencies :: int

record bedep_dga =
  config :: bedep_config
  transform2_table :: "int list list"
  num_domains :: int
  field_4 :: int
  field_8 :: int
  field_c :: int
  min_domain_len :: int
  field_14 :: int
  field_18 :: int
  field_1c :: int
  bedep_tld :: string
  field_28 :: int
  days_since :: int

text \<open>
  \<open>__init__\<close>: \<open>load\<close> gives the contents of a table file. The fields that start as \<open>None\<close> are 0 here; each
  is assigned before it is used.
\<close>

definition bedep_init :: "(string \<Rightarrow> int list list) \<Rightarrow> bedep_config \<Rightarrow> bedep_dga" where
  "bedep_init load cfg =
     \<lparr>config = cfg, transform2_table = load (table cfg), num_domains = 0, field_4 = 0, field_8 = 0, field_c = 0,
      min_domain_len = 0xc, field_14 = 0x12, field_18 = 0x16, field_1c = 0x1c, bedep_tld = ''.com'',
      field_28 = value1 cfg, days_since = 0\<rparr>"

definition get_days_since :: "int \<Rightarrow> int \<Rightarrow> int \<Rightarrow> int" where
  "get_days_since y m d =
     (let v4 = y mod 400;
          v5 = 146097 * (y div 400) + d + 365 * (y mod 400) + (y mod 400 + 3) div 4;
          v5 = (if 100 < v4 then if 200 < v4 then if 300 < v4 then v5 - 3 else v5 - 2 else v5 - 1 else v5);
          v6 = 31 * m + v5;
          m = (if 8 \<le> m then m - 1 else m);
          r = v6 - m div 2
      in if 1 < m then
           let r = r - 1 in
           if v4 \<noteq> 0 \<and> (v4 AND 3 \<noteq> 0 \<or> v4 = 100 \<or> v4 = 200 \<or> v4 = 300) then r - 1 else r
         else r)"

section \<open>Currencies\<close>

record bedep_currency =
  currency_name :: string
  name_bin :: int
  rate_str :: string
  real_rate_float :: real
  real_rate :: int
  real_rate_low :: int
  real_rate_high :: int

text \<open>The loop of \<open>broken_float\<close>; \<open>v11 = 0\<close> stands for no value yet.\<close>

fun broken_power :: "nat \<Rightarrow> int \<Rightarrow> int \<Rightarrow> int" where
  "broken_power n v10 v11 =
     (if n \<le> 1 then if v11 \<noteq> 0 then v10 * v11 else v10
      else broken_power (n div 2) (v10 * v10) (if odd n then if v11 \<noteq> 0 then v11 * v10 else v10 else v11))"

declare broken_power.simps [simp del]

definition broken_float :: "string \<Rightarrow> real result" where
  "broken_float str_float =
     (let pieces = py_split (CHR ''.'') str_float;
          (one, two) = (if length pieces = 2 then (pieces ! 0, pieces ! 1) else (pieces ! 0, ''0''))
      in rbind (py_int one) (\<lambda>one. rbind (py_int two) (\<lambda>num.
         rbind (float_of_int num) (\<lambda>f2. rbind (float_of_int (broken_power (length two) 10 0)) (\<lambda>f10.
         rbind (float_of_int one) (\<lambda>f1. Inr (fl (fl (f2 / f10) + f1))))))))"

text \<open>\<open>real_rate\<close> is the signed reading of the same eight bytes.\<close>

definition parse_currency :: "string \<Rightarrow> string \<Rightarrow> bedep_currency result" where
  "parse_currency name amount =
     rbind (unpack_le 4 (ascii_bytes name @ [0])) (\<lambda>nb.
     rbind (broken_float amount) (\<lambda>x.
     let bits = f64_bits x in
     Inr \<lparr>currency_name = name, name_bin = int nb, rate_str = amount, real_rate_float = x,
          real_rate = signed_take_bit 63 bits, real_rate_low = bits mod 2 ^ 32, real_rate_high = bits div 2 ^ 32\<rparr>))"

definition currency_names :: "string list" where
  "currency_names =
     [''USD'', ''JPY'', ''BGN'', ''CZK'', ''DKK'', ''GBP'', ''HUF'', ''PLN'', ''RON'', ''SEK'', ''CHF'', ''ISK'',
      ''NOK'', ''HRK'', ''RUB'', ''TRY'', ''AUD'', ''BRL'', ''CAD'', ''CNY'', ''HKD'', ''IDR'', ''ILS'', ''INR'',
      ''KRW'', ''MXN'', ''MYR'', ''NZD'', ''PHP'', ''SGD'', ''THB'', ''ZAR'']"

text \<open>\<open>drawn k\<close>: what \<open>random.choice\<close> and \<open>str(random.uniform(...))\<close> give in turn \<open>k\<close>.\<close>

definition get_currencies :: "bedep_dga \<Rightarrow> (nat \<Rightarrow> int \<times> string) \<Rightarrow> bedep_currency list result" where
  "get_currencies b drawn =
     rmap (\<lambda>k. rbind (py_get currency_names (fst (drawn k))) (\<lambda>name. parse_currency name (snd (drawn k))))
       [0..<nat (max_currencies (config b))]"
section \<open>The table\<close>

text \<open>
  \<open>pow\<close> with the factors in \<open>a3\<close>: the inner loop of \<open>transform3\<close> on the factors not yet used. It returns
  from the function with \<open>v3\<close> when \<open>a2\<close> is used up, and is left with \<open>None\<close> when the power is 1; \<open>a2\<close> keeps
  its value for the next candidate.
\<close>

fun t3_factors :: "int \<Rightarrow> int \<Rightarrow> int \<Rightarrow> int \<Rightarrow> int list \<Rightarrow> (int option \<times> int) result" where
  "t3_factors a1 v3 i a2 fs =
     (if i = 1 then Inr (None, a2)
      else if a2 - 1 < 0 then Inr (Some v3, a2 - 1)
      else (case fs of [] \<Rightarrow> Inl IndexError
        | v5 # fs' \<Rightarrow> rbind (py_div (a1 - 1) v5) (\<lambda>e. rbind (py_pow v3 e a1) (\<lambda>i. t3_factors a1 v3 i (a2 - 1) fs'))))"

function t3_search :: "int \<Rightarrow> int \<Rightarrow> int list \<Rightarrow> int \<Rightarrow> int result" where
  "t3_search a1 a2 a3 v3 =
     rbind (py_pow v3 ((a1 - 1) div 2) a1) (\<lambda>i. rbind (t3_factors a1 v3 i a2 a3) (\<lambda>(found, a2').
       case found of Some v \<Rightarrow> Inr v
       | None \<Rightarrow> if v3 + 1 \<le> a1 div 2 then t3_search a1 a2' a3 (v3 + 1) else Inr 0))"
  by pat_completeness auto
termination by (relation "measure (\<lambda>(a1, a2, a3, v3). nat (a1 div 2 - v3))") auto

declare t3_factors.simps [simp del] t3_search.simps [simp del]

definition transform3 :: "int \<Rightarrow> int \<Rightarrow> int list \<Rightarrow> int result" where
  "transform3 a1 a2 a3 = (if 2 \<le> a1 div 2 then t3_search a1 a2 a3 2 else Inr 0)"

text \<open>The cell of the table that \<open>two_idx\<close> points to, and the step that spills into the next entry.\<close>

definition table_cell :: "int list list \<Rightarrow> int \<times> int \<Rightarrow> int result" where
  "table_cell t idx = rbind (py_get t (fst idx)) (\<lambda>row. py_get row (snd idx))"

definition next_cell :: "int list \<Rightarrow> int \<times> int \<Rightarrow> int \<times> int" where
  "next_cell table_entry idx =
     (if snd idx + 1 = int (length table_entry) then (fst idx + 1, 0) else (fst idx, snd idx + 1))"

definition decode_factor :: "bedep_dga \<Rightarrow> int \<Rightarrow> int \<Rightarrow> int" where
  "decode_factor b i two = (((0x663d81 * two) XOR value2 (config b)) - i) AND 0xFFFFFFFF"

definition decode_count :: "bedep_dga \<Rightarrow> int \<Rightarrow> int" where
  "decode_count b e = ((0x281 * e) XOR value2 (config b)) AND 0xFFFFFFFF"

definition decode_prime :: "bedep_dga \<Rightarrow> int \<Rightarrow> int" where
  "decode_prime b e = ((0x663d81 * e) XOR value3 (config b)) AND 0xFFFFFFFF"

text \<open>The loops over the entry \<open>i\<close>: the first collects in \<open>v20\<close>, the second in \<open>v22\<close>.\<close>

fun t2_scan :: "bedep_dga \<Rightarrow> int \<Rightarrow> int list \<Rightarrow> nat \<Rightarrow> int \<times> int \<Rightarrow> int \<Rightarrow> int \<Rightarrow> int list \<Rightarrow> (int \<times> int list) result" where
  "t2_scan b i table_entry 0 idx two x v20 = Inr (x, v20)"
| "t2_scan b i table_entry (Suc k) idx two x v20 =
     (let math3 = decode_factor b i two; idx = next_cell table_entry idx in
      rbind (table_cell (transform2_table b) idx) (\<lambda>two.
      if field_18 b \<le> math3 - 1 \<and> math3 - 1 \<le> field_1c b then
        if 0xa8 \<le> x then Inr (x, v20)
        else t2_scan b i table_entry k idx two (x + 1) (v20 @ [i, math3])
      else t2_scan b i table_entry k idx two x v20))"

fun t2_entries :: "bedep_dga \<Rightarrow> nat \<Rightarrow> int \<Rightarrow> int \<Rightarrow> int list \<Rightarrow> (int \<times> int list) result" where
  "t2_entries b 0 i x v20 = Inr (x, v20)"
| "t2_entries b (Suc k) i x v20 =
     rbind (py_get (transform2_table b) i) (\<lambda>table_entry.
     rbind (table_cell (transform2_table b) (i, 2)) (\<lambda>two.
     rbind (py_get table_entry 1) (\<lambda>e1.
     rbind (t2_scan b i table_entry (nat (decode_count b e1)) (i, 2) two x v20) (\<lambda>(x, v20). t2_entries b k (i + 1) x v20))))"

fun t2_factors :: "bedep_dga \<Rightarrow> int \<Rightarrow> int list \<Rightarrow> nat \<Rightarrow> int \<times> int \<Rightarrow> int \<Rightarrow> int list \<Rightarrow> int list result" where
  "t2_factors b table_idx table_entry 0 idx two v22 = Inr v22"
| "t2_factors b table_idx table_entry (Suc k) idx two v22 =
     (let v22 = v22 @ [decode_factor b table_idx two]; idx = next_cell table_entry idx in
      rbind (table_cell (transform2_table b) idx) (\<lambda>two. t2_factors b table_idx table_entry k idx two v22))"

definition transform2 :: "bedep_dga \<Rightarrow> int \<Rightarrow> (int \<times> int \<times> int) result" where
  "transform2 b a1 =
     rbind (t2_entries b 102 0 0 []) (\<lambda>(x, v20).
     rbind (py_mod a1 x) (\<lambda>j. rbind (py_get v20 (j * 2)) (\<lambda>table_idx.
     rbind (py_get (transform2_table b) table_idx) (\<lambda>table_entry.
     rbind (py_get table_entry 0) (\<lambda>e0.
     let math4 = decode_prime b e0 in
     rbind (py_get table_entry 1) (\<lambda>e1.
     let math5 = decode_count b e1 in
     rbind (table_cell (transform2_table b) (table_idx, 2)) (\<lambda>two.
     rbind (t2_factors b table_idx table_entry (nat math5) (table_idx, 2) two []) (\<lambda>v22.
     rbind (transform3 math4 math5 v22) (\<lambda>v17.
     rbind (py_get v20 (j * 2 + 1)) (\<lambda>ret2. Inr (math4, v17, ret2)))))))))))"

section \<open>The group\<close>

text \<open>
  \<open>transform8\<close>, first loop: the numbers that no earlier one in \<open>v18\<close> divides. The inner loop is \<open>t8_divided\<close>,
  which counts \<open>v20\<close> down while it goes through \<open>v18\<close>.
\<close>

fun t8_divided :: "int \<Rightarrow> int \<Rightarrow> int list \<Rightarrow> bool result" where
  "t8_divided v5 v20 [] = Inl IndexError"
| "t8_divided v5 v20 (d # ds) =
     rbind (py_mod v5 d) (\<lambda>v8. if v8 = 0 then Inr True else if v20 - 1 < 0 then Inr False else t8_divided v5 (v20 - 1) ds)"

function t8_sieve :: "int \<Rightarrow> int \<Rightarrow> int \<Rightarrow> int list \<Rightarrow> int \<Rightarrow> (int \<times> int list) result" where
  "t8_sieve v4 v5 v6 v18 i =
     (if v4 \<le> v5 then Inr (v6, v18)
      else if v6 < 1 then
        if (i - 1) AND 0x80000000 \<noteq> 0 then Inr (v6, v18)
        else t8_sieve v4 (v5 + 2) (v6 + 1) (v18 @ [v5]) (i - 1)
      else rbind (t8_divided v5 (v6 - 1) v18) (\<lambda>divided.
        if divided then t8_sieve v4 (v5 + 2) v6 v18 i
        else if (i - 1) AND 0x80000000 \<noteq> 0 then t8_sieve v4 (v5 + 2) v6 v18 (i - 1)
        else t8_sieve v4 (v5 + 2) (v6 + 1) (v18 @ [v5]) (i - 1)))"
  by pat_completeness auto
termination by (relation "measure (\<lambda>(v4, v5, v6, v18, i). nat (v4 - v5))") auto

text \<open>The second loop moves the divisors of \<open>v4\<close> to the front of \<open>v18\<close> and counts them in \<open>v21\<close>.\<close>

fun t8_compact :: "nat \<Rightarrow> int \<Rightarrow> nat \<Rightarrow> nat \<Rightarrow> int \<Rightarrow> int list \<Rightarrow> (int \<times> int list) result" where
  "t8_compact 0 v4 v9 v10 v21 v18 = Inr (v21, v18)"
| "t8_compact (Suc v6) v4 v9 v10 v21 v18 =
     rbind (py_get v18 (int v9)) (\<lambda>i. rbind (py_mod v4 i) (\<lambda>r.
     if r = 0 then t8_compact v6 v4 (v9 + 1) (v10 + 1) (v21 + 1) (if v9 \<noteq> v10 then v18[v10 := i] else v18)
     else t8_compact v6 v4 (v9 + 1) v10 v21 v18))"

text \<open>The last loop collects the numbers below \<open>a4\<close> that its factors do not divide; \<open>v21\<close> is not reset.\<close>

fun t8_unit :: "int \<Rightarrow> int \<Rightarrow> int list \<Rightarrow> (bool \<times> int) result" where
  "t8_unit v12 v21 [] = Inl IndexError"
| "t8_unit v12 v21 (d # ds) =
     rbind (py_mod v12 d) (\<lambda>v16.
     if v16 = 0 then Inr (False, v21) else if v21 - 1 \<le> 0 then Inr (True, v21 - 1) else t8_unit v12 (v21 - 1) ds)"

function t8_units :: "int \<Rightarrow> int \<Rightarrow> int \<Rightarrow> int list \<Rightarrow> int \<Rightarrow> int list \<Rightarrow> (int \<times> int list) result" where
  "t8_units a4 v12 v21 v18 i a2 =
     (if a4 \<le> v12 then Inr (i, a2)
      else rbind (t8_unit v12 v21 v18) (\<lambda>(unit, v21').
        if unit then t8_units a4 (v12 + 2) v21' v18 (i + 1) (a2 @ [v12])
        else t8_units a4 (v12 + 2) v21' v18 i a2))"
  by pat_completeness auto
termination by (relation "measure (\<lambda>(a4, v12, v21, v18, i, a2). nat (a4 - v12))") auto

declare t8_sieve.simps [simp del] t8_units.simps [simp del]

text \<open>What \<open>transform8\<close> makes of \<open>a4\<close>: \<open>i\<close> and the elements it appends to \<open>a2\<close>.\<close>

definition transform8_units :: "int \<Rightarrow> (int \<times> int list) result" where
  "transform8_units a4 =
     rbind (t8_sieve (a4 - 1) 3 0 [] 0x25) (\<lambda>(v6, v18).
     rbind (t8_compact (nat v6) (a4 - 1) 0 0 0 v18) (\<lambda>(v21, v18).
     rbind (transform3 a4 v21 v18) (\<lambda>v11.
     if v11 \<noteq> 0 then (if 3 < a4 then t8_units a4 3 v21 v18 0 [v11] else Inr (0, [v11])) else Inr (0, []))))"

definition transform8 :: "int \<Rightarrow> int \<Rightarrow> int \<Rightarrow> (int \<times> int list) result" where
  "transform8 a1 a3 a4 =
     rbind (py_div (a1 - 1) a4) (\<lambda>e. rbind (py_pow a3 e a1) (\<lambda>trans4.
     rbind (transform8_units a4) (\<lambda>(i, a2). Inr (i, trans4 # a2))))"

text \<open>\<open>r1\<close> and \<open>r2\<close> are the two values of \<open>transform9\<close>.\<close>

definition transform7 :: "int \<Rightarrow> int \<Rightarrow> int \<Rightarrow> int \<Rightarrow> int \<Rightarrow> bedep_dga \<Rightarrow> bedep_dga result" where
  "transform7 a1 a2 a3 r1 r2 b =
     rbind (transform8 a1 a2 a3) (\<lambda>(v1, v9).
     rbind (py_mod r1 (a3 - 1)) (\<lambda>m1. rbind (py_mod r2 (v1 + 1)) (\<lambda>v6.
     rbind (py_get v9 0) (\<lambda>h. rbind (py_pow h (m1 + 1) a1) (\<lambda>f4. rbind (py_get v9 1) (\<lambda>g.
     rbind (if (v6 - 1) AND 0x80000000 = 0 then rbind (py_get (drop 2 v9) (v6 - 1)) (\<lambda>u. py_pow g u a3) else Inr g)
       (\<lambda>v8. Inr (b\<lparr>num_domains := a3 - 1, field_c := a1, field_4 := f4, field_8 := v8\<rparr>))))))))"

fun t1_mix :: "nat \<Rightarrow> int \<Rightarrow> int \<Rightarrow> int \<Rightarrow> int" where
  "t1_mix 0 f28 math2 math1 = math1"
| "t1_mix (Suc k) f28 math2 math1 = t1_mix k f28 math2 ((f28 XOR (math2 + 0x1a43ba27 * math1)) AND 0xFFFFFFFF)"

definition transform1 :: "bedep_currency list \<Rightarrow> int \<Rightarrow> int \<Rightarrow> bedep_dga \<Rightarrow> bedep_dga result" where
  "transform1 currencies r1 r2 b =
     rbind (py_get currencies 0) (\<lambda>c.
     let math1 = (field_18 b + (field_28 b XOR days_since b)) AND 0xFFFFFFFF;
         math2 = ((days_since b XOR real_rate_low c) + (field_1c b XOR name_bin c)) AND 0xFFFFFFFF
     in rbind (transform2 b (t1_mix (length currencies) (field_28 b) math2 math1)) (\<lambda>(math4, ret1, ret2).
        transform7 math4 ret1 ret2 r1 r2 b))"

section \<open>The names\<close>

definition ror :: "int \<Rightarrow> nat \<Rightarrow> nat \<Rightarrow> int" where
  "ror num cnt sz = drop_bit cnt num OR push_bit (sz - cnt) num"

definition get_next_currency :: "bedep_currency list \<Rightarrow> int \<Rightarrow> bedep_currency \<Rightarrow> bedep_currency result" where
  "get_next_currency currencies offset prev_currency =
     (let index = int (length (takeWhile (\<lambda>c. currency_name c \<noteq> currency_name prev_currency) currencies)) in
      rbind (py_mod (index + offset) (int (length currencies))) (\<lambda>index. py_get currencies index))"

fun t11_mix :: "nat \<Rightarrow> bedep_dga \<Rightarrow> bedep_currency \<Rightarrow> int \<Rightarrow> int \<Rightarrow> int" where
  "t11_mix 0 b c math2 math1 = math1"
| "t11_mix (Suc k) b c math2 math1 =
     t11_mix k b c math2
       (((min_domain_len b + days_since b * real_rate_low c) XOR (math2 + 0x19d65 * (field_28 b XOR math1))) AND 0xFFFFFFFF)"

definition t11_char :: "bedep_dga \<Rightarrow> bedep_currency \<Rightarrow> int \<Rightarrow> int \<Rightarrow> int \<Rightarrow> char" where
  "t11_char b c math3 a1 domain_len =
     (let math6 = (0x6e93d938959d4fd8 * (field_28 b + min_domain_len b * name_bin c)) AND 0xFFFFFFFFFFFFFFFF;
          math7 = (0x17a87709884ed9f3 * (field_14 b + real_rate c) + math6) AND 0xFFFFFFFFFFFFFFFF;
          v16 = (if domain_len \<le> 1 then 0x24 else 0x1a);
          n = ((math3 XOR (drop_bit 17 math7 - a1)) AND 0xFFFFFFFF) mod v16
      in chr (if 0x7a < n + ord (CHR ''a'') then n + 0x16 else n + ord (CHR ''a'')))"

text \<open>The loop over the letters; \<open>k\<close> is \<open>domain_len + 1\<close>.\<close>

fun t11_letters :: "nat \<Rightarrow> bedep_dga \<Rightarrow> bedep_currency list \<Rightarrow> int \<Rightarrow> int \<Rightarrow> bedep_currency \<Rightarrow> int \<Rightarrow> string result" where
  "t11_letters 0 b currencies math1 math3 c a1 = Inr []"
| "t11_letters (Suc k) b currencies math1 math3 c a1 =
     rbind (get_next_currency currencies math1 c) (\<lambda>c'.
     rbind (t11_letters k b currencies math1 math3 c' ((int k XOR ror a1 7 32) AND 0xFFFFFFFF)) (\<lambda>cs.
     Inr (t11_char b c math3 a1 (int k) # cs)))"

definition transform11 :: "bedep_dga \<Rightarrow> bedep_currency list \<Rightarrow> int \<Rightarrow> string result" where
  "transform11 b currencies a1 =
     rbind (py_get currencies 0) (\<lambda>c.
     let math2 = ((field_28 b XOR name_bin c) - drop_bit 0x20 (real_rate c)) AND 0xFFFFFFFF;
         math1 = t11_mix (length currencies) b c math2 (field_14 b * days_since b);
         math3 = 0x283 * days_since b
     in rbind (py_mod (a1 XOR math1) (field_14 b - min_domain_len b + 1)) (\<lambda>m.
        let math4 = (min_domain_len b + m) AND 0xFFFFFFFF
        in rbind (t11_letters (nat math4) b currencies math1 math3 c a1) (\<lambda>cs. Inr (cs @ bedep_tld b))))"

definition transform10 :: "bedep_currency list \<Rightarrow> bedep_dga \<Rightarrow> (string \<times> bedep_dga) result" where
  "transform10 currencies b =
     rbind (py_pow (field_4 b) (field_8 b) (field_c b)) (\<lambda>f4.
     let b = b\<lparr>field_4 := f4\<rparr> in rbind (transform11 b currencies f4) (\<lambda>domain. Inr (domain, b)))"

fun bedep_domains :: "nat \<Rightarrow> bedep_currency list \<Rightarrow> bedep_dga \<Rightarrow> string list result" where
  "bedep_domains 0 currencies b = Inr []"
| "bedep_domains (Suc k) currencies b =
     rbind (transform10 currencies b) (\<lambda>(domain, b). rbind (bedep_domains k currencies b) (\<lambda>ds. Inr (domain # ds)))"

text \<open>What a run draws: its date, the currencies and two random numbers.\<close>

record bedep_draw =
  drawn_date :: datetime
  drawn_rates :: "nat \<Rightarrow> int \<times> string"
  drawn_r1 :: int
  drawn_r2 :: int

definition bedep_run :: "bedep_draw \<Rightarrow> bedep_dga \<Rightarrow> string list result" where
  "bedep_run dr b =
     (let dt = drawn_date dr;
          b = b\<lparr>days_since := get_days_since (year dt) (month dt - 1) (day dt - 1)\<rparr>
      in rbind (get_currencies b (drawn_rates dr)) (\<lambda>currencies.
         rbind (transform1 currencies (drawn_r1 dr) (drawn_r2 dr) b) (\<lambda>b.
         bedep_domains (nat (num_domains b)) currencies b)))"

section \<open>The main program\<close>

definition bedep_configs :: "bedep_config list" where
  "bedep_configs =
     [\<lparr>value1 = 0x9be6851a, value2 = 0xd666e1f3, value3 = 0x2666ca48,
       table = ''generators/bedep/tables/transform2_table_var1.json'', max_currencies = 48\<rparr>,
      \<lparr>value1 = 0x36a64c8a, value2 = 0x7cd02d69, value3 = 0x8cd006d2,
       table = ''generators/bedep/tables/transform2_table_var2.json'', max_currencies = 48\<rparr>,
      \<lparr>value1 = 0x4cdff15c, value2 = 0x1bbae2d4, value3 = 0xebbac96f,
       table = ''generators/bedep/tables/transform2_table_var3.json'', max_currencies = 36\<rparr>,
      \<lparr>value1 = 0x52eb3676, value2 = 0x7952538d, value3 = 0x89527836,
       table = ''generators/bedep/tables/transform2_table_var4.json'', max_currencies = 36\<rparr>,
      \<lparr>value1 = 0x8af8b34d, value2 = 0x2be8c4b0, value3 = 0xdbe8ef0b,
       table = ''generators/bedep/tables/transform2_table_var5.json'', max_currencies = 36\<rparr>,
      \<lparr>value1 = 0xa28eafd8, value2 = 0x2edfdb46, value3 = 0xdedff0fd,
       table = ''generators/bedep/tables/transform2_table_var6.json'', max_currencies = 36\<rparr>,
      \<lparr>value1 = 0xda9ce3f7, value2 = 0xd1cecf92, value3 = 0x21cee429,
       table = ''generators/bedep/tables/transform2_table_var7.json'', max_currencies = 36\<rparr>]"

text \<open>An input of the outer loop gives the draws of the seven configurations.\<close>

definition bedep_turn :: "(string \<Rightarrow> int list list) \<Rightarrow> bedep_config \<times> bedep_draw \<Rightarrow> gen_run \<Rightarrow> gen_run result" where
  "bedep_turn load turn s =
     rbind (bedep_run (snd turn) (bedep_init load (fst turn))) (\<lambda>ds. batch True (force_close 10) Break ds s)"

definition bedep_main :: "(string \<Rightarrow> int list list) \<Rightarrow> (nat \<Rightarrow> bedep_draw) list \<Rightarrow> gen_run result" where
  "bedep_main load inputs =
     iterate (\<lambda>drawn. iterate (bedep_turn load) (zip bedep_configs (map drawn [0..<7]))) inputs (open_files tiers_1m)"

definition bedep_consts :: "bedep_dga \<Rightarrow> bool" where
  "bedep_consts b \<longleftrightarrow> min_domain_len b = 0xc \<and> field_14 b = 0x12 \<and> field_18 b = 0x16 \<and> field_1c b = 0x1c \<and> bedep_tld b = ''.com''"

section \<open>Days\<close>

lemma month_cases:
  fixes m :: int
  shows "m \<in> {3..12} \<Longrightarrow> m = 3 \<or> m = 4 \<or> m = 5 \<or> m = 6 \<or> m = 7 \<or> m = 8 \<or> m = 9 \<or> m = 10 \<or> m = 11 \<or> m = 12"
  unfolding atLeastAtMost_iff by presburger

lemma days_before_month_table:
  "days_before_month y 1 = 0" "days_before_month y 2 = 31" 
  "m \<in> {3..12} \<Longrightarrow> days_before_month y m =
     [59, 90, 120, 151, 181, 212, 243, 273, 304, 334] ! nat (m - 3) + (if is_leap y then 1 else 0)"
proof -
  show one: "days_before_month y 1 = 0" by (simp add: days_before_month_def)
  have s: "days_before_month y (m + 1) = days_before_month y m + days_in_month y m" if "1 \<le> m" for m
    using days_before_month_step [of "m + 1" y] that by simp
  from s [of 1] one show two: "days_before_month y 2 = 31" by (simp add: days_in_month_def)
  note steps = s [of 2] s [of 3] s [of 4] s [of 5] s [of 6] s [of 7] s [of 8] s [of 9] s [of 10] s [of 11]
  assume "m \<in> {3..12}"
  from month_cases [OF this] show "days_before_month y m =
     [59, 90, 120, 151, 181, 212, 243, 273, 304, 334] ! nat (m - 3) + (if is_leap y then 1 else 0)"
    using steps two by (elim disjE) (simp_all add: days_in_month_def)
qed

lemma days_before_year_cycle:
  assumes "0 \<le> r" and "r < 400"
  shows "days_before_year (400 * a + r) + 366 = 146097 * a + 365 * r + (r + 3) div 4 -
    (if 100 < r then if 200 < r then if 300 < r then 3 else 2 else 1 else 0)"
proof -
  have q: "(400 * a + r - 1) div 4 = 100 * a + (r - 1) div 4" "(400 * a + r - 1) div 100 = 4 * a + (r - 1) div 100"
    "(400 * a + r - 1) div 400 = a + (r - 1) div 400"
    using div_mult_self2 [of 4 "r - 1" "100 * a"] div_mult_self2 [of 100 "r - 1" "4 * a"] div_mult_self2 [of 400 "r - 1" a]
    by (simp_all add: algebra_simps)
  have "(r - 1) div 400 = (if r = 0 then -1 else 0)" using assms by auto
  moreover have "(r - 1) div 100 = (if r = 0 then -1 else if 100 < r then if 200 < r then if 300 < r then 3 else 2 else 1 else 0)"
    using assms int_div_pos_eq [of "r - 1" 100 "-1" 99] int_div_pos_eq [of "r - 1" 100 0 "r - 1"]
      int_div_pos_eq [of "r - 1" 100 1 "r - 101"] int_div_pos_eq [of "r - 1" 100 2 "r - 201"]
      int_div_pos_eq [of "r - 1" 100 3 "r - 301"] by (simp split: if_splits)
  moreover have "(r + 3) div 4 = (r - 1) div 4 + 1" by simp
  ultimately show ?thesis by (simp add: days_before_year_def Let_def q)
qed

section \<open>The search for a primitive root\<close>

lemma t3_factors_total:
  assumes "1 \<le> a1" and "list_all (\<lambda>f. 0 < f) fs" and "a2 \<le> int (length fs)"
  shows "\<exists>found a2'. t3_factors a1 v3 i a2 fs = Inr (found, a2') \<and> a2' \<le> a2 \<and>
    (found = None \<or> found = Some v3 \<and> i \<noteq> 1)"
  using assms(2,3)
proof (induction fs arbitrary: i a2)
  case Nil
  then show ?case by (auto simp: t3_factors.simps)
next
  case (Cons f fs)
  then have e: "py_div (a1 - 1) f = Inr ((a1 - 1) div f)" "0 \<le> (a1 - 1) div f"
    using assms(1) by (simp_all add: py_div_def pos_imp_zdiv_nonneg_iff)
  then have "py_pow v3 ((a1 - 1) div f) a1 = Inr (v3 ^ nat ((a1 - 1) div f) mod a1)"
    using assms(1) by (simp add: py_pow_def)
  moreover have "a2 - 1 \<le> int (length fs)" using Cons.prems(2) by simp
  ultimately show ?case
    using Cons.IH [of "a2 - 1" "v3 ^ nat ((a1 - 1) div f) mod a1"] Cons.prems(1) e
    by (fastforce simp: t3_factors.simps [of _ _ _ _ "f # fs"])
qed

lemma t3_search_total:
  assumes "1 \<le> a1" and "list_all (\<lambda>f. 0 < f) a3" and "a2 \<le> int (length a3)" and "2 \<le> v3"
  shows "\<exists>v. t3_search a1 a2 a3 v3 = Inr v \<and> (v = 0 \<or> 2 \<le> v \<and> v ^ nat ((a1 - 1) div 2) mod a1 \<noteq> 1)"
  using assms
proof (induction a1 a2 a3 v3 rule: t3_search.induct)
  case (1 a1 a2 a3 v3)
  define i where "i = v3 ^ nat ((a1 - 1) div 2) mod a1"
  have pw: "py_pow v3 ((a1 - 1) div 2) a1 = Inr i"
    using "1.prems"(1) by (simp add: py_pow_def i_def pos_imp_zdiv_nonneg_iff)
  obtain found a2' where f: "t3_factors a1 v3 i a2 a3 = Inr (found, a2')" "a2' \<le> a2"
    "found = None \<or> found = Some v3 \<and> i \<noteq> 1"
    using t3_factors_total [OF "1.prems"(1-3)] by blast
  show ?case
  proof (cases found)
    case (Some v)
    with f pw "1.prems"(4) show ?thesis by (simp add: t3_search.simps [of a1 a2] i_def)
  next
    case None
    show ?thesis
    proof (cases "v3 + 1 \<le> a1 div 2")
      case True
      have "\<exists>v. t3_search a1 a2' a3 (v3 + 1) = Inr v \<and> (v = 0 \<or> 2 \<le> v \<and> v ^ nat ((a1 - 1) div 2) mod a1 \<noteq> 1)"
        using "1.prems" True f(2) by (intro "1.IH" [OF refl]) simp_all
      with True None f(1) pw show ?thesis by (simp add: t3_search.simps [of a1 a2])
    qed (use None f(1) pw in \<open>simp add: t3_search.simps [of a1 a2]\<close>)
  qed
qed

lemma transform3_total:
  assumes "1 \<le> a1" and "list_all (\<lambda>f. 0 < f) a3" and "a2 \<le> int (length a3)"
  shows "\<exists>v. transform3 a1 a2 a3 = Inr v \<and> (v = 0 \<or> 2 \<le> v \<and> v ^ nat ((a1 - 1) div 2) mod a1 \<noteq> 1)"
  using t3_search_total [OF assms] by (simp add: transform3_def)

text \<open>
  Yet the number found need not be a primitive root: \<open>a2\<close> counts the tests over all candidates. For 191
  and the factors 5 and 19 of 190, the candidate 7 passes the test with 5 and fails the one with 19,
  after which nothing is left to test; the next one that is no square is taken.
\<close>

lemma transform3_not_primitive:
  "transform3 191 2 [5, 19] = Inr 11" "pow_mod 11 38 191 = 1"
  by code_simp+

section \<open>Names\<close>

text \<open>Names: 12 to 18 letters and digits before the top-level domain.\<close>

definition is_bedep_name :: "string \<Rightarrow> bool" where
  "is_bedep_name d \<longleftrightarrow> (let l = take (length d - 4) d in
     d = l @ ''.com'' \<and> 12 \<le> length l \<and> length l \<le> 18 \<and> list_all is_alnum l)"

lemma is_bedep_nameI: "12 \<le> length l \<Longrightarrow> length l \<le> 18 \<Longrightarrow> list_all is_alnum l \<Longrightarrow> is_bedep_name (l @ ''.com'')"
  by (simp add: is_bedep_name_def)

lemma is_bedep_name_hostname: "is_bedep_name d \<Longrightarrow> is_hostname d"
proof -
  assume d: "is_bedep_name d"
  define l where "l = take (length d - 4) d"
  have l: "d = l @ ''.com''" "12 \<le> length l" "length l \<le> 18" "list_all is_alnum l"
    using d by (simp_all add: is_bedep_name_def Let_def l_def)
  moreover have "is_suffix ''com''" by code_simp
  moreover have "l \<noteq> []" using l(2) by auto
  ultimately show ?thesis
    using is_hostname_label_suffix [of l "''com''"] is_label_length [of l "length l"] by simp
qed

lemma get_next_currency_total: "cs \<noteq> [] \<Longrightarrow> \<exists>c'. get_next_currency cs off c = Inr c'"
  by (simp add: get_next_currency_def py_mod_def py_get_mod Let_def)

lemma t11_char_alnum: "is_alnum (t11_char b c math3 a1 n)"
proof -
  have c: "is_alnum (chr (if 0x7a < n + 97 then n + 0x16 else n + 97))" if "0 \<le> n" "n < 36" for n :: int
    using that is_az_chr [of "n + 97"] is_digit_chr [of "n + 22"] by (auto simp: is_alnum_def)
  have d: "is_alnum (chr (if 0x7a < m mod k + ord (CHR ''a'') then m mod k + 0x16 else m mod k + ord (CHR ''a'')))"
    if "k = 0x1a \<or> k = 0x24" for m k :: int
    unfolding ord_a by (rule c) (use that pos_mod_bound [of k m] in auto)
  show ?thesis unfolding t11_char_def Let_def by (rule d) simp
qed

lemma t11_letters_total:
  assumes "cs \<noteq> []"
  shows "\<exists>l. t11_letters k b cs math1 math3 c a1 = Inr l \<and> length l = k \<and> list_all is_alnum l"
proof (induction k arbitrary: c a1)
  case (Suc k)
  obtain c' where c: "get_next_currency cs math1 c = Inr c'" using get_next_currency_total [OF assms] by blast
  from Suc.IH [of c' "(int k XOR ror a1 7 32) AND 0xFFFFFFFF"] show ?case by (auto simp: c t11_char_alnum)
qed simp

lemma transform11_name:
  assumes "bedep_consts b" and "cs \<noteq> []"
  shows "\<exists>d. transform11 b cs a1 = Inr d \<and> is_bedep_name d"
proof -
  have b: "min_domain_len b = 12" "field_14 b = 18" "bedep_tld b = ''.com''" using assms(1) by (simp_all add: bedep_consts_def)
  obtain c where c: "py_get cs 0 = Inr c" using assms(2) by (simp add: py_get_nth)
  define math1 where "math1 = t11_mix (length cs) b c
    (((field_28 b XOR name_bin c) - drop_bit 0x20 (real_rate c)) AND 0xFFFFFFFF) (field_14 b * days_since b)"
  define m where "m = (a1 XOR math1) mod 7"
  have m: "0 \<le> m" "m \<le> 6" using pos_mod_bound [of 7 "a1 XOR math1"] by (simp_all add: m_def)
  obtain l where l: "t11_letters (nat (12 + m)) b cs math1 (0x283 * days_since b) c a1 = Inr l"
    "length l = nat (12 + m)" "list_all is_alnum l"
    using t11_letters_total [OF assms(2)] by blast
  have "transform11 b cs a1 = Inr (l @ ''.com'')"
    using m l(1) by (simp add: transform11_def c Let_def py_mod_def b and_masks m_def math1_def [unfolded b])
  then show ?thesis using is_bedep_nameI l m by auto
qed

lemma bedep_domains_names:
  assumes "bedep_consts b" and "cs \<noteq> []" and "0 \<le> field_8 b" and "field_c b \<noteq> 0"
  shows "\<exists>ds. bedep_domains k cs b = Inr ds \<and> length ds = k \<and> list_all is_bedep_name ds"
  using assms(1,3,4)
proof (induction k arbitrary: b)
  case (Suc k)
  define b' where "b' = b\<lparr>field_4 := field_4 b ^ nat (field_8 b) mod field_c b\<rparr>"
  have b': "bedep_consts b'" "0 \<le> field_8 b'" "field_c b' \<noteq> 0" using Suc.prems by (simp_all add: b'_def bedep_consts_def)
  obtain d where "transform11 b' cs (field_4 b') = Inr d" "is_bedep_name d" using transform11_name [OF b'(1) assms(2)] by blast
  then have "transform10 cs b = Inr (d, b')" "is_bedep_name d"
    using Suc.prems(2,3) by (simp_all add: transform10_def py_pow_ok b'_def)
  with Suc.IH [OF b'] show ?case by auto
qed simp

section \<open>Rates\<close>

text \<open>Rates as \<open>str\<close> prints floats that need no exponent: digits, a point, digits.\<close>

definition rate_text :: "string \<Rightarrow> bool" where
  "rate_text s \<longleftrightarrow> length (py_split (CHR ''.'') s) = 2 \<and>
     list_all (\<lambda>w. w \<noteq> [] \<and> length w \<le> 18 \<and> list_all is_digit w) (py_split (CHR ''.'') s)"

lemma py_int_digits:
  assumes "w \<noteq> []" and "list_all is_digit w"
  shows "py_int w = Inr (int (dec_value w))"
proof -
  have d: "is_digit (hd w)" "is_digit (last w)" using assms by (simp_all add: list_all_iff)
  then have "py_strip w = w" using assms(1) digit_not_special by (intro py_strip_id) auto
  moreover have "parse_sign w = (False, w)"
    using assms(1) d(1) digit_not_special [of "hd w"] by (cases w) (auto simp: parse_sign_def)
  ultimately show ?thesis using assms by (simp add: py_int_def)
qed

lemma float_of_int_total:
  assumes "0 \<le> n" and "n \<le> 10 ^ 18"
  shows "float_of_int n = Inr (fl (of_int n))"
proof -
  have "fl (of_int n) \<le> fl (of_int (2 ^ 60))"
  proof (rule f64.mono)
    have "(10::int) ^ 18 \<le> 2 ^ 60" by simp
    with assms(2) have "n \<le> 2 ^ 60" by linarith
    then show "real_of_int n \<le> of_int (2 ^ 60)" by (simp only: of_int_le_iff)
  qed
  moreover have "fl (of_int (2 ^ 60)) = of_int (2 ^ 60)" unfolding fl_def by (rule fround_fix [of _ 1 60]) simp_all
  moreover have "0 \<le> fl (of_int n)" using assms(1) by (simp add: fl_def fround_nonneg)
  ultimately have "\<bar>fl (of_int n)\<bar> < 2 ^ 1024" by simp
  then show ?thesis by (simp add: float_of_int_def Let_def)
qed

lemma broken_power_is_power:
  assumes "v10 \<noteq> 0" and "1 \<le> n"
  shows "broken_power n v10 v11 = v10 ^ n * (if v11 = 0 then 1 else v11)"
  using assms
proof (induction n v10 v11 rule: broken_power.induct)
  case (1 n v10 v11)
  show ?case
  proof (cases "n \<le> 1")
    case True
    with 1 show ?thesis by (simp add: broken_power.simps)
  next
    case False
    define v where "v = (if odd n then if v11 \<noteq> 0 then v11 * v10 else v10 else v11)"
    have n: "n = 2 * (n div 2) + (if odd n then 1 else 0)" by (cases "odd n") auto
    have "broken_power (n div 2) (v10 * v10) v = (v10 * v10) ^ (n div 2) * (if v = 0 then 1 else v)"
      unfolding v_def using False "1.prems" by (intro "1.IH") auto
    also have "(v10 * v10) ^ (n div 2) = v10 ^ (2 * (n div 2))" by (simp add: power_mult power2_eq_square)
    also have "v10 ^ (2 * (n div 2)) * (if v = 0 then 1 else v) = v10 ^ n * (if v11 = 0 then 1 else v11)"
      using "1.prems"(1) power_minus_mult [of n v10, simplified] by (cases "odd n") (simp_all add: v_def odd_pos)
    finally show ?thesis using False by (simp add: broken_power.simps [of n] v_def)
  qed
qed

lemma broken_float_value:
  assumes "rate_text s"
  obtains a f where "py_split (CHR ''.'') s = [a, f]" "a \<noteq> []" "f \<noteq> []" "length f \<le> 18"
    "list_all is_digit a" "list_all is_digit f"
    "broken_float s = Inr (fl (fl (fl (of_nat (dec_value f)) / fl (10 ^ length f)) + fl (of_nat (dec_value a))))"
proof -
  obtain a f where af: "py_split (CHR ''.'') s = [a, f]"
    using assms by (auto simp: rate_text_def length_Suc_conv numeral_2_eq_2)
  with assms have w: "a \<noteq> []" "length a \<le> 18" "list_all is_digit a" "f \<noteq> []" "length f \<le> 18" "list_all is_digit f"
    by (simp_all add: rate_text_def)
  have bound: "int (dec_value w) \<le> 10 ^ 18" if "list_all is_digit w" "length w \<le> 18" for w
  proof -
    have "dec_value w \<le> 10 ^ length w" using dec_value_less [OF that(1)] by simp
    also have "\<dots> \<le> 10 ^ 18" using that(2) by (intro power_increasing) simp_all
    finally have "int (dec_value w) \<le> int (10 ^ 18)" by (simp only: of_nat_le_iff)
    then show ?thesis by simp
  qed
  have "(10::int) ^ length f \<le> 10 ^ 18" using w(5) by (intro power_increasing) simp_all
  moreover have "broken_power (length f) 10 0 = 10 ^ length f" using w(4) by (simp add: broken_power_is_power Suc_le_eq)
  ultimately have "broken_float s = Inr (fl (fl (fl (of_nat (dec_value f)) / fl (10 ^ length f)) + fl (of_nat (dec_value a))))"
    using w bound by (simp add: broken_float_def af py_int_digits float_of_int_total)
  with af w show ?thesis using that by blast
qed

text \<open>What the script needs of the random numbers of a run.\<close>

definition bedep_draw_ok :: "bedep_draw \<Rightarrow> bool" where
  "bedep_draw_ok dr \<longleftrightarrow>
     list_all (\<lambda>k. 0 \<le> fst (drawn_rates dr k) \<and> fst (drawn_rates dr k) < 32 \<and> rate_text (snd (drawn_rates dr k))) [0..<48]"

lemma parse_currency_total:
  assumes "length name = 3" and "rate_text s"
  shows "\<exists>c. parse_currency name s = Inr c"
proof -
  obtain x where "broken_float s = Inr x" using broken_float_value [OF assms(2)] by metis
  moreover have "length (ascii_bytes name @ [0]) = 4" using assms(1) by (simp add: ascii_bytes_def)
  ultimately show ?thesis by (simp add: parse_currency_def unpack_le_def Let_def)
qed

lemma rmap_total: "(\<And>x. x \<in> set xs \<Longrightarrow> \<exists>y. f x = Inr y) \<Longrightarrow> \<exists>ys. rmap f xs = Inr ys \<and> length ys = length xs"
proof (induction xs)
  case (Cons x xs)
  obtain y ys where "f x = Inr y" "rmap f xs = Inr ys" "length ys = length xs" using Cons by fastforce
  then show ?case by simp
qed simp

lemma get_currencies_total:
  assumes "max_currencies (config b) \<le> 48" and "0 < max_currencies (config b)" and "bedep_draw_ok dr"
  shows "\<exists>cs. get_currencies b (drawn_rates dr) = Inr cs \<and> cs \<noteq> []"
proof -
  have names: "list_all (\<lambda>w. length w = 3) currency_names" "length currency_names = 32" by code_simp+
  have "\<exists>c. rbind (py_get currency_names (fst (drawn_rates dr k))) (\<lambda>name. parse_currency name (snd (drawn_rates dr k))) = Inr c"
    if "k \<in> set [0..<nat (max_currencies (config b))]" for k
  proof -
    have k: "0 \<le> fst (drawn_rates dr k)" "fst (drawn_rates dr k) < 32" "rate_text (snd (drawn_rates dr k))"
      using that assms(1,3) by (auto simp: bedep_draw_ok_def list_all_iff)
    then have "py_get currency_names (fst (drawn_rates dr k)) = Inr (currency_names ! nat (fst (drawn_rates dr k)))"
      by (simp add: py_get_nth names(2))
    moreover have "length (currency_names ! nat (fst (drawn_rates dr k))) = 3"
      using names k(1,2) by (simp add: list_all_length nat_less_iff)
    ultimately show ?thesis using parse_currency_total [OF _ k(3)] by simp
  qed
  then have "\<exists>cs. get_currencies b (drawn_rates dr) = Inr cs \<and> length cs = length [0..<nat (max_currencies (config b))]"
    unfolding get_currencies_def by (rule rmap_total)
  with assms(2) show ?thesis by auto
qed

text \<open>The error of a rounding: relative to the number, or below any small power of two.\<close>

lemma fl_error_below:
  assumes "\<bar>x\<bar> < 2 powi k" and "- 1000 \<le> k"
  shows "\<bar>fl x - x\<bar> \<le> 2 powi (k - 54)"
proof (cases "x = 0")
  case False
  then have "2 powi \<lfloor>log 2 \<bar>x\<bar>\<rfloor> < (2 powi k :: real)" using log2_floor(1) [of "\<bar>x\<bar>"] assms(1) by simp
  then have "\<lfloor>log 2 \<bar>x\<bar>\<rfloor> < k" using powi_mono [of k "\<lfloor>log 2 \<bar>x\<bar>\<rfloor>"] by (meson not_le)
  then have "quantum 53 (-1074) x \<le> k - 53" using assms(2) by (simp add: quantum_def)
  then have "(2::real) powi quantum 53 (-1074) x \<le> 2 powi (k - 53)" by (rule powi_mono)
  moreover have "(2::real) powi (k - 53) = 2 * 2 powi (k - 54)" using power_int_add_1 [of "2::real" "k - 54"] by simp
  ultimately show ?thesis using fround_error [OF False, of 53 "-1074"] by (simp add: fl_def)
qed simp

lemma fl_error_relative:
  assumes "\<bar>x\<bar> \<le> y" and "1 \<le> y"
  shows "\<bar>fl x - x\<bar> \<le> y * 2 powi (-53)"
proof (cases "x = 0")
  case False
  have "(2::real) powi quantum 53 (-1074) x \<le> y * 2 powi (-52)"
  proof (cases "quantum 53 (-1074) x = -1074")
    case True
    have "(2::real) powi (-1074) \<le> 2 powi (-52)" by (rule powi_mono) simp
    also have "\<dots> \<le> y * 2 powi (-52)" using assms(2) by simp
    finally show ?thesis by (simp only: True)
  next
    case False
    then have "quantum 53 (-1074) x = \<lfloor>log 2 \<bar>x\<bar>\<rfloor> + (-52)" by (simp add: quantum_def max_def split: if_splits)
    moreover have "(2::real) powi (\<lfloor>log 2 \<bar>x\<bar>\<rfloor> + (-52)) = 2 powi \<lfloor>log 2 \<bar>x\<bar>\<rfloor> * 2 powi (-52)"
      by (rule power_int_add) (rule disjI1, simp)
    ultimately have "(2::real) powi quantum 53 (-1074) x = 2 powi \<lfloor>log 2 \<bar>x\<bar>\<rfloor> * 2 powi (-52)" by (simp only:)
    also have "\<dots> \<le> y * 2 powi (-52)"
      using log2_floor(1) [of "\<bar>x\<bar>"] \<open>x \<noteq> 0\<close> assms(1) by (intro mult_right_mono) simp_all
    finally show ?thesis .
  qed
  moreover have "(2::real) powi (-52) = 2 * 2 powi (-53)" using power_int_add_1 [of "2::real" "-53"] by simp
  ultimately show ?thesis using fround_error [OF False, of 53 "-1074"] by (simp add: fl_def)
qed (use assms in simp)

lemma dec_value_exact: "list_all is_digit w \<Longrightarrow> length w \<le> 15 \<Longrightarrow> fl (of_nat (dec_value w)) = of_nat (dec_value w)"
proof -
  assume w: "list_all is_digit w" "length w \<le> 15"
  have "dec_value w < 10 ^ length w" by (rule dec_value_less [OF w(1)])
  also have "(10::nat) ^ length w \<le> 10 ^ 15" using w(2) by (intro power_increasing) simp_all
  finally have "dec_value w \<le> 2 ^ 53" by simp
  then show ?thesis by (rule f64.nat_exact)
qed

definition short_rate :: "string \<Rightarrow> bool" where
  "short_rate s \<longleftrightarrow> rate_text s \<and> list_all (\<lambda>w. length w \<le> 15) (py_split (CHR ''.'') s)"

definition rate_value :: "string \<Rightarrow> real" where
  "rate_value s = (let w = py_split (CHR ''.'') s in
     of_nat (dec_value (w ! 0)) + of_nat (dec_value (w ! 1)) / 10 ^ length (w ! 1))"

section \<open>Properties\<close>

text \<open>\<open>get_days_since\<close>, called with the month and the day counted from 0, gives the day number of the proleptic
  Gregorian calendar counted from the first day of the year 0: it is a year more than Python's ordinal of the
  date, for every date of Python's calendar and without the error of a month the comment speaks of.\<close>

lemma get_days_since_ordinal:
  assumes "is_datetime d"
  shows "get_days_since (year d) (month d - 1) (day d - 1) = to_ordinal d + 365"
proof -
  define y m a r where "y = year d" and "m = month d" and "a = y div 400" and "r = y mod 400"
  have r: "0 \<le> r" "r < 400" "400 * a + r = y" by (simp_all add: r_def a_def)
  have leap: "is_leap y \<longleftrightarrow> \<not> (r \<noteq> 0 \<and> (r AND 3 \<noteq> 0 \<or> r = 100 \<or> r = 200 \<or> r = 300))"
  proof -
    have "y mod 4 = r mod 4" "y mod 100 = r mod 100" by (simp_all add: r_def mod_mod_cancel)
    moreover have "r mod 100 = 0 \<longleftrightarrow> r = 0 \<or> r = 100 \<or> r = 200 \<or> r = 300" using r(1,2) by presburger
    ultimately show ?thesis by (auto simp: is_leap_def and_masks r_def [symmetric])
  qed
  define c where "c = (if 100 < r then if 200 < r then if 300 < r then 3 else 2 else 1 else (0::int))"
  have v5: "(if 100 < r then if 200 < r then if 300 < r then x - 3 else x - 2 else x - 1 else x) = x - c" for x
    by (simp add: c_def)
  have lf: "(if r \<noteq> 0 \<and> (r AND 3 \<noteq> 0 \<or> r = 100 \<or> r = 200 \<or> r = 300) then u - 1 else u) = (if is_leap y then u else u - 1)" for u
    unfolding leap by simp
  have "1 \<le> m" "m \<le> 12" using is_datetime_bounds [OF assms] by (simp_all add: m_def)
  then consider "m = 1" | "m = 2" | "m \<in> {3..12}" by fastforce
  then have "31 * (m - 1) - (if 8 \<le> m - 1 then m - 2 else m - 1) div 2 -
      (if 1 < (if 8 \<le> m - 1 then m - 2 else m - 1) then if is_leap y then 1 else 2 else 0) = days_before_month y m"
  proof cases
    case 3
    from month_cases [OF this] show ?thesis unfolding days_before_month_table(3) [OF 3] by (elim disjE) simp_all
  qed (simp_all add: days_before_month_table(1,2))
  moreover have "days_before_year y + 366 = 146097 * a + 365 * r + (r + 3) div 4 - c"
    using days_before_year_cycle [OF r(1,2), of a] unfolding r(3) c_def .
  ultimately show ?thesis
    unfolding get_days_since_def Let_def to_ordinal_def y_def [symmetric] m_def [symmetric] r_def [symmetric] a_def [symmetric] v5 lf
    by (cases "is_leap y"; simp split: if_splits)
qed

lemma get_days_since_ordinal_example: "get_days_since 2020 1 28 = 737484 + 365"
proof -
  have "to_ordinal \<lparr>year = 2020, month = 2, day = 29, hour = 1, minute = 0\<rparr> = 737484" by code_simp
  then show ?thesis
    using get_days_since_ordinal [of "\<lparr>year = 2020, month = 2, day = 29, hour = 1, minute = 0\<rparr>"]
    by (simp add: is_datetime_def days_in_month_def is_leap_def)
qed

text \<open>\<open>broken_float\<close> reads a rate of at most 15 digits before and after the point with an error below one unit
  in the last place of the number after it: the quotient and the sum are rounded, nothing else.\<close>

lemma broken_float_error:
  assumes "short_rate s"
  shows "\<exists>x. broken_float s = Inr x \<and> \<bar>x - rate_value s\<bar> \<le> (rate_value s + 1) * 2 powi (-52)"
proof -
  have "rate_text s" using assms by (simp add: short_rate_def)
  then obtain a f where w: "py_split (CHR ''.'') s = [a, f]" "list_all is_digit a" "list_all is_digit f"
    "broken_float s = Inr (fl (fl (fl (of_nat (dec_value f)) / fl (10 ^ length f)) + fl (of_nat (dec_value a))))"
    by (rule broken_float_value)
  have len: "length a \<le> 15" "length f \<le> 15" using assms by (simp_all add: short_rate_def w(1))
  define A F N where "A = real (dec_value a)" and "F = real (dec_value f)" and "N = (10::real) ^ length f"
  have ten: "fl N = N"
  proof -
    have "(10::nat) ^ length f \<le> 10 ^ 15" using len(2) by (intro power_increasing) simp_all
    then have "(10::nat) ^ length f \<le> 2 ^ 53" by simp
    from f64.nat_exact [OF this] show ?thesis by (simp add: N_def)
  qed
  have "dec_value f < 10 ^ length f" by (rule dec_value_less [OF w(3)])
  then have "F < N" unfolding F_def N_def by (metis of_nat_less_iff of_nat_numeral of_nat_power)
  then have q: "0 \<le> F / N" "F / N < 1" by (simp_all add: F_def N_def)
  define r where "r = fl (F / N)"
  have r: "\<bar>r - F / N\<bar> \<le> 2 powi (-54)" using fl_error_below [of "F / N" 0] q by (simp add: r_def)
  have A: "0 \<le> A" by (simp add: A_def)
  have small: "(2::real) powi (-54) \<le> 2 powi (-53) / 2" using power_int_add_1 [of "2::real" "-54"] by simp
  have "(2::real) powi (-53) \<le> 2 powi (-2)" by (rule powi_mono) simp
  moreover have "(2::real) powi (-2) = 1 / 4" by (simp add: power_int_minus)
  ultimately have tiny: "(2::real) powi (-53) \<le> 1 / 4" by (simp only:)
  have "\<bar>r + A\<bar> \<le> A + F / N + 1 / 4" using r small tiny q(1) A by linarith
  then have "\<bar>fl (r + A) - (r + A)\<bar> \<le> (A + F / N + 5 / 4) * 2 powi (-53)" using q(1) A by (intro fl_error_relative) linarith+
  then have "\<bar>fl (r + A) - (A + F / N)\<bar> \<le> (A + F / N + 5 / 4) * 2 powi (-53) + 2 powi (-53) / 2" using r small by linarith
  also have "\<dots> = (A + F / N + 7 / 4) * 2 powi (-53)"
    using distrib_right [of "A + F / N + 5 / 4" "1 / 2" "2 powi (-53)"] by (simp only: add.assoc) simp
  also have "\<dots> \<le> ((A + F / N + 1) * 2) * 2 powi (-53)" using q(1) A by (intro mult_right_mono) simp_all
  also have "\<dots> = (A + F / N + 1) * 2 powi (-52)" using power_int_add_1 [of "2::real" "-53"] by simp
  finally have "\<bar>fl (r + A) - rate_value s\<bar> \<le> (rate_value s + 1) * 2 powi (-52)"
    by (simp add: rate_value_def w(1) A_def F_def N_def)
  moreover have "broken_float s = Inr (fl (r + A))"
    using w(4) dec_value_exact [OF w(2) len(1)] dec_value_exact [OF w(3) len(2)] ten by (simp add: r_def A_def F_def N_def)
  ultimately show ?thesis by blast
qed

lemma broken_float_error_example:
  "\<exists>x. broken_float ''12345.0678'' = Inr x \<and> \<bar>x - rate_value ''12345.0678''\<bar> \<le> (rate_value ''12345.0678'' + 1) * 2 powi (-52)"
proof -
  have "short_rate ''12345.0678''" by code_simp
  then show ?thesis by (rule broken_float_error)
qed

end
