(* ===== verification/Bedep_Tables.thy ===== *)
theory Bedep_Tables
  imports Gen_Bedep
begin

text \<open>
  The tables of bedep: how \<open>transform2\<close> reads a table, the list of primes and factors that the seven tables of the
  repository hide under their masks, and that every one of them gives back that list (but for one factor
  that does not fit into the shorter rows).
\<close>

section \<open>Reading the table\<close>

lemma concat_uniform:
  assumes "\<forall>r \<in> set t. length r = n" and "j < n * length t"
  shows "concat t ! j = t ! (j div n) ! (j mod n)"
  using assms
proof (induction t arbitrary: j)
  case (Cons r t)
  show ?case
  proof (cases "j < n")
    case False
    with Cons.prems have "0 < n" by auto
    with False Cons.prems Cons.IH [of "j - n"] show ?thesis
      by (simp add: nth_append le_div_geq le_mod_geq)
  qed (use Cons.prems in \<open>simp add: nth_append\<close>)
qed simp

lemma length_concat_uniform: "\<forall>r \<in> set t. length r = n \<Longrightarrow> length (concat t) = n * length t"
  by (induction t) simp_all

text \<open>The cell number \<open>j\<close> from the start of row \<open>i\<close> on, in rows of length \<open>n\<close>.\<close>

definition cell :: "nat \<Rightarrow> nat \<Rightarrow> nat \<Rightarrow> int \<times> int" where
  "cell n i j = (int (i + j div n), int (j mod n))"

lemma table_cell_concat:
  assumes "\<forall>r \<in> set t. length r = n" and "j < length (concat (drop i t))"
  shows "table_cell t (cell n i j) = Inr (concat (drop i t) ! j)"
proof -
  have u: "\<forall>r \<in> set (drop i t). length r = n" using assms(1) set_drop_subset [of i t] by blast
  then have j: "j < n * (length t - i)" using assms(2) length_concat_uniform [OF u] by simp
  then have "0 < n" "j div n < length t - i" by (auto simp: mult.commute intro: Nat.gr0I less_mult_imp_div_less)
  moreover have "concat (drop i t) ! j = t ! (i + j div n) ! (j mod n)"
    using concat_uniform [OF u] j \<open>j div n < length t - i\<close> by simp
  moreover have "length (t ! (i + j div n)) = n" using assms(1) \<open>j div n < length t - i\<close> by simp
  ultimately show ?thesis
    by (simp add: table_cell_def cell_def py_get_nth flip: of_nat_add)
qed

lemma next_cell_Suc: "length row = n \<Longrightarrow> 0 < n \<Longrightarrow> next_cell row (cell n i j) = cell n i (Suc j)"
  by (auto simp: next_cell_def cell_def div_Suc mod_Suc)

section \<open>What the table says\<close>

text \<open>
  A table \<open>encodes\<close> a list of primes with factors if reading it gives them: the factors of an entry that
  is too short for them go on with the cells of the next one.
\<close>

fun encodes :: "bedep_dga \<Rightarrow> nat \<Rightarrow> int \<Rightarrow> int list list \<Rightarrow> (int \<times> int list) list \<Rightarrow> bool" where
  "encodes b n i [] gs \<longleftrightarrow> gs = []"
| "encodes b n i (r # rs) [] \<longleftrightarrow> False"
| "encodes b n i (r # rs) (g # gs) \<longleftrightarrow>
     (let s = concat (take 2 (r # rs)); k = length (snd g) in
      length r = n \<and> 2 + k < length s \<and> decode_prime b (r ! 0) = fst g \<and> decode_count b (r ! 1) = int k \<and>
      map (decode_factor b i) (take k (drop 2 s)) = snd g \<and> encodes b n (i + 1) rs gs)"

definition is_hit :: "int \<Rightarrow> bool" where
  "is_hit f \<longleftrightarrow> 23 \<le> f \<and> f \<le> 29"

fun hits :: "int \<Rightarrow> (int \<times> int list) list \<Rightarrow> (int \<times> int) list" where
  "hits i [] = []"
| "hits i (g # gs) = map (Pair i) (filter is_hit (snd g)) @ hits (i + 1) gs"

definition flat_hits :: "(int \<times> int) list \<Rightarrow> int list" where
  "flat_hits hs = concat (map (\<lambda>(i, f). [i, f]) hs)"

lemma flat_hits_append: "flat_hits (hs @ hs') = flat_hits hs @ flat_hits hs'"
  by (simp add: flat_hits_def)

lemma t2_scan_cells:
  assumes "bedep_consts b" and "\<forall>r \<in> set (transform2_table b). length r = n" and "length row = n" and "0 < n"
    and "j + k < length (concat (drop i (transform2_table b)))"
    and "x + int (length (filter is_hit (map (decode_factor b (int i)) (take k (drop j (concat (drop i (transform2_table b)))))))) \<le> 0xa8"
  shows "t2_scan b (int i) row k (cell n i j) (concat (drop i (transform2_table b)) ! j) x v20 =
    (let fs = filter is_hit (map (decode_factor b (int i)) (take k (drop j (concat (drop i (transform2_table b))))))
     in Inr (x + int (length fs), v20 @ flat_hits (map (Pair (int i)) fs)))"
  using assms(5,6)
proof (induction k arbitrary: j x v20)
  case (Suc k)
  let ?s = "concat (drop i (transform2_table b))"
  have c: "field_18 b = 22" "field_1c b = 28" using assms(1) by (simp_all add: bedep_consts_def)
  have hit: "22 \<le> f - 1 \<and> f - 1 \<le> 28 \<longleftrightarrow> is_hit f" for f by (auto simp: is_hit_def)
  have tk: "take (Suc k) (drop j ?s) = ?s ! j # take k (drop (Suc j) ?s)"
    using Suc.prems(1) by (simp flip: Cons_nth_drop_Suc)
  have "table_cell (transform2_table b) (next_cell row (cell n i j)) = Inr (?s ! Suc j)"
    using Suc.prems(1) by (simp add: next_cell_Suc assms(3,4) table_cell_concat [OF assms(2)])
  moreover define d where "d = decode_factor b (int i) (?s ! j)"
  ultimately have step: "t2_scan b (int i) row (Suc k) (cell n i j) (?s ! j) x v20 =
      (if is_hit d then if 0xa8 \<le> x then Inr (x, v20)
         else t2_scan b (int i) row k (cell n i (Suc j)) (?s ! Suc j) (x + 1) (v20 @ [int i, d])
       else t2_scan b (int i) row k (cell n i (Suc j)) (?s ! Suc j) x v20)"
    by (simp only: t2_scan.simps Let_def rbind.simps next_cell_Suc [OF assms(3,4)] c hit)
  show ?case
    unfolding step using Suc.prems Suc.IH [of "Suc j"]
    by (cases "is_hit d") (simp_all add: tk d_def [symmetric] Let_def flat_hits_def del: filter_map length_filter_map)
qed (simp add: flat_hits_def)

text \<open>The factors of one entry, and all entries.\<close>

lemma concat_take2: "j < length (concat (take 2 rs)) \<Longrightarrow> concat rs ! j = concat (take 2 rs) ! j"
  and take_concat_take2: "k \<le> length (concat (take 2 rs)) \<Longrightarrow> take k (concat rs) = take k (concat (take 2 rs))"
proof -
  have "concat rs = concat (take 2 rs) @ concat (drop 2 rs)" by (simp flip: concat_append)
  then show "j < length (concat (take 2 rs)) \<Longrightarrow> concat rs ! j = concat (take 2 rs) ! j"
    "k \<le> length (concat (take 2 rs)) \<Longrightarrow> take k (concat rs) = take k (concat (take 2 rs))"
    by (simp_all add: nth_append)
qed

lemma encodes_entry:
  assumes "encodes b n (int i) (drop i t) gs" and "i < length t" and "2 < n"
  obtains g gs' where "gs = g # gs'" "encodes b n (int (Suc i)) (drop (Suc i) t) gs'" "length (t ! i) = n"
    "decode_prime b (t ! i ! 0) = fst g" "decode_count b (t ! i ! 1) = int (length (snd g))"
    "2 + length (snd g) < length (concat (drop i t))"
    "map (decode_factor b (int i)) (take (length (snd g)) (drop 2 (concat (drop i t)))) = snd g"
proof (cases gs)
  case Nil
  with assms show ?thesis by (simp flip: Cons_nth_drop_Suc)
next
  case (Cons g gs')
  let ?s = "concat (take 2 (drop i t))" and ?k = "length (snd g)"
  have d: "drop i t = t ! i # drop (Suc i) t" using assms(2) by (simp add: Cons_nth_drop_Suc)
  have "encodes b n (int i) (t ! i # drop (Suc i) t) (g # gs')" using assms(1) Cons d by simp
  note this [unfolded encodes.simps Let_def, folded d]
  then have e: "length (t ! i) = n" "2 + ?k < length ?s" "decode_prime b (t ! i ! 0) = fst g"
    "decode_count b (t ! i ! 1) = int ?k" "map (decode_factor b (int i)) (take ?k (drop 2 ?s)) = snd g"
    "encodes b n (int i + 1) (drop (Suc i) t) gs'"
    by blast+
  have i: "int i + 1 = int (Suc i)" by simp
  have "take (?k + 2) (concat (drop i t)) = take (?k + 2) ?s" using e(2) by (intro take_concat_take2) simp
  then have "take ?k (drop 2 (concat (drop i t))) = take ?k (drop 2 ?s)" by (simp add: take_drop)
  moreover have "2 + ?k < length (concat (drop i t))"
    using e(2) arg_cong [OF append_take_drop_id [of 2 "drop i t"], of "\<lambda>l. length (concat l)"] by simp
  ultimately show ?thesis using that [OF Cons] e unfolding i by simp
qed

lemma encodes_uniform: "encodes b n i t gs \<Longrightarrow> (\<forall>r \<in> set t. length r = n) \<and> length gs = length t"
  by (induction b n i t gs rule: encodes.induct) (auto simp: Let_def)

lemma row_starts:
  assumes "\<forall>r \<in> set t. length r = n" and "i < length t" and "2 < n"
  shows "py_get t (int i) = Inr (t ! i)" "py_get (t ! i) 0 = Inr (t ! i ! 0)" "py_get (t ! i) 1 = Inr (t ! i ! 1)"
    "table_cell t (int i, 2) = Inr (concat (drop i t) ! 2)" "(int i, 2) = cell n i 2"
proof -
  have "length (t ! i) = n" using assms(1,2) by simp
  then show "py_get t (int i) = Inr (t ! i)" "py_get (t ! i) 0 = Inr (t ! i ! 0)" "py_get (t ! i) 1 = Inr (t ! i ! 1)"
    using assms(2,3) by (simp_all add: py_get_nth)
  have "concat (drop i t) ! 2 = t ! i ! 2"
    using assms(2,3) \<open>length (t ! i) = n\<close> by (simp add: nth_append flip: Cons_nth_drop_Suc)
  then show "table_cell t (int i, 2) = Inr (concat (drop i t) ! 2)"
    using assms(2,3) \<open>length (t ! i) = n\<close> by (simp add: table_cell_def py_get_nth)
  show "(int i, 2) = cell n i 2" using assms(3) by (simp add: cell_def)
qed

lemma t2_entries_hits:
  assumes "bedep_consts b" and "\<forall>r \<in> set (transform2_table b). length r = n" and "2 < n"
    and "encodes b n (int i) (drop i (transform2_table b)) gs" and "i + length gs = length (transform2_table b)"
    and "x + int (length (hits (int i) gs)) \<le> 0xa8"
  shows "t2_entries b (length gs) (int i) x v20 =
    Inr (x + int (length (hits (int i) gs)), v20 @ flat_hits (hits (int i) gs))"
  using assms(4-6)
proof (induction gs arbitrary: i x v20)
  case (Cons g gs)
  let ?t = "transform2_table b"
  have i: "i < length ?t" using Cons.prems(2) by simp
  have e: "encodes b n (int (Suc i)) (drop (Suc i) ?t) gs" "length (?t ! i) = n"
    "decode_count b (?t ! i ! 1) = int (length (snd g))" "2 + length (snd g) < length (concat (drop i ?t))"
    "map (decode_factor b (int i)) (take (length (snd g)) (drop 2 (concat (drop i ?t)))) = snd g"
    using encodes_entry [OF Cons.prems(1) i assms(3)] by blast+
  have Suc: "int i + 1 = int (Suc i)" by simp
  note start = row_starts [OF assms(2) i assms(3)]
  have "t2_scan b (int i) (?t ! i) (length (snd g)) (int i, 2) (concat (drop i ?t) ! 2) x v20 =
      Inr (x + int (length (filter is_hit (snd g))), v20 @ flat_hits (map (Pair (int i)) (filter is_hit (snd g))))"
    using t2_scan_cells [OF assms(1,2) e(2) _ e(4), of x v20] assms(3) Cons.prems(3) unfolding start(5)
    by (simp only: e(5) Let_def) simp
  then show ?case
    using Cons.IH [OF e(1), of "x + int (length (filter is_hit (snd g)))"
        "v20 @ flat_hits (map (Pair (int i)) (filter is_hit (snd g)))"] Cons.prems(2,3)
    by (simp add: start(1,3,4) e(3) [unfolded One_nat_def] flat_hits_append Suc del: of_nat_Suc)
qed (simp add: flat_hits_def)

lemma t2_factors_cells:
  assumes "\<forall>r \<in> set (transform2_table b). length r = n" and "length row = n" and "0 < n"
    and "j + k < length (concat (drop i (transform2_table b)))"
  shows "t2_factors b (int i) row k (cell n i j) (concat (drop i (transform2_table b)) ! j) v22 =
    Inr (v22 @ map (decode_factor b (int i)) (take k (drop j (concat (drop i (transform2_table b))))))"
  using assms(4)
proof (induction k arbitrary: j v22)
  case (Suc k)
  let ?s = "concat (drop i (transform2_table b))"
  have tk: "take (Suc k) (drop j ?s) = ?s ! j # take k (drop (Suc j) ?s)"
    using Suc.prems by (simp flip: Cons_nth_drop_Suc)
  have "table_cell (transform2_table b) (next_cell row (cell n i j)) = Inr (?s ! Suc j)"
    using Suc.prems by (simp add: next_cell_Suc assms(2,3) table_cell_concat [OF assms(1)])
  with Suc.prems Suc.IH [of "Suc j"] show ?case
    by (simp add: tk next_cell_Suc assms(2,3) Let_def)
qed simp

lemma encodes_drop:
  assumes "encodes b n 0 t gs" and "2 < n" and "i \<le> length t"
  shows "encodes b n (int i) (drop i t) (drop i gs)"
  using assms(3)
proof (induction i)
  case (Suc i)
  then have i: "encodes b n (int i) (drop i t) (drop i gs)" "i < length t" by simp_all
  from encodes_entry [OF i assms(2)] obtain g gs' where
    "drop i gs = g # gs'" "encodes b n (int (Suc i)) (drop (Suc i) t) gs'" by metis
  then show ?case by (metis drop_Suc tl_drop list.sel(3))
qed (use assms(1) in simp)

lemma flat_hits_nth:
  assumes "j < length hs"
  shows "flat_hits hs ! (2 * j) = fst (hs ! j)" "flat_hits hs ! (2 * j + 1) = snd (hs ! j)"
proof -
  let ?t = "map (\<lambda>(i, f). [i, f]) hs"
  have u: "\<forall>r \<in> set ?t. length r = 2" by auto
  show "flat_hits hs ! (2 * j) = fst (hs ! j)" "flat_hits hs ! (2 * j + 1) = snd (hs ! j)"
    unfolding flat_hits_def
    by (subst concat_uniform [OF u], use assms in simp, use assms in \<open>simp add: case_prod_unfold\<close>)+
qed

lemma length_flat_hits [simp]: "length (flat_hits hs) = 2 * length hs"
  by (induction hs) (auto simp: flat_hits_def)

lemma hits_index: "(i, f) \<in> set (hits k gs) \<Longrightarrow> k \<le> i \<and> i < k + int (length gs) \<and> is_hit f"
  by (induction k gs rule: hits.induct) auto

definition table_for :: "bedep_dga \<Rightarrow> nat \<Rightarrow> (int \<times> int list) list \<Rightarrow> bool" where
  "table_for b n gs \<longleftrightarrow> bedep_consts b \<and> 2 < n \<and> length gs = 102 \<and> encodes b n 0 (transform2_table b) gs \<and>
     hits 0 gs \<noteq> [] \<and> length (hits 0 gs) \<le> 0xa8"

lemma transform2_decodes:
  assumes "table_for b n gs"
  shows "transform2 b a1 =
    (let h = pick (hits 0 gs) a1; g = gs ! nat (fst h)
     in rbind (transform3 (fst g) (int (length (snd g))) (snd g)) (\<lambda>v. Inr (fst g, v, snd h)))"
proof -
  let ?t = "transform2_table b"
  define hs j i where "hs = hits 0 gs" and "j = nat (a1 mod int (length hs))" and "i = nat (fst (hs ! j))"
  have c: "bedep_consts b" "2 < n" "length gs = 102" "encodes b n 0 ?t gs" "hs \<noteq> []" "length hs \<le> 0xa8"
    using assms by (simp_all add: table_for_def hs_def)
  have u: "\<forall>r \<in> set ?t. length r = n" "length ?t = 102" using encodes_uniform [OF c(4)] c(3) by simp_all
  have j: "a1 mod int (length hs) = int j" "j < length hs" using c(5) by (simp_all add: j_def nat_less_iff)
  have "(fst (hs ! j), snd (hs ! j)) \<in> set (hits 0 gs)" using j(2) by (simp add: hs_def)
  from hits_index [OF this] have i: "fst (hs ! j) = int i" "i < length ?t" using c(3) u(2) by (simp_all add: i_def nat_less_iff)
  have "i \<le> length ?t" using i(2) by simp
  from encodes_drop [OF c(4,2) this] have "encodes b n (int i) (drop i ?t) (drop i gs)" .
  from encodes_entry [OF this i(2) c(2)] obtain g gs' where g: "drop i gs = g # gs'" "length (?t ! i) = n"
    "decode_prime b (?t ! i ! 0) = fst g" "decode_count b (?t ! i ! 1) = int (length (snd g))"
    "2 + length (snd g) < length (concat (drop i ?t))"
    "map (decode_factor b (int i)) (take (length (snd g)) (drop 2 (concat (drop i ?t)))) = snd g" by metis
  have gi: "gs ! i = g" using g(1) by (metis nth_via_drop)
  note start = row_starts [OF u(1) i(2) c(2)]
  have "t2_factors b (int i) (?t ! i) (length (snd g)) (int i, 2) (concat (drop i ?t) ! 2) [] = Inr (snd g)"
    using t2_factors_cells [OF u(1) g(2) _ g(5), of "[]"] c(2) unfolding start(5) g(6) by simp
  moreover have "t2_entries b 102 0 0 [] = Inr (int (length hs), flat_hits hs)"
    using t2_entries_hits [OF c(1) u(1) c(2), of 0 gs 0 "[]"] c u(2) by (simp add: hs_def)
  moreover have "py_get (flat_hits hs) (int j * 2) = Inr (int i)" "py_get (flat_hits hs) (int j * 2 + 1) = Inr (snd (hs ! j))"
    using j(2) flat_hits_nth [OF j(2)] i(1) by (simp_all add: py_get_nth nat_add_distrib nat_mult_distrib mult.commute)
  ultimately show ?thesis
    using c(5) unfolding pick_def hs_def [symmetric] j(1) nat_int
    by (simp add: transform2_def py_mod_def j(1) start(1-4) g(3,4) [unfolded One_nat_def] i(1) gi Let_def)
qed

section \<open>The tables of the repository\<close>

text \<open>
  The seven tables hide the same list of primes: a factor \<open>f\<close> of the entry \<open>i\<close> is stored as
  \<open>0x281 * ((f + i) ^ value2)\<close> modulo \<open>2 ^ 32\<close>, and \<open>0x281 * 0x663d81 = 2 ^ 32 + 1\<close>. A row starts with its
  prime and the number of factors, and shows as many cells as the rows are long.
\<close>

definition bedep_groups_1 :: "(int \<times> int list) list" where
  "bedep_groups_1 =
     [(4222135637, [29, 2971, 12251]), (4222133789, [37, 61, 467671]), (4222135019, [73, 28918733]),
      (4222135609, [53, 3, 3319289]), (4222135007, [103, 20495801]), (4222135579, [19, 29, 3, 1277113]),
      (4222134473, [23, 271, 84673]), (4222133701, [53, 3, 5, 265543]), (4222135573, [17, 3, 353, 58631]),
      (4222134443, [53, 39831457]), (4222134901, [31, 41, 3, 5, 3691]), (4222135493, [109, 673, 14389]),
      (4222134887, [23, 61, 1504681]), (4222134883, [29, 3, 7, 18341]), (4222135409, [79, 3340297]),
      (4222133623, [43, 3, 7, 509, 1531]), (4222135397, [31, 47, 53, 13669]),
      (4222135391, [113, 5, 11, 339673]), (4222134751, [37, 3, 5, 233, 653]),
      (4222134289, [23, 73, 3, 5821]), (4222134727, [73, 3, 132049]), (4222133491, [29, 3, 5, 157, 30911]),
      (4222134139, [43, 71, 83, 3, 2777]), (4222135297, [97, 3, 4723]), (4222134677, [37, 28527937]),
      (4222134053, [43, 331, 74161])]"

definition bedep_groups_2 :: "(int \<times> int list) list" where
  "bedep_groups_2 =
     [(4222133977, [103, 3, 1707983]), (4222133429, [71, 457, 32531]), (4222133423, [13, 47, 61, 4357]),
      (4222135121, [37, 5, 7, 203771]), (4222133911, [61, 3, 5, 85451]), (4222133351, [31, 5, 1013, 2689]),
      (4222134547, [89, 3, 7, 173, 6529]), (4222134529, [31, 37, 3, 4793]),
      (4222136069, [113, 521, 17929]), (4222137089, [47, 13, 26993]), (4222136629, [83, 3, 1413031]),
      (4222137551, [29, 5, 2911819]), (4222137083, [61, 179, 397, 487]),
      (4222136041, [73, 79, 3, 5, 6101]), (4222137443, [31, 41, 17, 2383]),
      (4222137431, [97, 5, 7, 211, 421]), (4222137407, [43, 181, 271241]),
      (4222135927, [29, 53, 101, 3, 1511]), (4222137397, [107, 3, 3288269]),
      (4222136969, [107, 7, 173, 4073]), (4222135919, [67, 7, 11, 13, 31477]),
      (4222136461, [43, 97, 3, 5, 16871]), (4222136951, [41, 5, 787, 2617]), (4222136459, [41, 51489469]),
      (4222135859, [43, 1831, 26813]), (4222137341, [37, 17, 5, 101, 3323])]"

definition bedep_groups_3 :: "(int \<times> int list) list" where
  "bedep_groups_3 =
     [(4222136837, [71, 257, 57847]), (4222135811, [17, 29, 5, 856417]), (4222136833, [3, 19, 199, 727]),
      (4222135807, [3, 7, 19, 23, 461, 499]), (4222137197, [41, 25744739]),
      (4222136773, [3, 7, 23, 242819]), (4222136747, [113, 1433, 13037]),
      (4222136231, [5, 13, 37, 877783]), (4222135741, [3, 5, 61, 1153589]),
      (4222136221, [3, 5, 23, 3059519]), (4222135721, [5, 11, 41, 234043]),
      (4222137137, [7, 17, 19, 16673]), (4222136719, [3, 19, 43, 95701]), (4222135693, [3, 19, 228619]),
      (4222137133, [3, 31, 1327, 2851]), (4222136683, [3, 89, 181, 14561]),
      (4268920951, [3, 5, 7, 19, 71327]), (4268922083, [97, 233, 94441]),
      (4268920231, [3, 5, 47, 1009201]), (4268921477, [17, 41, 421, 3637]), (4268921473, [3, 37, 100153]),
      (4268920199, [23, 1459, 63607]), (4268922019, [3, 67, 10619209]), (4268922017, [47, 769, 3691]),
      (4268920163, [13, 31, 5296427]), (4268920157, [71, 79, 190271])]"

definition bedep_groups_4 :: "(int \<times> int list) list" where
  "bedep_groups_4 =
     [(4268920757, [29, 36801041]), (4268920153, [3, 7, 19, 23, 58147]), (4268921303, [23, 73, 151, 8419]),
      (4268920699, [3, 7, 29, 151, 2579]), (4268920141, [3, 5, 37, 199, 3221]),
      (4268921903, [7, 83, 3673771]), (4268921873, [59, 1427, 3169]), (4268921257, [3, 23, 2577851]),
      (4268921861, [5, 7, 71, 429469]), (4268921171, [5, 17, 47, 534283]),
      (4268921149, [3, 41, 43, 67261]), (4268920583, [29, 71, 1036649]), (4268920003, [3, 29, 24534023]),
      (4268921753, [101, 163, 32413]), (4268921749, [3, 7, 13, 17, 19]), (4268921717, [23, 46401323]),
      (4268921081, [5, 67, 1592881]), (4268920349, [7, 11, 31, 447101]), (4268919911, [5, 83, 5143277]),
      (4268921677, [3, 53, 6712141]), (4268921011, [3, 5, 73, 389, 5011]),
      (4268919887, [7, 11, 19, 29, 7187]), (4268921617, [3, 67, 211, 233]),
      (4268920289, [37, 43, 191, 439])]"

definition bedep_groups :: "(int \<times> int list) list" where
  "bedep_groups = bedep_groups_1 @ bedep_groups_2 @ bedep_groups_3 @ bedep_groups_4"

definition disguise :: "int \<Rightarrow> int \<Rightarrow> int \<Rightarrow> int \<times> int list \<Rightarrow> int list" where
  "disguise v2 v3 i g =
     (0x281 * (fst g XOR v3)) mod 2 ^ 32 # (0x663d81 * (int (length (snd g)) XOR v2)) mod 2 ^ 32 #
     map (\<lambda>f. (0x281 * ((f + i) XOR v2)) mod 2 ^ 32) (snd g)"

fun lay_out :: "int \<Rightarrow> int \<Rightarrow> nat \<Rightarrow> int \<Rightarrow> (int \<times> int list) list \<Rightarrow> int list \<Rightarrow> int list list \<times> int list" where
  "lay_out v2 v3 n i [] rest = ([], rest)"
| "lay_out v2 v3 n i (g # gs) rest =
     (let (rows, flat) = lay_out v2 v3 n (i + 1) gs rest; flat = disguise v2 v3 i g @ flat in (take n flat # rows, flat))"

text \<open>The last cells of the last row are read but not used.\<close>

definition table_rests :: "int list list" where
  "table_rests =
     [[2940234864, 3909456977], [3474766058], [3714328164], [1366973501], [1900067328], [2402988278], [1292239906]]"

definition bedep_table :: "bedep_config \<Rightarrow> int list \<Rightarrow> int list list" where
  "bedep_table cfg rest = fst (lay_out (value2 cfg) (value3 cfg) (6 + length rest) 0 bedep_groups rest)"

definition bedep_tables :: "string \<Rightarrow> int list list" where
  "bedep_tables path =
     (case find (\<lambda>(cfg, rest). table cfg = path) (zip bedep_configs table_rests) of
        None \<Rightarrow> [] | Some (cfg, rest) \<Rightarrow> bedep_table cfg rest)"

definition table_var1_a :: "int list list" where
  "table_var1_a =
     [[1641033629, 2471365104, 3617305838, 3618696808, 3614061096, 1641890005, 2471365104, 3617289813],
      [1641890005, 2471365104, 3617289813, 3617284685, 3402215083, 1639970851, 2478065521, 3617271224],
      [1639970851, 2478065521, 3617271224, 2264217660, 1641087473, 2471365104, 3617283403, 3617310325],
      [1641087473, 2471365104, 3617283403, 3617310325, 2835245455, 1639963159, 2478065521, 3617250712],
      [1639963159, 2478065521, 3617250712, 1128603470, 1641068243, 2518268023, 3617303915, 3617287249],
      [1641068243, 2518268023, 3617303915, 3617287249, 3617314171, 4236172749, 1640277249, 2471365104],
      [1640277249, 2471365104, 3617305838, 3617136614, 3650334004, 1642418189, 2518268023, 3617285967],
      [1642418189, 2518268023, 3617285967, 3617312889, 3617316735, 3451045181, 1641074653, 2518268023],
      [1641074653, 2518268023, 3617303274, 3617312248, 3617087898, 3581049596, 1640340067, 2478065521],
      [1640340067, 2478065521, 3617284685, 1662584025, 1639905469, 2511567606, 3617293018, 3617276352],
      [1639905469, 2511567606, 3617293018, 3617276352, 3617316094, 3617314812, 3619536518, 1640941325],
      [1640941325, 2471365104, 3617242379, 3617542367, 3615955251, 1639896495, 2471365104, 3617286608],
      [1639896495, 2471365104, 3617286608, 3617272506, 4003644230, 1639893931, 2518268023, 3617292377],
      [1639893931, 2518268023, 3617292377, 3617298787, 3617301351, 3607513281, 1640887481, 2478065521],
      [1640887481, 2478065521, 3617264814, 2828325860, 1642368191, 2511567606, 3617282121, 3617297505],
      [1642368191, 2511567606, 3617282121, 3617297505, 3617300069, 3617644927, 3618297465, 1640879789],
      [1640879789, 2518268023, 3617294300, 3617284044, 3617269942, 3615105926, 1640865687, 2518268023],
      [1640865687, 2518268023, 3617225713, 3617300069, 3617306479, 3488189849, 1640455447, 2511567606],
      [1640455447, 2511567606, 3617278916, 3617300710, 3617299428, 3617158408, 3617550700, 1640251609],
      [1640251609, 2518268023, 3617292377, 3617265455, 3617300069, 3620785827, 1640450319, 2471365104],
      [1640450319, 2471365104, 3617264814, 3617299428, 3533314326, 1642283579, 2511567606, 3617276993],
      [1642283579, 2511567606, 3617276993, 3617303915, 3617302633, 3617194945, 3605363367, 1642032307],
      [1642032307, 2511567606, 3617267378, 3617264814, 3617251994, 3617303274, 3618812188, 1640897737],
      [1640897737, 2471365104, 3617242379, 3617302633, 3620184569, 1640500317, 2478065521, 3617285326],
      [1640500317, 2478065521, 3617285326, 1845843370, 1642069485, 2471365104, 3617270583, 3617085975],
      [1642069485, 2471365104, 3617270583, 3617085975, 3653783225, 1641928465, 2471365104, 3617226354],
      [1641928465, 2471365104, 3617226354, 3617305838, 248524570, 1642325885, 2471365104, 3617246225],
      [1642325885, 2471365104, 3617246225, 3617003927, 3606300509, 1642311783, 2518268023, 3617293018],
      [1642311783, 2518268023, 3617293018, 3617271224, 3617262250, 3619749330, 1640046489, 2518268023],
      [1640046489, 2518268023, 3617266737, 3617287249, 3617291095, 3579890027, 1641978463, 2518268023],
      [1641978463, 2518268023, 3617260968, 3617287890, 3617286608, 3650481434, 1642193839, 2518268023],
      [1642193839, 2518268023, 3617284685, 3617291095, 3617957735, 3618847443, 1640416987, 2511567606],
      [1640416987, 2511567606, 3617241738, 3617286608, 3617289172, 3617193022, 3620980050, 1640405449],
      [1640405449, 2518268023, 3617268019, 3617269301, 3617291095, 3620133289, 1640736205, 2471365104]]"

definition table_var1_b :: "int list list" where
  "table_var1_b =
     [[1640736205, 2471365104, 3617214816, 3617619928, 3607774168, 1644015561, 2471365104, 3617256481],
      [1644015561, 2471365104, 3617256481, 3617278275, 3602614759, 1644377085, 2471365104, 3617237892],
      [1644377085, 2471365104, 3617237892, 3617289172, 4144429624, 1644875783, 2471365104, 3617266737],
      [1644875783, 2471365104, 3617266737, 3617292377, 2427541251, 1643919411, 2518268023, 3617245584],
      [1643919411, 2518268023, 3617245584, 3617180202, 3617030208, 3617644286, 1640625953, 2511567606],
      [1640625953, 2511567606, 3617237251, 3617238533, 3617292377, 3617296223, 3620608911, 1644816811],
      [1644816811, 2518268023, 3617268660, 3617257122, 3617282762, 3618386564, 1644809119, 2511567606],
      [1644809119, 2511567606, 3617230841, 3617294941, 3617278275, 3617162895, 3617028285, 1644865527],
      [1644865527, 2471365104, 3617259686, 3617181484, 3444073024, 1640563135, 2511567606, 3617273147],
      [1640563135, 2511567606, 3617273147, 3617247507, 3617216739, 3617294941, 3618282081, 1644869373],
      [1644869373, 2471365104, 3617217380, 3617294300, 2857723402, 1643928385, 2518268023, 3617221867],
      [1643928385, 2518268023, 3617221867, 3617280839, 3617179561, 3619925605, 1640547751, 2511567606],
      [1640547751, 2511567606, 3617236610, 3617280198, 3617282762, 3617281480, 3605635792, 1644259141],
      [1644259141, 2511567606, 3617261609, 3617216739, 3617276993, 3617280839, 3607126117, 1643845055],
      [1643845055, 2518268023, 3617262250, 3617280198, 3617430192, 3618892954, 1644257859, 2478065521],
      [1644257859, 2478065521, 3617261609, 2142442397, 1640601595, 2471365104, 3617264814, 3618082730],
      [1640601595, 2471365104, 3617264814, 3618082730, 3602730780, 1644084789, 2511567606, 3617262891],
      [1644084789, 2511567606, 3617262891, 3617270583, 3617283403, 3617221867, 3619099997, 1643854029],
      [1643854029, 2471365104, 3617240456, 3617116102, 3580862424, 1640570827, 2518268023, 3617269301],
      [1640570827, 2518268023, 3617269301, 3617256481, 3617282121, 3829722341, 1643851465, 2518268023],
      [1643851465, 2518268023, 3617282762, 3617272506, 3617162254, 3617480190, 1641132343, 2504867189],
      [1641132343, 2504867189, 3617282121, 3617284685, 3617271865, 3617274429, 3617639799, 3617620569],
      [1643992485, 2478065521, 3617246866, 2876323944, 1644387341, 2518268023, 3617285967, 3617268019],
      [1644387341, 2518268023, 3617285967, 3617268019, 3617257763, 3552221903, 1644442467, 2471365104],
      [1644442467, 2471365104, 3617209688, 3617666080, 3614827732, 1640840047, 2518268023, 3617268019],
      [1640840047, 2518268023, 3617268019, 3617273147, 3617247507, 3812079457, 1641172085, 2518268023],
      [1641172085, 2518268023, 3617284044, 3617267378, 3617241738, 19677314, 1640823381, 2518268023],
      [1640823381, 2518268023, 3617268019, 3617266737, 3617260327, 2332865551, 1641159265, 2518268023],
      [1641159265, 2518268023, 3617266096, 3617272506, 3617248148, 3557182602, 1644046329, 2518268023],
      [1644046329, 2518268023, 3617269301, 3617257763, 3617256481, 3606581267, 1644424519, 2518268023],
      [1644424519, 2518268023, 3617266096, 3617255840, 3617250712, 3647166182, 1641141317, 2471365104],
      [1641141317, 2471365104, 3617270583, 3617260327, 3563944511, 1644033509, 2518268023, 3617269942],
      [1644033509, 2518268023, 3617269942, 3617246866, 3617728898, 3618726294, 1644319395, 2518268023],
      [1644319395, 2518268023, 3617269301, 3617224431, 3617160331, 3615814231, 183891903, 2511567606]]"

definition table_var1_c :: "int list list" where
  "table_var1_c =
     [[183891903, 2511567606, 3617268660, 3617272506, 3617271224, 3617258404, 3662782224, 184617515],
      [184617515, 2471365104, 3617207765, 3617130845, 3646011741, 180886895, 2518268023, 3617272506],
      [180886895, 2518268023, 3617272506, 3617271224, 3617239174, 3728494980, 183654733, 2518268023],
      [183654733, 2518268023, 3617262891, 3617237251, 3617009055, 3619542287, 183652169, 2471365104],
      [183652169, 2471365104, 3617271224, 3617254558, 3639051122, 180866383, 2471365104, 3617247507],
      [180866383, 2471365104, 3617247507, 3617655183, 3584366771, 184658539, 2471365104, 3617275070],
      [184658539, 2471365104, 3617275070, 3617234046, 3272202336, 184657257, 2471365104, 3617241097],
      [184657257, 2471365104, 3617241097, 3617439807, 3619494853, 180761259, 2471365104, 3617262250],
      [180761259, 2471365104, 3617262250, 3617250712, 1571781252, 180747157, 2471365104, 3617219303],
      [180747157, 2471365104, 3617219303, 3617224431, 3497280511, 180567677, 2478065521, 3617250712],
      [180567677, 2478065521, 3617250712, 2934217132, 180744593, 2511567606, 3617256481, 3617259045],
      [180744593, 2511567606, 3617256481, 3617259045, 3617246225, 3617248789, 3580642561, 184117535],
      [184117535, 2518268023, 3617248148, 3617221226, 3617166100, 3611861184, 180438195, 2511567606],
      [180438195, 2511567606, 3617260327, 3617262891, 3617253917, 3617170587, 3618891031, 180736901],
      [180736901, 2511567606, 3617259686, 3617258404, 3617237892, 3617139178, 3619135252, 184573927],
      [184573927, 2471365104, 3617261609, 3617207765, 3283390349, 184564953, 2471365104, 3617232764],
      [184564953, 2471365104, 3617232764, 3617658388, 3619167302, 184159841, 2471365104, 3617262891],
      [184159841, 2471365104, 3617262891, 3617255199, 2056089443, 184557261, 2518268023, 3617260968],
      [184557261, 2518268023, 3617260968, 3617264814, 3617223790, 3345902592, 184032923, 2518268023],
      [184032923, 2518268023, 3617265455, 3617252635, 3617228277, 3948884241, 184090613, 2518268023],
      [184090613, 2518268023, 3617260968, 3617226354, 3617225072, 3660129766, 180456143, 2471365104],
      [180456143, 2471365104, 3617238533, 3617206483, 3714165425, 180658699, 2471365104, 3617264814],
      [180658699, 2471365104, 3617264814, 3617237892, 2162862738, 183821393, 2471365104, 3617185971],
      [183821393, 2471365104, 3617185971, 3617161613, 3606329995, 183829085, 2511567606, 3617263532],
      [183829085, 2511567606, 3617263532, 3617245584, 3617251994, 3617254558, 3617253276, 183726525],
      [183726525, 2478065521, 3617239815, 1810045435, 183964977, 2471365104, 3617245584, 3617205842],
      [183964977, 2471365104, 3617245584, 3617205842, 322266492, 180295893, 2518268023, 3617248789],
      [180295893, 2518268023, 3617248789, 3617251353, 3617243661, 3336579247, 180599727, 2471365104],
      [180599727, 2471365104, 3617249430, 3617194304, 1001092542, 183690629, 2471365104, 3617250071],
      [183690629, 2471365104, 3617250071, 3617218021, 3613029085, 184012411, 2511567606, 3617249430],
      [184012411, 2511567606, 3617249430, 3617248148, 3617209688, 3617002004, 3619946758, 180574087],
      [180574087, 2511567606, 3617251353, 3617253917, 3617238533, 3617226995, 3621833221, 183744473],
      [183744473, 2518268023, 3617248148, 3617207124, 3617114820, 3617110974, 180842025, 2518268023],
      [180842025, 2518268023, 3617230841, 3617216739, 3617126999, 3617634671, 2940234864, 3909456977]]"

definition transform2_table_var1 :: "int list list" where
  "transform2_table_var1 = table_var1_a @ table_var1_b @ table_var1_c"

lemma table_var1: "bedep_table (bedep_configs ! 0) (table_rests ! 0) = transform2_table_var1"
  by code_simp

lemma undisguise:
  fixes v y :: int
  assumes "c * d = 2 ^ 32 + 1"
  shows "((c * ((d * (y XOR v)) mod 2 ^ 32)) XOR v) mod 2 ^ 32 = y mod 2 ^ 32"
proof -
  define z where "z = y XOR v"
  have "c * ((d * z) mod 2 ^ 32) mod 2 ^ 32 = (c * d) * z mod 2 ^ 32" by (simp add: mod_mult_right_eq mult.assoc)
  also have "(c * d) * z = z + 2 ^ 32 * z" unfolding assms by (simp add: distrib_right)
  also have "\<dots> mod 2 ^ 32 = z mod 2 ^ 32" by (rule mod_mult_self2)
  finally have "take_bit 32 (c * ((d * z) mod 2 ^ 32)) = take_bit 32 z" by (simp add: take_bit_eq_mod)
  then have "take_bit 32 ((c * ((d * z) mod 2 ^ 32)) XOR v) = take_bit 32 (z XOR v)" by (simp only: take_bit_xor)
  then show ?thesis by (simp add: z_def take_bit_eq_mod xor.assoc)
qed

text \<open>What is read of an entry whose last factor spills into the next one.\<close>

fun read_groups :: "int \<Rightarrow> int \<Rightarrow> nat \<Rightarrow> int \<Rightarrow> (int \<times> int list) list \<Rightarrow> (int \<times> int list) list" where
  "read_groups v2 v3 n i [] = []"
| "read_groups v2 v3 n i (g # gs) =
     (fst g, if length (snd g) + 2 \<le> n then snd g
             else take (n - 2) (snd g) @ [((fst (hd gs) XOR v3 XOR v2) - i) mod 2 ^ 32])
     # read_groups v2 v3 n (i + 1) gs"

fun fits :: "nat \<Rightarrow> nat \<Rightarrow> (int \<times> int list) list \<Rightarrow> bool" where
  "fits n r [] \<longleftrightarrow> True"
| "fits n r (g # gs) \<longleftrightarrow>
     (let k = length (snd g) + 2 in
      0 \<le> fst g \<and> fst g < 2 ^ 32 \<and> list_all (\<lambda>f. 0 \<le> f \<and> f < 2 ^ 32) (snd g) \<and>
      (if gs = [] then k < n \<and> n \<le> k + r else k \<le> n + 1) \<and> fits n r gs)"

lemma decode_disguised:
  assumes "value2 (config b) = v2" and "value3 (config b) = v3"
  shows "decode_factor b i ((0x281 * ((f + i) XOR v2)) mod 2 ^ 32) = f mod 2 ^ 32"
    and "decode_factor b i ((0x281 * (p XOR v3)) mod 2 ^ 32) = ((p XOR v3 XOR v2) - i) mod 2 ^ 32"
    and "decode_prime b ((0x281 * (p XOR v3)) mod 2 ^ 32) = p mod 2 ^ 32"
    and "decode_count b ((0x663d81 * (p XOR v2)) mod 2 ^ 32) = p mod 2 ^ 32"
proof -
  have f: "decode_factor b i ((0x281 * (y XOR v2)) mod 2 ^ 32) = (y - i) mod 2 ^ 32" for y
    using undisguise [where c = "0x663d81" and d = "0x281" and y = y and v = v2]
    by (simp add: decode_factor_def assms(1) and_masks) (metis mod_diff_left_eq)
  from f [of "f + i"] show "decode_factor b i ((0x281 * ((f + i) XOR v2)) mod 2 ^ 32) = f mod 2 ^ 32" by simp
  from f [of "p XOR v3 XOR v2"] show "decode_factor b i ((0x281 * (p XOR v3)) mod 2 ^ 32) = ((p XOR v3 XOR v2) - i) mod 2 ^ 32"
    by (simp add: xor.assoc)
  show "decode_prime b ((0x281 * (p XOR v3)) mod 2 ^ 32) = p mod 2 ^ 32"
    using undisguise [where c = "0x663d81" and d = "0x281" and y = p and v = v3] by (simp add: decode_prime_def assms(2) and_masks)
  show "decode_count b ((0x663d81 * (p XOR v2)) mod 2 ^ 32) = p mod 2 ^ 32"
    using undisguise [where c = "0x281" and d = "0x663d81" and y = p and v = v2] by (simp add: decode_count_def assms(1) and_masks)
qed

lemma length_disguise [simp]: "length (disguise v2 v3 i g) = length (snd g) + 2"
  by (simp add: disguise_def)

lemma encodes_lay_out:
  assumes "value2 (config b) = v2" and "value3 (config b) = v3" and "2 < n" and "n < 2 ^ 16" and "fits n (length rest) gs"
    and "lay_out v2 v3 n i gs rest = (rows, flat)"
  shows "encodes b n i rows (read_groups v2 v3 n i gs) \<and> (gs \<noteq> [] \<longrightarrow> n \<le> length flat \<and> rows = take n flat # tl rows \<and>
    hd flat = (0x281 * (fst (hd gs) XOR v3)) mod 2 ^ 32)"
  using assms(5,6)
proof (induction gs arbitrary: i rows flat)
  case (Cons g gs)
  obtain rows' flat' where l: "lay_out v2 v3 n (i + 1) gs rest = (rows', flat')" by fastforce
  define r k where "r = disguise v2 v3 i g" and "k = length (snd g)"
  note dec = decode_disguised [OF assms(1,2)]
  have rows: "rows = take n flat # rows'" "flat = r @ flat'" using Cons.prems(2) l by (auto simp: Let_def r_def)
  have lr: "length r = k + 2" by (simp add: r_def k_def)
  have fit: "if gs = [] then k + 2 < n \<and> n \<le> k + 2 + length rest else k + 2 \<le> n + 1"
    "fst g mod 2 ^ 32 = fst g" "list_all (\<lambda>f. f mod 2 ^ 32 = f) (snd g)" "fits n (length rest) gs"
    using Cons.prems(1) by (auto simp: Let_def k_def list_all_iff)
  note IH = Cons.IH [OF fit(4) l]
  have flat: "n \<le> length flat" "0 < n" "k < 2 ^ 32" using fit(1) IH l lr rows(2) assms(3,4) by (auto split: if_splits)
  have cells: "map (decode_factor b i) (drop 2 r) = snd g"
    using fit(3) dec(1) [of i] by (simp add: r_def disguise_def list_all_iff map_idI)
  let ?s = "concat (take 2 rows)" and ?g = "hd (read_groups v2 v3 n i (g # gs))"
  have s: "length (snd ?g) = k \<and> 2 + k < length ?s \<and> map (decode_factor b i) (take k (drop 2 ?s)) = snd ?g"
  proof (cases "k + 2 \<le> n")
    case True
    then have "take n flat = r @ take (n - (k + 2)) flat'" by (simp add: rows(2) lr)
    then obtain u where u: "?s = r @ u" by (cases rows') (simp_all add: rows(1))
    have "2 + k < length ?s"
      using fit(1) IH flat assms(3) by (cases "gs = []"; cases rows') (auto simp: rows(1))
    with True u lr cells show ?thesis by (simp add: k_def)
  next
    case False
    with fit(1) have kn: "gs \<noteq> []" "k + 1 = n" by (auto split: if_splits)
    with IH have f': "n \<le> length flat'" "rows' = take n flat' # tl rows'"
      "hd flat' = (0x281 * (fst (hd gs) XOR v3)) mod 2 ^ 32" by blast+
    obtain rs where "rows' = take n flat' # rs" using f'(2) by blast
    then have "?s = take n r @ take n flat'" using kn lr by (simp add: rows)
    moreover obtain c u where "flat' = c # u" using f'(1) flat(2) by (cases flat') auto
    moreover have "map (decode_factor b i) (take (n - 2) (drop 2 r)) = take (n - 2) (snd g)" by (simp flip: take_map cells)
    ultimately show ?thesis
      using False kn lr f'(1,3) dec(2) [of i "fst (hd gs)"] assms(3)
      by (simp add: k_def take_Cons' drop_take numeral_2_eq_2)
  qed
  have r01: "take n flat ! 0 = r ! 0" "take n flat ! 1 = r ! 1" using assms(3) lr by (simp_all add: rows(2) nth_append)
  have "encodes b n i (take n flat # rows') (?g # read_groups v2 v3 n (i + 1) gs)"
    unfolding encodes.simps Let_def r01
    using s flat IH rows(1) fit(2) dec(3) [of "fst g"] dec(4) [of "int k"]
    by (simp add: r_def disguise_def k_def)
  then show ?case
    using flat(1) lr by (simp add: rows r_def disguise_def)
qed simp

text \<open>
  The rows of six of the tables are too short for the six factors of the entry 55: the cell that the
  script takes for the last factor is the prime of the entry 56.
\<close>

definition spilled_groups :: "(int \<times> int list) list" where
  "spilled_groups = bedep_groups[55 := (4222135807, [3, 7, 19, 23, 461, 195598495])]"

lemma groups_read: "\<forall>(cfg, rest) \<in> set (zip bedep_configs table_rests).
    fits (6 + length rest) (length rest) bedep_groups \<and> 2 < 6 + length rest \<and> 6 + length rest < 2 ^ 16 \<and>
    bedep_tables (table cfg) = bedep_table cfg rest \<and>
    read_groups (value2 cfg) (value3 cfg) (6 + length rest) 0 bedep_groups =
      (if length rest = 2 then bedep_groups else spilled_groups) \<and>
    (length rest = 2 \<longleftrightarrow> cfg = bedep_configs ! 0)"
proof -
  have "fits 8 (Suc (Suc 0)) bedep_groups" "fits 7 1 bedep_groups" by code_simp+
  moreover have "read_groups 0xd666e1f3 0x2666ca48 8 0 bedep_groups = bedep_groups" by code_simp
  moreover have "read_groups 0x7cd02d69 0x8cd006d2 7 0 bedep_groups = spilled_groups" by code_simp
  moreover have "read_groups 0x1bbae2d4 0xebbac96f 7 0 bedep_groups = spilled_groups" by code_simp
  moreover have "read_groups 0x7952538d 0x89527836 7 0 bedep_groups = spilled_groups" by code_simp
  moreover have "read_groups 0x2be8c4b0 0xdbe8ef0b 7 0 bedep_groups = spilled_groups" by code_simp
  moreover have "read_groups 0x2edfdb46 0xdedff0fd 7 0 bedep_groups = spilled_groups" by code_simp
  moreover have "read_groups 0xd1cecf92 0x21cee429 7 0 bedep_groups = spilled_groups" by code_simp
  ultimately show ?thesis
    by (simp add: bedep_configs_def table_rests_def bedep_tables_def)
qed

definition bedep_object :: "bedep_dga \<Rightarrow> bool" where
  "bedep_object b \<longleftrightarrow> bedep_consts b \<and> config b \<in> set bedep_configs \<and> transform2_table b = bedep_tables (table (config b))"

lemma bedep_hits: "hits 0 bedep_groups = hits 0 spilled_groups" "length (hits 0 spilled_groups) = 23"
  by code_simp+

lemma length_bedep_groups: "length bedep_groups = 102" "length spilled_groups = 102"
  by code_simp+

definition read_by :: "bedep_config \<Rightarrow> (int \<times> int list) list" where
  "read_by cfg = (if cfg = bedep_configs ! 0 then bedep_groups else spilled_groups)"

lemma bedep_object_table:
  assumes "bedep_object b"
  shows "\<exists>n. table_for b n (read_by (config b))"
proof -
  have b: "bedep_consts b" "config b \<in> set bedep_configs" "transform2_table b = bedep_tables (table (config b))"
    using assms by (simp_all add: bedep_object_def)
  have "map fst (zip bedep_configs table_rests) = bedep_configs" by (simp add: bedep_configs_def table_rests_def)
  then have "config b \<in> fst ` set (zip bedep_configs table_rests)" using b(2) by (metis list.set_map)
  then obtain rest where rest: "(config b, rest) \<in> set (zip bedep_configs table_rests)"
    by (metis imageE prod.collapse)
  define n where "n = 6 + length rest"
  define gs where "gs = (if length rest = 2 then bedep_groups else spilled_groups)"
  have gs: "gs = read_by (config b)" using bspec [OF groups_read rest] by (simp add: gs_def read_by_def)
  have g: "fits n (length rest) bedep_groups" "2 < n" "n < 2 ^ 16" "transform2_table b = bedep_table (config b) rest"
    "read_groups (value2 (config b)) (value3 (config b)) n 0 bedep_groups = gs"
    using bspec [OF groups_read rest] b(3) unfolding n_def gs_def prod.case by simp_all
  obtain flat where "lay_out (value2 (config b)) (value3 (config b)) n 0 bedep_groups rest = (transform2_table b, flat)"
    using g(4) by (cases "lay_out (value2 (config b)) (value3 (config b)) n 0 bedep_groups rest") (simp add: bedep_table_def n_def)
  from encodes_lay_out [OF refl refl g(2,3,1) this] have "encodes b n 0 (transform2_table b) gs" unfolding g(5) by blast
  moreover have "length (hits 0 gs) = 23" "length gs = 102"
    using bedep_hits length_bedep_groups by (simp_all add: gs_def)
  moreover from this(1) have "hits 0 gs \<noteq> []" by auto
  ultimately have "table_for b n gs" using b(1) g(2) by (simp add: table_for_def)
  then show ?thesis unfolding gs by blast
qed

text \<open>All hits are the primes 23 and 29, and reading an entry never needs a number that is not positive.\<close>

lemma bedep_orders: "list_all (\<lambda>h. snd h = 23 \<or> snd h = 29) (hits 0 spilled_groups)"
  by code_simp

lemma bedep_positive:
  "list_all (\<lambda>g. 0 < fst g \<and> list_all (\<lambda>f. 0 < f) (snd g)) bedep_groups"
  "list_all (\<lambda>g. 0 < fst g \<and> list_all (\<lambda>f. 0 < f) (snd g)) spilled_groups"
  by code_simp+

section \<open>Properties\<close>

text \<open>Whichever of the seven configurations is in use, \<open>transform2\<close> undoes the masks of its table: of the 23 factors
  from 23 to 29 in the list of primes behind the tables it picks number \<open>a1\<close> modulo 23, and returns that factor, the
  prime of its entry and what \<open>transform3\<close> finds for the prime and the factors of the entry. Only in the entry
  55 the tables with the shorter rows give another factor.\<close>

lemma transform2_reads_tables:
  assumes "bedep_object b"
  shows "transform2 b a1 =
      (let h = pick (hits 0 bedep_groups) a1; g = read_by (config b) ! nat (fst h)
       in rbind (transform3 (fst g) (int (length (snd g))) (snd g)) (\<lambda>v. Inr (fst g, v, snd h))) \<and>
    length (hits 0 bedep_groups) = 23"
proof -
  have "hits 0 (read_by (config b)) = hits 0 bedep_groups" using bedep_hits(1) by (simp add: read_by_def)
  with bedep_object_table [OF assms] show ?thesis using transform2_decodes [of b _ "read_by (config b)" a1] bedep_hits by auto
qed

lemma transform2_reads_tables_example:
  "transform2 (bedep_init bedep_tables (bedep_configs ! 3)) 46 =
      (let h = pick (hits 0 bedep_groups) 46; g = read_by (config (bedep_init bedep_tables (bedep_configs ! 3))) ! nat (fst h)
       in rbind (transform3 (fst g) (int (length (snd g))) (snd g)) (\<lambda>v. Inr (fst g, v, snd h))) \<and>
    length (hits 0 bedep_groups) = 23"
proof -
  have "bedep_configs ! 3 \<in> set bedep_configs" by (simp add: bedep_configs_def)
  then have "bedep_object (bedep_init bedep_tables (bedep_configs ! 3))"
    by (simp add: bedep_object_def bedep_consts_def bedep_init_def)
  then show ?thesis by (rule transform2_reads_tables)
qed

end
