(* ===== verification/Bedep_Runs.thy ===== *)
theory Bedep_Runs
  imports Bedep_Tables
begin

text \<open>
  The runs of bedep over the tables of the repository: they never raise, make 22 or 28 well-formed names each,
  and walk through a cyclic group of order 23 or 29.
\<close>

lemma transform2_total:
  assumes "bedep_object b"
  shows "\<exists>p v q. transform2 b a1 = Inr (p, v, q) \<and> 0 < p \<and> (q = 23 \<or> q = 29) \<and> 0 \<le> v"
proof -
  define gs where "gs = read_by (config b)"
  obtain n where t: "table_for b n gs" "gs = bedep_groups \<or> gs = spilled_groups"
    using bedep_object_table [OF assms] by (auto simp: gs_def read_by_def)
  define h g where "h = pick (hits 0 gs) a1" and "g = gs ! nat (fst h)"
  have h: "h \<in> set (hits 0 gs)" using t(1) pick_in_set [of "hits 0 gs" a1] by (simp add: h_def table_for_def)
  moreover have "list_all (\<lambda>h. snd h = 23 \<or> snd h = 29) (hits 0 gs)" using t(2) bedep_orders bedep_hits(1) by auto
  ultimately have q: "snd h = 23 \<or> snd h = 29" by (simp add: list_all_iff)
  have "(fst h, snd h) \<in> set (hits 0 gs)" using h by simp
  from hits_index [OF this] have "nat (fst h) < length gs" by auto
  then have "g \<in> set gs" by (simp add: g_def)
  then have g: "0 < fst g" "list_all (\<lambda>f. 0 < f) (snd g)" using t(2) bedep_positive by (auto simp: list_all_iff)
  then obtain v where "transform3 (fst g) (int (length (snd g))) (snd g) = Inr v" "v = 0 \<or> 2 \<le> v"
    using transform3_total [of "fst g" "snd g" "int (length (snd g))"] by auto
  then show ?thesis using transform2_decodes [OF t(1), of a1] q g(1) by (auto simp: Let_def simp flip: h_def g_def)
qed

section \<open>Runs\<close>

lemma units_23: "transform8_units 23 = Inr (9, [5, 3, 5, 7, 9, 13, 15, 17, 19, 21])"
  and units_29: "transform8_units 29 = Inr (11, [2, 3, 5, 9, 11, 13, 15, 17, 19, 23, 25, 27])"
  by code_simp+

text \<open>
  \<open>transform7\<close> for these orders: the generator of the walk is the primitive root \<open>g\<close> of the order \<open>q\<close>, or a power
  of it whose exponent has no factor in common with \<open>q - 1\<close>.
\<close>

lemma transform7_units:
  assumes "transform8_units q = Inr (int (length us), g # us)" and "list_all (\<lambda>u. 0 \<le> u) us" and "0 < p" and "1 < q"
  shows "\<exists>f8. transform7 p v q r1 r2 b = Inr (b\<lparr>num_domains := q - 1, field_c := p,
      field_4 := (v ^ nat ((p - 1) div q) mod p) ^ nat (r1 mod (q - 1) + 1) mod p, field_8 := f8\<rparr>) \<and>
    (f8 = g \<or> (\<exists>u \<in> set us. f8 = g ^ nat u mod q))"
proof -
  define v6 where "v6 = r2 mod (int (length us) + 1)"
  have v6: "0 \<le> v6" "v6 \<le> int (length us)"
    using pos_mod_bound [of "int (length us) + 1" r2] by (simp_all add: v6_def)
  have "transform8 p v q = Inr (int (length us), v ^ nat ((p - 1) div q) mod p # g # us)"
    using assms by (simp add: transform8_def py_div_def py_pow_ok pos_imp_zdiv_nonneg_iff)
  moreover have drop2: "drop 2 (x # y # us) = us" for x y by (simp add: numeral_2_eq_2)
  moreover obtain f8 where "(if (v6 - 1) AND 0x80000000 = 0 then rbind (py_get us (v6 - 1)) (\<lambda>u. py_pow g u q) else Inr g) = Inr f8"
    "f8 = g \<or> (\<exists>u \<in> set us. f8 = g ^ nat u mod q)"
  proof (cases "v6 = 0")
    case False
    then have "py_get us (v6 - 1) = Inr (us ! nat (v6 - 1))" "us ! nat (v6 - 1) \<in> set us"
      using v6 by (simp_all add: py_get_nth)
    moreover from this(2) have "py_pow g (us ! nat (v6 - 1)) q = Inr (g ^ nat (us ! nat (v6 - 1)) mod q)"
      using assms(2,4) by (simp add: list_all_iff py_pow_ok)
    ultimately show ?thesis
      by (intro that [of "if (v6 - 1) AND 0x80000000 = 0 then g ^ nat (us ! nat (v6 - 1)) mod q else g"]) auto
  qed (use that in simp)
  ultimately show ?thesis
    using assms(3,4)
    by (intro exI [of _ f8], cases "(v6 - 1) AND 0x80000000 = 0")
      (simp_all add: drop2 transform7_def py_mod_def py_get_nth py_pow_ok v6_def [symmetric])
qed

lemma transform7_orders:
  assumes "q = 23 \<or> q = 29" and "0 < p"
  shows "\<exists>f4 f8. transform7 p v q r1 r2 b =
      Inr (b\<lparr>num_domains := q - 1, field_c := p, field_4 := f4, field_8 := f8\<rparr>) \<and> 0 \<le> f8"
proof -
  obtain g us where u: "transform8_units q = Inr (int (length us), g # us)" "list_all (\<lambda>u. 0 \<le> u) us" "0 \<le> g"
    using assms(1) units_23 units_29 that [of "[3, 5, 7, 9, 13, 15, 17, 19, 21]" 5]
      that [of "[3, 5, 9, 11, 13, 15, 17, 19, 23, 25, 27]" 2] by auto
  moreover have "1 < q" using assms(1) by auto
  ultimately obtain f8 where f8: "transform7 p v q r1 r2 b = Inr (b\<lparr>num_domains := q - 1, field_c := p,
      field_4 := (v ^ nat ((p - 1) div q) mod p) ^ nat (r1 mod (q - 1) + 1) mod p, field_8 := f8\<rparr>)"
    "f8 = g \<or> (\<exists>u \<in> set us. f8 = g ^ nat u mod q)"
    using transform7_units [OF u(1,2) assms(2), of v r1 r2 b] by blast
  have "0 \<le> f8" using f8(2) u(3) \<open>1 < q\<close> by auto
  with f8(1) show ?thesis by blast
qed

lemma bedep_run_names:
  assumes "cfg \<in> set bedep_configs" and "bedep_draw_ok dr"
  shows "\<exists>ds. bedep_run dr (bedep_init bedep_tables cfg) = Inr ds \<and> (length ds = 22 \<or> length ds = 28) \<and>
    list_all is_bedep_name ds"
proof -
  define b where "b = bedep_init bedep_tables cfg
    \<lparr>days_since := get_days_since (year (drawn_date dr)) (month (drawn_date dr) - 1) (day (drawn_date dr) - 1)\<rparr>"
  have b: "bedep_object b" using assms(1) by (simp add: bedep_object_def b_def bedep_init_def bedep_consts_def)
  have "max_currencies (config b) \<le> 48" "0 < max_currencies (config b)"
    using assms(1) by (auto simp: b_def bedep_init_def bedep_configs_def)
  then obtain cs where cs: "get_currencies b (drawn_rates dr) = Inr cs" "cs \<noteq> []"
    using get_currencies_total assms(2) by blast
  obtain c where c: "py_get cs 0 = Inr c" using cs(2) by (simp add: py_get_nth)
  define a1 where "a1 = t1_mix (length cs) (field_28 b)
    (((days_since b XOR real_rate_low c) + (field_1c b XOR name_bin c)) AND 0xFFFFFFFF)
    ((field_18 b + (field_28 b XOR days_since b)) AND 0xFFFFFFFF)"
  obtain p v q where t2: "transform2 b a1 = Inr (p, v, q)" "0 < p" "q = 23 \<or> q = 29"
    using transform2_total [OF b, of a1] by blast
  obtain f4 f8 where t7: "transform7 p v q (drawn_r1 dr) (drawn_r2 dr) b =
      Inr (b\<lparr>num_domains := q - 1, field_c := p, field_4 := f4, field_8 := f8\<rparr>)" "0 \<le> f8"
    using transform7_orders [OF t2(3,2)] by blast
  let ?b = "b\<lparr>num_domains := q - 1, field_c := p, field_4 := f4, field_8 := f8\<rparr>"
  have t1: "transform1 cs (drawn_r1 dr) (drawn_r2 dr) b = Inr ?b"
    using t2(1) t7(1) by (simp add: transform1_def c Let_def a1_def)
  have "bedep_consts ?b" using b by (simp add: bedep_object_def bedep_consts_def)
  then obtain ds where ds: "bedep_domains (nat (q - 1)) cs ?b = Inr ds" "length ds = nat (q - 1)" "list_all is_bedep_name ds"
    using bedep_domains_names [of ?b cs "nat (q - 1)"] cs(2) t7(2) t2(2) by auto
  then have "bedep_run dr (bedep_init bedep_tables cfg) = Inr ds"
    using cs(1) t1 by (simp add: bedep_run_def Let_def b_def)
  with ds t2(3) show ?thesis by auto
qed

section \<open>The walk through the group\<close>

text \<open>The states \<open>field_4\<close> of a run, and the names as what \<open>transform11\<close> makes of them.\<close>

fun group_walk :: "nat \<Rightarrow> int \<Rightarrow> int \<Rightarrow> int \<Rightarrow> int list" where
  "group_walk 0 f4 f8 fc = []"
| "group_walk (Suc k) f4 f8 fc = (let f = f4 ^ nat f8 mod fc in f # group_walk k f f8 fc)"

lemma t11_letters_field_4: "t11_letters k (b\<lparr>field_4 := x\<rparr>) cs math1 math3 c a1 = t11_letters k b cs math1 math3 c a1"
  by (induction k arbitrary: c a1) (simp_all add: t11_char_def)

lemma t11_mix_field_4: "t11_mix k (b\<lparr>field_4 := x\<rparr>) c math2 math1 = t11_mix k b c math2 math1"
  by (induction k arbitrary: math1) simp_all

lemma transform11_field_4: "transform11 (b\<lparr>field_4 := x\<rparr>) cs a1 = transform11 b cs a1"
  by (simp add: transform11_def t11_letters_field_4 t11_mix_field_4 Let_def)

lemma bedep_domains_walk:
  assumes "0 \<le> field_8 b" and "field_c b \<noteq> 0"
  shows "bedep_domains k cs b = rmap (transform11 b cs) (group_walk k (field_4 b) (field_8 b) (field_c b))"
  using assms
proof (induction k arbitrary: b)
  case (Suc k)
  define f where "f = field_4 b ^ nat (field_8 b) mod field_c b"
  have "transform10 cs b = rbind (transform11 b cs f) (\<lambda>d. Inr (d, b\<lparr>field_4 := f\<rparr>))"
    using Suc.prems by (simp add: transform10_def py_pow_ok transform11_field_4 Let_def flip: f_def)
  moreover have "transform11 (b\<lparr>field_4 := f\<rparr>) cs = transform11 b cs" by (simp add: fun_eq_iff transform11_field_4)
  ultimately show ?case
    using Suc.IH [of "b\<lparr>field_4 := f\<rparr>"] Suc.prems by (cases "transform11 b cs f") (simp_all add: Let_def flip: f_def)
qed simp

lemma group_walk_powers:
  assumes "f4 = h ^ e mod p"
  shows "group_walk k f4 g p = map (\<lambda>j. h ^ (e * nat g ^ j) mod p) [1..<Suc k]"
  using assms
proof (induction k arbitrary: f4 e)
  case (Suc k)
  have f: "f4 ^ nat g mod p = h ^ (e * nat g) mod p"
    using Suc.prems by (simp add: power_mod power_mult)
  have "[1..<Suc (Suc k)] = 1 # map Suc [1..<Suc k]" by (simp add: upt_conv_Cons map_Suc_upt del: upt_Suc)
  then show ?case using Suc.IH [OF f] by (simp add: f Let_def mult.assoc)
qed simp

text \<open>Powers of an element whose order is the prime \<open>q\<close>: exponents count modulo \<open>q\<close>, and none but multiples of \<open>q\<close> give one.\<close>

lemma power_mod_order:
  fixes h p :: int
  assumes "h ^ q mod p = 1 mod p"
  shows "h ^ n mod p = h ^ (n mod q) mod p"
proof -
  have "h ^ n = (h ^ q) ^ (n div q) * h ^ (n mod q)" by (simp flip: power_mult power_add)
  also have "\<dots> mod p = (h ^ q mod p) ^ (n div q) * h ^ (n mod q) mod p" by (metis mod_mult_left_eq power_mod)
  also have "\<dots> = h ^ (n mod q) mod p" unfolding assms by (metis mod_mult_left_eq mult_1 power_mod power_one)
  finally show ?thesis .
qed

lemma powers_distinct:
  fixes h p :: int
  assumes "h ^ q mod p = 1 mod p" and "h mod p \<noteq> 1 mod p" and inverse: "\<And>d. 0 < d \<Longrightarrow> d < q \<Longrightarrow> \<exists>m. d * m mod q = 1"
    and "i < q" and "j < q" and "h ^ i mod p = h ^ j mod p"
  shows "i = j"
proof -
  have "j \<le> i" if "i < q" "j < q" "h ^ i mod p = h ^ j mod p" for i j
  proof (rule ccontr)
    assume "\<not> j \<le> i"
    then have d: "0 < j - i" "j - i < q" using that(2) by auto
    obtain m where m: "(j - i) * m mod q = 1" using inverse [OF d] by blast
    have "h ^ (j - i) mod p = h ^ (q + (j - i)) mod p"
      using power_mod_order [OF assms(1), of "q + (j - i)"] power_mod_order [OF assms(1), of "j - i"] by simp
    also have "q + (j - i) = (q - i) + j" using that(1) \<open>\<not> j \<le> i\<close> by simp
    also have "h ^ ((q - i) + j) mod p = h ^ (q - i) * h ^ i mod p"
      unfolding power_add using that(3) by (metis mod_mult_right_eq)
    also have "h ^ (q - i) * h ^ i = h ^ q" using that(1) by (simp flip: power_add)
    finally have "h ^ (j - i) mod p = 1 mod p" using assms(1) by simp
    then have "h ^ ((j - i) * m) mod p = 1 mod p" by (metis power_mod power_mult power_one)
    with assms(2) power_mod_order [OF assms(1), of "(j - i) * m"] m show False by simp
  qed
  with assms(4-6) show ?thesis by (metis le_antisym)
qed

text \<open>The exponents of a walk: multiples of the powers of a primitive root.\<close>

fun root_powers :: "nat \<Rightarrow> int \<Rightarrow> int \<Rightarrow> int \<Rightarrow> int list" where
  "root_powers 0 a g q = []"
| "root_powers (Suc k) a g q = a # root_powers k (a * g mod q) g q"

lemma root_powers_map: "root_powers k (a * g mod q) g q = map (\<lambda>j. a * g ^ j mod q) [1..<Suc k]"
proof (induction k arbitrary: a)
  case (Suc k)
  have "[1..<Suc (Suc k)] = 1 # map Suc [1..<Suc k]" by (simp add: upt_conv_Cons map_Suc_upt del: upt_Suc)
  moreover have "a * g mod q * g mod q = (a * g) * g mod q" by (simp add: mod_mult_left_eq)
  ultimately show ?case using Suc.IH [of "a * g"] by (simp add: mult.assoc)
qed simp

lemma orders_inverse:
  assumes "q = 23 \<or> q = 29" and "0 < d" and "d < q"
  shows "\<exists>m::nat. d * m mod q = 1"
proof -
  have "list_all (\<lambda>d. list_ex (\<lambda>m. d * m mod 23 = 1) [0..<23]) [1..<23::nat]"
    "list_all (\<lambda>d. list_ex (\<lambda>m. d * m mod 29 = 1) [0..<29]) [1..<29::nat]"
    by code_simp+
  then show ?thesis using assms unfolding list_all_iff list_ex_iff by fastforce
qed

definition is_primitive_root :: "int \<Rightarrow> int \<Rightarrow> bool" where
  "is_primitive_root q g \<longleftrightarrow>
     distinct (root_powers (nat (q - 1)) g g q) \<and> list_all (\<lambda>x. 0 < x \<and> x < q) (root_powers (nat (q - 1)) g g q)"

lemma walks_are_generated:
  "list_all (is_primitive_root 23) (5 # map (\<lambda>u. 5 ^ nat u mod 23) [3, 5, 7, 9, 13, 15, 17, 19, 21])"
  "list_all (is_primitive_root 29) (2 # map (\<lambda>u. 2 ^ nat u mod 29) [3, 5, 9, 11, 13, 15, 17, 19, 23, 25, 27])"
  by code_simp+

lemma primitive_root_powers:
  assumes "is_primitive_root q g" and "1 < q" and "0 \<le> g" and "g < q"
  shows "inj_on (\<lambda>j. nat g ^ j mod nat q) {1..<nat q}" "j \<in> {1..<nat q} \<Longrightarrow> 0 < nat g ^ j mod nat q"
proof -
  have r: "root_powers (nat (q - 1)) g g q = map (\<lambda>j. g ^ j mod q) [1..<nat q]"
    using root_powers_map [of "nat (q - 1)" 1 g q] assms(2-4) by (simp add: Suc_nat_eq_nat_zadd1)
  have pw: "int (nat g ^ j mod nat q) = g ^ j mod q" for j using assms(2,3) by (simp add: zmod_int)
  have d: "distinct (map (\<lambda>j. g ^ j mod q) [1..<nat q])" "\<forall>x \<in> set (map (\<lambda>j. g ^ j mod q) [1..<nat q]). 0 < x"
    using assms(1) unfolding is_primitive_root_def r list_all_iff by blast+
  show "inj_on (\<lambda>j. nat g ^ j mod nat q) {1..<nat q}"
  proof (rule inj_onI)
    fix i j assume ij: "i \<in> {1..<nat q}" "j \<in> {1..<nat q}" "nat g ^ i mod nat q = nat g ^ j mod nat q"
    then have "g ^ i mod q = g ^ j mod q" using pw by metis
    with d(1) ij(1,2) show "i = j" by (auto simp: distinct_map inj_on_def)
  qed
  assume "j \<in> {1..<nat q}"
  then have "0 < g ^ j mod q" using d(2) by simp
  then show "0 < nat g ^ j mod nat q" using pw [of j] by linarith
qed

lemma group_walk_all:
  fixes q :: int
  assumes "q = 23 \<or> q = 29" and "is_primitive_root q f8" and "0 \<le> f8" and "f8 < q"
    and "h ^ nat q mod p = 1" and "h mod p \<noteq> 1" and "0 < p" and "0 < e" and "e < nat q" and "f4 = h ^ e mod p"
  shows "distinct (group_walk (nat (q - 1)) f4 f8 p)"
    and "set (group_walk (nat (q - 1)) f4 f8 p) = (\<lambda>k. h ^ k mod p) ` {1..<nat q}"
proof -
  define n g where "n = nat q" and "g = nat f8"
  have n: "1 < n" "Suc (nat (q - 1)) = n" using assms(1) by (auto simp: n_def)
  have p1: "1 mod p = 1" using assms(5) by (metis mod_mod_trivial)
  have inverse: "\<exists>m. d * m mod n = 1" if "0 < d" "d < n" for d
    using orders_inverse [of n d] that assms(1) by (auto simp: n_def)
  have ord: "h ^ n mod p = 1 mod p" "h mod p \<noteq> 1 mod p" using assms(5,6) p1 by (simp_all add: n_def)
  note root = primitive_root_powers [OF assms(2) _ assms(3,4), folded n_def g_def]
  have q1: "1 < q" using assms(1) by auto
  obtain m where m: "e * m mod n = 1" using inverse [of e] assms(8,9) by (auto simp: n_def)
  define E where "E j = e * g ^ j mod n" for j
  have undo: "E j * m mod n = g ^ j mod n" for j
  proof -
    have "E j * m mod n = (e * m) * g ^ j mod n" unfolding E_def by (metis mod_mult_left_eq mult.assoc mult.commute)
    also have "\<dots> = (e * m mod n) * g ^ j mod n" by (simp add: mod_mult_left_eq)
    finally show ?thesis by (simp add: m)
  qed
  have E: "E j \<in> {1..<n}" if "j \<in> {1..<n}" for j
    using undo [of j] root(2) [OF q1 that] n(1) by (cases "E j = 0") (auto simp: E_def)
  have injE: "inj_on E {1..<n}" using root(1) [OF q1] undo unfolding inj_on_def by metis
  have injh: "inj_on (\<lambda>k. h ^ k mod p) {1..<n}"
    using powers_distinct [OF ord inverse] by (auto simp: inj_on_def)
  have walk: "group_walk (nat (q - 1)) f4 f8 p = map (\<lambda>j. h ^ E j mod p) [1..<n]"
    using group_walk_powers [OF assms(10), of "nat (q - 1)" f8] power_mod_order [OF ord(1)] unfolding n(2) by (simp add: E_def g_def)
  have "inj_on ((\<lambda>k. h ^ k mod p) \<circ> E) {1..<n}"
    using E by (intro comp_inj_on injE inj_on_subset [OF injh]) auto
  then show "distinct (group_walk (nat (q - 1)) f4 f8 p)" unfolding walk by (simp add: distinct_map comp_def)
  have "E ` {1..<n} = {1..<n}" using E injE by (intro card_subset_eq) (auto simp: card_image)
  moreover have "(\<lambda>k. h ^ k mod p) ` E ` {1..<n} = (\<lambda>j. h ^ E j mod p) ` {1..<n}" by (simp only: image_image)
  ultimately have "(\<lambda>k. h ^ k mod p) ` {1..<n} = (\<lambda>j. h ^ E j mod p) ` {1..<n}" by simp
  then show "set (group_walk (nat (q - 1)) f4 f8 p) = (\<lambda>k. h ^ k mod p) ` {1..<nat q}" unfolding walk n_def [symmetric] by simp
qed

section \<open>The main program\<close>

lemma bedep_turn_runs:
  assumes "cfg \<in> set bedep_configs" and "bedep_draw_ok dr" and "run_inv tiers_1m s" and "list_all is_hostname (data s)"
  shows "\<exists>s'. bedep_turn bedep_tables (cfg, dr) s = Inr s' \<and> run_inv tiers_1m s' \<and> list_all is_hostname (data s')"
proof -
  obtain ds where ds: "bedep_run dr (bedep_init bedep_tables cfg) = Inr ds" "list_all is_bedep_name ds"
    using bedep_run_names [OF assms(1,2)] by blast
  obtain s' where "batch True (force_close 10) Break ds s = Inr s'" "run_inv tiers_1m s'" "set (data s') \<subseteq> set (data s) \<union> set ds"
    using checked_force_body [OF assms(3), of 10 Break ds] by blast
  with ds assms(4) show ?thesis by (auto simp: bedep_turn_def list_all_iff is_bedep_name_hostname)
qed

definition bedep_input :: "(nat \<Rightarrow> bedep_draw) \<Rightarrow> bool" where
  "bedep_input drawn \<longleftrightarrow> list_all (\<lambda>k. bedep_draw_ok (drawn k)) [0..<7]"

lemma bedep_main_runs:
  assumes "list_all bedep_input inputs"
  shows "\<exists>s. bedep_main bedep_tables inputs = Inr s \<and> run_inv tiers_1m s \<and> list_all is_hostname (data s)"
proof -
  have "\<exists>s'. iterate (bedep_turn bedep_tables) (zip bedep_configs (map drawn [0..<7])) s = Inr s' \<and>
      run_inv tiers_1m s' \<and> list_all is_hostname (data s')"
    if "drawn \<in> set inputs" "run_inv tiers_1m s" "list_all is_hostname (data s)" for drawn s
  proof (rule t1m.iterate_runs [OF _ that(2,3)])
    fix x s assume x: "x \<in> set (zip bedep_configs (map drawn [0..<7]))" "run_inv tiers_1m s" "list_all is_hostname (data s)"
    have "fst x \<in> set bedep_configs" "snd x \<in> set (map drawn [0..<7])"
      using x(1) by (metis prod.collapse set_zip_leftD, metis prod.collapse set_zip_rightD)
    moreover from this(2) have "bedep_draw_ok (snd x)"
      using assms that(1) unfolding bedep_input_def list_all_iff set_map by (metis imageE)
    ultimately show "\<exists>s'. bedep_turn bedep_tables x s = Inr s' \<and> run_inv tiers_1m s' \<and> list_all is_hostname (data s')"
      using bedep_turn_runs [of "fst x" "snd x"] x(2,3) by simp
  qed
  then show ?thesis
    unfolding bedep_main_def by (rule t1m.iterate_runs [OF _ open_files_inv]) (auto simp: open_files_def)
qed

section \<open>Properties\<close>

text \<open>C22: A run of bedep visits every element but one of a cyclic group. Let \<open>p\<close>, \<open>v\<close> and \<open>q\<close> be what \<open>transform2\<close>
  found, \<open>q\<close> being 23 or 29, and \<open>h\<close> the power \<open>(p - 1) / q\<close> of \<open>v\<close> modulo \<open>p\<close>, of order \<open>q\<close>: then the states
  \<open>field_4\<close> the names are made from are the powers of \<open>h\<close> other than 1, each exactly once.\<close>

theorem bedep_walks_group:
  assumes "q = 23 \<or> q = 29" and "0 < p" and "h = v ^ nat ((p - 1) div q) mod p" and "h \<noteq> 1" and "h ^ nat q mod p = 1"
    and "transform7 p v q r1 r2 b = Inr b'"
  shows "\<exists>fs. distinct fs \<and> set fs = (\<lambda>k. h ^ k mod p) ` {1..<nat q} \<and>
    bedep_domains (nat (num_domains b')) cs b' = rmap (transform11 b' cs) fs"
proof -
  obtain g us where u: "transform8_units q = Inr (int (length us), g # us)" "list_all (\<lambda>u. 0 \<le> u) us" "0 \<le> g" "g < q"
    "list_all (is_primitive_root q) (g # map (\<lambda>u. g ^ nat u mod q) us)"
    using assms(1) units_23 units_29 that [of "[3, 5, 7, 9, 13, 15, 17, 19, 21]" 5] walks_are_generated
      that [of "[3, 5, 9, 11, 13, 15, 17, 19, 23, 25, 27]" 2] by auto
  have q: "1 < q" using assms(1) by auto
  define e where "e = nat (r1 mod (q - 1) + 1)"
  have "0 < q - 1" using q by simp
  note pos_mod_sign [OF this, of r1] pos_mod_bound [OF this, of r1]
  then have e: "0 < e" "e < nat q" by (simp_all add: e_def)
  obtain f8 where f8: "b' = b\<lparr>num_domains := q - 1, field_c := p, field_4 := h ^ e mod p, field_8 := f8\<rparr>"
    "f8 = g \<or> (\<exists>u \<in> set us. f8 = g ^ nat u mod q)"
    using transform7_units [OF u(1,2) assms(2) q, of v r1 r2 b] assms(3,6) by (auto simp: e_def)
  have r: "is_primitive_root q f8" "0 \<le> f8" "f8 < q" using f8(2) u(3-5) q by (auto simp: list_all_iff)
  have "h mod p \<noteq> 1" using assms(3,4) by simp
  note all = group_walk_all [OF assms(1) r assms(5) this assms(2) e refl]
  have "bedep_domains (nat (num_domains b')) cs b' = rmap (transform11 b' cs) (group_walk (nat (q - 1)) (h ^ e mod p) f8 p)"
    using bedep_domains_walk [of b' "nat (q - 1)" cs] r(2) assms(2) by (simp add: f8(1))
  with all show ?thesis by blast
qed

theorem bedep_walks_group_witness:
  "\<exists>b' fs. transform7 4222135637 2 29 7 12 (bedep_init bedep_tables (bedep_configs ! 0)) = Inr b' \<and> distinct fs \<and>
     set fs = (\<lambda>k. 2151491478 ^ k mod 4222135637) ` {1..<29} \<and>
     bedep_domains (nat (num_domains b')) [\<lparr>currency_name = ''USD'', name_bin = 4477781, rate_str = ''1.5'', real_rate_float = 1.5,
       real_rate = 4609434218613702656, real_rate_low = 0, real_rate_high = 1073217536\<rparr>] b' =
       rmap (transform11 b' [\<lparr>currency_name = ''USD'', name_bin = 4477781, rate_str = ''1.5'', real_rate_float = 1.5,
       real_rate = 4609434218613702656, real_rate_low = 0, real_rate_high = 1073217536\<rparr>]) fs"
proof -
  obtain b' where b': "transform7 4222135637 2 29 7 12 (bedep_init bedep_tables (bedep_configs ! 0)) = Inr b'"
    using transform7_orders [of 29 4222135637 2 7 12] by auto
  have "pow_mod 2 145590884 4222135637 = 2151491478" "pow_mod 2151491478 29 4222135637 = 1" by code_simp+
  note pow = this [unfolded pow_mod_power]
  have e: "(4222135637 - 1) div 29 = (145590884::int)" by simp
  have h: "2151491478 = 2 ^ nat ((4222135637 - 1) div 29) mod (4222135637::int)" unfolding e by (rule pow(1) [symmetric])
  have "0 < (4222135637::int)" "2151491478 \<noteq> (1::int)" "nat 29 = 29" by simp_all
  note this(3) and bedep_walks_group [OF disjI2 [OF refl] this(1) h this(2) pow(2) b', of "[\<lparr>currency_name = ''USD'', name_bin = 4477781, rate_str = ''1.5'', real_rate_float = 1.5,
     real_rate = 4609434218613702656, real_rate_low = 0, real_rate_high = 1073217536\<rparr>]"]
  with b' show ?thesis by metis
qed

end
