(* ===== verification/NGram_Model.thy ===== *)
theory NGram_Model
  imports DGA_Score Struct_Bytes "HOL-Library.Multiset"
begin

text \<open>
  The language model of the scorer: \<open>build_4grams.py\<close> and \<open>build_trigrams.py\<close> count the n-grams of benign
  domains and write their smoothed log-probabilities to a binary file, \<open>load_ngram_model\<close> of
  \<open>dga_score.py\<close> (and \<open>load_model\<close> of \<open>eval_4gram.py\<close>) reads it back, and \<open>eval_4gram.py\<close> derives the
  normalisation bounds from percentiles. The lemmas show that counting is counting, that the smoothed
  probabilities add up to one, that building never fails on inputs of realistic size, and that loading
  a built file gives every observed gram its log-probability rounded to single precision.
\<close>

section \<open>Counting\<close>

definition extract_grams :: "nat \<Rightarrow> string \<Rightarrow> string list" where
  "extract_grams n domain =
     (let ls = label_letters domain in if length ls < n then [] else grams n ls)"

definition extract_4grams :: "string \<Rightarrow> string list" where
  "extract_4grams domain = extract_grams 4 domain"

definition extract_trigrams :: "string \<Rightarrow> string list" where
  "extract_trigrams domain = extract_grams 3 domain"

text \<open>A \<open>Counter\<close> is a dict: its items in order of first insertion.\<close>

type_synonym counter = "(string \<times> nat) list"

fun counter_incr :: "counter \<Rightarrow> string \<Rightarrow> counter" where
  "counter_incr [] g = [(g, 1)]"
| "counter_incr ((k, n) # c) g = (if k = g then (k, n + 1) # c else (k, n) # counter_incr c g)"

definition counter_update :: "counter \<Rightarrow> string list \<Rightarrow> counter" where
  "counter_update c gs = foldl counter_incr c gs"

definition count_lines :: "(string \<Rightarrow> string list) \<Rightarrow> nat \<Rightarrow> string list \<Rightarrow> counter" where
  "count_lines extract top_n ls =
     foldl (\<lambda>c line. counter_update c (extract (py_strip line))) [] (take top_n ls)"

definition counter_total :: "counter \<Rightarrow> nat" where
  "counter_total c = sum_list (map snd c)"

text \<open>\<open>most_common()\<close>: a stable sort by count, largest first.\<close>

definition most_common :: "counter \<Rightarrow> counter" where
  "most_common c = sort_key (\<lambda>(g, n). - int n) c"

section \<open>Writing and reading the model file\<close>

text \<open>\<open>str.encode('ascii')\<close> raises UnicodeEncodeError, a ValueError, on other characters.\<close>

definition ascii_encode :: "string \<Rightarrow> byte list result" where
  "ascii_encode s =
     (if list_all (\<lambda>c. ord c < 128) s then Inr (map (\<lambda>c. word_of_int (ord c)) s) else Inl ValueError)"

text \<open>
  \<open>bytes.decode('ascii', errors='replace')\<close> yields code points below 128 and U+FFFD only; character 255
  stands for the latter.
\<close>

definition ascii_decode :: "byte list \<Rightarrow> string" where
  "ascii_decode bs = map (\<lambda>b. if uint b < 128 then chr (uint b) else chr 255) bs"

definition gram_prob :: "nat \<Rightarrow> nat \<Rightarrow> nat \<Rightarrow> real" where
  "gram_prob tot len n = fl (of_nat (n + 1) / of_nat (tot + len))"

fun write_grams :: "nat \<Rightarrow> nat \<Rightarrow> counter \<Rightarrow> byte list result" where
  "write_grams tot len [] = Inr []"
| "write_grams tot len ((g, n) # c) =
     rbind (math_log2 (gram_prob tot len n)) (\<lambda>logp.
     rbind (ascii_encode g) (\<lambda>gb.
     rbind (pack_f32 logp) (\<lambda>fb.
     rbind (write_grams tot len c) (\<lambda>rest. Inr (gb @ fb @ rest)))))"

definition write_model :: "counter \<Rightarrow> byte list result" where
  "write_model c =
     rbind (pack_le 4 (int (length c))) (\<lambda>h.
     rbind (write_grams (counter_total c) (length c) (most_common c)) (\<lambda>rest. Inr (h @ rest)))"

definition build_model_4grams :: "nat \<Rightarrow> string list \<Rightarrow> byte list result" where
  "build_model_4grams top_n ls = write_model (count_lines extract_4grams top_n ls)"

definition build_model_trigrams :: "nat \<Rightarrow> string list \<Rightarrow> byte list result" where
  "build_model_trigrams top_n ls = write_model (count_lines extract_trigrams top_n ls)"

fun load_grams :: "nat \<Rightarrow> byte list \<Rightarrow> ngram_model \<Rightarrow> ngram_model result" where
  "load_grams 0 bs table = Inr table"
| "load_grams (Suc k) bs table =
     rbind (unpack_f32 (take 4 (drop 4 bs))) (\<lambda>logp.
       load_grams k (drop 8 bs) (AList.update (ascii_decode (take 4 bs)) logp table))"

text \<open>\<open>None\<close>: the file does not exist, which \<open>load_ngram_model\<close> only warns about.\<close>

definition load_ngram_model :: "byte list option \<Rightarrow> ngram_model result" where
  "load_ngram_model file =
     (case file of None \<Rightarrow> Inr []
      | Some bs \<Rightarrow> if length bs < 4 then Inr []
          else rbind (unpack_le 4 (take 4 bs)) (\<lambda>count. load_grams count (drop 4 bs) []))"

definition load_model :: "byte list \<Rightarrow> ngram_model result" where
  "load_model bs = rbind (unpack_le 4 (take 4 bs)) (\<lambda>count. load_grams count (drop 4 bs) [])"

text \<open>
  The coefficients of the logistic regression: \<open>lr_coeffs\<close> is an empty array before \<open>frombytes\<close> reads
  the first 24 bytes, and stays empty when their number is not a multiple of four.
\<close>

fun f32_array :: "byte list \<Rightarrow> real list" where
  "f32_array (a # b # c # d # bs) =
     (case unpack_f32 [a, b, c, d] of Inr x \<Rightarrow> x # f32_array bs | Inl _ \<Rightarrow> [])"
| "f32_array bs = []"

definition load_lr_coeffs :: "byte list option \<Rightarrow> real list option" where
  "load_lr_coeffs file =
     (case file of None \<Rightarrow> None
      | Some bs \<Rightarrow> Some (if length (take 24 bs) mod 4 \<noteq> 0 then [] else f32_array (take 24 bs)))"

section \<open>Percentiles\<close>

text \<open>\<open>sum(logs)\<close> adds from left to right, rounding each time (CPython before version 3.12).\<close>

definition avg_logprob :: "ngram_model \<Rightarrow> string \<Rightarrow> real option" where
  "avg_logprob model domain =
     (let ls = label_letters domain in
      if length ls < 4 then None
      else let gs = grams 4 ls in Some (fl (sum_log model gs / of_nat (length gs))))"

definition float_index :: "nat \<Rightarrow> real \<Rightarrow> int" where
  "float_index n q = \<lfloor>fl (of_nat n * q)\<rfloor>"

definition eval_4gram :: "ngram_model \<Rightarrow> string list \<Rightarrow> (real \<times> real) result" where
  "eval_4gram model ls =
     (let domains = filter (\<lambda>d. d \<noteq> []) (map py_strip ls);
          avgs = sort (List.map_filter (avg_logprob model) domains);
          n = length avgs
      in rbind (py_get avgs (float_index n (fl (1 / 100)))) (\<lambda>lo.
         rbind (py_get avgs (float_index n (fl (99 / 100)))) (\<lambda>hi. Inr (lo, hi))))"

text \<open>
  \<open>test_trigrams.py\<close> reads \<open>trigram_model\<close>, which it never defines, on the first line with three
  letters, and takes the minimum of an empty list when there is none.
\<close>

fun test_trigrams :: "string list \<Rightarrow> (real \<times> real \<times> real) result" where
  "test_trigrams [] = Inl ValueError"
| "test_trigrams (line # ls) =
     (if 3 \<le> length (label_letters line) then Inl NameError else test_trigrams ls)"

section \<open>Counting is counting\<close>

lemma map_of_counter_incr:
  "map_of (counter_incr c g) = (map_of c)(g \<mapsto> (case map_of c g of None \<Rightarrow> 1 | Some n \<Rightarrow> n + 1))"
  by (induction c g rule: counter_incr.induct) (auto simp: fun_eq_iff)

lemma keys_counter_incr: "fst ` set (counter_incr c g) = insert g (fst ` set c)"
  by (induction c g rule: counter_incr.induct) auto

lemma distinct_counter_incr: "distinct (map fst c) \<Longrightarrow> distinct (map fst (counter_incr c g))"
proof (induction c g rule: counter_incr.induct)
  case (2 k n c g)
  have "k \<in> fst ` set (counter_incr c g) \<longleftrightarrow> k = g \<or> k \<in> fst ` set c"
    unfolding keys_counter_incr by simp
  then show ?case using 2 by auto
qed simp

lemma total_counter_incr: "counter_total (counter_incr c g) = Suc (counter_total c)"
  by (induction c g rule: counter_incr.induct) (simp_all add: counter_total_def)

lemma positive_counter_incr: "list_all (\<lambda>(g, n). 0 < n) c \<Longrightarrow> list_all (\<lambda>(g, n). 0 < n) (counter_incr c g)"
  by (induction c g rule: counter_incr.induct) auto

lemma map_of_foldl_incr:
  "map_of (foldl counter_incr c gs) g =
    (case map_of c g of None \<Rightarrow> if g \<in> set gs then Some (count_list gs g) else None
     | Some n \<Rightarrow> Some (n + count_list gs g))"
  by (induction gs arbitrary: c) (auto simp: map_of_counter_incr count_list_0_iff split: option.splits)

text \<open>The whole corpus: the grams of its lines one after the other.\<close>

definition corpus_grams :: "(string \<Rightarrow> string list) \<Rightarrow> nat \<Rightarrow> string list \<Rightarrow> string list" where
  "corpus_grams extract top_n ls = concat (map (\<lambda>line. extract (py_strip line)) (take top_n ls))"

lemma count_lines_corpus: "count_lines extract top_n ls = foldl counter_incr [] (corpus_grams extract top_n ls)"
proof -
  have "foldl (\<lambda>c line. counter_update c (extract (py_strip line))) c xs =
      foldl counter_incr c (concat (map (\<lambda>line. extract (py_strip line)) xs))" for c xs
    by (induction xs arbitrary: c) (simp_all add: counter_update_def)
  then show ?thesis by (simp add: count_lines_def corpus_grams_def)
qed

lemma foldl_incr_facts:
  "distinct (map fst c) \<Longrightarrow> list_all (\<lambda>(g, n). 0 < n) c \<Longrightarrow>
    distinct (map fst (foldl counter_incr c gs)) \<and> list_all (\<lambda>(g, n). 0 < n) (foldl counter_incr c gs) \<and>
    fst ` set (foldl counter_incr c gs) = fst ` set c \<union> set gs \<and>
    counter_total (foldl counter_incr c gs) = counter_total c + length gs"
  by (induction gs arbitrary: c)
    (simp_all add: distinct_counter_incr positive_counter_incr keys_counter_incr total_counter_incr)

lemma count_lines_facts:
  "distinct (map fst (count_lines extract top_n ls))"
  "list_all (\<lambda>(g, n). 0 < n) (count_lines extract top_n ls)"
  "fst ` set (count_lines extract top_n ls) = set (corpus_grams extract top_n ls)"
  "counter_total (count_lines extract top_n ls) = length (corpus_grams extract top_n ls)"
  using foldl_incr_facts [of "[]" "corpus_grams extract top_n ls"]
  by (simp_all add: count_lines_corpus counter_total_def)

lemma count_lines_get:
  "map_of (count_lines extract top_n ls) g =
    (let gs = corpus_grams extract top_n ls in if g \<in> set gs then Some (count_list gs g) else None)"
  using map_of_foldl_incr [of "[]" "corpus_grams extract top_n ls" g] by (simp add: count_lines_corpus Let_def)

lemma grams_shape: "g \<in> set (grams n s) \<Longrightarrow> length g = n \<and> set g \<subseteq> set s"
  by (auto simp: grams_def dest!: in_set_takeD in_set_dropD)

lemma extract_grams_shape: "g \<in> set (extract_grams n d) \<Longrightarrow> length g = n \<and> list_all is_az g"
  using grams_shape [of g n "label_letters d"]
  by (auto simp: extract_grams_def Let_def label_letters_def list_all_iff split: if_splits)

lemma az_chars: "{c. is_az c} = chr ` {97..122}"
proof (rule set_eqI)
  fix c show "c \<in> {c. is_az c} \<longleftrightarrow> c \<in> chr ` {97..122}"
    by (auto simp: is_az_def image_iff intro!: bexI [of _ "ord c"])
qed

lemma card_az: "card {c. is_az c} = 26" "finite {c. is_az c}"
proof -
  have "inj_on chr {97..122}" by (rule inj_on_inverseI [of _ ord]) simp
  then show "card {c. is_az c} = 26" "finite {c. is_az c}" by (simp_all add: az_chars card_image)
qed

text \<open>There are \<open>26 ^ n\<close> grams, so the length field of the file is large enough for four letters.\<close>

lemma count_lines_size:
  assumes "\<And>d g. g \<in> set (extract d) \<Longrightarrow> length g = n \<and> list_all is_az g"
  shows "length (count_lines extract top_n ls) \<le> 26 ^ n"
proof -
  let ?c = "count_lines extract top_n ls"
  have "set (map fst ?c) \<subseteq> {g. set g \<subseteq> {c. is_az c} \<and> length g = n}"
    using assms by (auto simp: count_lines_facts(3) corpus_grams_def list_all_iff)
  then have "card (set (map fst ?c)) \<le> 26 ^ n"
    using card_mono [OF finite_lists_length_eq [OF card_az(2)]] card_lists_length_eq [OF card_az(2)]
    by (metis card_az(1))
  then show ?thesis using distinct_card [OF count_lines_facts(1)] by (simp only: length_map)
qed

section \<open>Smoothing\<close>

text \<open>The smoothed probabilities of the observed grams are a distribution.\<close>

lemma smoothing_total:
  assumes "c \<noteq> []"
  shows "(\<Sum>(g, n) \<leftarrow> c. (of_nat (n + 1) :: real) / of_nat (counter_total c + length c)) = 1"
proof -
  have "(\<Sum>(g, n) \<leftarrow> c. (of_nat (n + 1) :: real) / d) = of_nat (counter_total c + length c) / d" for d
    by (induction c) (auto simp: counter_total_def add_divide_distrib)
  moreover have "(of_nat (counter_total c + length c) :: real) \<noteq> 0"
    using assms by (simp only: of_nat_eq_0_iff) simp
  ultimately show ?thesis by (simp del: of_nat_add)
qed

lemma gram_prob_bounds:
  assumes "(g, n) \<in> set c" and "0 < n" and "counter_total c + length c \<le> 2 ^ 64"
  shows "2 powi (-64) \<le> gram_prob (counter_total c) (length c) n \<and> gram_prob (counter_total c) (length c) n \<le> 1"
proof -
  let ?t = "counter_total c + length c"
  have "n \<le> counter_total c" using assms(1) by (force simp: counter_total_def intro: member_le_sum_list)
  moreover have "Suc 0 \<le> length c" using assms(1) by (cases c) auto
  ultimately have le: "n + 1 \<le> ?t" by linarith
  have "fl (2 powi (-64)) = 2 powi (-64)"
    unfolding fl_def by (rule fround_fix [of _ 1 "-64"]) simp_all
  moreover have "(2::real) powi (-64) \<le> of_nat (n + 1) / of_nat ?t"
  proof -
    have "(of_nat ?t :: real) \<le> of_nat (2 ^ 64)" using assms(3) by (simp only: of_nat_le_iff)
    then have "1 / 2 ^ 64 \<le> 1 / (of_nat ?t :: real)" using le by (intro divide_left_mono) simp_all
    also have "\<dots> \<le> of_nat (n + 1) / of_nat ?t" by (intro divide_right_mono) simp_all
    finally show ?thesis by (simp add: power_int_minus inverse_eq_divide)
  qed
  ultimately have "2 powi (-64) \<le> gram_prob (counter_total c) (length c) n"
    unfolding gram_prob_def using f64.mono by metis
  moreover have "gram_prob (counter_total c) (length c) n \<le> 1"
    unfolding gram_prob_def using le by (intro f64.le_one) (simp add: divide_le_eq_1)
  ultimately show ?thesis by blast
qed

lemma log2_bounds:
  assumes "2 powi (-64) \<le> p" and "p \<le> 1"
  shows "-64 \<le> py_log2 p" "py_log2 p \<le> 0" "0 < p"
proof -
  show pos: "0 < p" using assms(1) powi_pos [of "-64"] by (simp del: powi_pos)
  have "2 powr (-64) \<le> p" using assms(1) powr_real_of_int' [of 2 "-64"] by simp
  then have "-64 \<le> log 2 p" using pos by (simp add: le_log_iff)
  then show "-64 \<le> py_log2 p" using f64.ge_int [of "-64" "log 2 p"] by (simp add: py_log2_def)
  show "py_log2 p \<le> 0" using assms(2) pos by (simp add: py_log2_def f64.nonpos)
qed

lemma pack_f32_ok:
  assumes "-64 \<le> x" and "x \<le> 0"
  shows "\<exists>bs. pack_f32 x = Inr bs"
proof -
  have "-64 \<le> fl32 x" using f32.ge_int [of "-64" x] assms(1) by simp
  moreover have "fl32 x \<le> 0" using assms(2) by (rule f32.nonpos)
  ultimately have "\<bar>fl32 x\<bar> < 2 ^ 128" by (simp add: abs_if)
  then show ?thesis by (simp add: pack_f32_def Let_def)
qed

lemma log2_of_gram:
  assumes "list_all (\<lambda>(g, n). 0 < n) c" and "counter_total c + length c \<le> 2 ^ 64" and "(g, n) \<in> set c"
  shows "math_log2 (gram_prob (counter_total c) (length c) n) = Inr (py_log2 (gram_prob (counter_total c) (length c) n))"
    and "\<exists>bs. pack_f32 (py_log2 (gram_prob (counter_total c) (length c) n)) = Inr bs"
proof -
  have "0 < n" using assms(1,3) by (auto simp: list_all_iff)
  note b = gram_prob_bounds [OF assms(3) this assms(2)]
  note l = log2_bounds [OF conjunct1 [OF b] conjunct2 [OF b]]
  show "math_log2 (gram_prob (counter_total c) (length c) n) = Inr (py_log2 (gram_prob (counter_total c) (length c) n))"
    using l(3) by (simp add: math_log2_def)
  show "\<exists>bs. pack_f32 (py_log2 (gram_prob (counter_total c) (length c) n)) = Inr bs"
    using pack_f32_ok l(1,2) by blast
qed

section \<open>Writing and loading\<close>

lemma ascii_roundtrip: "list_all is_az g \<Longrightarrow> \<exists>bs. ascii_encode g = Inr bs \<and> length bs = length g \<and> ascii_decode bs = g"
proof -
  assume az: "list_all is_az g"
  have "uint (word_of_int (ord a) :: byte) = ord a" for a
    using ord_bounds [of a] by (simp add: uint_word_of_int)
  then show ?thesis
    using az by (auto simp: ascii_encode_def ascii_decode_def list_all_iff is_az_def o_def map_idI)
qed

lemma update_new: "k \<notin> fst ` set al \<Longrightarrow> AList.update k v al = al @ [(k, v)]"
  by (induction al) auto

definition gram_logs :: "nat \<Rightarrow> nat \<Rightarrow> counter \<Rightarrow> ngram_model" where
  "gram_logs tot len c = map (\<lambda>(g, n). (g, fl32 (py_log2 (gram_prob tot len n)))) c"

lemma write_load_grams:
  assumes "\<And>g n. (g, n) \<in> set c \<Longrightarrow> length g = 4 \<and> list_all is_az g"
    and "\<And>g n. (g, n) \<in> set c \<Longrightarrow> math_log2 (gram_prob tot len n) = Inr (py_log2 (gram_prob tot len n))"
    and "\<And>g n. (g, n) \<in> set c \<Longrightarrow> \<exists>bs. pack_f32 (py_log2 (gram_prob tot len n)) = Inr bs"
    and "distinct (map fst c)" and "fst ` set c \<inter> fst ` set t = {}"
  shows "\<exists>bs. write_grams tot len c = Inr bs \<and> load_grams (length c) bs t = Inr (t @ gram_logs tot len c)"
  using assms
proof (induction c arbitrary: t)
  case (Cons p c)
  obtain g n where p: "p = (g, n)" by (cases p)
  obtain gb where gb: "ascii_encode g = Inr gb" "length gb = 4" "ascii_decode gb = g"
    using ascii_roundtrip [of g] Cons.prems(1) [of g n] p by auto
  obtain fb where fb: "pack_f32 (py_log2 (gram_prob tot len n)) = Inr fb"
    using Cons.prems(3) [of g n] p by auto
  note fb' = unpack_pack_f32 [OF fb]
  let ?t = "t @ [(g, fl32 (py_log2 (gram_prob tot len n)))]"
  have "\<exists>bs. write_grams tot len c = Inr bs \<and> load_grams (length c) bs ?t = Inr (?t @ gram_logs tot len c)"
  proof (rule Cons.IH)
    fix g' n' assume "(g', n') \<in> set c"
    then have "(g', n') \<in> set (p # c)" by simp
    then show "length g' = 4 \<and> list_all is_az g'"
      "math_log2 (gram_prob tot len n') = Inr (py_log2 (gram_prob tot len n'))"
      "\<exists>bs. pack_f32 (py_log2 (gram_prob tot len n')) = Inr bs"
      using Cons.prems(1-3) by blast+
  qed (use Cons.prems(4,5) p in auto)
  then obtain rest where rest: "write_grams tot len c = Inr rest"
    "load_grams (length c) rest ?t = Inr (?t @ gram_logs tot len c)" by blast
  have "AList.update g v t = t @ [(g, v)]" for v using Cons.prems(5) p by (intro update_new) auto
  then show ?case
    using Cons.prems(2) [of g n] p gb fb fb' rest by (simp add: gram_logs_def)
qed (simp add: gram_logs_def)

lemma most_common_perm: "mset (most_common c) = mset c"
  by (simp add: most_common_def)

lemma most_common_facts:
  "set (most_common c) = set c" "length (most_common c) = length c"
  "distinct (map fst c) \<Longrightarrow> distinct (map fst (most_common c))"
proof -
  show "set (most_common c) = set c" "length (most_common c) = length c"
    by (simp_all add: most_common_def)
  show "distinct (map fst c) \<Longrightarrow> distinct (map fst (most_common c))"
    using most_common_perm [of c] by (metis mset_eq_imp_distinct_iff mset_map)
qed

lemma most_common_sorted: "sorted_wrt (\<lambda>p q. snd q \<le> snd p) (most_common c)"
proof -
  have "sorted (map (\<lambda>(g, n). - int n) (most_common c))" by (simp add: most_common_def)
  then show ?thesis by (simp add: sorted_map case_prod_beta)
qed

text \<open>The model a loaded file gives.\<close>

definition model_of :: "counter \<Rightarrow> ngram_model" where
  "model_of c = gram_logs (counter_total c) (length c) (most_common c)"

lemma write_model_load:
  assumes keys: "\<And>g. g \<in> fst ` set c \<Longrightarrow> length g = 4 \<and> list_all is_az g"
    and c: "distinct (map fst c)" "list_all (\<lambda>(g, n). 0 < n) c"
    and size: "length c \<le> 26 ^ 4" "counter_total c + length c \<le> 2 ^ 64"
  shows "\<exists>bs. write_model c = Inr bs \<and> load_ngram_model (Some bs) = Inr (model_of c) \<and> load_model bs = Inr (model_of c)"
proof -
  have "\<exists>bs. write_grams (counter_total c) (length c) (most_common c) = Inr bs \<and>
      load_grams (length (most_common c)) bs [] = Inr ([] @ gram_logs (counter_total c) (length c) (most_common c))"
    using keys c log2_of_gram [OF c(2) size(2)]
    by (intro write_load_grams) (force simp: most_common_facts)+
  then obtain bs where bs: "write_grams (counter_total c) (length c) (most_common c) = Inr bs"
    "load_grams (length c) bs [] = Inr (model_of c)"
    by (auto simp: most_common_facts model_of_def)
  have "int (length c) < 256 ^ 4" using size(1) by simp
  then obtain h where h: "pack_le 4 (int (length c)) = Inr h" by (simp add: pack_le_def)
  then have "unpack_le 4 h = Inr (length c)" using unpack_pack_le by fastforce
  moreover have "length h = 4" using h by (auto simp: pack_le_def split: if_splits)
  ultimately show ?thesis
    using bs h by (intro exI [of _ "h @ bs"]) (simp add: write_model_def load_ngram_model_def load_model_def)
qed

lemma extract_4grams_shape: "g \<in> set (extract_4grams d) \<Longrightarrow> length g = 4 \<and> list_all is_az g"
  unfolding extract_4grams_def by (rule extract_grams_shape)

lemma build_load_4grams:
  assumes "counter_total (count_lines extract_4grams top_n ls) \<le> 2 ^ 63"
  shows "\<exists>bs. build_model_4grams top_n ls = Inr bs \<and>
    load_ngram_model (Some bs) = Inr (model_of (count_lines extract_4grams top_n ls)) \<and>
    load_model bs = Inr (model_of (count_lines extract_4grams top_n ls))"
proof -
  let ?c = "count_lines extract_4grams top_n ls"
  have size: "length ?c \<le> 26 ^ 4" using extract_4grams_shape by (rule count_lines_size)
  then have "counter_total ?c + length ?c \<le> 2 ^ 64" using assms by simp
  moreover have "length g = 4 \<and> list_all is_az g" if "g \<in> fst ` set ?c" for g
    using that extract_4grams_shape by (auto simp: count_lines_facts(3) corpus_grams_def)
  ultimately show ?thesis
    unfolding build_model_4grams_def using size count_lines_facts(1,2) by (intro write_model_load)
qed

text \<open>What the scorer looks up in it.\<close>

lemma model_of_get:
  assumes "distinct (map fst c)"
  shows "ngram_get (model_of c) g = (case map_of c g of None \<Rightarrow> MIN_LOGPROB
    | Some n \<Rightarrow> fl32 (py_log2 (gram_prob (counter_total c) (length c) n)))"
proof -
  have "map_of (map (\<lambda>(g, n). (g, f n)) xs) g = map_option f (map_of xs g)" for f :: "nat \<Rightarrow> real" and xs
    by (induction xs) auto
  moreover have "map_of (most_common c) = map_of c"
    using assms most_common_facts by (metis map_of_inject_set)
  ultimately show ?thesis by (simp add: ngram_get_def model_of_def gram_logs_def split: option.split)
qed

section \<open>Percentiles and the broken test\<close>

lemma float_index_bounds:
  assumes "0 < n" and "n \<le> 2 ^ 46" and "0 \<le> q" and "q \<le> 127 / 128"
  shows "0 \<le> float_index n q" "float_index n q < int n"
proof -
  show "0 \<le> float_index n q" using assms(3) by (simp add: float_index_def f64.nonneg)
  have "fl (of_nat n * q) \<le> fl (of_nat n * (127 / 128))"
    using assms(4) by (intro f64.mono mult_left_mono) simp_all
  also have "\<dots> = of_nat n * (127 / 128)"
    unfolding fl_def by (rule fround_fix [of _ "int n * 127" "-7"]) (use assms(2) in \<open>simp_all add: power_int_minus\<close>)
  also have "\<dots> < of_nat n" using assms(1) by simp
  finally show "float_index n q < int n" by (simp add: float_index_def floor_less_iff)
qed

lemma percentile_literals: "0 \<le> fl (1 / 100)" "fl (1 / 100) \<le> fl (99 / 100)" "fl (99 / 100) \<le> 127 / 128"
proof -
  have "fl (127 / 128) = 127 / 128"
    unfolding fl_def by (rule fround_fix [of _ 127 "-7"]) (simp_all add: power_int_minus)
  then show "fl (99 / 100) \<le> 127 / 128" using f64.mono [of "99 / 100" "127 / 128"] by simp
  show "0 \<le> fl (1 / 100)" "fl (1 / 100) \<le> fl (99 / 100)" by (simp_all add: f64.nonneg f64.mono)
qed

lemma eval_4gram_bounds:
  assumes "avgs = List.map_filter (avg_logprob model) (filter (\<lambda>d. d \<noteq> []) (map py_strip ls))"
    and "avgs \<noteq> []" and "length avgs \<le> 2 ^ 46"
  shows "\<exists>lo hi. eval_4gram model ls = Inr (lo, hi) \<and> lo \<le> hi \<and> lo \<in> set avgs \<and> hi \<in> set avgs"
proof -
  define n where "n = length avgs"
  have n: "0 < n" "n \<le> 2 ^ 46" using assms(2,3) by (simp_all add: n_def)
  let ?lo = "float_index n (fl (1 / 100))" and ?hi = "float_index n (fl (99 / 100))"
  have b: "0 \<le> ?lo" "?lo < int n" "0 \<le> ?hi" "?hi < int n"
    using float_index_bounds [OF n] percentile_literals by (meson order_trans)+
  have "?lo \<le> ?hi" unfolding float_index_def
    by (intro floor_mono f64.mono mult_left_mono percentile_literals) simp
  then have le: "nat ?lo \<le> nat ?hi" by simp
  have len: "length (sort avgs) = n" by (simp add: n_def)
  have "sort avgs ! nat ?lo \<le> sort avgs ! nat ?hi"
    using b le len by (intro sorted_nth_mono) (simp_all add: nat_less_iff)
  moreover have "sort avgs ! nat k \<in> set avgs" if "0 \<le> k" "k < int n" for k
    using that len nth_mem [of "nat k" "sort avgs"] by (simp add: nat_less_iff)
  moreover have "eval_4gram model ls = Inr (sort avgs ! nat ?lo, sort avgs ! nat ?hi)"
    using b by (simp add: eval_4gram_def Let_def assms(1) [symmetric] py_get_nth n_def)
  ultimately show ?thesis using b by blast
qed

lemma test_trigrams_raises: "\<exists>e. test_trigrams ls = Inl e"
  by (induction ls rule: test_trigrams.induct) auto

section \<open>Properties\<close>

text \<open>C17: Building a 4-gram model from a corpus of up to \<open>2 ^ 63\<close> grams never raises, and loading the file
  it wrote gives the model of the counts: the grams in order of falling count, each with its
  log-probability rounded to single precision. Both loaders agree.\<close>

theorem model_file_roundtrip:
  assumes "counter_total (count_lines extract_4grams top_n ls) \<le> 2 ^ 63"
  shows "\<exists>bs. build_model_4grams top_n ls = Inr bs \<and>
    load_ngram_model (Some bs) = Inr (model_of (count_lines extract_4grams top_n ls)) \<and>
    load_model bs = Inr (model_of (count_lines extract_4grams top_n ls))"
  using assms by (rule build_load_4grams)

theorem model_file_roundtrip_witness:
  "counter_total (count_lines extract_4grams 2 [''google.com'', ''goog.ro'']) = 4 \<and>
   (\<exists>bs. build_model_4grams 2 [''google.com'', ''goog.ro''] = Inr bs \<and>
     load_ngram_model (Some bs) = Inr (model_of [(''goog'', 2), (''oogl'', 1), (''ogle'', 1)]) \<and>
     load_model bs = Inr (model_of [(''goog'', 2), (''oogl'', 1), (''ogle'', 1)]))"
proof -
  have c: "count_lines extract_4grams 2 [''google.com'', ''goog.ro''] = [(''goog'', 2), (''oogl'', 1), (''ogle'', 1)]"
    by code_simp
  then have t: "counter_total (count_lines extract_4grams 2 [''google.com'', ''goog.ro'']) = 4"
    by (simp add: counter_total_def)
  then show ?thesis using model_file_roundtrip [of 2 "[''google.com'', ''goog.ro'']"] by (simp add: c)
qed

text \<open>C25: What the scorer looks up in a loaded model: a gram of the corpus has the logarithm of
  (its number of occurrences + 1) / (number of grams + number of distinct grams), a gram that never
  occurred has the default.\<close>

theorem model_lookup:
  "ngram_get (model_of (count_lines extract_4grams top_n ls)) g =
    (let gs = corpus_grams extract_4grams top_n ls in
     if g \<in> set gs
     then fl32 (py_log2 (fl (of_nat (count_list gs g + 1) / of_nat (length gs + card (set gs)))))
     else MIN_LOGPROB)"
proof -
  let ?c = "count_lines extract_4grams top_n ls"
  have "length ?c = card (set (map fst ?c))" using distinct_card [OF count_lines_facts(1)] by simp
  then show ?thesis
    using count_lines_facts(3) [of extract_4grams top_n ls]
    by (simp add: model_of_get [OF count_lines_facts(1)] count_lines_get count_lines_facts(4) gram_prob_def Let_def)
qed

text \<open>The smoothed probabilities the builder takes logarithms of add up to one over the observed
  grams, so no probability is left for grams outside the corpus.\<close>

lemma smoothing_is_distribution:
  assumes "corpus_grams extract top_n ls \<noteq> []"
  shows "(\<Sum>(g, n) \<leftarrow> count_lines extract top_n ls. (of_nat (n + 1) :: real) /
      of_nat (counter_total (count_lines extract top_n ls) + length (count_lines extract top_n ls))) = 1"
proof (rule smoothing_total)
  show "count_lines extract top_n ls \<noteq> []"
    using assms count_lines_facts(3) [of "extract" top_n ls] by auto
qed

lemma smoothing_is_distribution_example:
  "corpus_grams extract_4grams 1 [''google.com''] = [''goog'', ''oogl'', ''ogle''] \<and>
   (\<Sum>(g, n) \<leftarrow> count_lines extract_4grams 1 [''google.com'']. (of_nat (n + 1) :: real) /
      of_nat (counter_total (count_lines extract_4grams 1 [''google.com'']) +
        length (count_lines extract_4grams 1 [''google.com'']))) = 1"
proof -
  have g: "corpus_grams extract_4grams 1 [''google.com''] = [''goog'', ''oogl'', ''ogle'']" by code_simp
  then show ?thesis using smoothing_is_distribution [of extract_4grams 1 "[''google.com'']"] by simp
qed

text \<open>The model file lists the grams by falling count and is a rearrangement of the counter.\<close>

lemma most_common_order:
  "sorted_wrt (\<lambda>p q. snd q \<le> snd p) (most_common c) \<and> mset (most_common c) = mset c"
  using most_common_sorted most_common_perm by blast

text \<open>The percentile script returns two averages of the corpus in order, whenever some domain has
  four letters (and the corpus is not astronomically large).\<close>

lemma percentiles_ordered:
  assumes "avgs = List.map_filter (avg_logprob model) (filter (\<lambda>d. d \<noteq> []) (map py_strip ls))"
    and "avgs \<noteq> []" and "length avgs \<le> 2 ^ 46"
  shows "\<exists>lo hi. eval_4gram model ls = Inr (lo, hi) \<and> lo \<le> hi \<and> lo \<in> set avgs \<and> hi \<in> set avgs"
  using assms by (rule eval_4gram_bounds)

lemma percentiles_ordered_witness:
  "\<exists>lo hi. eval_4gram [] [''google.com'', ''x''] = Inr (lo, hi) \<and> lo \<le> hi \<and>
     lo \<in> set (List.map_filter (avg_logprob []) [''google.com'', ''x'']) \<and>
     hi \<in> set (List.map_filter (avg_logprob []) [''google.com'', ''x''])"
proof -
  have f: "filter (\<lambda>d. d \<noteq> []) (map py_strip [''google.com'', ''x'']) = [''google.com'', ''x'']" by code_simp
  have l: "length (label_letters ''google.com'') = 6" "length (label_letters ''x'') = 1" by code_simp+
  have "List.map_filter (avg_logprob []) [''google.com'', ''x''] \<noteq> []"
    "length (List.map_filter (avg_logprob []) [''google.com'', ''x'']) \<le> 2 ^ 46"
    using l by (simp_all add: map_filter_simps avg_logprob_def Let_def)
  then show ?thesis by (intro percentiles_ordered) (simp_all only: f not_False_eq_True)
qed

text \<open>A coefficient file that exists but is shorter than six floats is not ignored: it makes the
  scorer raise IndexError on every domain whose first label has five characters, two of them letters or
  digits.\<close>

lemma truncated_coefficients:
  assumes "length bs < 24" and "5 \<le> length (first_label d)" and "2 \<le> total (tally_of (sld_of d))"
    and "length (first_label d) < 2 ^ 63"
  shows "dga_score model (load_lr_coeffs (Some bs)) d = Inl IndexError"
proof -
  have len: "length (f32_array xs) \<le> length xs div 4" for xs
    by (induction xs rule: f32_array.induct) (auto split: sum.splits)
  have "length (f32_array bs) < 6" using len [of bs] assms(1) by linarith
  then show ?thesis using assms by (simp add: load_lr_coeffs_def dga_score_short_coeffs)
qed

lemma truncated_coefficients_example:
  "dga_score [] (load_lr_coeffs (Some [0, 0, 0])) ''google.com'' = Inl IndexError"
proof -
  have "length (first_label ''google.com'') = 6" "total (tally_of (sld_of ''google.com'')) = 6" by code_simp+
  then show ?thesis using truncated_coefficients [of "[0, 0, 0]" "''google.com''" "[]"] by simp
qed

end
