(* ===== verification/DNS_Wire.thy ===== *)
theory DNS_Wire
  imports Struct_Bytes Metrics
begin

text \<open>
  The DNS test tools of \<open>src/evaluation\<close>: the client of \<open>quick_test.py\<close> and \<open>test_doh.py\<close>, the authoritative servers
  \<open>auth_fastflux.py\<close>, \<open>auth_tunnel.py\<close> and \<open>replay_auth.py\<close>, and the signed response of
  \<open>gen_signed_final.py\<close> and \<open>gen_signed_response.py\<close>. A socket is modelled by the datagrams that come
  in and go out; \<open>recvfrom(n)\<close> keeps the first \<open>n\<close> bytes of a datagram. The RSA key and signature are
  parameters. The lemmas show that queries carry the labels of the name, that the client finds the
  address the fast-flux server chose, that the server goes round its pool, that the TXT encoding can
  be taken apart again, and that the key tag is the one of RFC 4034.
\<close>

section \<open>Queries\<close>

text \<open>UTF-8 of code points below 256.\<close>

definition utf8_char :: "char \<Rightarrow> byte list" where
  "utf8_char c =
     (if ord c < 128 then [word_of_int (ord c)]
      else [word_of_int (192 + ord c div 64), word_of_int (128 + ord c mod 64)])"

definition py_encode :: "string \<Rightarrow> byte list" where
  "py_encode s = concat (map utf8_char s)"

text \<open>\<open>bytes([n])\<close> raises ValueError for \<open>n\<close> above 255.\<close>

definition byte_of_len :: "nat \<Rightarrow> byte result" where
  "byte_of_len n = (if n < 256 then Inr (word_of_nat n) else Inl ValueError)"

fun encode_labels :: "byte list list \<Rightarrow> byte list result" where
  "encode_labels [] = Inr []"
| "encode_labels (l # ls) =
     rbind (byte_of_len (length l)) (\<lambda>b. rbind (encode_labels ls) (\<lambda>rest. Inr (b # l @ rest)))"

definition query_packet :: "int \<Rightarrow> string \<Rightarrow> int \<Rightarrow> byte list result" where
  "query_packet tid domain qtype =
     rbind (pack_fields [(2, tid), (2, 0x0100), (2, 1), (2, 0), (2, 0), (2, 0)]) (\<lambda>header.
     rbind (encode_labels (py_split 46 (py_encode domain))) (\<lambda>q.
     rbind (pack_fields [(2, qtype), (2, 1)]) (\<lambda>tail. Inr (header @ q @ [0] @ tail))))"

text \<open>\<open>server\<close> maps the datagram sent to the one that comes back, \<open>None\<close> for a timeout.\<close>

definition query :: "(byte list \<Rightarrow> byte list option) \<Rightarrow> int \<Rightarrow> string \<Rightarrow> int \<Rightarrow> byte list option result" where
  "query server tid domain qtype =
     rbind (query_packet tid domain qtype) (\<lambda>p. Inr (map_option (take 512) (server p)))"

definition dotted :: "byte list \<Rightarrow> string" where
  "dotted bs = py_join ''.'' (map (\<lambda>b. py_str (uint b)) bs)"

definition a_record_at :: "byte list \<Rightarrow> nat \<Rightarrow> bool" where
  "a_record_at bs i \<longleftrightarrow>
     take 2 (drop i bs) = [0, 1] \<and> take 2 (drop (i + 2) bs) = [0, 1] \<and> of_be (take 2 (drop (i + 8) bs)) = 4"

definition get_ip :: "byte list option \<Rightarrow> string option" where
  "get_ip response =
     (case response of None \<Rightarrow> None
      | Some bs \<Rightarrow> if length bs < 12 then None
          else map_option (\<lambda>i. dotted (take 4 (drop (i + 10) bs)))
                 (List.find (a_record_at bs) [12..<length bs - 10]))"

text \<open>The loop of \<open>quick_test.py\<close>: whether each test behaves as expected.\<close>

definition quick_tests :: "(string \<times> bool) list" where
  "quick_tests = [(''google.com'', False), (''malware.test.com'', True), (''xyzzy12345abc.com'', True)]"

definition is_blocked :: "byte list option \<Rightarrow> bool" where
  "is_blocked resp \<longleftrightarrow> get_ip resp = Some ''0.0.0.0''"

fun run_tests :: "(byte list \<Rightarrow> byte list option) \<Rightarrow> (string \<times> bool) list \<Rightarrow> int list \<Rightarrow> bool list result" where
  "run_tests server ((domain, expect_block) # ts) (tid # tids) =
     rbind (query server tid domain 1) (\<lambda>resp.
     rbind (run_tests server ts tids) (\<lambda>rs. Inr ((is_blocked resp = expect_block) # rs)))"
| "run_tests server ts tids = Inr []"

section \<open>The fast-flux server\<close>

definition POOL :: "string list" where
  "POOL = [''192.0.2.1'', ''192.0.2.2'', ''192.0.2.3'', ''192.0.2.4'', ''192.0.2.5'',
     ''192.0.2.6'', ''192.0.2.7'', ''192.0.2.8'', ''192.0.2.9'', ''192.0.2.10'']"

text \<open>\<open>socket.inet_aton\<close> on four decimal numbers; the other spellings it knows do not occur.\<close>

definition inet_aton :: "string \<Rightarrow> byte list result" where
  "inet_aton s =
     (let parts = py_split CHR ''.'' s in
      if length parts = 4 \<and> list_all (\<lambda>p. p \<noteq> [] \<and> list_all is_digit p \<and> dec_value p < 256) parts
      then Inr (map (\<lambda>p. word_of_nat (dec_value p)) parts) else Inl OSError)"

definition fastflux_response :: "nat \<Rightarrow> byte list \<Rightarrow> byte list result" where
  "fastflux_response counter data =
     rbind (pack_fields [(2, int (of_be (take 2 data))), (2, 0x8580), (2, 1), (2, 1), (2, 0), (2, 0)]) (\<lambda>header.
     rbind (pack_fields [(2, 1), (2, 1), (4, 1), (2, 4)]) (\<lambda>fields.
     rbind (py_get POOL (int counter mod int (length POOL))) (\<lambda>ip.
     rbind (inet_aton ip) (\<lambda>rdata.
       Inr (header @ drop 12 data @ [0xC0, 0x0C] @ fields @ rdata)))))"

text \<open>The serving loop over the datagrams that come in: shorter ones than a header are dropped.\<close>

fun fastflux_serve :: "byte list list \<Rightarrow> nat \<Rightarrow> (byte list list \<times> nat) result" where
  "fastflux_serve [] counter = Inr ([], counter)"
| "fastflux_serve (d # ds) counter =
     (let data = take 512 d in
      if length data < 12 then fastflux_serve ds counter
      else rbind (fastflux_response counter data) (\<lambda>r.
        rbind (fastflux_serve ds (counter + 1)) (\<lambda>(rs, c). Inr (r # rs, c))))"

section \<open>The tunnel server\<close>

definition TXT_DATA :: "byte list" where
  "TXT_DATA = replicate 400 0x58"

function encode_txt :: "byte list \<Rightarrow> byte list" where
  "encode_txt data =
     (if data = [] then []
      else let chunk = take 255 data in word_of_nat (length chunk) # chunk @ encode_txt (drop 255 data))"
  by pat_completeness auto
termination
  by (relation "measure length") auto

declare encode_txt.simps [simp del]

definition tunnel_response :: "byte list \<Rightarrow> byte list result" where
  "tunnel_response data =
     (let txt_rdata = encode_txt TXT_DATA in
      rbind (pack_fields [(2, 16), (2, 1), (4, 300), (2, int (length txt_rdata))]) (\<lambda>fields.
      rbind (pack_fields [(2, 0x8580)]) (\<lambda>flags.
        Inr (take 2 data @ flags @ [0, 1, 0, 1, 0, 0, 0, 0] @ drop 12 data @ [0xC0, 0x0C] @ fields @ txt_rdata))))"

fun tunnel_serve :: "byte list list \<Rightarrow> byte list list result" where
  "tunnel_serve [] = Inr []"
| "tunnel_serve (d # ds) =
     (let data = take 2048 d in
      if length data < 12 then tunnel_serve ds
      else rbind (tunnel_response data) (\<lambda>r. rbind (tunnel_serve ds) (\<lambda>rs. Inr (r # rs))))"

text \<open>\<open>replay_auth.py\<close> answers every non-empty datagram with the same bytes.\<close>

definition replay_serve :: "byte list \<Rightarrow> byte list list \<Rightarrow> byte list list" where
  "replay_serve RESPONSE ds = map (\<lambda>_. RESPONSE) (filter (\<lambda>d. take 512 d \<noteq> []) ds)"

section \<open>The key tag\<close>

fun key_tag_sum :: "byte list \<Rightarrow> int \<Rightarrow> int" where
  "key_tag_sum [] ac = ac"
| "key_tag_sum [a] ac = ac + push_bit 8 (uint a)"
| "key_tag_sum (a # b # r) ac = key_tag_sum r (ac + (push_bit 8 (uint a) OR uint b))"

definition key_tag :: "byte list \<Rightarrow> int" where
  "key_tag rdata =
     (let ac = key_tag_sum rdata 0; ac' = ac + ((drop_bit 16 ac) AND 0xFFFF) in ac' AND 0xFFFF)"

section \<open>Names on the wire\<close>

definition char_byte :: "char \<Rightarrow> byte" where
  "char_byte c = word_of_int (ord c)"

lemma uint_char_byte: "uint (char_byte c) = ord c"
  using ord_bounds [of c] by (simp add: char_byte_def uint_word_of_int)

lemma char_byte_inject: "char_byte c = char_byte d \<longleftrightarrow> c = d"
  by (metis uint_char_byte ord_inject)

lemma py_encode_ascii: "list_all (\<lambda>c. ord c < 128) s \<Longrightarrow> py_encode s = map char_byte s"
  by (induction s) (simp_all add: py_encode_def utf8_char_def char_byte_def)

lemma py_split_map:
  "(\<And>x. f x = f c \<longleftrightarrow> x = c) \<Longrightarrow> py_split (f c) (map f s) = map (map f) (py_split c s)"
  by (induction s) (auto split: list.splits)

lemma is_ldh_ascii: "is_ldh c \<Longrightarrow> ord c < 128 \<and> 0 < ord c"
  by (auto simp: is_ldh_def is_az_def is_digit_def ord_hyphen)

lemma hostname_ascii: "is_hostname d \<Longrightarrow> list_all (\<lambda>c. ord c < 128) d"
proof -
  assume d: "is_hostname d"
  have "set (concat (map (\<lambda>w. CHR ''.'' # w) (py_split CHR ''.'' d))) = insert (CHR ''.'') (set d)"
    by (simp add: py_split_join)
  then have "\<exists>w \<in> set (py_split CHR ''.'' d). c \<in> set w" if "c \<in> set d" "c \<noteq> CHR ''.''" for c
    using that by auto
  then have "is_ldh c \<or> c = CHR ''.''" if "c \<in> set d" for c
    using that d by (fastforce simp: is_hostname_def list_all_iff is_label_def)
  then show ?thesis using is_ldh_ascii by (fastforce simp: list_all_iff)
qed

text \<open>The wire form of a well-formed name: each label behind its length.\<close>

definition wire_labels :: "string list \<Rightarrow> byte list" where
  "wire_labels ls = concat (map (\<lambda>l. word_of_nat (length l) # map char_byte l) ls)"

lemma encode_labels_wire:
  "list_all (\<lambda>l. length l < 256) ls \<Longrightarrow> encode_labels (map (map char_byte) ls) = Inr (wire_labels ls)"
  by (induction ls) (simp_all add: wire_labels_def byte_of_len_def)

lemma length_wire_labels: "length (wire_labels (py_split CHR ''.'' d)) = length d + 1"
proof -
  have "length (wire_labels ls) = length (concat (map (\<lambda>w. CHR ''.'' # w) ls))" for ls
    by (induction ls) (simp_all add: wire_labels_def)
  then show ?thesis by (simp add: py_split_join)
qed

lemma wire_labels_nonzero:
  assumes "list_all is_label ls"
  shows "0 \<notin> set (wire_labels ls)"
proof -
  have "char_byte c \<noteq> 0" if "is_ldh c" for c
    using is_ldh_ascii [OF that] uint_char_byte [of c] by auto
  moreover have "(word_of_nat n :: byte) \<noteq> 0" if "0 < n" "n \<le> 63" for n
    using that by (simp add: word_of_nat_eq_0_iff nat_dvd_not_less)
  ultimately show ?thesis
    using assms by (auto simp: wire_labels_def list_all_iff is_label_def)
qed

lemma query_packet_hostname:
  assumes "is_hostname d" and "0 \<le> tid" and "tid < 65536" and "0 \<le> qtype" and "qtype < 65536"
  shows "query_packet tid d qtype =
    Inr (be_bytes 2 (nat tid) @ [1, 0, 0, 1, 0, 0, 0, 0, 0, 0] @ wire_labels (py_split CHR ''.'' d) @
      [0] @ be_bytes 2 (nat qtype) @ [0, 1])"
proof -
  have dot: "(46::byte) = char_byte (CHR ''.'')" by (simp add: char_byte_def)
  have "py_split 46 (py_encode d) = map (map char_byte) (py_split CHR ''.'' d)"
    using hostname_ascii [OF assms(1)] by (simp add: dot py_encode_ascii py_split_map char_byte_inject)
  moreover have "list_all (\<lambda>l. length l < 256) (py_split CHR ''.'' d)"
    using assms(1) by (auto simp: is_hostname_def is_label_def list_all_iff)
  moreover have "be_bytes 2 256 = [1, 0]" "be_bytes 2 1 = [0, 1]" "be_bytes 2 0 = [0, 0]"
    by (simp_all add: be_bytes_2)
  ultimately show ?thesis
    using assms by (simp add: query_packet_def encode_labels_wire pack_be_def)
qed

text \<open>A reader of names, as RFC 1035 has it: lengths up to 63, then the root label.\<close>

function read_name :: "byte list \<Rightarrow> (string list \<times> byte list) option" where
  "read_name [] = None"
| "read_name (b # bs) =
     (if b = 0 then Some ([], bs)
      else if 63 < unat b \<or> length bs < unat b then None
      else map_option (\<lambda>(ls, r). (map (\<lambda>x. chr (uint x)) (take (unat b) bs) # ls, r)) (read_name (drop (unat b) bs)))"
  by pat_completeness auto
termination
  by (relation "measure length") auto

lemma read_wire_labels:
  assumes "list_all is_label ls"
  shows "read_name (wire_labels ls @ 0 # r) = Some (ls, r)"
  using assms
proof (induction ls)
  case (Cons l ls)
  have l: "0 < length l" "length l \<le> 63" using Cons.prems by (simp_all add: is_label_def)
  then have u: "unat (word_of_nat (length l) :: byte) = length l" by (simp add: unat_of_nat)
  then have "(word_of_nat (length l) :: byte) \<noteq> 0" using l by (metis less_irrefl unat_0)
  then show ?case
    using Cons u l by (simp add: wire_labels_def o_def uint_char_byte)
qed (simp add: wire_labels_def)

section \<open>The client finds the server's answer\<close>

lemma be_small: "be_bytes 2 4 = [0, 4]" "be_bytes 2 1 = [0, 1]" "be_bytes 4 1 = [0, 0, 0, 1]"
  "be_bytes 2 0 = [0, 0]" "be_bytes 2 0x8580 = [0x85, 0x80]"
  by (simp_all add: be_bytes_2 be_bytes_4)

lemma pool_addresses:
  assumes "i < 10"
  shows "\<exists>rdata. inet_aton (POOL ! i) = Inr rdata \<and> length rdata = 4 \<and> dotted rdata = POOL ! i"
proof -
  have "list_all (\<lambda>i. case inet_aton (POOL ! i) of Inl _ \<Rightarrow> False
      | Inr rdata \<Rightarrow> length rdata = 4 \<and> dotted rdata = POOL ! i) [0..<10]"
    by code_simp
  then have "case inet_aton (POOL ! i) of Inl _ \<Rightarrow> False
      | Inr rdata \<Rightarrow> length rdata = 4 \<and> dotted rdata = POOL ! i"
    using assms by (simp only: list_all_iff set_upt atLeastLessThan_iff) simp
  then show ?thesis by (cases "inet_aton (POOL ! i)") simp_all
qed

lemma length_POOL: "length POOL = 10"
  by (simp add: POOL_def)

lemma fastflux_response_shape:
  assumes "12 \<le> length data"
  shows "\<exists>rdata. fastflux_response counter data =
    Inr (be_bytes 2 (of_be (take 2 data)) @ [0x85, 0x80, 0, 1, 0, 1, 0, 0, 0, 0] @ drop 12 data @
      [0xC0, 0x0C, 0, 1, 0, 1, 0, 0, 0, 1, 0, 4] @ rdata) \<and>
    length rdata = 4 \<and> dotted rdata = POOL ! (counter mod 10)"
proof -
  obtain rdata where r: "inet_aton (POOL ! (counter mod 10)) = Inr rdata" "length rdata = 4"
    "dotted rdata = POOL ! (counter mod 10)"
    using pool_addresses [of "counter mod 10"] by auto
  have "of_be (take 2 data) < 65536" using of_be_bound [of "take 2 data"] assms by simp
  moreover have "py_get POOL (int counter mod int (length POOL)) = Inr (POOL ! (counter mod 10))"
  proof -
    have "int counter mod int (length POOL) = int (counter mod 10)" by (simp add: length_POOL zmod_int)
    then show ?thesis by (simp add: py_get_nth length_POOL)
  qed
  ultimately show ?thesis
    using r by (simp add: fastflux_response_def pack_be_def be_small be_small [unfolded One_nat_def])
qed

lemma find_first:
  assumes "P k" and "a \<le> k" and "k < b" and "\<And>i. a \<le> i \<Longrightarrow> i < k \<Longrightarrow> \<not> P i"
  shows "List.find P [a..<b] = Some k"
proof -
  have "[a..<b] = [a..<k] @ k # [Suc k..<b]"
    using assms(2,3) by (metis upt_add_eq_append upt_conv_Cons le_add_diff_inverse less_imp_le)
  moreover have "List.find P [a..<k] = None" using assms(4) by (auto simp: find_None_iff)
  moreover have "List.find P (xs @ k # ys) = Some k" if "List.find P xs = None" for xs ys
    using that assms(1) by (induction xs) (auto split: if_splits)
  ultimately show ?thesis by simp
qed

lemma nth_drop_append: "length xs = n \<Longrightarrow> drop (n + k) (xs @ ys) = drop k ys"
  by simp

text \<open>
  In an answer to a type A query the first match of the scan is the question, whose "length" field
  is the class of the answer; the second is the record.
\<close>

lemma get_ip_answer:
  assumes "length header = 12" and "0 \<notin> set name" and "length rdata = 4"
  shows "get_ip (Some (header @ name @ [0, 0, 1, 0, 1, 0xC0, 0x0C, 0, 1, 0, 1, 0, 0, 0, 1, 0, 4] @ rdata)) =
    Some (dotted rdata)"
proof -
  define tail where "tail = [0, 0, 1, 0, 1, 0xC0, 0x0C, 0, 1, 0, 1, 0, 0, 0, 1, 0, 4] @ rdata"
  define n where "n = length name"
  define bs where "bs = header @ name @ tail"
  have be: "of_be [0, 4] = 4" "of_be [0, 1] = 1" by code_simp+
  have len: "length bs = n + 33" using assms by (simp add: bs_def tail_def n_def)
  have at: "drop (12 + n + k) bs = drop k tail" for k
    by (simp add: bs_def n_def assms(1))
  have "a_record_at bs (12 + n + 7)"
    using at [of 7] at [of 9] at [of 15] by (simp add: a_record_at_def tail_def be algebra_simps)
  moreover have "\<not> a_record_at bs i" if "12 \<le> i" "i < 12 + n + 7" for i
  proof (cases "i < 12 + n")
    case True
    define j where "j = i - 12"
    have j: "i = 12 + j" "j < n" using True that(1) by (simp_all add: j_def)
    then have "bs ! i = name ! j" using assms(1) by (simp add: bs_def nth_append n_def)
    then have "bs ! i \<noteq> 0" using j assms(2) by (metis n_def nth_mem)
    moreover have "take 2 (drop i bs) = [bs ! i, bs ! (i + 1)]"
      using True len by (simp add: take_Suc_conv_app_nth numeral_2_eq_2 hd_drop_conv_nth Cons_nth_drop_Suc [symmetric])
    ultimately show ?thesis by (simp add: a_record_at_def)
  next
    case False
    define k where "k = i - (12 + n)"
    have k: "i = 12 + n + k" "k < 7" using False that(2) by (simp_all add: k_def)
    then have "k \<in> {0, 1, 2, 3, 4, 5, 6}" by auto
    moreover have "a_record_at bs i \<longleftrightarrow> take 2 (drop k tail) = [0, 1] \<and> take 2 (drop (k + 2) tail) = [0, 1] \<and>
        of_be (take 2 (drop (k + 8) tail)) = 4"
      using at [of k] at [of "k + 2"] at [of "k + 8"] k(1) by (simp add: a_record_at_def add.assoc)
    ultimately show ?thesis by (auto simp: tail_def be)
  qed
  ultimately have "List.find (a_record_at bs) [12..<length bs - 10] = Some (12 + n + 7)"
    using len by (intro find_first) simp_all
  moreover have "take 4 (drop (12 + n + 7 + 10) bs) = rdata"
    using at [of 17] assms(3) by (simp add: tail_def add.assoc)
  ultimately have "get_ip (Some bs) = Some (dotted rdata)" using len assms(3) by (simp add: get_ip_def)
  then show ?thesis by (simp add: bs_def tail_def)
qed

text \<open>A query answered by the fast-flux server: the client reads the address of the pool's turn.\<close>

definition fastflux_server :: "nat \<Rightarrow> byte list \<Rightarrow> byte list option" where
  "fastflux_server counter d =
     (case fastflux_serve [d] counter of Inr ([r], _) \<Rightarrow> Some r | _ \<Rightarrow> None)"

lemma query_fastflux:
  assumes "is_hostname d" and "0 \<le> tid" and "tid < 65536"
  shows "\<exists>r. query (fastflux_server counter) tid d 1 = Inr (Some r) \<and> take 2 r = be_bytes 2 (nat tid) \<and>
    get_ip (Some r) = Some (POOL ! (counter mod 10))"
proof -
  define name where "name = wire_labels (py_split CHR ''.'' d)"
  define p where "p = be_bytes 2 (nat tid) @ [1, 0, 0, 1, 0, 0, 0, 0, 0, 0] @ name @ [0, 0, 1, 0, 1]"
  have q: "query_packet tid d 1 = Inr p"
    using query_packet_hostname [OF assms, of 1] by (simp add: p_def name_def be_bytes_2)
  have "length name \<le> 254" using assms(1) length_wire_labels [of d] by (simp add: name_def is_hostname_def)
  then have len: "length p \<le> 271" "12 \<le> length p" by (simp_all add: p_def)
  have "of_be (take 2 p) = nat tid" "drop 12 p = name @ [0, 0, 1, 0, 1]"
    using assms(2,3) by (simp_all add: p_def of_be_be_bytes nat_less_iff)
  then obtain rdata where r0: "fastflux_response counter p =
      Inr ((be_bytes 2 (nat tid) @ [0x85, 0x80, 0, 1, 0, 1, 0, 0, 0, 0]) @ name @
        [0, 0, 1, 0, 1, 0xC0, 0x0C, 0, 1, 0, 1, 0, 0, 0, 1, 0, 4] @ rdata)"
    and r: "length rdata = 4" "dotted rdata = POOL ! (counter mod 10)"
    using fastflux_response_shape [OF len(2), of counter] by auto
  define resp where "resp = (be_bytes 2 (nat tid) @ [0x85, 0x80, 0, 1, 0, 1, 0, 0, 0, 0]) @ name @
        [0, 0, 1, 0, 1, 0xC0, 0x0C, 0, 1, 0, 1, 0, 0, 0, 1, 0, 4] @ rdata"
  have "length resp \<le> 512" using \<open>length name \<le> 254\<close> r(1) by (simp add: resp_def)
  moreover have "fastflux_response counter p = Inr resp" unfolding resp_def by (rule r0)
  ultimately have "query (fastflux_server counter) tid d 1 = Inr (Some resp)"
    using q len by (simp add: query_def fastflux_server_def)
  moreover have "get_ip (Some resp) = Some (POOL ! (counter mod 10))"
    unfolding resp_def r(2) [symmetric]
    by (rule get_ip_answer) (use assms(1) r(1) in \<open>simp_all add: name_def wire_labels_nonzero is_hostname_def\<close>)
  moreover have "take 2 resp = be_bytes 2 (nat tid)" by (simp add: resp_def)
  ultimately show ?thesis by blast
qed

text \<open>The server never fails, answers every datagram of at least twelve bytes, and goes round the pool.\<close>

lemma fastflux_serve_ok:
  "\<exists>rs. fastflux_serve ds counter = Inr (rs, counter + length (filter (\<lambda>d. 12 \<le> length d) ds)) \<and>
    length rs = length (filter (\<lambda>d. 12 \<le> length d) ds) \<and>
    (\<forall>i < length rs. \<exists>pre rdata. rs ! i = pre @ rdata \<and> length rdata = 4 \<and> dotted rdata = POOL ! ((counter + i) mod 10))"
proof (induction ds arbitrary: counter)
  case (Cons d ds)
  show ?case
  proof (cases "12 \<le> length d")
    case False
    then show ?thesis using Cons.IH [of counter] by simp
  next
    case True
    then obtain pre rdata where r: "fastflux_response counter (take 512 d) = Inr (pre @ rdata)"
      "length rdata = 4" "dotted rdata = POOL ! (counter mod 10)"
    proof -
      have "12 \<le> length (take 512 d)" using True by simp
      from fastflux_response_shape [OF this, of counter] that show ?thesis
        unfolding append.assoc [symmetric] by blast
    qed
    obtain rs where rs: "fastflux_serve ds (counter + 1) = Inr (rs, counter + 1 + length (filter (\<lambda>d. 12 \<le> length d) ds))"
      "length rs = length (filter (\<lambda>d. 12 \<le> length d) ds)"
      "\<forall>i < length rs. \<exists>pre rdata. rs ! i = pre @ rdata \<and> length rdata = 4 \<and> dotted rdata = POOL ! ((counter + 1 + i) mod 10)"
      using Cons.IH [of "counter + 1"] by blast
    have "\<exists>pre' rdata'. ((pre @ rdata) # rs) ! i = pre' @ rdata' \<and> length rdata' = 4 \<and>
        dotted rdata' = POOL ! ((counter + i) mod 10)" if "i < Suc (length rs)" for i
      using that r rs(3) by (cases i) auto
    moreover have "\<not> length (take 512 d) < 12" using True by simp
    ultimately show ?thesis using True r(1) rs(1,2) by (simp del: length_take)
  qed
qed simp

section \<open>Character strings\<close>

lemma encode_txt_Nil [simp]: "encode_txt [] = []"
  by (simp add: encode_txt.simps)

lemma encode_txt_step: "d \<noteq> [] \<Longrightarrow>
    encode_txt d = word_of_nat (min 255 (length d)) # take 255 d @ encode_txt (drop 255 d)"
  by (subst encode_txt.simps) (simp add: Let_def min.commute)

text \<open>A reader of TXT data: character strings of up to 255 bytes.\<close>

function read_txt :: "byte list \<Rightarrow> byte list list option" where
  "read_txt [] = Some []"
| "read_txt (b # bs) =
     (if length bs < unat b then None
      else map_option (Cons (take (unat b) bs)) (read_txt (drop (unat b) bs)))"
  by pat_completeness auto
termination
  by (relation "measure length") auto

lemma read_encode_txt:
  "\<exists>cs. read_txt (encode_txt d) = Some cs \<and> concat cs = d \<and> list_all (\<lambda>c. c \<noteq> [] \<and> length c \<le> 255) cs"
proof (induction d rule: encode_txt.induct)
  case (1 d)
  show ?case
  proof (cases "d = []")
    case False
    define n where "n = min 255 (length d)"
    have u: "unat (word_of_nat n :: byte) = n" by (simp add: unat_of_nat n_def)
    obtain cs where cs: "read_txt (encode_txt (drop 255 d)) = Some cs" "concat cs = drop 255 d"
      "list_all (\<lambda>c. c \<noteq> [] \<and> length c \<le> 255) cs"
      using 1 False by blast
    have t: "take n (take 255 d @ e) = take 255 d" "drop n (take 255 d @ e) = e" for e :: "byte list"
      by (simp_all add: n_def min_def)
    have "read_txt (encode_txt d) = Some (take 255 d # cs)"
      using cs(1) by (simp add: encode_txt_step [OF False] n_def [symmetric] u t) (simp add: n_def min_def)
    then show ?thesis using cs False by (intro exI [of _ "take 255 d # cs"]) simp
  qed simp
qed

lemma length_encode_txt: "length (encode_txt d) = length d + (length d + 254) div 255"
proof (induction d rule: encode_txt.induct)
  case (1 d)
  show ?case
  proof (cases "d = []")
    case False
    then have "length (encode_txt d) = Suc (min 255 (length d) + (length d - 255 + (length d - 255 + 254) div 255))"
      using 1 by (simp add: encode_txt_step min.commute)
    then show ?thesis by (cases "length d \<le> 255") (use False in \<open>auto simp: min_def div_if\<close>)
  qed simp
qed

lemma tunnel_response_ok:
  "tunnel_response data = Inr (take 2 data @ [0x85, 0x80, 0, 1, 0, 1, 0, 0, 0, 0] @ drop 12 data @
     [0xC0, 0x0C, 0, 16, 0, 1, 0, 0, 1, 44, 1, 146] @ encode_txt TXT_DATA)"
  by (simp add: tunnel_response_def length_encode_txt TXT_DATA_def pack_be_def be_bytes_2 be_bytes_4)

section \<open>The key tag of RFC 4034\<close>

text \<open>Appendix B: bytes at even offsets are shifted by eight, the others added as they are.\<close>

definition rfc4034_sum :: "byte list \<Rightarrow> int" where
  "rfc4034_sum key = (\<Sum>i < length key. if odd i then uint (key ! i) else push_bit 8 (uint (key ! i)))"

definition rfc4034_key_tag :: "byte list \<Rightarrow> int" where
  "rfc4034_key_tag key =
     (let ac = rfc4034_sum key in (ac + ((drop_bit 16 ac) AND 0xFFFF)) AND 0xFFFF)"

lemma byte_or: "push_bit 8 (uint (a::byte)) OR uint (b::byte) = push_bit 8 (uint a) + uint b"
proof -
  have "bit (push_bit 8 (uint a)) n \<Longrightarrow> \<not> bit (uint b) n" for n
    by (auto simp: bit_push_bit_iff bit_uint_iff)
  then have "push_bit 8 (uint a) AND uint b = 0" by (intro bit_eqI) (auto simp: bit_and_iff)
  then show ?thesis by (simp add: disjunctive_add_eq_or)
qed

lemma rfc4034_sum_step: "rfc4034_sum (a # b # r) = push_bit 8 (uint a) + uint b + rfc4034_sum r"
proof -
  have "(\<Sum>i<length r. if odd i then uint ((a # b # r) ! Suc (Suc i)) else push_bit 8 (uint ((a # b # r) ! Suc (Suc i)))) =
      rfc4034_sum r"
    unfolding rfc4034_sum_def by (rule sum.cong) simp_all
  then show ?thesis by (simp add: rfc4034_sum_def sum.lessThan_Suc_shift del: sum.lessThan_Suc)
qed

lemma key_tag_sum_rfc: "key_tag_sum rdata ac = ac + rfc4034_sum rdata"
  by (induction rdata ac rule: key_tag_sum.induct) (simp_all add: rfc4034_sum_step byte_or, simp_all add: rfc4034_sum_def)

lemma key_tag_rfc: "key_tag rdata = rfc4034_key_tag rdata"
  by (simp add: key_tag_def rfc4034_key_tag_def key_tag_sum_rfc)

lemma key_tag_range: "0 \<le> key_tag rdata" "key_tag rdata < 65536"
  by (simp_all add: key_tag_def Let_def and_masks)

section \<open>Properties\<close>

text \<open>A query for a well-formed host name carries its id, and behind the header a reader finds the
  labels of the name, then type and class.\<close>

lemma query_carries_name:
  assumes "is_hostname d" and "0 \<le> tid" and "tid < 65536" and "0 \<le> qtype" and "qtype < 65536"
  shows "\<exists>p. query_packet tid d qtype = Inr p \<and> of_be (take 2 p) = nat tid \<and>
    read_name (drop 12 p) = Some (py_split CHR ''.'' d, be_bytes 2 (nat qtype) @ [0, 1])"
  using query_packet_hostname [OF assms] assms
  by (simp add: of_be_be_bytes nat_less_iff read_wire_labels is_hostname_def)

lemma query_carries_name_example:
  "\<exists>p. query_packet 7 ''google.com'' 1 = Inr p \<and> of_be (take 2 p) = 7 \<and>
    read_name (drop 12 p) = Some ([''google'', ''com''], [0, 1, 0, 1])"
proof -
  have "is_hostname ''google.com''" "py_split CHR ''.'' ''google.com'' = [''google'', ''com'']" by code_simp+
  then show ?thesis using query_carries_name [of "''google.com''" 7 1] by (simp add: be_bytes_2)
qed

text \<open>C19: Client and fast-flux server together: for every well-formed name the test client gets an answer
  with its own id, and the address it extracts is the pool entry of the server's turn.\<close>

theorem client_sees_pool_address:
  assumes "is_hostname d" and "0 \<le> tid" and "tid < 65536"
  shows "\<exists>r. query (fastflux_server counter) tid d 1 = Inr (Some r) \<and> take 2 r = be_bytes 2 (nat tid) \<and>
    get_ip (Some r) = Some (POOL ! (counter mod 10)) \<and> \<not> is_blocked (Some r)"
proof -
  have "list_all (\<lambda>ip. ip \<noteq> ''0.0.0.0'') POOL" by code_simp
  then have "POOL ! (counter mod 10) \<noteq> ''0.0.0.0''" by (simp add: list_all_length length_POOL)
  then show ?thesis using query_fastflux [OF assms, of counter] by (auto simp: is_blocked_def)
qed

theorem client_sees_pool_address_witness:
  "\<exists>r. query (fastflux_server 12) 99 ''fastflux.test'' 1 = Inr (Some r) \<and> get_ip (Some r) = Some ''192.0.2.3''"
proof -
  have "is_hostname ''fastflux.test''" "POOL ! 2 = ''192.0.2.3''" by code_simp+
  then show ?thesis using client_sees_pool_address [of "''fastflux.test''" 99 12] by auto
qed

text \<open>The fast-flux server never raises, answers exactly the datagrams that hold a header, and its
  answers end in the addresses of the pool in turn.\<close>

theorem fastflux_round_robin:
  "\<exists>rs. fastflux_serve ds counter = Inr (rs, counter + length (filter (\<lambda>d. 12 \<le> length d) ds)) \<and>
    map (\<lambda>r. dotted (drop (length r - 4) r)) rs =
      map (\<lambda>i. POOL ! ((counter + i) mod 10)) [0..<length (filter (\<lambda>d. 12 \<le> length d) ds)]"
proof -
  obtain rs where rs: "fastflux_serve ds counter = Inr (rs, counter + length (filter (\<lambda>d. 12 \<le> length d) ds))"
    "length rs = length (filter (\<lambda>d. 12 \<le> length d) ds)"
    "\<forall>i < length rs. \<exists>pre rdata. rs ! i = pre @ rdata \<and> length rdata = 4 \<and> dotted rdata = POOL ! ((counter + i) mod 10)"
    using fastflux_serve_ok by blast
  have "dotted (drop (length (rs ! i) - 4) (rs ! i)) = POOL ! ((counter + i) mod 10)" if "i < length rs" for i
    using rs(3) that by fastforce
  then have "map (\<lambda>r. dotted (drop (length r - 4) r)) rs =
      map (\<lambda>i. POOL ! ((counter + i) mod 10)) [0..<length (filter (\<lambda>d. 12 \<le> length d) ds)]"
    using rs(2) by (intro nth_equalityI) simp_all
  with rs(1) show ?thesis by blast
qed

text \<open>The TXT encoding of any data is a sequence of character strings of 1 to 255 bytes that
  concatenate to the data, with one length byte per 255 bytes begun.\<close>

lemma encode_txt_roundtrip:
  "(\<exists>cs. read_txt (encode_txt d) = Some cs \<and> concat cs = d \<and> list_all (\<lambda>c. c \<noteq> [] \<and> length c \<le> 255) cs) \<and>
   length (encode_txt d) = length d + (length d + 254) div 255"
  using read_encode_txt length_encode_txt by blast

text \<open>C30: The key tag computed from pairs of bytes is the one RFC 4034 defines byte by byte, and fits the
  16 bits of the field it is packed into.\<close>

theorem key_tag_is_rfc4034: "key_tag rdata = rfc4034_key_tag rdata \<and> 0 \<le> key_tag rdata \<and> key_tag rdata < 65536"
  using key_tag_rfc key_tag_range by blast

end
