(* ===== verification/DNS_Sign.thy ===== *)
theory DNS_Sign
  imports DNS_Wire Py_Base64
begin

text \<open>
  The signed DNS response that \<open>gen_signed_final.py\<close> and \<open>gen_signed_response.py\<close> write for the
  DNSSEC tests, the zone reader of \<open>signed_auth.py\<close>, and the base64 URL of \<open>test_doh.py\<close>.
  The RSA key, the signing function and the clock are parameters. The lemmas show that a DNS reader
  takes the packet apart into the records that went in, that the RRSIG names the key tag of the
  DNSKEY beside it, and that the two generators agree.
\<close>

section \<open>Keys\<close>

fun bit_length :: "nat \<Rightarrow> nat" where
  "bit_length n = (if n = 0 then 0 else Suc (bit_length (n div 2)))"

declare bit_length.simps [simp del]

text \<open>\<open>n.to_bytes(k, 'big')\<close> raises OverflowError when \<open>n\<close> does not fit.\<close>

definition to_bytes :: "nat \<Rightarrow> nat \<Rightarrow> byte list result" where
  "to_bytes k n = (if n < 256 ^ k then Inr (be_bytes k n) else Inl OverflowError)"

definition exponent_bytes :: "nat \<Rightarrow> byte list result" where
  "exponent_bytes e = to_bytes ((bit_length e + 7) div 8) e"

definition key_blob :: "byte list \<Rightarrow> byte list \<Rightarrow> byte list result" where
  "key_blob exponent modulus =
     (if length exponent \<le> 255 then
        rbind (byte_of_len (length exponent)) (\<lambda>b. Inr (b # exponent @ modulus))
      else rbind (pack_be 2 (int (length exponent))) (\<lambda>l. Inr (0 # l @ exponent @ modulus)))"

definition dnskey_rdata_final :: "nat \<Rightarrow> nat \<Rightarrow> byte list result" where
  "dnskey_rdata_final e n =
     rbind (exponent_bytes e) (\<lambda>exponent. rbind (to_bytes 256 n) (\<lambda>modulus.
     rbind (key_blob exponent modulus) (\<lambda>blob.
     rbind (pack_fields [(2, 257), (1, 3), (1, 8)]) (\<lambda>h. Inr (h @ blob)))))"

text \<open>The other script gets the modulus as the bytes of the hexadecimal text that openssl prints.\<close>

definition dnskey_rdata_response :: "nat \<Rightarrow> byte list \<Rightarrow> byte list result" where
  "dnskey_rdata_response exp_val modulus =
     rbind (exponent_bytes exp_val) (\<lambda>exp_bytes.
     rbind (key_blob exp_bytes []) (\<lambda>exp_blob.
     rbind (pack_fields [(2, 257)]) (\<lambda>flags. Inr (flags @ [3] @ [8] @ exp_blob @ modulus))))"

section \<open>The packet\<close>

definition name_zone :: "byte list" where
  "name_zone = [6, 115, 105, 103, 110, 101, 100, 4, 116, 101, 115, 116, 0]"

definition name_www :: "byte list" where
  "name_www = [3, 119, 119, 119, 6, 115, 105, 103, 110, 101, 100, 4, 116, 101, 115, 116, 0]"

definition resource_record :: "byte list \<Rightarrow> int \<Rightarrow> int \<Rightarrow> byte list \<Rightarrow> byte list result" where
  "resource_record name typ ttl rdata =
     rbind (pack_fields [(2, typ), (2, 1), (4, ttl), (2, int (length rdata))]) (\<lambda>h. Inr (name @ h @ rdata))"

definition rrsig_header :: "int \<Rightarrow> int \<Rightarrow> byte list result" where
  "rrsig_header kt now =
     rbind (pack_fields [(2, 1), (1, 8), (1, 3), (4, 300), (4, now + 86400), (4, now - 86400), (2, kt)])
       (\<lambda>h. Inr (h @ name_zone))"

definition signed_packet :: "byte list \<Rightarrow> (byte list \<Rightarrow> byte list) \<Rightarrow> int \<Rightarrow> byte list result" where
  "signed_packet dnskey_rdata sign now =
     rbind (inet_aton ''192.0.2.1'') (\<lambda>a_rdata.
     rbind (resource_record name_www 1 300 a_rdata) (\<lambda>rrset_a.
     rbind (rrsig_header (key_tag dnskey_rdata) now) (\<lambda>hdr.
     rbind (resource_record name_www 46 300 (hdr @ sign (hdr @ rrset_a))) (\<lambda>rrsig_rr.
     rbind (resource_record name_zone 48 3600 dnskey_rdata) (\<lambda>dnskey_rr.
     rbind (pack_fields [(2, 0x1234), (2, 0x8580), (2, 1), (2, 2), (2, 0), (2, 1)]) (\<lambda>header.
     rbind (pack_fields [(2, 1), (2, 1)]) (\<lambda>q.
       Inr (header @ name_www @ q @ rrset_a @ rrsig_rr @ dnskey_rr))))))))"

definition gen_signed_final :: "nat \<Rightarrow> nat \<Rightarrow> (byte list \<Rightarrow> byte list) \<Rightarrow> int \<Rightarrow> byte list result" where
  "gen_signed_final e n sign now = rbind (dnskey_rdata_final e n) (\<lambda>rdata. signed_packet rdata sign now)"

definition gen_signed_response :: "nat \<Rightarrow> byte list \<Rightarrow> (byte list \<Rightarrow> byte list) \<Rightarrow> int \<Rightarrow> byte list result" where
  "gen_signed_response exp_val modulus sign now =
     rbind (dnskey_rdata_response exp_val modulus) (\<lambda>rdata. signed_packet rdata sign now)"

section \<open>The zone reader\<close>

text \<open>\<open>s.split()\<close>: the words between white space.\<close>

fun py_words_acc :: "string \<Rightarrow> string \<Rightarrow> string list" where
  "py_words_acc w [] = (if w = [] then [] else [w])"
| "py_words_acc w (c # s) =
     (if is_space c then (if w = [] then [] else [w]) @ py_words_acc [] s else py_words_acc (w @ [c]) s)"

definition py_words :: "string \<Rightarrow> string list" where
  "py_words s = py_words_acc [] s"

definition zone_line :: "string \<Rightarrow> (string \<times> int \<times> string \<times> string) result" where
  "zone_line line =
     (let parts = py_words line in
      rbind (py_get parts 0) (\<lambda>p0.
      let name = (if p0 = ''@'' then ''signed.test.'' else if p0 \<noteq> [] \<and> last p0 = CHR ''.'' then p0 else p0 @ ''.'') in
      rbind (py_get parts 1) (\<lambda>p1. rbind (py_int p1) (\<lambda>ttl.
      rbind (py_get parts 2) (\<lambda>rtype. Inr (name, ttl, rtype, py_join '' '' (drop 3 parts)))))))"

text \<open>The loop computes these values and stores none: \<open>zone_rrs\<close> stays empty.\<close>

fun read_zone :: "string list \<Rightarrow> (string \<times> string) list result" where
  "read_zone [] = Inr []"
| "read_zone (l # ls) =
     (let line = py_strip l in
      if line = [] \<or> hd line = CHR '';'' then read_zone ls
      else rbind (zone_line line) (\<lambda>_. read_zone ls))"

section \<open>Base64 of a query\<close>

text \<open>The GET path of \<open>test_doh.py\<close>.\<close>

definition doh_url :: "string \<Rightarrow> string result" where
  "doh_url domain =
     rbind (query_packet 0x1234 domain 1) (\<lambda>q. Inr (''/dns-query?dns='' @ b64_encode b64_urlsafe q))"

text \<open>
  The body behind the first blank line; \<open>find\<close> gives -1 when there is none, so the body then starts at
  offset 3. The address is read from the last four bytes.
\<close>

fun find_sub :: "byte list \<Rightarrow> byte list \<Rightarrow> nat \<Rightarrow> int" where
  "find_sub pat [] i = (if pat = [] then int i else -1)"
| "find_sub pat (b # bs) i = (if take (length pat) (b # bs) = pat then int i else find_sub pat bs (i + 1))"

definition doh_ip :: "byte list \<Rightarrow> string option" where
  "doh_ip response =
     (let body_start = find_sub [13, 10, 13, 10] response 0 + 4; dns_resp = drop (nat body_start) response
      in if 12 \<le> length dns_resp then Some (dotted (drop (length dns_resp - 4) dns_resp)) else None)"

section \<open>A reader of messages\<close>

type_synonym rr = "string list \<times> nat \<times> nat \<times> nat \<times> byte list"

definition read_rr :: "byte list \<Rightarrow> (rr \<times> byte list) option" where
  "read_rr bs =
     (case read_name bs of None \<Rightarrow> None
      | Some (name, r) \<Rightarrow>
          if length r < 10 then None
          else let rdlen = of_be (take 2 (drop 8 r)) in
            if length r < 10 + rdlen then None
            else Some ((name, of_be (take 2 r), of_be (take 2 (drop 2 r)), of_be (take 4 (drop 4 r)),
                        take rdlen (drop 10 r)), drop (10 + rdlen) r))"

fun read_rrs :: "nat \<Rightarrow> byte list \<Rightarrow> (rr list \<times> byte list) option" where
  "read_rrs 0 bs = Some ([], bs)"
| "read_rrs (Suc k) bs =
     (case read_rr bs of None \<Rightarrow> None
      | Some (x, r) \<Rightarrow> map_option (\<lambda>(xs, r'). (x # xs, r')) (read_rrs k r))"

text \<open>A message with one question: the id and the flags, the question, and the three sections, with no bytes left over.\<close>

definition read_message :: "byte list \<Rightarrow>
    (nat \<times> nat \<times> (string list \<times> nat \<times> nat) \<times> rr list \<times> rr list \<times> rr list) option" where
  "read_message bs =
     (if length bs < 12 \<or> of_be (take 2 (drop 4 bs)) \<noteq> 1 then None
      else case read_name (drop 12 bs) of None \<Rightarrow> None
        | Some (qname, r0) \<Rightarrow>
            if length r0 < 4 then None
            else case read_rrs (of_be (take 2 (drop 6 bs))) (drop 4 r0) of None \<Rightarrow> None
              | Some (an, r1) \<Rightarrow>
                  (case read_rrs (of_be (take 2 (drop 8 bs))) r1 of None \<Rightarrow> None
                   | Some (ns, r2) \<Rightarrow>
                       (case read_rrs (of_be (take 2 (drop 10 bs))) r2 of
                          Some (ar, []) \<Rightarrow>
                            Some (of_be (take 2 bs), of_be (take 2 (drop 2 bs)),
                              (qname, of_be (take 2 r0), of_be (take 2 (drop 2 r0))), an, ns, ar)
                        | _ \<Rightarrow> None)))"

lemma name_zone_wire: "name_zone = wire_labels [''signed'', ''test''] @ [0]"
  by code_simp

lemma name_www_wire: "name_www = wire_labels [''www'', ''signed'', ''test''] @ [0]"
  by code_simp

lemma read_names:
  "read_name (name_zone @ r) = Some ([''signed'', ''test''], r)"
  "read_name (name_www @ r) = Some ([''www'', ''signed'', ''test''], r)"
proof -
  have "list_all is_label [''signed'', ''test'']" "list_all is_label [''www'', ''signed'', ''test'']" by code_simp+
  then show "read_name (name_zone @ r) = Some ([''signed'', ''test''], r)"
    "read_name (name_www @ r) = Some ([''www'', ''signed'', ''test''], r)"
    by (simp_all add: name_zone_wire name_www_wire read_wire_labels)
qed

lemma resource_record_ok:
  assumes "0 \<le> typ" "typ < 65536" "0 \<le> ttl" "ttl < 2 ^ 32" and "length rdata < 65536"
  shows "resource_record name typ ttl rdata =
    Inr (name @ be_bytes 2 (nat typ) @ [0, 1] @ be_bytes 4 (nat ttl) @ be_bytes 2 (length rdata) @ rdata)"
  using assms by (simp add: resource_record_def pack_be_def be_small be_small [unfolded One_nat_def])

lemma read_resource_record:
  assumes "0 \<le> typ" "typ < 65536" "0 \<le> ttl" "ttl < 2 ^ 32" and "length rdata < 65536"
    and "\<And>r. read_name (name @ r) = Some (labels, r)"
    and "resource_record name typ ttl rdata = Inr bs"
  shows "read_rr (bs @ rest) = Some ((labels, nat typ, 1, nat ttl, rdata), rest)"
proof -
  have bs: "bs = name @ be_bytes 2 (nat typ) @ [0, 1] @ be_bytes 4 (nat ttl) @ be_bytes 2 (length rdata) @ rdata"
    using resource_record_ok [OF assms(1-5), of name] assms(7) by simp
  define h where "h = be_bytes 2 (nat typ) @ [0, 1] @ be_bytes 4 (nat ttl) @ be_bytes 2 (length rdata)"
  have "take 2 h = be_bytes 2 (nat typ)" "take 2 (drop 2 h) = [0, 1]" "take 4 (drop 4 h) = be_bytes 4 (nat ttl)"
    "take 2 (drop 8 h) = be_bytes 2 (length rdata)" and len: "length h = 10"
    by (simp_all add: h_def)
  then have f: "of_be (take 2 h) = nat typ" "of_be (take 2 (drop 2 h)) = 1" "of_be (take 4 (drop 4 h)) = nat ttl"
    "of_be (take 2 (drop 8 h)) = length rdata"
    using assms(1-5) by (simp_all add: of_be_be_bytes nat_less_iff of_be_2)
  have "read_name (bs @ rest) = Some (labels, h @ rdata @ rest)"
    using assms(6) [of "h @ rdata @ rest"] by (simp add: bs h_def)
  then show ?thesis using f len by (simp add: read_rr_def Let_def)
qed

text \<open>The signed packet read back.\<close>

lemma rrsig_header_ok:
  assumes "0 \<le> kt" "kt < 65536" "86400 \<le> now" "now + 86400 < 2 ^ 32"
  shows "\<exists>hdr. rrsig_header kt now = Inr hdr \<and> length hdr = 31 \<and> of_be (take 2 (drop 16 hdr)) = nat kt \<and>
    of_be (take 4 (drop 8 hdr)) = nat (now + 86400) \<and> of_be (take 4 (drop 12 hdr)) = nat (now - 86400)"
proof -
  let ?h = "be_bytes 2 1 @ be_bytes 1 8 @ be_bytes 1 3 @ be_bytes 4 300 @ be_bytes 4 (nat (now + 86400)) @
    be_bytes 4 (nat (now - 86400)) @ be_bytes 2 (nat kt)"
  have "rrsig_header kt now = Inr (?h @ name_zone)"
    using assms by (simp add: rrsig_header_def pack_be_def)
  moreover have "length (?h @ name_zone) = 31" by (simp add: name_zone_def)
  moreover have "of_be (take 2 (drop 16 (?h @ name_zone))) = nat kt"
    "of_be (take 4 (drop 8 (?h @ name_zone))) = nat (now + 86400)"
    "of_be (take 4 (drop 12 (?h @ name_zone))) = nat (now - 86400)"
    using assms by (simp_all add: of_be_be_bytes nat_less_iff)
  ultimately show ?thesis by blast
qed

text \<open>A packet of a question, two answers and one additional record.\<close>

lemma read_message_sections:
  assumes rrs: "\<And>r. read_rr (rr_a @ r) = Some (a, r)" "\<And>r. read_rr (rr_b @ r) = Some (b, r)" "read_rr rr_c = Some (c, [])"
  shows "read_message ([0x12, 0x34, 0x85, 0x80, 0, 1, 0, 2, 0, 0, 0, 1] @ name_www @ [0, 1, 0, 1] @ rr_a @ rr_b @ rr_c) =
    Some (0x1234, 0x8580, ([''www'', ''signed'', ''test''], 1, 1), [a, b], [], [c])"
proof -
  define packet where
    "packet = [0x12, 0x34, 0x85, 0x80, 0, 1, 0, 2, 0, 0, 0, 1] @ name_www @ [0, 1, 0, 1] @ rr_a @ rr_b @ rr_c"
  have be: "of_be [0, 1] = 1" "of_be [0, 2] = 2" "of_be [0, 0] = 0" "of_be [0x12, 0x34] = 0x1234"
    "of_be [0x85, 0x80] = 0x8580" by (simp_all add: of_be_2)
  have n: "read_rrs 2 bs = read_rrs (Suc (Suc 0)) bs" "read_rrs 1 bs = read_rrs (Suc 0) bs" for bs
    by (simp_all add: numeral_2_eq_2)
  have q: "read_name (drop 12 packet) = Some ([''www'', ''signed'', ''test''], [0, 1, 0, 1] @ rr_a @ rr_b @ rr_c)"
    by (simp add: packet_def read_names(2))
  have an: "read_rrs 2 (rr_a @ rr_b @ rr_c) = Some ([a, b], rr_c)" by (simp add: n rrs)
  have ar: "read_rrs 1 rr_c = Some ([c], [])" unfolding n by (simp add: rrs)
  have f: "of_be (take 2 packet) = 0x1234" "of_be (take 2 (drop 2 packet)) = 0x8580" "of_be (take 2 (drop 4 packet)) = 1"
    "of_be (take 2 (drop 6 packet)) = 2" "of_be (take 2 (drop 8 packet)) = 0" "of_be (take 2 (drop 10 packet)) = 1"
    "\<not> length packet < 12"
    using be by (simp_all add: packet_def)
  have "drop 4 ([0, 1, 0, 1] @ rr_a @ rr_b @ rr_c) = rr_a @ rr_b @ rr_c"
    "of_be (take 2 ([0, 1, 0, 1] @ rr_a @ rr_b @ rr_c)) = 1"
    "of_be (take 2 (drop 2 ([0, 1, 0, 1] @ rr_a @ rr_b @ rr_c))) = 1"
    "\<not> length ([0, 1, 0, 1] @ rr_a @ rr_b @ rr_c) < 4"
    using be by simp_all
  then have "read_message packet = Some (0x1234, 0x8580, ([''www'', ''signed'', ''test''], 1, 1), [a, b], [], [c])"
    unfolding read_message_def q using f
    by (simp only: an ar f option.case prod.case read_rrs.simps if_False simp_thms list.case)
  then show ?thesis by (simp only: packet_def)
qed

lemma signed_packet_reads:
  assumes "86400 \<le> now" "now + 86400 < 2 ^ 32" and "length rdata < 65536"
    and "\<And>m. length (sign m) \<le> 65000"
  shows "\<exists>packet hdr rrset. signed_packet rdata sign now = Inr packet \<and>
    rrset = name_www @ [0, 1, 0, 1, 0, 0, 1, 44, 0, 4, 192, 0, 2, 1] \<and>
    rrsig_header (key_tag rdata) now = Inr hdr \<and> of_be (take 2 (drop 16 hdr)) = nat (key_tag rdata) \<and>
    read_message packet = Some (0x1234, 0x8580, ([''www'', ''signed'', ''test''], 1, 1),
      [([''www'', ''signed'', ''test''], 1, 1, 300, [192, 0, 2, 1]),
       ([''www'', ''signed'', ''test''], 46, 1, 300, hdr @ sign (hdr @ rrset))], [],
      [([''signed'', ''test''], 48, 1, 3600, rdata)])"
proof -
  obtain hdr where hdr: "rrsig_header (key_tag rdata) now = Inr hdr" "length hdr = 31"
    "of_be (take 2 (drop 16 hdr)) = nat (key_tag rdata)"
    using rrsig_header_ok [OF key_tag_range assms(1,2)] by blast
  define rrset where "rrset = name_www @ [0, 1, 0, 1, 0, 0, 1, 44, 0, 4, 192, 0, 2, 1]"
  define sigd where "sigd = hdr @ sign (hdr @ rrset)"
  have ip: "inet_aton ''192.0.2.1'' = Inr [192, 0, 2, 1]" by code_simp
  have rr_a: "resource_record name_www 1 300 [192, 0, 2, 1] = Inr rrset"
    by (simp add: resource_record_ok rrset_def be_bytes_2 be_bytes_4)
  have lsig: "length sigd < 65536" using assms(4) [of "hdr @ rrset"] hdr(2) by (simp add: sigd_def)
  obtain rr_sig where rr_sig: "resource_record name_www 46 300 sigd = Inr rr_sig"
    using lsig by (simp add: resource_record_ok)
  obtain rr_key where rr_key: "resource_record name_zone 48 3600 rdata = Inr rr_key"
    using assms(3) by (simp add: resource_record_ok)
  define header :: "byte list" where "header = [0x12, 0x34, 0x85, 0x80, 0, 1, 0, 2, 0, 0, 0, 1]"
  have header: "pack_fields [(2, 0x1234), (2, 0x8580), (2, 1), (2, 2), (2, 0), (2, 1)] = Inr header"
    by (simp add: pack_be_def header_def be_bytes_2)
  define packet where "packet = header @ name_www @ [0, 1, 0, 1] @ rrset @ rr_sig @ rr_key"
  have "signed_packet rdata sign now = Inr packet"
    using ip rr_a rr_sig rr_key hdr(1) header
    by (simp add: signed_packet_def sigd_def packet_def pack_be_def be_bytes_2)
  moreover have "read_message packet = Some (0x1234, 0x8580, ([''www'', ''signed'', ''test''], 1, 1),
      [([''www'', ''signed'', ''test''], 1, 1, 300, [192, 0, 2, 1]),
       ([''www'', ''signed'', ''test''], 46, 1, 300, sigd)], [], [([''signed'', ''test''], 48, 1, 3600, rdata)])"
    unfolding packet_def header_def
    using read_resource_record [OF _ _ _ _ _ read_names(2) rr_a] read_resource_record [OF _ _ _ _ lsig read_names(2) rr_sig]
      read_resource_record [OF _ _ _ _ assms(3) read_names(1) rr_key, of "[]"]
    by (intro read_message_sections) simp_all
  ultimately show ?thesis using hdr unfolding sigd_def rrset_def by blast
qed

text \<open>The public key of RFC 3110: the shortest exponent, then the modulus.\<close>

lemma bit_length_bound: "n < 2 ^ bit_length n"
proof (induction n rule: bit_length.induct)
  case (1 n)
  show ?case
  proof (cases "n = 0")
    case False
    then have "n div 2 < 2 ^ bit_length (n div 2)" using 1 by blast
    moreover have "bit_length n = Suc (bit_length (n div 2))" using False by (simp add: bit_length.simps)
    ultimately show ?thesis by simp
  qed simp
qed

lemma bit_length_le: "n < 2 ^ k \<Longrightarrow> bit_length n \<le> k"
proof (induction n arbitrary: k rule: bit_length.induct)
  case (1 n)
  show ?case
  proof (cases "n = 0")
    case False
    then obtain j where j: "k = Suc j" using "1.prems" by (cases k) auto
    then have "bit_length (n div 2) \<le> j" using 1 False by simp
    then show ?thesis using False j by (subst bit_length.simps) simp
  qed (simp add: bit_length.simps)
qed

lemma exponent_bytes_ok: "\<exists>bs. exponent_bytes e = Inr bs \<and> of_be bs = e \<and> length bs = (bit_length e + 7) div 8"
proof -
  let ?k = "(bit_length e + 7) div 8"
  have "e < 2 ^ bit_length e" by (rule bit_length_bound)
  also have "\<dots> \<le> (2::nat) ^ (8 * ?k)" by (rule power_increasing) simp_all
  finally have "e < 256 ^ ?k" by (simp add: power_mult)
  then show ?thesis by (simp add: exponent_bytes_def to_bytes_def of_be_be_bytes)
qed

lemma generators_agree:
  assumes "n < 256 ^ 256"
  shows "gen_signed_final e n sign now = gen_signed_response e (be_bytes 256 n) sign now"
proof -
  obtain ex where "exponent_bytes e = Inr ex" using exponent_bytes_ok by blast
  moreover have "rbind (key_blob ex m) (\<lambda>b. Inr (h @ [3] @ [8] @ b)) =
      rbind (key_blob ex []) (\<lambda>b. Inr (h @ [3] @ [8] @ b @ m))" for h m
    by (cases "pack_be 2 (int (length ex))"; cases "byte_of_len (length ex)") (simp_all add: key_blob_def)
  moreover have "be_bytes 1 3 = [3]" "be_bytes 1 8 = [8]" by (simp_all add: be_bytes_def)
  ultimately have "dnskey_rdata_final e n = dnskey_rdata_response e (be_bytes 256 n)"
    using assms by (simp add: dnskey_rdata_final_def dnskey_rdata_response_def to_bytes_def pack_be_def)
  then show ?thesis by (simp add: gen_signed_final_def gen_signed_response_def)
qed

lemma dnskey_rdata_final_ok:
  assumes "e < 2 ^ 2040" and "n < 256 ^ 256"
  shows "\<exists>rdata. dnskey_rdata_final e n = Inr rdata \<and> length rdata \<le> 516"
proof -
  obtain ex where ex: "exponent_bytes e = Inr ex" "length ex = (bit_length e + 7) div 8"
    using exponent_bytes_ok by blast
  have "length ex \<le> 255" using ex(2) bit_length_le [OF assms(1)] by simp
  then show ?thesis
    using ex(1) assms(2) by (simp add: dnskey_rdata_final_def to_bytes_def key_blob_def byte_of_len_def pack_be_def)
qed

text \<open>The zone file in the repository starts with a directive of two words.\<close>

lemma read_zone_directive: "read_zone (''$TTL 300'' # ls) = Inl IndexError"
proof -
  have "py_strip ''$TTL 300'' = ''$TTL 300''" "zone_line ''$TTL 300'' = Inl IndexError" by code_simp+
  then show ?thesis by simp
qed

lemma read_zone_empty: "read_zone ls = Inr z \<Longrightarrow> z = []"
  by (induction ls rule: read_zone.induct) (auto simp: Let_def rbind_eq_Inr split: if_splits)

section \<open>Properties\<close>

text \<open>C20: For a 2048-bit key, a signature of usual size and a clock between 1970 and 2106, the generator
  does not raise, and a DNS reader takes the packet apart, with nothing left over, into the question,
  the A record and its RRSIG, and the DNSKEY; the RRSIG carries the key tag of that DNSKEY, and its
  signature is over its own header and the A record.\<close>

theorem signed_response_reads:
  assumes "e < 2 ^ 2040" and "n < 256 ^ 256" and "86400 \<le> now" and "now + 86400 < 2 ^ 32"
    and "\<And>m. length (sign m) \<le> 65000"
  shows "\<exists>packet rdata hdr rrset. gen_signed_final e n sign now = Inr packet \<and>
    dnskey_rdata_final e n = Inr rdata \<and> rrsig_header (key_tag rdata) now = Inr hdr \<and>
    of_be (take 2 (drop 16 hdr)) = nat (key_tag rdata) \<and>
    rrset = name_www @ [0, 1, 0, 1, 0, 0, 1, 44, 0, 4, 192, 0, 2, 1] \<and>
    read_message packet = Some (0x1234, 0x8580, ([''www'', ''signed'', ''test''], 1, 1),
      [([''www'', ''signed'', ''test''], 1, 1, 300, [192, 0, 2, 1]),
       ([''www'', ''signed'', ''test''], 46, 1, 300, hdr @ sign (hdr @ rrset))], [],
      [([''signed'', ''test''], 48, 1, 3600, rdata)])"
proof -
  obtain rdata where rdata: "dnskey_rdata_final e n = Inr rdata" "length rdata \<le> 516"
    using dnskey_rdata_final_ok [OF assms(1,2)] by blast
  then show ?thesis
    using signed_packet_reads [OF assms(3,4), of rdata sign] assms(5) by (auto simp: gen_signed_final_def)
qed

theorem signed_response_reads_witness:
  "\<exists>packet rdata hdr rrset. gen_signed_final 65537 12345 (\<lambda>m. replicate 256 0) 1700000000 = Inr packet \<and>
    dnskey_rdata_final 65537 12345 = Inr rdata \<and> rrsig_header (key_tag rdata) 1700000000 = Inr hdr \<and>
    read_message packet = Some (0x1234, 0x8580, ([''www'', ''signed'', ''test''], 1, 1),
      [([''www'', ''signed'', ''test''], 1, 1, 300, [192, 0, 2, 1]),
       ([''www'', ''signed'', ''test''], 46, 1, 300, hdr @ replicate 256 0)], [],
      [([''signed'', ''test''], 48, 1, 3600, rdata)])"
  using signed_response_reads [of 65537 12345 1700000000 "\<lambda>m. replicate 256 0"] by auto

text \<open>The generator that uses the cryptography package and the one that calls openssl write the same
  packet for the same key, clock and signing function.\<close>

lemma signed_generators_agree:
  assumes "n < 256 ^ 256"
  shows "gen_signed_final e n sign now = gen_signed_response e (be_bytes 256 n) sign now"
  using assms by (rule generators_agree)

lemma signed_generators_agree_example:
  "gen_signed_final 65537 12345 (\<lambda>m. m) 1700000000 = gen_signed_response 65537 (be_bytes 256 12345) (\<lambda>m. m) 1700000000"
  using signed_generators_agree [of 12345] by simp

text \<open>The zone reader raises IndexError on every file that, like the one in the repository, starts
  with the directive \<open>$TTL 300\<close>, and it never stores a record.\<close>

lemma zone_reader_fails:
  "read_zone (''$TTL 300'' # ls) = Inl IndexError \<and> (\<forall>zs. read_zone zs \<in> Inl ` UNIV \<union> {Inr []})"
proof -
  have "read_zone zs \<in> Inl ` UNIV \<union> {Inr []}" for zs
    using read_zone_empty [of zs] by (cases "read_zone zs") auto
  then show ?thesis using read_zone_directive by blast
qed

end
