(* ===== verification/C_Prelude.thy ===== *)
theory C_Prelude
  imports DNS_Wire
begin

text \<open>
  What the C sources of the firewall (\<open>src/src/*.c\<close>) share: results that may fail or run into undefined
  behaviour, bytes read from and text written to bounded buffers, C strings, \<open>tolower\<close> in the C locale,
  and big-endian integers. An access outside an object is never given a value: it is the result
  \<open>Inl (Fault ...)\<close>, so that a theorem about the result also says that the access does not happen.
  Memory allocation is taken to succeed. The host is little-endian, as the machines the project is
  built for (x86-64, ARM) are, which matters where \<open>htons\<close> is applied to a value that is later written
  byte by byte.
\<close>

section \<open>Results\<close>

datatype fault = NullDeref | OutOfBounds | Overrun | Overflow | DivByZero | Uninitialised | Dangling | Endless | Killed

text \<open>\<open>Dangling\<close> is an access through a pointer to an object that no longer exists, \<open>Endless\<close> a loop that does not end,
  \<open>Overflow\<close> signed arithmetic that leaves the range of its type, and \<open>Killed\<close> the end of the process by a signal.
  \<open>Failed\<close> is the return value -1 of a function that reports an error.\<close>

datatype c_error = Failed | Fault fault

type_synonym 'a c_result = "c_error + 'a"

fun cbind :: "'a c_result \<Rightarrow> ('a \<Rightarrow> 'b c_result) \<Rightarrow> 'b c_result" where
  "cbind (Inl e) f = Inl e"
| "cbind (Inr x) f = f x"

lemma cbind_eq_Inr: "cbind r f = Inr y \<longleftrightarrow> (\<exists>x. r = Inr x \<and> f x = Inr y)"
  by (cases r) auto

lemma cbind_assoc: "cbind (cbind r f) g = cbind r (\<lambda>x. cbind (f x) g)"
  by (cases r) simp_all

lemma cbind_eq_Inl: "cbind r f = Inl e \<longleftrightarrow> r = Inl e \<or> (\<exists>x. r = Inr x \<and> f x = Inl e)"
  by (cases r) auto

lemma cbind_cong [fundef_cong]:
  "r = r' \<Longrightarrow> (\<And>x. r' = Inr x \<Longrightarrow> f x = g x) \<Longrightarrow> cbind r f = cbind r' g"
  by (cases r') auto

text \<open>A result without undefined behaviour.\<close>

definition defined :: "'a c_result \<Rightarrow> bool" where
  "defined r \<longleftrightarrow> (\<forall>f. r \<noteq> Inl (Fault f))"

lemma defined_simps [simp]: "defined (Inr x)" "defined (Inl Failed)" "\<not> defined (Inl (Fault f))"
  by (simp_all add: defined_def)

lemma defined_cbind: "defined r \<Longrightarrow> (\<And>x. r = Inr x \<Longrightarrow> defined (f x)) \<Longrightarrow> defined (cbind r f)"
  by (cases r) (auto simp: defined_def)

lemma defined_cases: "defined r \<Longrightarrow> r = Inl Failed \<or> (\<exists>x. r = Inr x)"
  by (cases r) (auto simp: defined_def, metis c_error.exhaust)

text \<open>\<open>n++\<close> for an \<open>int\<close>, and the largest one.\<close>

definition INT_MAX :: int where "INT_MAX = 2 ^ 31 - 1"

definition c_increment :: "int \<Rightarrow> int c_result" where
  "c_increment n = (if n < INT_MAX then Inr (n + 1) else Inl (Fault Overflow))"

lemma c_increment_ok [simp]: "n < INT_MAX \<Longrightarrow> c_increment n = Inr (n + 1)"
  by (simp add: c_increment_def)

section \<open>Buffers\<close>

definition byte_at :: "byte list \<Rightarrow> nat \<Rightarrow> byte c_result" where
  "byte_at bs i = (if i < length bs then Inr (bs ! i) else Inl (Fault OutOfBounds))"

text \<open>\<open>memcpy\<close> of \<open>n\<close> bytes from offset \<open>i\<close>.\<close>

definition bytes_at :: "byte list \<Rightarrow> nat \<Rightarrow> nat \<Rightarrow> byte list c_result" where
  "bytes_at bs i n = (if i + n \<le> length bs then Inr (take n (drop i bs)) else Inl (Fault OutOfBounds))"

lemma byte_at_ok [simp]: "i < length bs \<Longrightarrow> byte_at bs i = Inr (bs ! i)"
  by (simp add: byte_at_def)

lemma bytes_at_ok [simp]: "i + n \<le> length bs \<Longrightarrow> bytes_at bs i n = Inr (take n (drop i bs))"
  by (simp add: bytes_at_def)

lemma byte_at_append [simp]: "byte_at (a @ b) (length a + i) = byte_at b i"
  by (simp add: byte_at_def nth_append)

section \<open>Characters and C strings\<close>

definition byte_char :: "byte \<Rightarrow> char" where
  "byte_char b = chr (uint b)"

lemma uint_byte_less: "uint (b :: byte) < 256"
  using unsigned_less [of b, where ?'a = int] by simp

lemma char_byte_char [simp]: "char_byte (byte_char b) = b"
  using uint_byte_less [of b] by (simp add: byte_char_def char_byte_def)

lemma byte_char_byte [simp]: "byte_char (char_byte c) = c"
  by (simp add: byte_char_def uint_char_byte)

text \<open>What a reader of a zero-terminated string sees of the bytes in a buffer.\<close>

definition cstr :: "string \<Rightarrow> string" where
  "cstr s = takeWhile (\<lambda>c. c \<noteq> CHR 0x00) s"

lemma cstr_no_nul: "CHR 0x00 \<notin> set (cstr s)"
  by (auto simp: cstr_def dest: set_takeWhileD)

lemma cstr_id [simp]: "CHR 0x00 \<notin> set s \<Longrightarrow> cstr s = s"
  by (auto simp: cstr_def takeWhile_eq_all_conv)

lemma length_cstr: "length (cstr s) \<le> length s"
  by (simp add: cstr_def length_takeWhile_le)

text \<open>\<open>tolower\<close> in the C locale, and \<open>strcasecmp\<close> as equality.\<close>

definition c_tolower :: "char \<Rightarrow> char" where
  "c_tolower c = (if 65 \<le> ord c \<and> ord c \<le> 90 then chr (ord c + 32) else c)"

definition c_lower :: "string \<Rightarrow> string" where
  "c_lower s = map c_tolower s"

lemma c_tolower_idem [simp]: "c_tolower (c_tolower c) = c_tolower c"
  by (auto simp: c_tolower_def)

lemma c_lower_idem [simp]: "c_lower (c_lower s) = c_lower s"
  by (simp add: c_lower_def)

lemma length_c_lower [simp]: "length (c_lower s) = length s"
  by (simp add: c_lower_def)

lemma c_tolower_eq_small: "ord d < 65 \<Longrightarrow> c_tolower c = d \<longleftrightarrow> c = d"
  by (auto simp: c_tolower_def)

lemma c_tolower_az [simp]: "is_az c \<Longrightarrow> c_tolower c = c"
  by (simp add: c_tolower_def is_az_def)

lemma c_tolower_digit [simp]: "is_digit c \<Longrightarrow> c_tolower c = c"
  by (simp add: c_tolower_def is_digit_def)

definition strcaseeq :: "string \<Rightarrow> string \<Rightarrow> bool" where
  "strcaseeq a b \<longleftrightarrow> c_lower a = c_lower b"

text \<open>\<open>strncpy(buf, s, n); buf[n - 1] = '\\0'\<close>.\<close>

definition c_copy :: "nat \<Rightarrow> string \<Rightarrow> string" where
  "c_copy n s = take (n - 1) s"

section \<open>Rings of slots\<close>

text \<open>Linear probing and ring buffers visit \<open>(h + i) % n\<close> for \<open>i = 0, 1, ...\<close>: every slot once.\<close>

lemma ring_set: "set (map (\<lambda>i. (h + i) mod n) [0..<n]) = {..<n :: nat}"
proof (cases "n = 0")
  case False
  define k where "k = h mod n"
  have n: "0 < n" "k < n" using False by (simp_all add: k_def)
  have "j \<in> (\<lambda>i. (k + i) mod n) ` {0..<n}" if "j < n" for j
  proof (cases "k \<le> j")
    case True
    then show ?thesis using that by (intro image_eqI [of _ _ "j - k"]) simp_all
  next
    case False
    then show ?thesis using that n by (intro image_eqI [of _ _ "n + j - k"]) simp_all
  qed
  then show ?thesis using n by (auto simp: k_def mod_simps)
qed simp

lemma ring_distinct: "distinct (map (\<lambda>i. (h + i) mod n) [0..<n :: nat])"
  by (rule card_distinct) (simp only: ring_set, simp)

lemma filter_update:
  "i < length xs \<Longrightarrow> length (filter P (xs[i := y])) + (if P (xs ! i) then 1 else 0) =
    length (filter P xs) + (if P y then 1 else 0)"
proof (induction xs arbitrary: i)
  case (Cons x xs)
  then show ?case by (cases i) (auto split: if_splits)
qed simp

section \<open>Big-endian integers\<close>

text \<open>\<open>((uint16_t)p[0] << 8) | p[1]\<close> and its 32-bit companion.\<close>

definition be16 :: "byte \<Rightarrow> byte \<Rightarrow> 16 word" where
  "be16 a b = push_bit 8 (ucast a) OR ucast b"

definition be32 :: "byte \<Rightarrow> byte \<Rightarrow> byte \<Rightarrow> byte \<Rightarrow> 32 word" where
  "be32 a b c d = push_bit 24 (ucast a) OR push_bit 16 (ucast b) OR push_bit 8 (ucast c) OR ucast d"

definition read_u16 :: "byte list \<Rightarrow> nat \<Rightarrow> 16 word c_result" where
  "read_u16 p i = cbind (byte_at p i) (\<lambda>a. cbind (byte_at p (i + 1)) (\<lambda>b. Inr (be16 a b)))"

definition read_u32 :: "byte list \<Rightarrow> nat \<Rightarrow> 32 word c_result" where
  "read_u32 p i =
     cbind (byte_at p i) (\<lambda>a. cbind (byte_at p (i + 1)) (\<lambda>b.
     cbind (byte_at p (i + 2)) (\<lambda>c. cbind (byte_at p (i + 3)) (\<lambda>d. Inr (be32 a b c d)))))"

definition write_u16 :: "16 word \<Rightarrow> byte list" where
  "write_u16 v = [ucast (drop_bit 8 v), ucast v]"

definition write_u32 :: "32 word \<Rightarrow> byte list" where
  "write_u32 v = [ucast (drop_bit 24 v), ucast (drop_bit 16 v), ucast (drop_bit 8 v), ucast v]"

text \<open>\<open>htons\<close> on a little-endian host swaps the bytes.\<close>

definition htons :: "16 word \<Rightarrow> 16 word" where
  "htons v = be16 (ucast v) (ucast (drop_bit 8 v))"

lemma length_write [simp]: "length (write_u16 v) = 2" "length (write_u32 w) = 4"
  by (simp_all add: write_u16_def write_u32_def)

lemma write_not_Nil [simp]: "write_u16 v \<noteq> []" "write_u32 w \<noteq> []"
  by (simp_all add: write_u16_def write_u32_def)

lemma be16_split [simp]: "be16 (ucast (drop_bit 8 v)) (ucast v) = v"
  by (rule bit_word_eqI) (auto simp: be16_def bit_simps)

lemma bit_byte_high [simp]: "8 \<le> n \<Longrightarrow> \<not> bit (b :: byte) n"
  using bit_imp_le_length [of b n] by auto

lemma bit_be32:
  "n < 32 \<Longrightarrow> bit (be32 a b c d) n =
    (if n < 8 then bit d n else if n < 16 then bit c (n - 8) else if n < 24 then bit b (n - 16) else bit a (n - 24))"
  unfolding be32_def bit_or_iff bit_push_bit_iff bit_unsigned_iff by auto

lemma be32_split [simp]: "be32 (ucast (drop_bit 24 v)) (ucast (drop_bit 16 v)) (ucast (drop_bit 8 v)) (ucast v) = v"
  by (rule bit_word_eqI) (auto simp: bit_be32 bit_unsigned_iff bit_drop_bit_eq)

lemma read_u16_ok: "i + 2 \<le> length p \<Longrightarrow> read_u16 p i = Inr (be16 (p ! i) (p ! (i + 1)))"
  by (simp add: read_u16_def)

lemma read_u32_ok:
  "i + 4 \<le> length p \<Longrightarrow> read_u32 p i = Inr (be32 (p ! i) (p ! (i + 1)) (p ! (i + 2)) (p ! (i + 3)))"
  by (simp add: read_u32_def)

lemma read_write_u16: "drop i p = write_u16 v @ r \<Longrightarrow> read_u16 p i = Inr v"
proof -
  assume d: "drop i p = write_u16 v @ r"
  then have i: "i + 2 \<le> length p" using length_drop [of i p] by simp
  have "p ! (i + k) = drop i p ! k" if "k < 2" for k using i that by simp
  note this [of 0] this [of 1]
  then show ?thesis using i by (simp add: read_u16_ok d write_u16_def)
qed

lemma read_write_u32: "drop i p = write_u32 v @ r \<Longrightarrow> read_u32 p i = Inr v"
proof -
  assume d: "drop i p = write_u32 v @ r"
  then have i: "i + 4 \<le> length p" using length_drop [of i p] by simp
  have "p ! (i + k) = drop i p ! k" if "k < 4" for k using i that by simp
  note this [of 0] this [of 1] this [of 2] this [of 3]
  then show ?thesis using i by (simp add: read_u32_ok d write_u32_def)
qed

lemma unat_be16: "unat (be16 a b) = 256 * unat a + unat b"
proof -
  have "push_bit 8 (ucast a :: 16 word) AND ucast b = 0"
    by (rule bit_word_eqI) (auto simp: bit_simps dest: bit_imp_le_length)
  then have e: "be16 a b = push_bit 8 (ucast a) + ucast b"
    by (simp add: be16_def disjunctive_add_eq_or)
  define n where "n = 256 * unat a + unat b"
  have "n < 2 ^ 16" using unat_byte [of a] unat_byte [of b] by (simp add: n_def)
  moreover have "be16 a b = word_of_nat n"
    by (simp add: e push_bit_eq_mult n_def)
  ultimately show ?thesis by (simp add: unat_of_nat flip: n_def)
qed

lemma write_u16_be: "n < 65536 \<Longrightarrow> write_u16 (word_of_nat n) = be_bytes 2 n"
proof -
  assume n: "n < 65536"
  have "be16 (word_of_nat (n div 256)) (word_of_nat (n mod 256)) = word_of_nat n"
  proof (rule word_unat_eq_iff [THEN iffD2])
    show "unat (be16 (word_of_nat (n div 256)) (word_of_nat (n mod 256))) = unat (word_of_nat n :: 16 word)"
      using n by (simp add: unat_be16 unat_of_nat)
  qed
  moreover have "write_u16 (be16 a b) = [a, b]" for a b
    unfolding write_u16_def be16_def by (auto intro!: bit_word_eqI simp: bit_simps dest: bit_imp_le_length)
  ultimately have "write_u16 (word_of_nat n) = [word_of_nat (n div 256), word_of_nat (n mod 256)]" by metis
  then show ?thesis using n by (simp add: be_bytes_2)
qed

lemma write_be32: "write_u32 (be32 a b c d) = [a, b, c, d]"
  unfolding write_u32_def list.inject
  by (intro conjI TrueI bit_word_eqI) (auto simp: bit_unsigned_iff bit_drop_bit_eq bit_be32)

lemma unat_be32: "unat (be32 a b c d) = of_be [a, b, c, d]"
proof -
  define x y z w :: "32 word"
    where "x = push_bit 24 (ucast a)" and "y = push_bit 16 (ucast b)" and "z = push_bit 8 (ucast c)" and "w = ucast d"
  note defs = x_def y_def z_def w_def
  have "x AND (y OR z OR w) = 0" "y AND (z OR w) = 0" "z AND w = 0"
    unfolding defs by (auto intro!: bit_word_eqI simp: bit_and_iff bit_or_iff bit_push_bit_iff bit_unsigned_iff)
  then have "be32 a b c d = x + (y + (z + w))"
    by (simp add: be32_def disjunctive_add_eq_or flip: defs)
  also have "\<dots> = word_of_nat (of_be [a, b, c, d])"
    by (simp add: defs push_bit_eq_mult of_be_def)
  finally have e: "be32 a b c d = word_of_nat (of_be [a, b, c, d])" .
  have "of_be [a, b, c, d] < 2 ^ 32" using of_be_bound [of "[a, b, c, d]"] by simp
  then show ?thesis unfolding e by (simp only: unsigned_of_nat) (simp add: take_bit_nat_eq_self)
qed

lemma be32_be_bytes: "be32 a b c d = word_of_nat (of_be [a, b, c, d])"
  by (simp flip: unat_be32)

lemma write_u32_be: "n < 2 ^ 32 \<Longrightarrow> write_u32 (word_of_nat n) = be_bytes 4 n"
proof -
  assume n: "n < 2 ^ 32"
  obtain a b c d where bs: "be_bytes 4 n = [a, b, c, d]" by (simp add: be_bytes_4)
  have "of_be (be_bytes 4 n) = n" using n by (intro of_be_be_bytes) simp
  then have "be32 a b c d = word_of_nat n" by (simp add: be32_be_bytes bs)
  then show ?thesis using write_be32 [of a b c d] by (simp add: bs)
qed

end
