(* ===== verification/C_RateLimit.thy ===== *)
theory C_RateLimit
  imports C_Prelude
begin

text \<open>
  \<open>src/src/rate_limit.c\<close>: a token bucket per client address, in a hash table of chains. The clock is an
  argument (\<open>time(NULL)\<close>, which the function reads once), the lock makes a call atomic. Token counts and
  the elapsed time are \<open>unsigned int\<close>. The lemmas show that the table behaves as one independent bucket per client, and what a client gets.
\<close>

section \<open>State and operations\<close>

record bucket =
  bip :: "32 word"
  last_refill :: int
  tokens :: "32 word"

record rl_ctx =
  max_tokens :: "32 word"
  table_size :: nat
  buckets :: "bucket list list"

definition rl_create :: "32 word \<Rightarrow> nat \<Rightarrow> rl_ctx" where
  "rl_create max_queries_per_sec n =
     \<lparr>max_tokens = max_queries_per_sec, table_size = n, buckets = replicate n []\<rparr>"

definition refill :: "32 word \<Rightarrow> int \<Rightarrow> bucket \<Rightarrow> bucket" where
  "refill m now b =
     (let elapsed = (word_of_int (now - last_refill b) :: 32 word) in
      if 0 < elapsed then
        let t = tokens b + elapsed in b\<lparr>tokens := (if m < t then m else t), last_refill := now\<rparr>
      else b)"

definition take_token :: "bucket \<Rightarrow> bool \<times> bucket" where
  "take_token b = (if 0 < tokens b then (True, b\<lparr>tokens := tokens b - 1\<rparr>) else (False, b))"

fun chain_put :: "bucket \<Rightarrow> bucket list \<Rightarrow> bucket list" where
  "chain_put b [] = []"
| "chain_put b (c # cs) = (if bip c = bip b then b # cs else c # chain_put b cs)"

definition rl_check :: "rl_ctx \<Rightarrow> 32 word \<Rightarrow> int \<Rightarrow> (bool \<times> rl_ctx) c_result" where
  "rl_check ctx ip now =
     (if table_size ctx = 0 then Inl (Fault DivByZero)
      else let idx = unat ip mod table_size ctx; chain = buckets ctx ! idx in
        (case List.find (\<lambda>b. bip b = ip) chain of
           None \<Rightarrow>
             Inr (True, ctx\<lparr>buckets := (buckets ctx)
               [idx := \<lparr>bip = ip, last_refill = now, tokens = max_tokens ctx - 1\<rparr> # chain]\<rparr>)
         | Some b \<Rightarrow>
             let (allowed, b') = take_token (refill (max_tokens ctx) now b) in
             Inr (allowed, ctx\<lparr>buckets := (buckets ctx)[idx := chain_put b' chain]\<rparr>)))"

text \<open>The queries of all clients, in the order in which they arrive.\<close>

fun rl_run :: "rl_ctx \<Rightarrow> (32 word \<times> int) list \<Rightarrow> bool list c_result" where
  "rl_run ctx [] = Inr []"
| "rl_run ctx ((ip, now) # qs) =
     cbind (rl_check ctx ip now) (\<lambda>(allowed, ctx'). cbind (rl_run ctx' qs) (\<lambda>rs. Inr (allowed # rs)))"

section \<open>One bucket per client\<close>

definition client_step :: "32 word \<Rightarrow> 32 word \<Rightarrow> bucket option \<Rightarrow> int \<Rightarrow> bool \<times> bucket" where
  "client_step m ip s now =
     (case s of None \<Rightarrow> (True, \<lparr>bip = ip, last_refill = now, tokens = m - 1\<rparr>)
      | Some b \<Rightarrow> take_token (refill m now b))"

fun client_run :: "32 word \<Rightarrow> 32 word \<Rightarrow> bucket option \<Rightarrow> int list \<Rightarrow> bool list" where
  "client_run m ip s [] = []"
| "client_run m ip s (now # ts) = (let (allowed, b) = client_step m ip s now in allowed # client_run m ip (Some b) ts)"

definition rl_ok :: "rl_ctx \<Rightarrow> bool" where
  "rl_ok ctx \<longleftrightarrow> 0 < table_size ctx \<and> length (buckets ctx) = table_size ctx"

definition bucket_of :: "rl_ctx \<Rightarrow> 32 word \<Rightarrow> bucket option" where
  "bucket_of ctx ip = List.find (\<lambda>b. bip b = ip) (buckets ctx ! (unat ip mod table_size ctx))"

lemma bip_step: "bip (snd (take_token (refill m now b))) = bip b"
  by (simp add: take_token_def refill_def Let_def)

lemma find_chain_put:
  "List.find (\<lambda>b. bip b = ip) (chain_put b' cs) =
    (if bip b' = ip then map_option (\<lambda>_. b') (List.find (\<lambda>b. bip b = ip) cs) else List.find (\<lambda>b. bip b = ip) cs)"
  by (induction cs) auto

text \<open>A call is a step of the client's own bucket and leaves those of the others alone.\<close>

lemma rl_check_client:
  assumes "rl_ok ctx"
  shows "\<exists>ctx'. rl_check ctx ip now = Inr (fst (client_step (max_tokens ctx) ip (bucket_of ctx ip) now), ctx') \<and>
    rl_ok ctx' \<and> max_tokens ctx' = max_tokens ctx \<and>
    bucket_of ctx' ip = Some (snd (client_step (max_tokens ctx) ip (bucket_of ctx ip) now)) \<and>
    (\<forall>ip'. ip' \<noteq> ip \<longrightarrow> bucket_of ctx' ip' = bucket_of ctx ip')"
proof -
  let ?i = "unat ip mod table_size ctx"
  have i: "?i < length (buckets ctx)" "0 < table_size ctx" using assms by (simp_all add: rl_ok_def)
  show ?thesis
  proof (cases "bucket_of ctx ip")
    case None
    then show ?thesis using i assms
      by (auto simp: rl_check_def bucket_of_def client_step_def rl_ok_def Let_def nth_list_update)
  next
    case (Some b)
    have b: "bip b = ip" using Some by (auto simp: bucket_of_def find_Some_iff)
    obtain allowed b' where s: "take_token (refill (max_tokens ctx) now b) = (allowed, b')" by fastforce
    then have b': "bip b' = ip" using bip_step [of "max_tokens ctx" now b] b by simp
    then show ?thesis using i assms Some s
      by (auto simp: rl_check_def bucket_of_def client_step_def rl_ok_def Let_def nth_list_update find_chain_put)
  qed
qed

definition times_of :: "32 word \<Rightarrow> (32 word \<times> int) list \<Rightarrow> int list" where
  "times_of ip qs = map snd (filter (\<lambda>q. fst q = ip) qs)"

definition answers_to :: "32 word \<Rightarrow> (32 word \<times> int) list \<Rightarrow> bool list \<Rightarrow> bool list" where
  "answers_to ip qs rs = map snd (filter (\<lambda>(q, r). fst q = ip) (zip qs rs))"

lemma rl_run_clients:
  "rl_ok ctx \<Longrightarrow> \<exists>rs. rl_run ctx qs = Inr rs \<and> length rs = length qs \<and>
    (\<forall>ip. answers_to ip qs rs = client_run (max_tokens ctx) ip (bucket_of ctx ip) (times_of ip qs))"
proof (induction qs arbitrary: ctx)
  case (Cons q qs)
  obtain ip now where q: "q = (ip, now)" by fastforce
  obtain ctx' where c: "rl_check ctx ip now = Inr (fst (client_step (max_tokens ctx) ip (bucket_of ctx ip) now), ctx')"
    "rl_ok ctx'" "max_tokens ctx' = max_tokens ctx"
    "bucket_of ctx' ip = Some (snd (client_step (max_tokens ctx) ip (bucket_of ctx ip) now))"
    "\<forall>ip'. ip' \<noteq> ip \<longrightarrow> bucket_of ctx' ip' = bucket_of ctx ip'"
    using rl_check_client [OF Cons.prems, of ip now] by blast
  obtain rs where rs: "rl_run ctx' qs = Inr rs" "length rs = length qs"
    "\<forall>ip. answers_to ip qs rs = client_run (max_tokens ctx') ip (bucket_of ctx' ip) (times_of ip qs)"
    using Cons.IH [OF c(2)] by blast
  let ?r = "fst (client_step (max_tokens ctx) ip (bucket_of ctx ip) now)"
  have "answers_to ip' (q # qs) (?r # rs) = client_run (max_tokens ctx) ip' (bucket_of ctx ip') (times_of ip' (q # qs))" for ip'
    using rs(3) c(3-5) by (cases "ip' = ip") (auto simp: q answers_to_def times_of_def split: prod.splits)
  then show ?case using c(1) rs(1,2) by (auto simp: q)
qed (simp add: answers_to_def times_of_def)

section \<open>What a client gets\<close>

definition allowed_count :: "bool list \<Rightarrow> nat" where
  "allowed_count rs = length (filter (\<lambda>r. r) rs)"

lemma unat_elapsed:
  assumes "0 \<le> d" and "d < 2 ^ 32"
  shows "unat (word_of_int d :: 32 word) = nat d"
  using assms by (simp add: unsigned_of_int nat_eq_iff take_bit_int_eq_self)

text \<open>A refill without wrap-around adds the seconds that have passed, up to the maximum.\<close>

lemma refill_tokens:
  assumes "last_refill b \<le> now" and "unat (tokens b) \<le> unat m" and "int (unat m) + (now - last_refill b) < 2 ^ 32"
  shows "unat (tokens (refill m now b)) = min (unat m) (unat (tokens b) + nat (now - last_refill b))"
    and "last_refill (refill m now b) = now"
proof -
  define e where "e = (word_of_int (now - last_refill b) :: 32 word)"
  have "now - last_refill b < 2 ^ 32" using assms(3) of_nat_0_le_iff [of "unat m"] by linarith
  then have e: "unat e = nat (now - last_refill b)" unfolding e_def using assms(1) by (intro unat_elapsed) simp_all
  have "int (unat (tokens b)) \<le> int (unat m)" using assms(2) by (simp only: of_nat_le_iff)
  then have "int (unat (tokens b) + nat (now - last_refill b)) < int (2 ^ 32)" using assms(1,3) by simp
  then have "unat (tokens b) + unat e < 2 ^ LENGTH(32)" by (simp only: of_nat_less_iff e) simp
  then have s: "unat (tokens b + e) = unat (tokens b) + unat e" by (rule unat_add_lem [THEN iffD1])
  have refill: "refill m now b =
      (if 0 < e then b\<lparr>tokens := (if m < tokens b + e then m else tokens b + e), last_refill := now\<rparr> else b)"
    by (simp only: refill_def Let_def e_def)
  have "0 < e \<longleftrightarrow> last_refill b < now"
    by (simp only: word_less_nat_alt e unat_0 zero_less_nat_eq) simp
  then show "unat (tokens (refill m now b)) = min (unat m) (unat (tokens b) + nat (now - last_refill b))"
    and "last_refill (refill m now b) = now"
    using assms(1,2) s e unfolding refill by (auto simp: word_less_nat_alt min_def)
qed

lemma take_token_count:
  "(if fst (take_token b) then 1 else 0) + unat (tokens (snd (take_token b))) = unat (tokens b)"
    "last_refill (snd (take_token b)) = last_refill b"
    "\<not> fst (take_token b) \<Longrightarrow> unat (tokens b) = 0"
  by (auto simp: take_token_def word_less_nat_alt unat_minus_one unat_gt_0 split: if_splits)

lemma client_run_upper:
  assumes "sorted (last_refill b # ts)" and "list_all (\<lambda>t. t \<le> T) (last_refill b # ts)"
    and "unat (tokens b) \<le> unat m" and "int (unat m) + (T - last_refill b) < 2 ^ 32"
  shows "allowed_count (client_run m ip (Some b) ts) \<le> unat (tokens b) + nat (T - last_refill b)"
  using assms
proof (induction ts arbitrary: b)
  case (Cons t ts)
  let ?c = "refill m t b" and ?s = "take_token (refill m t b)"
  have r: "unat (tokens ?c) = min (unat m) (unat (tokens b) + nat (t - last_refill b))" "last_refill ?c = t"
    using Cons.prems by (intro refill_tokens; simp)+
  note s = take_token_count [of ?c]
  have "allowed_count (client_run m ip (Some (snd ?s)) ts) \<le> unat (tokens (snd ?s)) + nat (T - t)"
    using Cons.IH [of "snd ?s"] Cons.prems r s by (simp split: if_splits)
  moreover have "allowed_count (client_run m ip (Some b) (t # ts)) =
      (if fst ?s then 1 else 0) + allowed_count (client_run m ip (Some (snd ?s)) ts)"
    by (simp add: client_step_def allowed_count_def split: prod.splits)
  moreover have "nat (t - last_refill b) + nat (T - t) = nat (T - last_refill b)"
    using Cons.prems by (simp flip: nat_add_distrib)
  ultimately show ?case using r(1) s(1) by linarith
qed (simp add: allowed_count_def)

lemma client_run_lower:
  assumes "sorted (last_refill b # ts)" and "list_all (\<lambda>t. t \<le> T) (last_refill b # ts)"
    and "unat (tokens b) \<le> unat m" and "int (unat m) + (T - last_refill b) < 2 ^ 32"
  shows "min (unat (tokens b)) (length ts) \<le> allowed_count (client_run m ip (Some b) ts)"
  using assms
proof (induction ts arbitrary: b)
  case (Cons t ts)
  let ?c = "refill m t b" and ?s = "take_token (refill m t b)"
  have r: "unat (tokens ?c) = min (unat m) (unat (tokens b) + nat (t - last_refill b))" "last_refill ?c = t"
    using Cons.prems by (intro refill_tokens; simp)+
  note s = take_token_count [of ?c]
  have "min (unat (tokens (snd ?s))) (length ts) \<le> allowed_count (client_run m ip (Some (snd ?s)) ts)"
    using Cons.IH [of "snd ?s"] Cons.prems r s by (simp split: if_splits)
  moreover have "allowed_count (client_run m ip (Some b) (t # ts)) =
      (if fst ?s then 1 else 0) + allowed_count (client_run m ip (Some (snd ?s)) ts)"
    by (simp add: client_step_def allowed_count_def split: prod.splits)
  moreover have "unat (tokens b) \<le> unat (tokens ?c)" using r(1) Cons.prems(3) by simp
  ultimately show ?case using s(1,3) by (cases "fst ?s") auto
qed simp

section \<open>Properties\<close>

text \<open>C4: Take a table that has just been created, with max_queries_per_sec greater than zero, and the whole history of queries
  since then, of any clients in any order, during which the clock does not go back and passes at most \<open>d\<close> seconds (with
  max_queries_per_sec + d below 2^32). Each client is treated as if it were alone: its answers are those of its own bucket. Of all
  the queries a client has sent in this history, at least the number max_queries_per_sec (or all, if there are fewer) and at most
  max_queries_per_sec + d pass: the parameter is a burst, the rate after it is one query per second.\<close>

theorem rate_limit_bounds:
  assumes "0 < n" and "0 < m" and "sorted (map snd qs)" and "list_all (\<lambda>q. t0 \<le> snd q \<and> snd q \<le> t0 + int d) qs"
    and "unat m + d < 2 ^ 32"
  shows "\<exists>rs. rl_run (rl_create m n) qs = Inr rs \<and> length rs = length qs \<and>
    (\<forall>ip. answers_to ip qs rs = client_run m ip None (times_of ip qs) \<and>
      min (unat m) (length (times_of ip qs)) \<le> allowed_count (answers_to ip qs rs) \<and>
      allowed_count (answers_to ip qs rs) \<le> unat m + d)"
proof -
  have "rl_ok (rl_create m n)" "max_tokens (rl_create m n) = m" "bucket_of (rl_create m n) ip = None" for ip
    using assms(1) by (simp_all add: rl_ok_def rl_create_def bucket_of_def)
  then obtain rs where rs: "rl_run (rl_create m n) qs = Inr rs" "length rs = length qs"
    "\<And>ip. answers_to ip qs rs = client_run m ip None (times_of ip qs)"
    using rl_run_clients [of "rl_create m n" qs] by metis
  have "min (unat m) (length (times_of ip qs)) \<le> allowed_count (client_run m ip None (times_of ip qs)) \<and>
      allowed_count (client_run m ip None (times_of ip qs)) \<le> unat m + d" for ip
  proof (cases "times_of ip qs")
    case (Cons t ts)
    have "sorted (times_of ip qs)" unfolding times_of_def using assms(3) by (simp add: sorted_map sorted_wrt_filter)
    moreover have all: "list_all (\<lambda>t. t0 \<le> t \<and> t \<le> t0 + int d) (times_of ip qs)"
      using assms(4) by (auto simp: times_of_def list_all_iff)
    ultimately have p: "sorted (t # ts)" "list_all (\<lambda>x. x \<le> t0 + int d) (t # ts)" "t0 \<le> t" "t \<le> t0 + int d"
      using Cons by (auto simp: list_all_iff)
    let ?b = "\<lparr>bip = ip, last_refill = t, tokens = m - 1\<rparr>"
    have one: "unat (m - 1) + 1 = unat m" using assms(2) by (simp add: unat_minus_one word_gt_0 unat_gt_0)
    have "int (unat m + d) < int (2 ^ 32)" using assms(5) by (simp only: of_nat_less_iff)
    then have "allowed_count (client_run m ip (Some ?b) ts) \<le> unat (m - 1) + nat (t0 + int d - t)"
      "min (unat (m - 1)) (length ts) \<le> allowed_count (client_run m ip (Some ?b) ts)"
      using client_run_upper [of ?b ts "t0 + int d" m ip] client_run_lower [of ?b ts "t0 + int d" m ip] p one by simp_all
    moreover have "allowed_count (client_run m ip None (t # ts)) = 1 + allowed_count (client_run m ip (Some ?b) ts)"
      by (simp add: client_step_def allowed_count_def)
    ultimately show ?thesis using Cons one p by auto
  qed (simp add: allowed_count_def)
  then show ?thesis using rs by auto
qed

theorem rate_limit_bounds_witness:
  "\<exists>rs. rl_run (rl_create 20 256) [(7, 100), (8, 101), (7, 103)] = Inr rs \<and> length rs = 3 \<and>
    allowed_count (answers_to 7 [(7, 100), (8, 101), (7, 103)] rs) \<le> 23"
  using rate_limit_bounds [where n = 256 and m = 20 and qs = "[(7, 100), (8, 101), (7, 103)]" and ?t0.0 = 100 and d = 3]
  by auto

end
