(* ===== verification/C_Wire.thy ===== *)
theory C_Wire
  imports C_Prelude
begin

text \<open>
  \<open>src/src/wire.c\<close>: the parser of DNS messages (\<open>read_name\<close> with its compression pointers, \<open>read_rr\<close>,
  \<open>dns_parse_message\<close>) and the builder API. A packet is a list of bytes, an offset a natural number
  (\<open>size_t\<close> does not wrap on packets of this size). A name is the C string its buffer holds. The \<open>rdata\<close>
  pointer of a record is kept as the offset it points to, together with the bytes it gives access to.
  The lemmas show that no access leaves the packet or a name buffer, whatever the packet holds; that a
  message built from names of at most 20 labels parses back; and what happens to other names.
\<close>

section \<open>Messages\<close>

record dns_header =
  hid :: "16 word"
  hflags :: "16 word"
  hqdcount :: "16 word"
  hancount :: "16 word"
  hnscount :: "16 word"
  harcount :: "16 word"

record dns_question =
  qname :: string
  qtype :: "16 word"
  qclass :: "16 word"

record dns_rr =
  rname :: string
  rtype :: "16 word"
  rrclass :: "16 word"
  ttl :: "32 word"
  rdlength :: nat
  rdata_at :: nat
  rdata :: "byte list"

text \<open>The four counts of the struct are the lengths of the lists; an empty list is a null pointer.\<close>

record dns_message =
  header :: dns_header
  questions :: "dns_question list"
  answers :: "dns_rr list"
  authorities :: "dns_rr list"
  additionals :: "dns_rr list"

definition DNS_QR_RESPONSE :: "16 word" where "DNS_QR_RESPONSE = 0x8000"
definition DNS_TYPE_A :: "16 word" where "DNS_TYPE_A = 1"
definition DNS_TYPE_NS :: "16 word" where "DNS_TYPE_NS = 2"
definition DNS_TYPE_CNAME :: "16 word" where "DNS_TYPE_CNAME = 5"
definition DNS_TYPE_AAAA :: "16 word" where "DNS_TYPE_AAAA = 28"
definition DNS_TYPE_OPT :: "16 word" where "DNS_TYPE_OPT = 41"
definition DNS_CLASS_IN :: "16 word" where "DNS_CLASS_IN = 1"
definition DNS_MAX_NAME_LEN :: nat where "DNS_MAX_NAME_LEN = 255"
definition DNS_MAX_LABEL_LEN :: nat where "DNS_MAX_LABEL_LEN = 63"

lemmas dns_constants = DNS_QR_RESPONSE_def DNS_TYPE_A_def DNS_TYPE_NS_def DNS_TYPE_CNAME_def DNS_TYPE_AAAA_def
  DNS_TYPE_OPT_def DNS_CLASS_IN_def DNS_MAX_NAME_LEN_def DNS_MAX_LABEL_LEN_def

section \<open>Reading\<close>

text \<open>A text and its terminating zero stored in a buffer of \<open>n\<close> characters.\<close>

definition c_text :: "nat \<Rightarrow> string \<Rightarrow> string c_result" where
  "c_text n s = (if length s < n then Inr s else Inl (Fault Overrun))"

text \<open>
  The loop of \<open>read_name\<close>: the iterations left, the position, the offset to return to after the first
  jump, and the text so far. The counter \<open>loops\<close> admits 21 iterations, labels and pointers alike.
\<close>

fun read_name_loop :: "byte list \<Rightarrow> nat \<Rightarrow> nat \<Rightarrow> nat \<Rightarrow> nat option \<Rightarrow> string \<Rightarrow> (string \<times> nat) c_result" where
  "read_name_loop pkt out_len 0 pos jump out = Inl Failed"
| "read_name_loop pkt out_len (Suc loops) pos jump out =
     (if length pkt \<le> pos then Inl Failed
      else cbind (byte_at pkt pos) (\<lambda>len.
        if len = 0 then Inr (out, case jump of None \<Rightarrow> pos + 1 | Some j \<Rightarrow> j)
        else if len AND 0xC0 = 0xC0 then
          (if length pkt \<le> pos + 1 then Inl Failed
           else cbind (byte_at pkt (pos + 1)) (\<lambda>b.
             let ptr = unat (be16 (len AND 0x3F) b) in
             if length pkt \<le> ptr then Inl Failed
             else read_name_loop pkt out_len loops ptr (Some (case jump of None \<Rightarrow> pos + 2 | Some j \<Rightarrow> j)) out))
        else if DNS_MAX_LABEL_LEN < unat len then Inl Failed
        else if length pkt < pos + 1 + unat len then Inl Failed
        else if out_len \<le> length out + unat len + 1 then Inl Failed
        else cbind (bytes_at pkt (pos + 1) (unat len)) (\<lambda>l.
             cbind (c_text out_len (out @ map byte_char l @ ''.'')) (\<lambda>out'.
               read_name_loop pkt out_len loops (pos + 1 + unat len) jump out'))))"

definition c_read_name :: "byte list \<Rightarrow> nat \<Rightarrow> nat \<Rightarrow> (string \<times> nat) c_result" where
  "c_read_name pkt offset out_len =
     cbind (read_name_loop pkt out_len 21 offset None []) (\<lambda>(out, offset').
     cbind (c_text out_len (if out = [] then ''.'' else out)) (\<lambda>s. Inr (cstr s, offset')))"

definition c_read_rr :: "byte list \<Rightarrow> nat \<Rightarrow> (dns_rr \<times> nat) c_result" where
  "c_read_rr pkt offset0 =
     cbind (c_read_name pkt offset0 DNS_MAX_NAME_LEN) (\<lambda>(name, offset).
     if length pkt < offset + 10 then Inl Failed
     else cbind (read_u16 pkt offset) (\<lambda>t. cbind (read_u16 pkt (offset + 2)) (\<lambda>c.
       cbind (read_u32 pkt (offset + 4)) (\<lambda>l. cbind (read_u16 pkt (offset + 8)) (\<lambda>n.
       let p = offset + 10 in
       if length pkt < p + unat n then Inl Failed
       else cbind (bytes_at pkt p (unat n)) (\<lambda>rd.
         Inr (\<lparr>rname = name, rtype = t, rrclass = c, ttl = l, rdlength = unat n, rdata_at = p, rdata = rd\<rparr>,
              p + unat n)))))))"

fun read_questions :: "byte list \<Rightarrow> nat \<Rightarrow> nat \<Rightarrow> (dns_question list \<times> nat) c_result" where
  "read_questions buf 0 offset = Inr ([], offset)"
| "read_questions buf (Suc k) offset0 =
     cbind (c_read_name buf offset0 DNS_MAX_NAME_LEN) (\<lambda>(name, offset).
     if length buf < offset + 4 then Inl Failed
     else cbind (read_u16 buf offset) (\<lambda>t. cbind (read_u16 buf (offset + 2)) (\<lambda>c.
       cbind (read_questions buf k (offset + 4)) (\<lambda>(qs, offset').
         Inr (\<lparr>qname = name, qtype = t, qclass = c\<rparr> # qs, offset')))))"

fun read_section :: "byte list \<Rightarrow> nat \<Rightarrow> nat \<Rightarrow> (dns_rr list \<times> nat) c_result" where
  "read_section buf 0 offset = Inr ([], offset)"
| "read_section buf (Suc k) offset =
     cbind (c_read_rr buf offset) (\<lambda>(rr, offset').
     cbind (read_section buf k offset') (\<lambda>(rrs, offset''). Inr (rr # rrs, offset'')))"

definition dns_parse_message :: "byte list \<Rightarrow> dns_message c_result" where
  "dns_parse_message buf =
     (if length buf < 12 then Inl Failed
      else cbind (read_u16 buf 0) (\<lambda>i. cbind (read_u16 buf 2) (\<lambda>f. cbind (read_u16 buf 4) (\<lambda>qd.
        cbind (read_u16 buf 6) (\<lambda>an. cbind (read_u16 buf 8) (\<lambda>ns. cbind (read_u16 buf 10) (\<lambda>ar.
        cbind (read_questions buf (unat qd) 12) (\<lambda>(qs, o1).
        cbind (read_section buf (unat an) o1) (\<lambda>(rs, o2).
        cbind (read_section buf (unat ns) o2) (\<lambda>(us, o3).
        cbind (read_section buf (unat ar) o3) (\<lambda>(xs, o4).
          Inr \<lparr>header = \<lparr>hid = i, hflags = f, hqdcount = qd, hancount = an, hnscount = ns, harcount = ar\<rparr>,
               questions = qs, answers = rs, authorities = us, additionals = xs\<rparr>)))))))))))"

text \<open>\<open>msg->questions[0]\<close>: a null pointer when the message has no question.\<close>

definition first_question :: "dns_message \<Rightarrow> dns_question c_result" where
  "first_question m = (case questions m of [] \<Rightarrow> Inl (Fault NullDeref) | q # qs \<Rightarrow> Inr q)"

section \<open>Building\<close>

text \<open>\<open>written\<close> is the part of the buffer before \<open>pos\<close>. A failing call keeps what it wrote.\<close>

record dns_builder =
  written :: "byte list"
  buflen :: nat

definition dns_builder_init :: "nat \<Rightarrow> dns_builder" where
  "dns_builder_init n = \<lparr>written = [], buflen = n\<rparr>"

definition dns_builder_pos :: "dns_builder \<Rightarrow> nat" where
  "dns_builder_pos b = length (written b)"

definition builder_ensure :: "dns_builder \<Rightarrow> nat \<Rightarrow> bool" where
  "builder_ensure b n \<longleftrightarrow> dns_builder_pos b + n \<le> buflen b"

definition put :: "dns_builder \<Rightarrow> byte list \<Rightarrow> dns_builder c_result" where
  "put b bs =
     (if dns_builder_pos b + length bs \<le> buflen b then Inr (b\<lparr>written := written b @ bs\<rparr>)
      else Inl (Fault Overrun))"

text \<open>The return value: whether the call succeeded, and the builder it leaves.\<close>

type_synonym built = "(bool \<times> dns_builder) c_result"

definition ok :: "dns_builder c_result \<Rightarrow> built" where
  "ok r = cbind r (\<lambda>b. Inr (True, b))"

text \<open>\<open>if (f(b) < 0) return -1;\<close> before \<open>g(b)\<close>.\<close>

definition and_then :: "built \<Rightarrow> (dns_builder \<Rightarrow> built) \<Rightarrow> built" where
  "and_then r g = cbind r (\<lambda>(rc, b). if rc then g b else Inr (False, b))"

function write_name_loop :: "dns_builder \<Rightarrow> string \<Rightarrow> built" where
  "write_name_loop b start =
     (if start = [] then Inr (True, b)
      else let l = takeWhile (\<lambda>c. c \<noteq> CHR ''.'') start in
        if DNS_MAX_LABEL_LEN < length l then Inr (False, b)
        else if \<not> builder_ensure b (1 + length l) then Inr (False, b)
        else cbind (put b (word_of_nat (length l) # map char_byte l)) (\<lambda>b'.
          write_name_loop b' (drop (length l + 1) start)))"
  by pat_completeness auto
termination
  by (relation "measure (\<lambda>(b, s). length s)") auto

declare write_name_loop.simps [simp del]

definition write_name_uncompressed :: "dns_builder \<Rightarrow> string \<Rightarrow> built" where
  "write_name_uncompressed b name =
     (if name = [] then Inr (False, b)
      else and_then (write_name_loop b name) (\<lambda>b'.
        if \<not> builder_ensure b' 1 then Inr (False, b') else ok (put b' [0])))"

definition dns_build_response_header ::
  "dns_builder \<Rightarrow> 16 word \<Rightarrow> 16 word \<Rightarrow> 16 word \<Rightarrow> 16 word \<Rightarrow> 16 word \<Rightarrow> 16 word \<Rightarrow> built" where
  "dns_build_response_header b i flags qd an ns ar =
     (if \<not> builder_ensure b 12 then Inr (False, b)
      else ok (put b (write_u16 i @ write_u16 flags @ write_u16 qd @ write_u16 an @ write_u16 ns @ write_u16 ar)))"

definition dns_build_question :: "dns_builder \<Rightarrow> string \<Rightarrow> 16 word \<Rightarrow> 16 word \<Rightarrow> built" where
  "dns_build_question b name t c =
     and_then (write_name_uncompressed b name) (\<lambda>b'.
       if \<not> builder_ensure b' 4 then Inr (False, b') else ok (put b' (write_u16 t @ write_u16 c)))"

definition dns_build_rr :: "dns_builder \<Rightarrow> string \<Rightarrow> 16 word \<Rightarrow> 16 word \<Rightarrow> 32 word \<Rightarrow> byte list \<Rightarrow> built" where
  "dns_build_rr b name t c l rd =
     and_then (write_name_uncompressed b name) (\<lambda>b'.
       if \<not> builder_ensure b' (10 + length rd) then Inr (False, b')
       else ok (put b' (write_u16 t @ write_u16 c @ write_u32 l @ write_u16 (word_of_nat (length rd)) @ rd)))"

definition dns_build_rr_from_rr :: "dns_builder \<Rightarrow> dns_rr \<Rightarrow> built" where
  "dns_build_rr_from_rr b rr = dns_build_rr b (rname rr) (rtype rr) (rrclass rr) (ttl rr) (rdata rr)"

section \<open>No access outside the packet\<close>

lemma defined_c_text [simp]: "length s < n \<Longrightarrow> c_text n s = Inr s"
  by (simp add: c_text_def)

lemma read_name_loop_safe:
  assumes "length out < out_len" and "case jump of None \<Rightarrow> offset \<le> pos | Some j \<Rightarrow> offset < j \<and> j \<le> length pkt"
  shows "case read_name_loop pkt out_len k pos jump out of Inl e \<Rightarrow> e = Failed
    | Inr (s, off) \<Rightarrow> length s < out_len \<and> offset < off \<and> off \<le> length pkt"
  using assms
proof (induction pkt out_len k pos jump out rule: read_name_loop.induct)
  case (2 pkt out_len loops pos jump out)
  show ?case
  proof (cases "length pkt \<le> pos")
    case False
    define len where "len = pkt ! pos"
    show ?thesis
    proof (cases "len \<noteq> 0 \<and> len AND 0xC0 = 0xC0 \<and> pos + 1 < length pkt")
      case True
      let ?ptr = "unat (be16 (len AND 0x3F) (pkt ! (pos + 1)))"
      let ?j = "Some (case jump of None \<Rightarrow> pos + 2 | Some j \<Rightarrow> j)"
      have "case ?j of None \<Rightarrow> offset \<le> ?ptr | Some j \<Rightarrow> offset < j \<and> j \<le> length pkt"
        using "2.prems"(2) True by (auto split: option.splits)
      then have "case read_name_loop pkt out_len loops ?ptr ?j out of Inl e \<Rightarrow> e = Failed
          | Inr (s, off) \<Rightarrow> length s < out_len \<and> offset < off \<and> off \<le> length pkt" if "\<not> length pkt \<le> ?ptr"
        using "2.IH"(1) [of len "pkt ! (pos + 1)" ?ptr] "2.prems"(1) False True that by (simp add: len_def)
      then show ?thesis using False True by (auto simp: len_def Let_def)
    next
      case noptr: False
      show ?thesis
      proof (cases "len = 0 \<or> len AND 0xC0 = 0xC0 \<or> DNS_MAX_LABEL_LEN < unat len \<or>
          length pkt < pos + 1 + unat len \<or> out_len \<le> length out + unat len + 1")
        case True
        then show ?thesis using False noptr "2.prems" by (auto simp: len_def Let_def split: option.splits)
      next
        case label: False
        let ?l = "take (unat len) (drop (pos + 1) pkt)"
        let ?out = "out @ map byte_char ?l @ ''.''"
        have l: "length ?l = unat len" "length ?out < out_len" using label False by auto
        moreover have "case jump of None \<Rightarrow> offset \<le> pos + 1 + unat len | Some j \<Rightarrow> offset < j \<and> j \<le> length pkt"
          using "2.prems"(2) by (auto split: option.splits)
        ultimately have "case read_name_loop pkt out_len loops (pos + 1 + unat len) jump ?out of Inl e \<Rightarrow> e = Failed
            | Inr (s, off) \<Rightarrow> length s < out_len \<and> offset < off \<and> off \<le> length pkt"
          using "2.IH"(2) [of len ?l ?out] False label by (simp add: len_def)
        then show ?thesis using False label l by (simp add: len_def)
      qed
    qed
  qed simp
qed simp

lemma c_read_name_safe:
  assumes "1 < out_len"
  shows "case c_read_name pkt offset out_len of Inl e \<Rightarrow> e = Failed
    | Inr (s, off) \<Rightarrow> length s < out_len \<and> CHR 0x00 \<notin> set s \<and> offset < off \<and> off \<le> length pkt"
proof -
  have c: "length (cstr s) < out_len" if "length s < out_len" for s
    using that length_cstr [of s] by (rule le_less_trans [rotated])
  show ?thesis
    using read_name_loop_safe [of "[]" out_len offset offset pkt None 21] assms cstr_no_nul c
    by (auto simp: c_read_name_def split: sum.splits prod.splits)
qed

lemma c_read_name_defined: "1 < out_len \<Longrightarrow> defined (c_read_name pkt offset out_len)"
  using c_read_name_safe [where out_len = out_len and pkt = pkt and offset = offset] by (auto simp: defined_def split: sum.splits)

text \<open>What the parser promises of a record and of a message: texts that fit, data inside the packet.\<close>

definition wf_rr :: "byte list \<Rightarrow> dns_rr \<Rightarrow> bool" where
  "wf_rr pkt rr \<longleftrightarrow>
     length (rname rr) < DNS_MAX_NAME_LEN \<and> CHR 0x00 \<notin> set (rname rr) \<and> length (rdata rr) = rdlength rr \<and>
     rdlength rr < 65536 \<and> rdata_at rr + rdlength rr \<le> length pkt \<and>
     rdata rr = take (rdlength rr) (drop (rdata_at rr) pkt)"

definition wf_question :: "dns_question \<Rightarrow> bool" where
  "wf_question q \<longleftrightarrow> length (qname q) < DNS_MAX_NAME_LEN \<and> CHR 0x00 \<notin> set (qname q)"

definition wf_message :: "byte list \<Rightarrow> dns_message \<Rightarrow> bool" where
  "wf_message pkt m \<longleftrightarrow>
     list_all wf_question (questions m) \<and> list_all (wf_rr pkt) (answers m) \<and>
     list_all (wf_rr pkt) (authorities m) \<and> list_all (wf_rr pkt) (additionals m) \<and>
     length (questions m) = unat (hqdcount (header m)) \<and> length (answers m) = unat (hancount (header m)) \<and>
     length (authorities m) = unat (hnscount (header m)) \<and> length (additionals m) = unat (harcount (header m))"

text \<open>A step of the parser: it fails, or moves on inside the packet with a result that satisfies \<open>P\<close>.\<close>

definition parses :: "byte list \<Rightarrow> ('a \<Rightarrow> bool) \<Rightarrow> nat \<Rightarrow> ('a \<times> nat) c_result \<Rightarrow> bool" where
  "parses pkt P offset r =
     (case r of Inl e \<Rightarrow> e = Failed | Inr (x, off) \<Rightarrow> P x \<and> offset \<le> off \<and> off \<le> length pkt)"

lemma parses_name: "parses pkt (\<lambda>s. length s < DNS_MAX_NAME_LEN \<and> CHR 0x00 \<notin> set s) offset
    (c_read_name pkt offset DNS_MAX_NAME_LEN)"
  using c_read_name_safe [where out_len = DNS_MAX_NAME_LEN and pkt = pkt and offset = offset]
  by (auto simp: parses_def DNS_MAX_NAME_LEN_def split: sum.splits)

lemma parses_bind:
  assumes "parses pkt P offset r" and "\<And>x off. P x \<Longrightarrow> off \<le> length pkt \<Longrightarrow> parses pkt Q off (f (x, off))"
  shows "parses pkt Q offset (cbind r f)"
proof (cases r)
  case (Inr y)
  then show ?thesis using assms(1) assms(2) [of "fst y" "snd y"]
    by (cases y) (auto simp: parses_def split: sum.splits prod.splits)
qed (use assms(1) in \<open>simp add: parses_def\<close>)

lemma parses_rr: "parses pkt (wf_rr pkt) offset (c_read_rr pkt offset)"
  unfolding c_read_rr_def
proof (rule parses_bind [OF parses_name])
  fix name off
  assume n: "length name < DNS_MAX_NAME_LEN \<and> CHR 0x00 \<notin> set name"
  define l where "l = unat (be16 (pkt ! (off + 8)) (pkt ! (9 + off)))"
  have "l < 65536" using unsigned_less [of "be16 (pkt ! (off + 8)) (pkt ! (9 + off))", where ?'a = nat] by (simp add: l_def)
  then show "parses pkt (wf_rr pkt) off (case (name, off) of (name, offset) \<Rightarrow>
      if length pkt < offset + 10 then Inl Failed
      else cbind (read_u16 pkt offset) (\<lambda>t. cbind (read_u16 pkt (offset + 2)) (\<lambda>c.
        cbind (read_u32 pkt (offset + 4)) (\<lambda>l. cbind (read_u16 pkt (offset + 8)) (\<lambda>n.
        let p = offset + 10 in
        if length pkt < p + unat n then Inl Failed
        else cbind (bytes_at pkt p (unat n)) (\<lambda>rd.
          Inr (\<lparr>rname = name, rtype = t, rrclass = c, ttl = l, rdlength = unat n, rdata_at = p, rdata = rd\<rparr>,
               p + unat n)))))))"
    using n by (simp add: parses_def wf_rr_def read_u16_ok read_u32_ok Let_def flip: l_def)
qed

lemma wf_question_make:
  "length name < DNS_MAX_NAME_LEN \<and> CHR 0x00 \<notin> set name \<Longrightarrow> wf_question \<lparr>qname = name, qtype = t, qclass = c\<rparr>"
  by (simp add: wf_question_def)

lemma parses_questions:
  "offset \<le> length buf \<Longrightarrow>
    parses buf (\<lambda>qs. list_all wf_question qs \<and> length qs = k) offset (read_questions buf k offset)"
proof (induction k arbitrary: offset)
  case (Suc k)
  have "parses buf (\<lambda>qs. list_all wf_question qs \<and> length qs = Suc k) off
      (if length buf < off + 4 then Inl Failed
       else cbind (read_u16 buf off) (\<lambda>t. cbind (read_u16 buf (off + 2)) (\<lambda>c.
         cbind (read_questions buf k (off + 4)) (\<lambda>(qs, offset').
           Inr (\<lparr>qname = name, qtype = t, qclass = c\<rparr> # qs, offset')))))"
    if "length name < DNS_MAX_NAME_LEN \<and> CHR 0x00 \<notin> set name" for name off
    using that Suc.IH [of "off + 4"] by (auto simp: parses_def wf_question_make read_u16_ok split: sum.splits)
  then show ?case by (auto intro!: parses_bind [OF parses_name])
qed (simp add: parses_def)

lemma parses_section:
  "offset \<le> length buf \<Longrightarrow>
    parses buf (\<lambda>rrs. list_all (wf_rr buf) rrs \<and> length rrs = k) offset (read_section buf k offset)"
proof (induction k arbitrary: offset)
  case (Suc k)
  show ?case
    unfolding read_section.simps
  proof (rule parses_bind [OF parses_rr])
    fix rr off assume "wf_rr buf rr" and "off \<le> length buf"
    then show "parses buf (\<lambda>rrs. list_all (wf_rr buf) rrs \<and> length rrs = Suc k) off
        (case (rr, off) of (rr, offset') \<Rightarrow> cbind (read_section buf k offset') (\<lambda>(rrs, offset''). Inr (rr # rrs, offset'')))"
      using Suc.IH [of off] by (auto simp: parses_def split: sum.splits)
  qed
qed (simp add: parses_def)

lemma parse_message_safe:
  "case dns_parse_message buf of Inl e \<Rightarrow> e = Failed | Inr m \<Rightarrow> wf_message buf m"
proof (cases "length buf < 12")
  case False
  let ?u = "\<lambda>i. be16 (buf ! i) (buf ! Suc i)"
  have "parses buf (wf_message buf) 12 (cbind (read_questions buf (unat (?u 4)) 12) (\<lambda>(qs, o1).
      cbind (read_section buf (unat (?u 6)) o1) (\<lambda>(rs, o2). cbind (read_section buf (unat (?u 8)) o2) (\<lambda>(us, o3).
      cbind (read_section buf (unat (?u 10)) o3) (\<lambda>(xs, o4).
        Inr (\<lparr>header = \<lparr>hid = ?u 0, hflags = ?u 2, hqdcount = ?u 4, hancount = ?u 6, hnscount = ?u 8, harcount = ?u 10\<rparr>,
               questions = qs, answers = rs, authorities = us, additionals = xs\<rparr>, o4))))))"
    using False
    by (auto intro!: parses_bind [OF parses_questions] parses_bind [OF parses_section]) (simp add: parses_def wf_message_def)
  then show ?thesis using False
    by (auto simp: dns_parse_message_def read_u16_ok parses_def cbind_eq_Inr cbind_eq_Inl split: sum.splits prod.splits)
qed (simp add: dns_parse_message_def)

lemma parse_message_defined: "defined (dns_parse_message buf)"
  using parse_message_safe [of buf] by (auto simp: defined_def split: sum.splits)

section \<open>Names on the wire\<close>

text \<open>The text of a name: each label followed by a dot; the root is a dot.\<close>

definition name_text :: "string list \<Rightarrow> string" where
  "name_text ls = concat (map (\<lambda>l. l @ ''.'') ls)"

definition wire_label :: "string \<Rightarrow> bool" where
  "wire_label l \<longleftrightarrow> l \<noteq> [] \<and> length l \<le> 63 \<and> CHR ''.'' \<notin> set l \<and> CHR 0x00 \<notin> set l"

lemma name_text_simps [simp]: "name_text [] = []" "name_text (l # ls) = l @ CHR ''.'' # name_text ls"
  by (simp_all add: name_text_def)

lemma wire_labels_simps [simp]:
  "wire_labels [] = []" "wire_labels (l # ls) = word_of_nat (length l) # map char_byte l @ wire_labels ls"
  by (simp_all add: wire_labels_def)

lemma length_wire_name: "length (wire_labels ls) = length (name_text ls)"
  by (induction ls) simp_all

lemma name_text_no_nul: "list_all wire_label ls \<Longrightarrow> CHR 0x00 \<notin> set (name_text ls)"
  by (induction ls) (auto simp: wire_label_def)

lemma name_text_Nil: "name_text ls = [] \<longleftrightarrow> ls = []"
  by (cases ls) simp_all

lemma length_byte:
  assumes "wire_label l"
  shows "unat (word_of_nat (length l) :: byte) = length l" "(word_of_nat (length l) :: byte) \<noteq> 0"
    "(word_of_nat (length l) :: byte) AND 0xC0 \<noteq> 0xC0"
proof -
  have l: "0 < length l" "length l < 64" using assms by (auto simp: wire_label_def)
  then show u: "unat (word_of_nat (length l) :: byte) = length l" by (simp add: unat_of_nat)
  with l show "(word_of_nat (length l) :: byte) \<noteq> 0" by (metis less_irrefl unat_0)
  have "list_all (\<lambda>n. (word_of_nat n :: byte) AND 0xC0 \<noteq> 0xC0) [0..<64]" by code_simp
  then show "(word_of_nat (length l) :: byte) AND 0xC0 \<noteq> 0xC0" using l(2) by (simp add: list_all_iff)
qed

lemma drop_split:
  assumes "drop pos pkt = xs @ r"
  shows "drop (pos + length xs) pkt = r" "xs \<noteq> [] \<or> pos \<le> length pkt \<Longrightarrow> pos + length xs \<le> length pkt"
    "take (length xs) (drop pos pkt) = xs"
proof -
  have "drop (pos + length xs) pkt = drop (length xs) (drop pos pkt)" by (simp add: add.commute)
  then show "drop (pos + length xs) pkt = r" using assms by simp
  show "take (length xs) (drop pos pkt) = xs" using assms by simp
  show "pos + length xs \<le> length pkt" if "xs \<noteq> [] \<or> pos \<le> length pkt"
    using arg_cong [OF assms, of length] that by (cases "pos \<le> length pkt") auto
qed

lemma drop_Cons_nth: "drop pos pkt = x # r \<Longrightarrow> pos < length pkt \<and> pkt ! pos = x \<and> drop (Suc pos) pkt = r"
  by (metis drop_Suc drop_eq_Nil hd_drop_conv_nth leI list.sel(1,3) list.simps(3) tl_drop)

text \<open>A name without pointers: one iteration per label and one for the root.\<close>

lemma read_name_loop_labels:
  assumes "drop pos pkt = wire_labels ls @ 0 # r" and "list_all wire_label ls"
    and "length ls < k" and "length out + length (name_text ls) < out_len"
  shows "read_name_loop pkt out_len k pos jump out =
    Inr (out @ name_text ls, case jump of None \<Rightarrow> pos + length (wire_labels ls) + 1 | Some j \<Rightarrow> j)"
  using assms
proof (induction ls arbitrary: k pos out)
  case Nil
  then have "pos < length pkt" "pkt ! pos = 0" using drop_Cons_nth [of pos pkt] by auto
  then show ?case using Nil.prems(3) by (cases k) (simp_all split: option.splits)
next
  case (Cons l ls)
  obtain k' where k: "k = Suc k'" using Cons.prems(3) by (cases k) auto
  have l: "wire_label l" using Cons.prems(2) by simp
  note lb = length_byte [OF l]
  have at: "pos < length pkt" "pkt ! pos = word_of_nat (length l)"
    "drop (pos + 1) pkt = map char_byte l @ wire_labels ls @ 0 # r"
    using Cons.prems(1) drop_Cons_nth [of pos pkt] by auto
  note next_label = drop_split [OF at(3)]
  have le: "pos + 1 + length l \<le> length pkt" using next_label(2) at(1) by simp
  have "read_name_loop pkt out_len k' (pos + 1 + length l) jump (out @ l @ ''.'') =
      Inr ((out @ l @ ''.'') @ name_text ls, case jump of None \<Rightarrow> pos + 1 + length l + length (wire_labels ls) + 1 | Some j \<Rightarrow> j)"
    using Cons.prems next_label(1) k by (intro Cons.IH) simp_all
  moreover have "length l \<le> 63" using l by (simp add: wire_label_def)
  ultimately show ?case
    using at lb le Cons.prems(4) next_label(3) by (simp add: k DNS_MAX_LABEL_LEN_def o_def split: option.splits)
qed

definition shown_name :: "string list \<Rightarrow> string" where
  "shown_name ls = (if ls = [] then ''.'' else name_text ls)"

lemma c_read_name_labels:
  assumes "drop pos pkt = wire_labels ls @ 0 # r" and "list_all wire_label ls"
    and "length ls \<le> 20" and "length (name_text ls) < out_len" and "1 < out_len"
  shows "c_read_name pkt pos out_len = Inr (shown_name ls, pos + length (wire_labels ls) + 1)"
  using read_name_loop_labels [OF assms(1,2), of 21 "[]" out_len None] assms name_text_no_nul [OF assms(2)]
  by (simp add: c_read_name_def shown_name_def name_text_Nil)

text \<open>A name that is a pointer to labels elsewhere in the packet.\<close>

lemma c_read_name_pointer:
  assumes "drop pos pkt = [a, b] @ r" and "a AND 0xC0 = 0xC0" and "unat (be16 (a AND 0x3F) b) = p"
    and "drop p pkt = wire_labels ls @ 0 # r'" and "list_all wire_label ls"
    and "length ls \<le> 19" and "length (name_text ls) < out_len" and "1 < out_len"
  shows "c_read_name pkt pos out_len = Inr (shown_name ls, pos + 2)"
proof -
  have at: "pos < length pkt" "pkt ! pos = a" "Suc pos < length pkt" "pkt ! Suc pos = b"
    using assms(1) drop_Cons_nth [of pos pkt a "b # r"] drop_Cons_nth [of "Suc pos" pkt b r] by auto
  have "a \<noteq> 0" using assms(2) by auto
  moreover have "p < length pkt" using assms(4) by (metis append_is_Nil_conv drop_all leI list.simps(3))
  ultimately have "read_name_loop pkt out_len 21 pos None [] = read_name_loop pkt out_len 20 p (Some (pos + 2)) []"
    using at assms(2,3) by (simp add: eval_nat_numeral(3) [of "num.Bit1 (num.Bit0 (num.Bit1 num.One))"] numeral_eq_Suc)
  also have "\<dots> = Inr (name_text ls, pos + 2)"
    using read_name_loop_labels [OF assms(4,5), of 20 "[]" out_len "Some (pos + 2)"] assms(6,7) by simp
  finally show ?thesis
    using assms(8) assms(7) name_text_no_nul [OF assms(5)] by (simp add: c_read_name_def shown_name_def name_text_Nil)
qed

text \<open>A name of more than 20 labels is taken for a loop of pointers.\<close>

lemma read_name_loop_many:
  assumes "drop pos pkt = wire_labels ls @ r" and "list_all wire_label ls" and "k \<le> length ls"
  shows "read_name_loop pkt out_len k pos jump out = Inl Failed"
  using assms
proof (induction ls arbitrary: k pos out)
  case (Cons l ls)
  show ?case
  proof (cases k)
    case (Suc k')
    have l: "wire_label l" using Cons.prems(2) by simp
    note lb = length_byte [OF l]
    have at: "pos < length pkt" "pkt ! pos = word_of_nat (length l)"
      "drop (pos + 1) pkt = map char_byte l @ wire_labels ls @ r"
      using Cons.prems(1) drop_Cons_nth [of pos pkt] by auto
    note next_label = drop_split [OF at(3)]
    have "pos + 1 + length l \<le> length pkt" using next_label(2) at(1) by simp
    moreover have "read_name_loop pkt out_len k' (pos + 1 + length l) jump out' = Inl Failed" for out'
      using Cons.prems next_label(1) Suc by (intro Cons.IH) simp_all
    moreover have "length l \<le> 63" using l by (simp add: wire_label_def)
    ultimately show ?thesis using at lb Suc by (simp add: DNS_MAX_LABEL_LEN_def)
  qed simp
qed simp

lemma c_read_name_many:
  "drop pos pkt = wire_labels ls @ r \<Longrightarrow> list_all wire_label ls \<Longrightarrow> 21 \<le> length ls \<Longrightarrow>
    c_read_name pkt pos out_len = Inl Failed"
  by (simp add: c_read_name_def read_name_loop_many)

section \<open>Messages read back\<close>

type_synonym question_spec = "string list \<times> 16 word \<times> 16 word"
type_synonym rr_spec = "string list \<times> 16 word \<times> 16 word \<times> 32 word \<times> byte list"

definition question_bytes :: "question_spec \<Rightarrow> byte list" where
  "question_bytes = (\<lambda>(ls, t, c). wire_labels ls @ 0 # write_u16 t @ write_u16 c)"

definition rr_tail :: "16 word \<Rightarrow> 16 word \<Rightarrow> 32 word \<Rightarrow> byte list \<Rightarrow> byte list" where
  "rr_tail t c l rd = write_u16 t @ write_u16 c @ write_u32 l @ write_u16 (word_of_nat (length rd)) @ rd"

definition rr_bytes :: "rr_spec \<Rightarrow> byte list" where
  "rr_bytes = (\<lambda>(ls, t, c, l, rd). wire_labels ls @ 0 # rr_tail t c l rd)"

definition message_bytes ::
  "16 word \<Rightarrow> 16 word \<Rightarrow> question_spec list \<Rightarrow> rr_spec list \<Rightarrow> rr_spec list \<Rightarrow> rr_spec list \<Rightarrow> byte list" where
  "message_bytes i f qs an ns ar =
     write_u16 i @ write_u16 f @ write_u16 (word_of_nat (length qs)) @ write_u16 (word_of_nat (length an)) @
     write_u16 (word_of_nat (length ns)) @ write_u16 (word_of_nat (length ar)) @
     concat (map question_bytes qs) @ concat (map rr_bytes an) @ concat (map rr_bytes ns) @ concat (map rr_bytes ar)"

text \<open>Names the parser accepts, and what it makes of a question and of a record (its place in the packet apart).\<close>

definition good_name :: "string list \<Rightarrow> bool" where
  "good_name ls \<longleftrightarrow> list_all wire_label ls \<and> length ls \<le> 20 \<and> length (name_text ls) < DNS_MAX_NAME_LEN"

definition question_of :: "question_spec \<Rightarrow> dns_question" where
  "question_of = (\<lambda>(ls, t, c). \<lparr>qname = shown_name ls, qtype = t, qclass = c\<rparr>)"

definition rr_view :: "dns_rr \<Rightarrow> string \<times> 16 word \<times> 16 word \<times> 32 word \<times> byte list" where
  "rr_view rr = (rname rr, rtype rr, rrclass rr, ttl rr, rdata rr)"

definition rr_of :: "rr_spec \<Rightarrow> string \<times> 16 word \<times> 16 word \<times> 32 word \<times> byte list" where
  "rr_of = (\<lambda>(ls, t, c, l, rd). (shown_name ls, t, c, l, rd))"

lemma rr_view_make:
  "rr_view \<lparr>rname = nm, rtype = t, rrclass = c, ttl = l, rdlength = k, rdata_at = p, rdata = rd\<rparr> = (nm, t, c, l, rd)"
  "rr_of (ls, t, c, l, rd) = (shown_name ls, t, c, l, rd)"
  by (simp_all add: rr_view_def rr_of_def)

definition good_rr :: "rr_spec \<Rightarrow> bool" where
  "good_rr = (\<lambda>(ls, t, c, l, rd). good_name ls \<and> length rd < 65536)"

lemma read_good_name:
  "drop pos pkt = wire_labels ls @ 0 # r \<Longrightarrow> good_name ls \<Longrightarrow>
    c_read_name pkt pos DNS_MAX_NAME_LEN = Inr (shown_name ls, pos + length (wire_labels ls) + 1) \<and>
    drop (pos + length (wire_labels ls) + 1) pkt = r \<and> pos + length (wire_labels ls) + 1 \<le> length pkt"
  using drop_split(1,2) [of pos pkt "wire_labels ls @ [0]" r] c_read_name_labels [of pos pkt ls r DNS_MAX_NAME_LEN]
  by (simp add: good_name_def DNS_MAX_NAME_LEN_def)

lemma read_questions_bytes:
  assumes "drop pos buf = concat (map question_bytes qs) @ r" and "list_all (\<lambda>q. good_name (fst q)) qs"
    and "pos \<le> length buf"
  shows "read_questions buf (length qs) pos = Inr (map question_of qs, pos + length (concat (map question_bytes qs)))"
  using assms
proof (induction qs arbitrary: pos)
  case (Cons q qs)
  obtain ls t c where q: "q = (ls, t, c)" by (cases q)
  define off where "off = pos + length (wire_labels ls) + 1"
  define rest where "rest = concat (map question_bytes qs) @ r"
  have "drop pos buf = wire_labels ls @ 0 # write_u16 t @ write_u16 c @ rest"
    using Cons.prems(1) by (simp add: q question_bytes_def rest_def)
  then have n: "c_read_name buf pos DNS_MAX_NAME_LEN = Inr (shown_name ls, off)"
    "drop off buf = write_u16 t @ write_u16 c @ rest" "off \<le> length buf"
    using read_good_name [of pos buf ls] Cons.prems(2) unfolding off_def by (simp_all add: q)
  have d: "drop (off + 2) buf = write_u16 c @ rest" "drop (off + 4) buf = rest" "off + 4 \<le> length buf"
    using drop_split [of off buf "write_u16 t"] drop_split [of off buf "write_u16 t @ write_u16 c"] n(2) by simp_all
  have "read_questions buf (length qs) (off + 4) = Inr (map question_of qs, off + 4 + length (concat (map question_bytes qs)))"
    using Cons.prems d by (intro Cons.IH) (simp_all add: rest_def)
  then show ?case
    using n(1) d(3) read_write_u16 [OF n(2)] read_write_u16 [OF d(1)]
    by (simp add: q question_of_def) (simp add: question_bytes_def off_def)
qed simp

text \<open>The fixed fields and the data of a record behind a name that has been read.\<close>

lemma c_read_rr_tail:
  assumes "c_read_name pkt pos DNS_MAX_NAME_LEN = Inr (name, off)" and "drop off pkt = rr_tail t c l rd @ r"
    and "length rd < 65536"
  shows "c_read_rr pkt pos =
    Inr (\<lparr>rname = name, rtype = t, rrclass = c, ttl = l, rdlength = length rd, rdata_at = off + 10, rdata = rd\<rparr>,
      off + 10 + length rd)" and "drop (off + 10 + length rd) pkt = r"
proof -
  note s = assms(2) [unfolded rr_tail_def, simplified]
  have d: "drop (off + 2) pkt = write_u16 c @ write_u32 l @ write_u16 (word_of_nat (length rd)) @ rd @ r"
    "drop (off + 4) pkt = write_u32 l @ write_u16 (word_of_nat (length rd)) @ rd @ r"
    "drop (off + 8) pkt = write_u16 (word_of_nat (length rd)) @ rd @ r" "drop (off + 10) pkt = rd @ r"
    "off + 10 \<le> length pkt"
    using drop_split [of off pkt "write_u16 t"] drop_split [of off pkt "write_u16 t @ write_u16 c"]
      drop_split [of off pkt "write_u16 t @ write_u16 c @ write_u32 l"]
      drop_split [of off pkt "write_u16 t @ write_u16 c @ write_u32 l @ write_u16 (word_of_nat (length rd))"] s
    by simp_all
  have u: "unat (word_of_nat (length rd) :: 16 word) = length rd" using assms(3) by (simp add: unat_of_nat)
  have e: "off + 10 + length rd \<le> length pkt" "take (length rd) (drop (off + 10) pkt) = rd"
    using drop_split [OF d(4)] d(5) by auto
  show "c_read_rr pkt pos =
    Inr (\<lparr>rname = name, rtype = t, rrclass = c, ttl = l, rdlength = length rd, rdata_at = off + 10, rdata = rd\<rparr>,
      off + 10 + length rd)"
    using assms(1) d(5) e u read_write_u16 [OF s] read_write_u16 [OF d(1)] read_write_u32 [OF d(2)] read_write_u16 [OF d(3)]
    by (simp add: c_read_rr_def Let_def)
  show "drop (off + 10 + length rd) pkt = r" using drop_split(1) [OF d(4)] .
qed

lemma read_section_bytes:
  assumes "drop pos buf = concat (map rr_bytes rs) @ r" and "list_all good_rr rs" and "pos \<le> length buf"
  shows "\<exists>rrs. read_section buf (length rs) pos = Inr (rrs, pos + length (concat (map rr_bytes rs))) \<and>
    map rr_view rrs = map rr_of rs"
  using assms
proof (induction rs arbitrary: pos)
  case (Cons x rs)
  obtain ls t c l rd where x: "x = (ls, t, c, l, rd)" by (cases x)
  define off where "off = pos + length (wire_labels ls) + 1"
  define rest where "rest = concat (map rr_bytes rs) @ r"
  have "drop pos buf = wire_labels ls @ 0 # rr_tail t c l rd @ rest"
    using Cons.prems(1) by (simp add: x rr_bytes_def rest_def)
  then have n: "c_read_name buf pos DNS_MAX_NAME_LEN = Inr (shown_name ls, off)" "drop off buf = rr_tail t c l rd @ rest"
    using read_good_name [of pos buf ls] Cons.prems(2) unfolding off_def by (simp_all add: x good_rr_def)
  have rd: "length rd < 65536" using Cons.prems(2) by (simp add: x good_rr_def)
  note rr = c_read_rr_tail [OF n rd]
  have "off + 10 + length rd \<le> length buf"
    using drop_split(2) [OF n(2)] by (simp add: rr_tail_def)
  then obtain rrs where "read_section buf (length rs) (off + 10 + length rd) =
      Inr (rrs, off + 10 + length rd + length (concat (map rr_bytes rs)))" "map rr_view rrs = map rr_of rs"
    using Cons.IH [of "off + 10 + length rd"] Cons.prems(2) rr(2) by (auto simp: rest_def)
  moreover have "length (rr_bytes x) = length (wire_labels ls) + 11 + length rd"
    by (simp add: x rr_bytes_def rr_tail_def)
  ultimately show ?case
    using rr(1) by (simp add: rr_view_make x off_def)
qed simp

text \<open>The data of the last record ends where the section ends.\<close>

lemma c_read_rr_end: "c_read_rr pkt pos = Inr (rr, off) \<Longrightarrow> rdata_at rr + rdlength rr = off"
  by (auto simp: c_read_rr_def cbind_eq_Inr Let_def split: if_splits)

lemma read_section_end:
  "read_section buf k pos = Inr (rrs, off) \<Longrightarrow> rrs \<noteq> [] \<Longrightarrow> rdata_at (last rrs) + rdlength (last rrs) = off"
proof (induction buf k pos arbitrary: rrs off rule: read_section.induct)
  case (2 buf k pos)
  obtain rr off' rrs' where r: "c_read_rr buf pos = Inr (rr, off')" "read_section buf k off' = Inr (rrs', off)" "rrs = rr # rrs'"
    using "2.prems"(1) by (auto simp: cbind_eq_Inr)
  show ?case
  proof (cases "rrs' = []")
    case True
    then have "off = off'" using r(2) by (cases k) (auto simp: cbind_eq_Inr)
    then show ?thesis using r c_read_rr_end True by simp
  next
    case False
    then show ?thesis using r "2.IH" [OF r(1) refl r(2)] by simp
  qed
qed simp

lemma parse_message_bytes:
  assumes "list_all (\<lambda>q. good_name (fst q)) qs" and "list_all good_rr (an @ ns @ ar)"
    and "length qs < 65536" "length an < 65536" "length ns < 65536" "length ar < 65536"
  shows "\<exists>m. dns_parse_message (message_bytes i f qs an ns ar @ r) = Inr m \<and>
    hid (header m) = i \<and> hflags (header m) = f \<and> questions m = map question_of qs \<and>
    map rr_view (answers m) = map rr_of an \<and> map rr_view (authorities m) = map rr_of ns \<and>
    map rr_view (additionals m) = map rr_of ar \<and>
    (an \<noteq> [] \<longrightarrow> rdata_at (last (answers m)) + rdlength (last (answers m)) =
      12 + length (concat (map question_bytes qs)) + length (concat (map rr_bytes an)))"
proof -
  define buf where "buf = message_bytes i f qs an ns ar @ r"
  let ?q = "concat (map question_bytes qs)" and ?b = "\<lambda>xs. concat (map rr_bytes xs)"
  let ?n = "\<lambda>xs. write_u16 (word_of_nat (length xs))"
  have u: "unat (word_of_nat (length xs) :: 16 word) = length xs" if "length xs < 65536" for xs :: "'z list"
    using that by (simp add: unat_of_nat)
  note assms(3-6) [THEN u]
  note counts = this
  have d: "drop 0 buf = write_u16 i @ write_u16 f @ ?n qs @ ?n an @ ?n ns @ ?n ar @ ?q @ ?b an @ ?b ns @ ?b ar @ r"
    "drop 2 buf = write_u16 f @ ?n qs @ ?n an @ ?n ns @ ?n ar @ ?q @ ?b an @ ?b ns @ ?b ar @ r"
    "drop 4 buf = ?n qs @ ?n an @ ?n ns @ ?n ar @ ?q @ ?b an @ ?b ns @ ?b ar @ r"
    "drop 6 buf = ?n an @ ?n ns @ ?n ar @ ?q @ ?b an @ ?b ns @ ?b ar @ r"
    "drop 8 buf = ?n ns @ ?n ar @ ?q @ ?b an @ ?b ns @ ?b ar @ r"
    "drop 10 buf = ?n ar @ ?q @ ?b an @ ?b ns @ ?b ar @ r"
    "drop 12 buf = ?q @ ?b an @ ?b ns @ ?b ar @ r"
    by (simp_all add: buf_def message_bytes_def)
  have len: "12 \<le> length buf" by (simp add: buf_def message_bytes_def)
  note words = d(1-6) [THEN read_write_u16]
  define o1 o2 o3 where "o1 = 12 + length ?q" and "o2 = o1 + length (?b an)" and "o3 = o2 + length (?b ns)"
  have q: "read_questions buf (length qs) 12 = Inr (map question_of qs, o1)"
    unfolding o1_def using d(7) assms(1) len by (intro read_questions_bytes) simp_all
  have d1: "drop o1 buf = ?b an @ ?b ns @ ?b ar @ r" "o1 \<le> length buf"
    using drop_split(1,2) [OF d(7)] len unfolding o1_def by simp_all
  obtain an' where an: "read_section buf (length an) o1 = Inr (an', o2)" "map rr_view an' = map rr_of an"
    using read_section_bytes [OF d1(1)] d1(2) assms(2) by (auto simp: o2_def)
  have d2: "drop o2 buf = ?b ns @ ?b ar @ r" "o2 \<le> length buf"
    using drop_split(1,2) [OF d1(1)] d1(2) unfolding o2_def by simp_all
  obtain ns' where ns: "read_section buf (length ns) o2 = Inr (ns', o3)" "map rr_view ns' = map rr_of ns"
    using read_section_bytes [OF d2(1)] d2(2) assms(2) by (auto simp: o3_def)
  have d3: "drop o3 buf = ?b ar @ r" "o3 \<le> length buf"
    using drop_split(1,2) [OF d2(1)] d2(2) unfolding o3_def by simp_all
  obtain ar' where ar: "read_section buf (length ar) o3 = Inr (ar', o3 + length (?b ar))" "map rr_view ar' = map rr_of ar"
    using read_section_bytes [OF d3(1)] d3(2) assms(2) by auto
  have "rdata_at (last an') + rdlength (last an') = o2" if "an \<noteq> []"
  proof (rule read_section_end [OF an(1)])
    show "an' \<noteq> []" using arg_cong [OF an(2), of length] that by auto
  qed
  then show ?thesis
    unfolding buf_def [symmetric]
    using words len q an ns ar counts by (simp add: dns_parse_message_def o1_def o2_def)
qed

text \<open>The answer of the test servers: the question repeated, and one record whose name points to it.\<close>

definition echo_answer ::
  "16 word \<Rightarrow> 16 word \<Rightarrow> question_spec \<Rightarrow> 16 word \<Rightarrow> 16 word \<Rightarrow> 32 word \<Rightarrow> byte list \<Rightarrow> byte list" where
  "echo_answer i f q t c l rd =
     write_u16 i @ write_u16 f @ write_u16 1 @ write_u16 1 @ write_u16 0 @ write_u16 0 @
     question_bytes q @ [0xC0, 0x0C] @ rr_tail t c l rd"

lemma parse_echo_answer:
  assumes "good_name ls" and "length ls \<le> 19" and "length rd < 65536"
  shows "dns_parse_message (echo_answer i f (ls, t, c) t' c' l rd) =
    Inr \<lparr>header = \<lparr>hid = i, hflags = f, hqdcount = 1, hancount = 1, hnscount = 0, harcount = 0\<rparr>,
      questions = [\<lparr>qname = shown_name ls, qtype = t, qclass = c\<rparr>],
      answers = [\<lparr>rname = shown_name ls, rtype = t', rrclass = c', ttl = l, rdlength = length rd,
        rdata_at = 29 + length (name_text ls), rdata = rd\<rparr>],
      authorities = [], additionals = []\<rparr>"
proof -
  let ?buf = "echo_answer i f (ls, t, c) t' c' l rd"
  define off where "off = 17 + length (name_text ls)"
  have w: "read_u16 ?buf 0 = Inr i" "read_u16 ?buf 2 = Inr f" "read_u16 ?buf 4 = Inr 1" "read_u16 ?buf 6 = Inr 1"
    "read_u16 ?buf 8 = Inr 0" "read_u16 ?buf 10 = Inr 0"
    unfolding echo_answer_def by (rule read_write_u16, simp)+
  have d: "drop 12 ?buf = question_bytes (ls, t, c) @ [0xC0, 0x0C] @ rr_tail t' c' l rd @ []"
    by (simp add: echo_answer_def)
  have lq: "length (question_bytes (ls, t, c)) = length (name_text ls) + 5"
    by (simp add: question_bytes_def length_wire_name)
  have len: "12 \<le> length ?buf" by (simp add: echo_answer_def)
  have q: "read_questions ?buf 1 12 = Inr ([\<lparr>qname = shown_name ls, qtype = t, qclass = c\<rparr>], off)"
    using read_questions_bytes [of 12 ?buf "[(ls, t, c)]"] d assms(1) len
    by (simp add: question_of_def off_def lq)
  have d': "drop off ?buf = [0xC0, 0x0C] @ rr_tail t' c' l rd @ []"
    using drop_split(1) [OF d] by (simp add: off_def lq)
  have "drop 12 ?buf = wire_labels ls @ 0 # write_u16 t @ write_u16 c @ [0xC0, 0x0C] @ rr_tail t' c' l rd"
    by (simp add: d question_bytes_def)
  note labels = this
  have "(0xC0 :: byte) AND 0xC0 = 0xC0" by simp
  moreover have "unat (be16 ((0xC0 :: byte) AND 0x3F) 0x0C) = 12" by (simp add: unat_be16)
  ultimately have n: "c_read_name ?buf off DNS_MAX_NAME_LEN = Inr (shown_name ls, off + 2)"
    by (rule c_read_name_pointer [OF d' _ _ labels])
      (use assms(1,2) in \<open>simp_all add: good_name_def DNS_MAX_NAME_LEN_def\<close>)
  have d2: "drop (off + 2) ?buf = rr_tail t' c' l rd @ []" using drop_split(1) [OF d'] by simp
  have "read_section ?buf 1 off = Inr ([\<lparr>rname = shown_name ls, rtype = t', rrclass = c', ttl = l, rdlength = length rd,
      rdata_at = 29 + length (name_text ls), rdata = rd\<rparr>], off + 12 + length rd)"
    using c_read_rr_tail(1) [OF n d2 assms(3)] by (simp add: off_def)
  then show ?thesis using w q len by (simp add: dns_parse_message_def)
qed

section \<open>The builder\<close>

text \<open>
  The contract of every builder call, whatever its arguments: it does not write past the buffer, and
  what it leaves extends what was there, also when it fails half-way.
\<close>

definition builder_ok :: "dns_builder \<Rightarrow> bool" where
  "builder_ok b \<longleftrightarrow> length (written b) \<le> buflen b"

definition extends :: "dns_builder \<Rightarrow> built \<Rightarrow> bool" where
  "extends b r \<longleftrightarrow>
     (\<exists>rc b' xs. r = Inr (rc, b') \<and> builder_ok b' \<and> buflen b' = buflen b \<and> written b' = written b @ xs)"

lemma builder_init_ok [simp]: "builder_ok (dns_builder_init n)" "written (dns_builder_init n) = []"
    "buflen (dns_builder_init n) = n"
  by (simp_all add: builder_ok_def dns_builder_init_def)

lemma put_ok: "length (written b) + length bs \<le> buflen b \<Longrightarrow> put b bs = Inr (b\<lparr>written := written b @ bs\<rparr>)"
  by (simp add: put_def dns_builder_pos_def)

lemma extends_refl: "builder_ok b \<Longrightarrow> extends b (Inr (rc, b))"
  by (simp add: extends_def)

lemma extends_put: "length (written b) + length bs \<le> buflen b \<Longrightarrow> extends b (ok (put b bs))"
  by (auto simp: extends_def put_ok ok_def builder_ok_def)

lemma extends_trans:
  "extends b (Inr (rc, b')) \<Longrightarrow> extends b' r \<Longrightarrow> extends b r"
  by (auto simp: extends_def)

lemma extends_and_then:
  assumes "extends b r" and "\<And>b'. builder_ok b' \<Longrightarrow> extends b' (g b')"
  shows "extends b (and_then r g)"
proof -
  obtain rc b' where r: "r = Inr (rc, b')" "builder_ok b'" using assms(1) by (auto simp: extends_def)
  then show ?thesis
    using assms(1) assms(2) [OF r(2)] extends_trans [of b "rc" b' "g b'"]
    by (cases "rc") (simp_all add: and_then_def extends_def)
qed

lemma extends_name_loop: "builder_ok b \<Longrightarrow> extends b (write_name_loop b start)"
proof (induction b start rule: write_name_loop.induct)
  case (1 b start)
  let ?l = "takeWhile (\<lambda>c. c \<noteq> CHR ''.'') start"
  let ?bs = "word_of_nat (length ?l) # map char_byte ?l"
  show ?case
  proof (cases "start \<noteq> [] \<and> length ?l \<le> DNS_MAX_LABEL_LEN \<and> builder_ensure b (1 + length ?l)")
    case True
    then have room: "length (written b) + length ?bs \<le> buflen b"
      by (simp add: builder_ensure_def dns_builder_pos_def)
    let ?b = "b\<lparr>written := written b @ ?bs\<rparr>"
    have "extends ?b (write_name_loop ?b (drop (length ?l + 1) start))"
      using True room "1.IH" [of ?l ?b] by (simp add: builder_ok_def put_ok)
    moreover have "extends b (Inr (True, ?b))" using room by (auto simp: extends_def builder_ok_def)
    ultimately show ?thesis
      using True room by (subst write_name_loop.simps) (simp add: Let_def put_ok extends_trans)
  next
    case False
    then show ?thesis using "1.prems" by (subst write_name_loop.simps) (auto simp: Let_def extends_refl)
  qed
qed

lemma extends_name: "builder_ok b \<Longrightarrow> extends b (write_name_uncompressed b name)"
  unfolding write_name_uncompressed_def
  by (auto intro!: extends_refl extends_and_then extends_name_loop extends_put
      simp: builder_ensure_def dns_builder_pos_def)

lemma extends_header: "builder_ok b \<Longrightarrow> extends b (dns_build_response_header b i f qd an ns ar)"
  unfolding dns_build_response_header_def
  by (auto intro!: extends_refl extends_put simp: builder_ensure_def dns_builder_pos_def)

lemma extends_question: "builder_ok b \<Longrightarrow> extends b (dns_build_question b name t c)"
  unfolding dns_build_question_def
  by (auto intro!: extends_refl extends_and_then extends_name extends_put simp: builder_ensure_def dns_builder_pos_def)

lemma extends_rr: "builder_ok b \<Longrightarrow> extends b (dns_build_rr b name t c l rd)"
  unfolding dns_build_rr_def
  by (auto intro!: extends_refl extends_and_then extends_name extends_put simp: builder_ensure_def dns_builder_pos_def)

text \<open>What is written when there is room.\<close>

lemma takeWhile_label: "wire_label l \<Longrightarrow> takeWhile (\<lambda>c. c \<noteq> CHR ''.'') (l @ CHR ''.'' # s) = l"
  by (auto simp: wire_label_def takeWhile_append)

lemma write_name_loop_text:
  assumes "list_all wire_label ls" and "length (written b) + length (name_text ls) \<le> buflen b"
  shows "write_name_loop b (name_text ls) = Inr (True, b\<lparr>written := written b @ wire_labels ls\<rparr>)"
  using assms
proof (induction ls arbitrary: b)
  case Nil
  then show ?case by (simp add: write_name_loop.simps)
next
  case (Cons l ls)
  have l: "wire_label l" "length l \<le> 63" using Cons.prems(1) by (simp_all add: wire_label_def)
  show ?case
    using Cons.prems l Cons.IH [of "b\<lparr>written := written b @ word_of_nat (length l) # map char_byte l\<rparr>"]
    by (subst write_name_loop.simps)
      (simp add: takeWhile_label builder_ensure_def dns_builder_pos_def DNS_MAX_LABEL_LEN_def put_ok)
qed

lemma write_name_text:
  assumes "list_all wire_label ls" and "ls \<noteq> []" and "length (written b) + length (name_text ls) + 1 \<le> buflen b"
  shows "write_name_uncompressed b (name_text ls) = Inr (True, b\<lparr>written := written b @ wire_labels ls @ [0]\<rparr>)"
  using assms write_name_loop_text [OF assms(1), of b]
  by (simp add: write_name_uncompressed_def and_then_def name_text_Nil builder_ensure_def dns_builder_pos_def
      length_wire_name put_ok ok_def)

lemma build_header_ok:
  "length (written b) + 12 \<le> buflen b \<Longrightarrow> dns_build_response_header b i f qd an ns ar =
    Inr (True, b\<lparr>written := written b @ write_u16 i @ write_u16 f @ write_u16 qd @ write_u16 an @ write_u16 ns @ write_u16 ar\<rparr>)"
  by (simp add: dns_build_response_header_def builder_ensure_def dns_builder_pos_def put_ok ok_def)

lemma build_question_ok:
  assumes "list_all wire_label ls" and "ls \<noteq> []" and "length (written b) + length (name_text ls) + 5 \<le> buflen b"
  shows "dns_build_question b (name_text ls) t c = Inr (True, b\<lparr>written := written b @ question_bytes (ls, t, c)\<rparr>)"
  using assms write_name_text [OF assms(1,2), of b]
  by (simp add: dns_build_question_def and_then_def builder_ensure_def dns_builder_pos_def length_wire_name put_ok
      ok_def question_bytes_def)

lemma build_rr_ok:
  assumes "list_all wire_label ls" and "ls \<noteq> []"
    and "length (written b) + length (name_text ls) + 11 + length rd \<le> buflen b"
  shows "dns_build_rr b (name_text ls) t c l rd = Inr (True, b\<lparr>written := written b @ rr_bytes (ls, t, c, l, rd)\<rparr>)"
  using assms write_name_text [OF assms(1,2), of b]
  by (simp add: dns_build_rr_def and_then_def builder_ensure_def dns_builder_pos_def length_wire_name put_ok
      ok_def rr_bytes_def rr_tail_def)

text \<open>The root comes out as two root labels.\<close>

lemma write_name_root:
  "length (written b) + 2 \<le> buflen b \<Longrightarrow>
    write_name_uncompressed b ''.'' = Inr (True, b\<lparr>written := written b @ [0, 0]\<rparr>)"
  by (simp add: write_name_uncompressed_def write_name_loop.simps and_then_def builder_ensure_def
      dns_builder_pos_def put_ok ok_def)

section \<open>Properties\<close>

text \<open>C1: Whatever bytes arrive, parsing a message is free of undefined behaviour: no read outside the packet,
  no write outside a name buffer, an end after at most 21 steps per name. It reports an error, or returns
  a message whose lists are as long as its header says, whose names are zero-terminated within their
  buffers, and whose record data lies inside the packet.\<close>

theorem parser_safe:
  "case dns_parse_message buf of Inl e \<Rightarrow> e = Failed | Inr m \<Rightarrow> wf_message buf m"
  by (rule parse_message_safe)

text \<open>C2: What the builder writes into a buffer of 512 bytes, the parser reads back: the header, a question
  and a record for any name of at most 20 labels and 254 characters (the round trip that
  \<open>test_wire.c\<close> runs for one message).\<close>

theorem message_roundtrip:
  assumes "good_name ls" and "ls \<noteq> []" and "length (name_text ls) + length (name_text ls) + length rd \<le> 484"
  shows "\<exists>b m. and_then (dns_build_response_header (dns_builder_init 512) i f 1 1 0 0) (\<lambda>b.
      and_then (dns_build_question b (name_text ls) t c) (\<lambda>b.
      dns_build_rr b (name_text ls) t' c' l rd)) = Inr (True, b) \<and>
    dns_parse_message (written b) = Inr m \<and> hid (header m) = i \<and> hflags (header m) = f \<and>
    questions m = [\<lparr>qname = name_text ls, qtype = t, qclass = c\<rparr>] \<and>
    map rr_view (answers m) = [(name_text ls, t', c', l, rd)] \<and> authorities m = [] \<and> additionals m = []"
proof -
  have wl: "list_all wire_label ls" using assms(1) by (simp add: good_name_def)
  define b where "b = \<lparr>written = message_bytes i f [(ls, t, c)] [(ls, t', c', l, rd)] [] [], buflen = 512\<rparr>"
  have "length (question_bytes (ls, t, c)) = length (name_text ls) + 5"
    by (simp add: question_bytes_def length_wire_name)
  then have "and_then (dns_build_response_header (dns_builder_init 512) i f 1 1 0 0) (\<lambda>b.
      and_then (dns_build_question b (name_text ls) t c) (\<lambda>b. dns_build_rr b (name_text ls) t' c' l rd)) = Inr (True, b)"
    using assms(3)
    by (simp add: build_header_ok and_then_def build_question_ok [OF wl assms(2)] build_rr_ok [OF wl assms(2)]
        b_def message_bytes_def dns_builder_init_def)
  moreover have "length rd < 65536" using assms(3) by simp
  ultimately show ?thesis
    using parse_message_bytes [of "[(ls, t, c)]" "[(ls, t', c', l, rd)]" "[]" "[]" i f "[]"] assms(1,2)
    by (auto simp: good_rr_def question_of_def rr_of_def shown_name_def b_def)
qed

theorem message_roundtrip_witness:
  "\<exists>b m. and_then (dns_build_response_header (dns_builder_init 512) 0x1234 0x8180 1 1 0 0) (\<lambda>b.
      and_then (dns_build_question b (name_text [''google'', ''com'']) 1 1) (\<lambda>b.
      dns_build_rr b (name_text [''google'', ''com'']) 1 1 300 [1, 2, 3, 4])) = Inr (True, b) \<and>
    dns_parse_message (written b) = Inr m \<and> hid (header m) = 0x1234 \<and> hflags (header m) = 0x8180 \<and>
    questions m = [\<lparr>qname = name_text [''google'', ''com''], qtype = 1, qclass = 1\<rparr>] \<and>
    map rr_view (answers m) = [(name_text [''google'', ''com''], 1, 1, 300, [1, 2, 3, 4])] \<and>
    authorities m = [] \<and> additionals m = []"
  by (rule message_roundtrip) (simp_all add: good_name_def wire_label_def DNS_MAX_NAME_LEN_def)

text \<open>The limit of 21 iterations in \<open>read_name\<close>, meant against loops of compression pointers, counts
  labels too: a message whose question has 21 labels or more is rejected, such as every reverse lookup of
  an IPv6 address (34 labels); and the name of the root, which the parser accepts, is written back as two
  root labels.\<close>

lemma long_names_rejected:
  assumes "list_all wire_label ls" and "21 \<le> length ls" and "0 < n" and "n < 65536"
  shows "dns_parse_message (write_u16 i @ write_u16 f @ write_u16 (word_of_nat n) @ write_u16 an @ write_u16 ns @
      write_u16 ar @ wire_labels ls @ 0 # r) = Inl Failed \<and>
    write_name_uncompressed (dns_builder_init 512) ''.'' = Inr (True, \<lparr>written = [0, 0], buflen = 512\<rparr>)"
proof -
  let ?buf = "write_u16 i @ write_u16 f @ write_u16 (word_of_nat n) @ write_u16 an @ write_u16 ns @ write_u16 ar @
    wire_labels ls @ 0 # r"
  have u: "unat (word_of_nat n :: 16 word) = n" using assms(4) by (simp add: unat_of_nat)
  obtain k where n: "n = Suc k" using assms(3) by (cases n) auto
  have w: "read_u16 ?buf 0 = Inr i" "read_u16 ?buf 2 = Inr f" "read_u16 ?buf 4 = Inr (word_of_nat n)"
    "read_u16 ?buf 6 = Inr an" "read_u16 ?buf 8 = Inr ns" "read_u16 ?buf 10 = Inr ar"
    by (rule read_write_u16, simp)+
  have "c_read_name ?buf 12 DNS_MAX_NAME_LEN = Inl Failed"
    using assms(1,2) by (intro c_read_name_many [of _ _ ls "0 # r"]) simp_all
  then have "read_questions ?buf (unat (word_of_nat n :: 16 word)) 12 = Inl Failed"
    by (simp only: u) (simp add: n)
  then have "dns_parse_message ?buf = Inl Failed"
    unfolding dns_parse_message_def w by simp
  then show ?thesis by (simp add: write_name_root dns_builder_init_def)
qed

lemma long_names_rejected_example:
  "dns_parse_message (write_u16 7 @ write_u16 256 @ write_u16 (word_of_nat 1) @ write_u16 0 @ write_u16 0 @ write_u16 0 @
      wire_labels (replicate 32 ''0'' @ [''ip6'', ''arpa'']) @ 0 # [0, 12, 0, 1]) = Inl Failed \<and>
    write_name_uncompressed (dns_builder_init 512) ''.'' = Inr (True, \<lparr>written = [0, 0], buflen = 512\<rparr>)"
  by (rule long_names_rejected) (simp_all add: wire_label_def list_all_iff)

end
