(* ===== verification/C_Cache.thy ===== *)
theory C_Cache
  imports C_Prelude
begin

text \<open>
  \<open>src/src/cache.c\<close>: the answer cache, a hash table with linear probing. An unused slot is \<open>None\<close>; the
  pointer to the data of an entry, which \<open>cache_lookup\<close> returns and the processor writes through, is the
  number of its slot. The clock is an argument, read once per call; the lock makes a call atomic.
  The lemmas show what the cache promises (whatever it returns was stored under the same name, type and
  class and has not expired; what was stored is found) and what it does not promise: removing an expired
  entry leaves a hole that cuts off the entries behind it.
\<close>

section \<open>State and operations\<close>

record cache_entry =
  ckey :: string
  cdata :: "byte list"
  expiry :: int

record cache =
  slots :: "cache_entry option list"
  capacity :: nat
  used :: nat

definition hash_key :: "string \<Rightarrow> 32 word" where
  "hash_key k = foldl (\<lambda>h c. (h XOR ucast (char_byte c)) * 16777619) 2166136261 k"

definition cache_create :: "nat \<Rightarrow> cache" where
  "cache_create n = \<lparr>slots = replicate n None, capacity = n, used = 0\<rparr>"

text \<open>\<open>snprintf(buf, 512, "%s:%u:%u", name, type, rrclass)\<close>.\<close>

definition build_key :: "string \<Rightarrow> 16 word \<Rightarrow> 16 word \<Rightarrow> string" where
  "build_key name t c = c_copy 512 (name @ '':'' @ py_str (uint t) @ '':'' @ py_str (uint c))"

text \<open>The slots in the order in which \<open>idx = (h + i) % c->capacity\<close> visits them.\<close>

definition probes :: "cache \<Rightarrow> string \<Rightarrow> nat list" where
  "probes c k = map (\<lambda>i. (unat (hash_key k) mod capacity c + i) mod capacity c) [0..<capacity c]"

datatype found = Miss | Expired nat | Hit nat

fun lookup_loop :: "int \<Rightarrow> string \<Rightarrow> cache_entry option list \<Rightarrow> nat list \<Rightarrow> found" where
  "lookup_loop now k es [] = Miss"
| "lookup_loop now k es (i # is) =
     (case es ! i of
        None \<Rightarrow> Miss
      | Some e \<Rightarrow>
          if ckey e = k then (if expiry e < now then Expired i else Hit i) else lookup_loop now k es is)"

definition cache_lookup :: "cache \<Rightarrow> string \<Rightarrow> 16 word \<Rightarrow> 16 word \<Rightarrow> int \<Rightarrow> (nat option \<times> cache) c_result" where
  "cache_lookup c name t cl now =
     (if capacity c = 0 then Inl (Fault DivByZero)
      else let k = build_key name t cl in
        (case lookup_loop now k (slots c) (probes c k) of
           Miss \<Rightarrow> Inr (None, c)
         | Expired i \<Rightarrow> Inr (None, c\<lparr>slots := (slots c)[i := None], used := used c - 1\<rparr>)
         | Hit i \<Rightarrow> Inr (Some i, c)))"

fun store_loop :: "cache_entry \<Rightarrow> cache \<Rightarrow> nat list \<Rightarrow> cache" where
  "store_loop e c [] = c"
| "store_loop e c (i # is) =
     (case slots c ! i of
        None \<Rightarrow> c\<lparr>slots := (slots c)[i := Some e], used := used c + 1\<rparr>
      | Some e' \<Rightarrow> if ckey e' = ckey e then c\<lparr>slots := (slots c)[i := Some e]\<rparr> else store_loop e c is)"

definition cache_store ::
  "cache \<Rightarrow> string \<Rightarrow> 16 word \<Rightarrow> 16 word \<Rightarrow> byte list \<Rightarrow> 32 word \<Rightarrow> int \<Rightarrow> cache c_result" where
  "cache_store c name t cl bs lifetime now =
     (if lifetime = 0 then Inr c
      else if capacity c = 0 then Inl (Fault DivByZero)
      else let k = build_key name t cl in
        Inr (store_loop \<lparr>ckey = k, cdata = bs, expiry = now + uint lifetime\<rparr> c (probes c k)))"

definition cache_clean_expired :: "cache \<Rightarrow> int \<Rightarrow> cache" where
  "cache_clean_expired c now =
     (let dead = (\<lambda>s. case s of None \<Rightarrow> False | Some e \<Rightarrow> expiry e < now) in
      c\<lparr>slots := map (\<lambda>s. if dead s then None else s) (slots c), used := used c - length (filter dead (slots c))\<rparr>)"

text \<open>Writing through the pointer that \<open>cache_lookup\<close> returned, as the processor does with the query's id.\<close>

definition patch_id :: "16 word \<Rightarrow> byte list \<Rightarrow> byte list" where
  "patch_id i bs = (if 2 \<le> length bs then write_u16 i @ drop 2 bs else bs)"

definition cache_patch :: "16 word \<Rightarrow> nat \<Rightarrow> cache \<Rightarrow> cache" where
  "cache_patch i s c = c\<lparr>slots := (slots c)[s := map_option (\<lambda>e. e\<lparr>cdata := patch_id i (cdata e)\<rparr>) (slots c ! s)]\<rparr>"

section \<open>The table\<close>

definition cache_ok :: "cache \<Rightarrow> bool" where
  "cache_ok c \<longleftrightarrow>
     0 < capacity c \<and> length (slots c) = capacity c \<and> used c = length (filter (\<lambda>s. s \<noteq> None) (slots c))"

lemma probes_set: "set (probes c k) = {..<capacity c}"
  unfolding probes_def by (rule ring_set)

lemma probes_cong: "capacity c' = capacity c \<Longrightarrow> probes c' k = probes c k"
  by (simp add: probes_def)

lemma lookup_loop_hit:
  "lookup_loop now k es is = Hit i \<Longrightarrow> i \<in> set is \<and> (\<exists>e. es ! i = Some e \<and> ckey e = k \<and> now \<le> expiry e)"
  by (induction "is") (auto split: option.splits if_splits)

lemma lookup_loop_expired:
  "lookup_loop now k es is = Expired i \<Longrightarrow> i \<in> set is \<and> (\<exists>e. es ! i = Some e \<and> ckey e = k \<and> expiry e < now)"
  by (induction "is") (auto split: option.splits if_splits)

text \<open>Storing and looking up stop at the same slot, so what was stored is found.\<close>

lemma store_loop_capacity [simp]: "capacity (store_loop e c is) = capacity c"
  by (induction "is") (auto split: option.splits)

lemma store_loop_finds:
  assumes "\<exists>i \<in> set is. case slots c ! i of None \<Rightarrow> True | Some e' \<Rightarrow> ckey e' = ckey e"
    and "list_all (\<lambda>i. i < length (slots c)) is" and "distinct is"
  shows "\<exists>i \<in> set is. slots (store_loop e c is) = (slots c)[i := Some e] \<and>
    (\<forall>now. lookup_loop now (ckey e) (slots (store_loop e c is)) is = (if expiry e < now then Expired i else Hit i))"
  using assms
proof (induction "is")
  case (Cons i "is")
  show ?case
  proof (cases "case slots c ! i of None \<Rightarrow> True | Some e' \<Rightarrow> ckey e' = ckey e")
    case True
    then show ?thesis using Cons.prems(2) by (auto split: option.splits)
  next
    case False
    then obtain e' where e': "slots c ! i = Some e'" "ckey e' \<noteq> ckey e" by (auto split: option.splits)
    then obtain j where j: "j \<in> set is" "slots (store_loop e c is) = (slots c)[j := Some e]"
      "\<forall>now. lookup_loop now (ckey e) (slots (store_loop e c is)) is = (if expiry e < now then Expired j else Hit j)"
      using Cons by auto
    then have "j \<noteq> i" using Cons.prems(3) by auto
    then show ?thesis using e' j by (intro bexI [of _ j]) simp_all
  qed
qed simp

lemma probes_distinct: "distinct (probes c k)"
  unfolding probes_def by (rule ring_distinct)

lemma store_loop_ok: "cache_ok c \<Longrightarrow> list_all (\<lambda>i. i < length (slots c)) is \<Longrightarrow> cache_ok (store_loop e c is)"
proof (induction "is")
  case (Cons i "is")
  then show ?case
    using filter_update [of i "slots c" "\<lambda>s. s \<noteq> None" "Some e"] by (auto simp: cache_ok_def split: option.splits)
qed simp

lemma probes_in: "cache_ok c \<Longrightarrow> list_all (\<lambda>i. i < length (slots c)) (probes c k)"
  by (simp add: list_all_iff probes_set cache_ok_def)

lemma cache_create_ok: "0 < n \<Longrightarrow> cache_ok (cache_create n)"
  by (simp add: cache_ok_def cache_create_def)

lemma cache_store_ok: "cache_ok c \<Longrightarrow> \<exists>c'. cache_store c name t cl bs l now = Inr c' \<and> cache_ok c' \<and> capacity c' = capacity c"
  using store_loop_ok [OF _ probes_in] by (auto simp: cache_store_def cache_ok_def Let_def)

lemma cache_lookup_ok:
  "cache_ok c \<Longrightarrow> \<exists>r c'. cache_lookup c name t cl now = Inr (r, c') \<and> cache_ok c' \<and> capacity c' = capacity c \<and>
    (r \<noteq> None \<longrightarrow> c' = c)"
proof -
  assume c: "cache_ok c"
  let ?k = "build_key name t cl"
  show ?thesis
  proof (cases "lookup_loop now ?k (slots c) (probes c ?k)")
    case (Expired i)
    then have i: "i < length (slots c)" "slots c ! i \<noteq> None"
      using lookup_loop_expired [of now ?k "slots c" "probes c ?k" i] c by (auto simp: probes_set cache_ok_def)
    then show ?thesis using c Expired filter_update [OF i(1), of "\<lambda>s. s \<noteq> None" None]
      by (auto simp: cache_lookup_def cache_ok_def)
  qed (use c in \<open>auto simp: cache_lookup_def cache_ok_def\<close>)
qed

lemma cache_clean_ok: "cache_ok c \<Longrightarrow> cache_ok (cache_clean_expired c now)"
proof -
  assume c: "cache_ok c"
  define dead :: "cache_entry option \<Rightarrow> bool" where "dead = (\<lambda>s. case s of None \<Rightarrow> False | Some e \<Rightarrow> expiry e < now)"
  have "length (filter (\<lambda>s. s \<noteq> None) (map (\<lambda>s. if dead s then None else s) es)) + length (filter dead es) =
      length (filter (\<lambda>s. s \<noteq> None) es)" for es :: "cache_entry option list"
    by (induction es) (auto simp: dead_def split: option.splits)
  from this [of "slots c"] show ?thesis using c by (simp add: cache_clean_expired_def cache_ok_def Let_def flip: dead_def)
qed

lemma cache_patch_ok: "cache_ok c \<Longrightarrow> s < capacity c \<Longrightarrow> cache_ok (cache_patch i s c)"
  using filter_update [of s "slots c" "\<lambda>s. s \<noteq> None" "map_option (\<lambda>e. e\<lparr>cdata := patch_id i (cdata e)\<rparr>) (slots c ! s)"]
  by (auto simp: cache_patch_def cache_ok_def)

section \<open>Keys\<close>

lemma append_last_sep:
  assumes "a @ x # b = a' @ x # b'" and "x \<notin> set b" and "x \<notin> set b'"
  shows "a = a' \<and> b = b'"
proof -
  have eq: "rev b @ x # rev a = rev b' @ x # rev a'" using arg_cong [OF assms(1), of rev] by simp
  have "takeWhile (\<lambda>y. y \<noteq> x) (rev c @ x # d) = rev c" if "x \<notin> set c" for c d
    using that by (auto simp: takeWhile_append takeWhile_eq_all_conv)
  then have "rev b = rev b'" using eq assms(2,3) by metis
  with eq show ?thesis by simp
qed

lemma py_str_no_colon: "CHR '':'' \<notin> set (py_str (int n))"
proof -
  have "list_all (\<lambda>d. CHR '':'' \<noteq> hexdigit d) [0..<10]" by code_simp
  then have "CHR '':'' \<noteq> hexdigit d" if "d < 10" for d using that by (simp add: list_all_iff)
  then show ?thesis using digits_less [of 10 n] by (auto simp: py_str_def list_all_iff)
qed

lemma py_str_inj: "py_str (int n) = py_str (int m) \<Longrightarrow> n = m"
proof -
  assume eq: "py_str (int n) = py_str (int m)"
  have "distinct (map hexdigit [0..<10])" by code_simp
  then have "inj_on hexdigit {0..<10}" by (simp only: distinct_map set_upt)
  moreover have "set (digits 10 n) \<union> set (digits 10 m) \<subseteq> {0..<10}"
    using digits_less [of 10 n] digits_less [of 10 m] by (auto simp: list_all_iff)
  ultimately have "inj_on hexdigit (set (digits 10 n) \<union> set (digits 10 m))" by (rule inj_on_subset)
  then have "digits 10 n = digits 10 m" using eq by (intro map_inj_on [of hexdigit]) (simp_all only: py_str_def of_nat_less_0_iff if_False append_Nil abs_of_nat nat_int)
  moreover have "foldl (\<lambda>a d. a * 10 + d) 0 (digits 10 k) = k" for k by (rule digits_value) simp
  ultimately show "n = m" by metis
qed

lemma length_py_str_16: "length (py_str (int (unat (w :: 16 word)))) \<le> 5"
proof -
  have "unat w < 10 ^ 5" using unsigned_less [of w, where ?'a = nat] by simp
  then show ?thesis using length_digits [of 10 "unat w" 5] by (simp add: py_str_def)
qed

lemma build_key_short:
  assumes "length name \<le> 254"
  shows "build_key name t c = name @ CHR '':'' # py_str (int (unat t)) @ CHR '':'' # py_str (int (unat c))"
  using assms length_py_str_16 [of t] length_py_str_16 [of c] by (simp add: build_key_def c_copy_def)

lemma build_key_inject:
  assumes "length n1 \<le> 254" and "length n2 \<le> 254" and "build_key n1 t1 c1 = build_key n2 t2 c2"
  shows "n1 = n2 \<and> t1 = t2 \<and> c1 = c2"
proof -
  have "(n1 @ CHR '':'' # py_str (int (unat t1))) @ CHR '':'' # py_str (int (unat c1)) =
      (n2 @ CHR '':'' # py_str (int (unat t2))) @ CHR '':'' # py_str (int (unat c2))"
    using assms by (simp add: build_key_short)
  from append_last_sep [OF this py_str_no_colon py_str_no_colon]
  have "n1 @ CHR '':'' # py_str (int (unat t1)) = n2 @ CHR '':'' # py_str (int (unat t2))" "unat c1 = unat c2"
    using py_str_inj by blast+
  with append_last_sep [OF this(1) py_str_no_colon py_str_no_colon] show ?thesis
    using py_str_inj by (auto simp: word_unat_eq_iff)
qed

section \<open>Runs of the cache\<close>

text \<open>A store call of the past: name, type, class, data, time and lifetime.\<close>

type_synonym stored = "string \<times> 16 word \<times> 16 word \<times> byte list \<times> int \<times> 32 word"

text \<open>The caches that can arise, with the calls of \<open>cache_store\<close> that led to them, the latest first.\<close>

inductive cache_reach :: "nat \<Rightarrow> stored list \<Rightarrow> cache \<Rightarrow> bool" for n where
  created: "cache_reach n [] (cache_create n)"
| stored: "cache_reach n H c \<Longrightarrow> length name \<le> 254 \<Longrightarrow> cache_store c name t cl bs l now = Inr c' \<Longrightarrow>
    cache_reach n ((name, t, cl, bs, now, l) # H) c'"
| looked_up: "cache_reach n H c \<Longrightarrow> cache_lookup c name t cl now = Inr (r, c') \<Longrightarrow> cache_reach n H c'"
| cleaned: "cache_reach n H c \<Longrightarrow> cache_reach n H (cache_clean_expired c now)"
| patched: "cache_reach n H c \<Longrightarrow> s < n \<Longrightarrow> cache_reach n H (cache_patch i s c)"

text \<open>An entry is one of the calls; only its first two bytes may have been overwritten.\<close>

definition same_answer :: "byte list \<Rightarrow> byte list \<Rightarrow> bool" where
  "same_answer a b \<longleftrightarrow> length a = length b \<and> drop 2 a = drop 2 b"

definition from_store :: "cache_entry \<Rightarrow> stored \<Rightarrow> bool" where
  "from_store e = (\<lambda>(name, t, cl, bs, t0, l).
     length name \<le> 254 \<and> ckey e = build_key name t cl \<and> expiry e = t0 + uint l \<and> same_answer (cdata e) bs)"

definition cache_sound :: "stored list \<Rightarrow> cache \<Rightarrow> bool" where
  "cache_sound H c \<longleftrightarrow> (\<forall>e. Some e \<in> set (slots c) \<longrightarrow> (\<exists>x \<in> set H. from_store e x))"

lemma same_answer_patch: "same_answer (patch_id i bs) bs' = same_answer bs bs'"
  by (auto simp: same_answer_def patch_id_def)

lemma cache_sound_update:
  "cache_sound H c \<Longrightarrow> set (slots c') \<subseteq> set (slots c) \<union> {None, Some e} \<Longrightarrow> x \<in> set H' \<Longrightarrow> from_store e x \<Longrightarrow>
    set H \<subseteq> set H' \<Longrightarrow> cache_sound H' c'"
  by (fastforce simp: cache_sound_def)

lemma cache_sound_subset:
  "cache_sound H c \<Longrightarrow> set (slots c') \<subseteq> insert None (set (slots c)) \<Longrightarrow> set H \<subseteq> set H' \<Longrightarrow> cache_sound H' c'"
  by (fastforce simp: cache_sound_def)

lemma store_loop_set: "set (slots (store_loop e c is)) \<subseteq> insert (Some e) (set (slots c))"
  by (induction "is") (auto split: option.splits dest: set_update_subset_insert [THEN subsetD])

lemma cache_reach_inv:
  "cache_reach n H c \<Longrightarrow> 0 < n \<Longrightarrow> cache_ok c \<and> capacity c = n \<and> cache_sound H c"
proof (induction rule: cache_reach.induct)
  case created
  then show ?case by (simp add: cache_create_ok) (simp add: cache_create_def cache_sound_def)
next
  case (stored H c name t cl bs l now c')
  let ?e = "\<lparr>ckey = build_key name t cl, cdata = bs, expiry = now + uint l\<rparr>"
  have e: "from_store ?e (name, t, cl, bs, now, l)" using stored.hyps(2) by (simp add: from_store_def same_answer_def)
  have "set (slots c') \<subseteq> set (slots c) \<union> {None, Some ?e}"
    using stored.hyps(3) store_loop_set [of ?e c] by (fastforce simp: cache_store_def Let_def split: if_splits)
  then have "cache_sound ((name, t, cl, bs, now, l) # H) c'"
    using stored.IH stored.prems e by (intro cache_sound_update [of H c c' ?e]) auto
  then show ?case using stored.IH stored.prems stored.hyps(3) cache_store_ok [of c name t cl bs l now] by auto
next
  case (looked_up H c name t cl now r c')
  have "set (slots c') \<subseteq> insert None (set (slots c))"
    using looked_up.hyps(2)
    by (auto simp: cache_lookup_def Let_def split: if_splits found.splits dest: set_update_subset_insert [THEN subsetD])
  then show ?case using looked_up cache_lookup_ok [of c name t cl now] cache_sound_subset [of H c c' H] by auto
next
  case (cleaned H c now)
  have "set (slots (cache_clean_expired c now)) \<subseteq> insert None (set (slots c))"
    by (auto simp: cache_clean_expired_def Let_def)
  then show ?case using cleaned cache_clean_ok [of c now] cache_sound_subset [of H c _ H]
    by (auto simp: cache_clean_expired_def Let_def)
next
  case (patched H c s i)
  have "\<exists>x \<in> set H. from_store e x" if e: "Some e \<in> set (slots (cache_patch i s c))" for e
  proof -
    have "Some e \<in> set (slots c) \<or> Some e = map_option (\<lambda>e. e\<lparr>cdata := patch_id i (cdata e)\<rparr>) (slots c ! s)"
      using e by (auto simp: cache_patch_def dest: set_update_subset_insert [THEN subsetD])
    moreover have "slots c ! s \<in> set (slots c)" using patched by (auto simp: cache_ok_def)
    ultimately show ?thesis using patched
      by (cases "slots c ! s") (fastforce simp: cache_sound_def from_store_def same_answer_patch)+
  qed
  then show ?case using patched cache_patch_ok [of c s i] by (auto simp: cache_sound_def cache_patch_def)
qed

section \<open>What a look-up finds\<close>

lemma lookup_after_store:
  assumes "cache_ok c" and "used c < capacity c" and "0 < l"
  shows "\<exists>c' i. cache_store c name t cl bs l now = Inr c' \<and> cache_ok c' \<and> i < capacity c' \<and>
    slots c' ! i = Some \<lparr>ckey = build_key name t cl, cdata = bs, expiry = now + uint l\<rparr> \<and>
    (\<forall>later. later \<le> now + uint l \<longrightarrow> cache_lookup c' name t cl later = Inr (Some i, c')) \<and>
    (\<forall>later. now + uint l < later \<longrightarrow> (\<exists>c''. cache_lookup c' name t cl later = Inr (None, c'')))"
proof -
  define k where "k = build_key name t cl"
  define e where "e = \<lparr>ckey = k, cdata = bs, expiry = now + uint l\<rparr>"
  define c' where "c' = store_loop e c (probes c k)"
  have len: "0 < capacity c" "length (slots c) = capacity c" using assms(1) by (simp_all add: cache_ok_def)
  have "\<exists>i < capacity c. slots c ! i = None"
  proof (rule ccontr)
    assume "\<not> (\<exists>i < capacity c. slots c ! i = None)"
    then have "filter (\<lambda>s. s \<noteq> None) (slots c) = slots c"
      using len by (auto simp: filter_id_conv in_set_conv_nth)
    then show False using assms(1,2) by (simp add: cache_ok_def)
  qed
  then obtain j where "j < capacity c" "slots c ! j = None" by blast
  then have "\<exists>i \<in> set (probes c k). case slots c ! i of None \<Rightarrow> True | Some e' \<Rightarrow> ckey e' = ckey e"
    by (intro bexI [of _ j]) (simp_all add: probes_set)
  then obtain i where i: "i < capacity c" "slots c' = (slots c)[i := Some e]"
    "\<And>later. lookup_loop later k (slots c') (probes c k) = (if now + uint l < later then Expired i else Hit i)"
    using store_loop_finds [OF _ probes_in [OF assms(1)] probes_distinct, of k e] unfolding c'_def
    by (auto simp: e_def probes_set)
  have cp: "capacity c' = capacity c" by (simp add: c'_def)
  have store: "cache_store c name t cl bs l now = Inr c'"
    using assms(3) len by (simp add: cache_store_def c'_def e_def k_def Let_def word_gt_0)
  have "cache_lookup c' name t cl later = (if now + uint l < later
      then Inr (None, c'\<lparr>slots := (slots c')[i := None], used := used c' - 1\<rparr>) else Inr (Some i, c'))" for later
    using i(3) [of later] len cp probes_cong [OF cp] by (simp add: cache_lookup_def flip: k_def)
  moreover have "cache_ok c'" using store cache_store_ok [OF assms(1), of name t cl bs l now] by auto
  ultimately show ?thesis using store i(1,2) cp len by (auto simp: e_def k_def)
qed

text \<open>The first two slots of a probe sequence.\<close>

definition home :: "cache \<Rightarrow> string \<Rightarrow> nat" where
  "home c k = unat (hash_key k) mod capacity c"

lemma probes_two:
  assumes "2 \<le> capacity c"
  obtains rest where "probes c k = home c k # (home c k + 1) mod capacity c # rest"
    and "home c k < capacity c" and "(home c k + 1) mod capacity c < capacity c"
    and "(home c k + 1) mod capacity c \<noteq> home c k"
proof -
  have "[0..<capacity c] = 0 # 1 # [2..<capacity c]"
    using assms by (simp add: upt_conv_Cons numeral_2_eq_2)
  then have "probes c k = home c k # (home c k + 1) mod capacity c #
      map (\<lambda>i. (home c k + i) mod capacity c) [2..<capacity c]"
    using assms by (simp add: probes_def home_def)
  moreover have "home c k < capacity c" using assms by (simp add: home_def)
  moreover have "(h + 1) mod n \<noteq> h" if "2 \<le> n" "h < n" for h n :: nat
    using that by (cases "h + 1 = n") auto
  ultimately show ?thesis using that assms by simp
qed

section \<open>Properties\<close>

text \<open>C3: In every cache that a sequence of stores, look-ups, cleanings and writes of an id can produce, the
  counter is the number of slots in use, and whatever \<open>cache_lookup\<close> returns was stored under exactly that
  name, type and class (their text key is unique), no longer ago than its lifetime, and is unchanged but
  for the two bytes of the id.\<close>

theorem cache_returns_stored:
  assumes "cache_reach n H c" and "0 < n" and "length name \<le> 254"
    and "cache_lookup c name t cl now = Inr (Some i, c')"
  shows "used c = length (filter (\<lambda>s. s \<noteq> None) (slots c)) \<and>
    (\<exists>e bs t0 l. i < n \<and> slots c ! i = Some e \<and> (name, t, cl, bs, t0, l) \<in> set H \<and>
      now \<le> t0 + uint l \<and> same_answer (cdata e) bs)"
proof -
  note inv = cache_reach_inv [OF assms(1,2)]
  have "lookup_loop now (build_key name t cl) (slots c) (probes c (build_key name t cl)) = Hit i"
    using assms(4) by (auto simp: cache_lookup_def Let_def split: if_splits found.splits)
  from lookup_loop_hit [OF this] obtain e where e0: "i \<in> set (probes c (build_key name t cl))"
    and e1: "slots c ! i = Some e" "ckey e = build_key name t cl" "now \<le> expiry e"
    by blast
  have "i < n" using e0 inv by (simp add: probes_set)
  note e = this e1
  then have "Some e \<in> set (slots c)" using inv by (metis cache_ok_def nth_mem)
  then obtain x where x: "x \<in> set H" "from_store e x" using inv by (auto simp: cache_sound_def)
  obtain name' t' cl' bs t0 l where x': "x = (name', t', cl', bs, t0, l)" by (cases x)
  then have "name' = name \<and> t' = t \<and> cl' = cl"
    using x(2) e(3) assms(3) by (intro build_key_inject) (simp_all add: from_store_def)
  then show ?thesis using inv e x x' by (auto simp: cache_ok_def from_store_def)
qed

theorem cache_returns_stored_witness:
  "\<exists>c c' i e. cache_store (cache_create 4) ''a.'' 1 1 [1, 2, 3] 60 100 = Inr c \<and>
    cache_lookup c ''a.'' 1 1 130 = Inr (Some i, c') \<and> slots c ! i = Some e \<and> same_answer (cdata e) [1, 2, 3]"
proof -
  have "cache_ok (cache_create 4)" "used (cache_create 4) < capacity (cache_create 4)"
    by (simp add: cache_create_ok) (simp add: cache_create_def)
  from lookup_after_store [OF this, of 60 "''a.''" 1 1 "[1, 2, 3]" 100]
  obtain c i where c: "cache_store (cache_create 4) ''a.'' 1 1 [1, 2, 3] 60 100 = Inr c"
    "cache_lookup c ''a.'' 1 1 130 = Inr (Some i, c)"
    by auto
  have "cache_reach 4 [(''a.'', 1, 1, [1, 2, 3], 100, 60)] c"
    by (rule cache_reach.stored [OF cache_reach.created _ c(1)]) simp
  from cache_returns_stored [OF this _ _ c(2)] obtain e where "slots c ! i = Some e" "same_answer (cdata e) [1, 2, 3]"
    by force
  then show ?thesis using c by blast
qed

text \<open>C33: When the table has a free slot at the time of the store, an answer with a lifetime that is not zero is put into the table,
  and a look-up for it that comes next, with no other operation in between, finds it at any time until its lifetime is over,
  and at no time after that.\<close>

theorem cache_store_found:
  assumes "cache_ok c" and "used c < capacity c" and "0 < l"
  shows "\<exists>c' i. cache_store c name t cl bs l now = Inr c' \<and>
    slots c' ! i = Some \<lparr>ckey = build_key name t cl, cdata = bs, expiry = now + uint l\<rparr> \<and>
    (\<forall>later. \<exists>c''. cache_lookup c' name t cl later = Inr (if later \<le> now + uint l then Some i else None, c''))"
proof -
  obtain c' i where "cache_store c name t cl bs l now = Inr c'"
    "slots c' ! i = Some \<lparr>ckey = build_key name t cl, cdata = bs, expiry = now + uint l\<rparr>"
    "\<forall>later. later \<le> now + uint l \<longrightarrow> cache_lookup c' name t cl later = Inr (Some i, c')"
    "\<forall>later. now + uint l < later \<longrightarrow> (\<exists>c''. cache_lookup c' name t cl later = Inr (None, c''))"
    using lookup_after_store [OF assms, of name t cl bs now] by blast
  then show ?thesis by (intro exI [of _ c'] exI [of _ i]) (auto simp: not_le)
qed

theorem cache_store_found_witness:
  "\<exists>c' i. cache_store (cache_create 1024) ''a.com.'' 1 1 [1, 2] 300 100 = Inr c' \<and>
    slots c' ! i = Some \<lparr>ckey = build_key ''a.com.'' 1 1, cdata = [1, 2], expiry = 100 + uint (300 :: 32 word)\<rparr> \<and>
    (\<forall>later. \<exists>c''. cache_lookup c' ''a.com.'' 1 1 later =
      Inr (if later \<le> 100 + uint (300 :: 32 word) then Some i else None, c''))"
proof (rule cache_store_found)
  show "cache_ok (cache_create 1024)" by (rule cache_create_ok) simp
qed (simp_all add: cache_create_def)

text \<open>C34: Removing an expired entry makes the cache forget an entry that has not expired: when two keys share
  their first slot, the one stored second is no longer found once a look-up has removed the first; and when
  the hole is filled again, an answer that was superseded in the meantime comes back.\<close>

theorem cache_forgets:
  assumes "2 \<le> n" and "build_key n1 t1 c1 \<noteq> build_key n2 t2 c2"
    and "home (cache_create n) (build_key n1 t1 c1) = home (cache_create n) (build_key n2 t2 c2)"
    and "0 < l1" and "0 < l2" and "now + uint l1 + uint l2 + 2 \<le> now + uint l"
  shows "\<exists>a b c d e f g i j.
    cache_store (cache_create n) n1 t1 c1 d1 l1 now = Inr a \<and> cache_store a n2 t2 c2 old l now = Inr b \<and>
    cache_lookup b n2 t2 c2 (now + uint l1 + 1) = Inr (Some i, b) \<and>
    cache_lookup b n1 t1 c1 (now + uint l1 + 1) = Inr (None, c) \<and>
    cache_lookup c n2 t2 c2 (now + uint l1 + 1) = Inr (None, c) \<and>
    cache_store c n2 t2 c2 new l2 (now + uint l1 + 1) = Inr d \<and>
    cache_lookup d n2 t2 c2 (now + uint l1 + uint l2 + 2) = Inr (None, e) \<and>
    cache_store e n1 t1 c1 d1 l1 (now + uint l1 + uint l2 + 2) = Inr f \<and>
    cache_lookup f n2 t2 c2 (now + uint l1 + uint l2 + 2) = Inr (Some j, f) \<and> map_option cdata (slots f ! j) = Some old"
proof -
  define k1 k2 where "k1 = build_key n1 t1 c1" and "k2 = build_key n2 t2 c2"
  define p q where "p = home (cache_create n) k2" and "q = (p + 1) mod n"
  have cap: "capacity (cache_create n) = n" by (simp add: cache_create_def)
  obtain r1 r2 where pr: "probes (cache_create n) k1 = p # q # r1" "probes (cache_create n) k2 = p # q # r2"
    and pq: "p < n" "q < n" "q \<noteq> p"
    using probes_two [of "cache_create n" k1] probes_two [of "cache_create n" k2] assms(1,3)
    unfolding p_def q_def cap k1_def [symmetric] k2_def [symmetric] by metis
  have ps: "probes \<lparr>slots = es, capacity = n, used = u\<rparr> k1 = p # q # r1"
    "probes \<lparr>slots = es, capacity = n, used = u\<rparr> k2 = p # q # r2" for es u
    using pr by (simp_all add: probes_def cache_create_def)
  have ne: "k1 \<noteq> k2" "k2 \<noteq> k1" using assms(2) by (auto simp: k1_def k2_def)
  have lt: "\<not> uint l \<le> uint l1"
  proof
    assume "uint l \<le> uint l1"
    moreover have "0 \<le> uint l2" by simp
    ultimately show False using assms(6) by linarith
  qed
  then have "l \<noteq> 0" by auto
  then have l: "l1 \<noteq> 0" "l2 \<noteq> 0" "l \<noteq> 0" "0 \<le> uint l1" "0 \<le> uint l2" "n \<noteq> 0"
    using assms(1,4,5) by (auto simp: word_gt_0)
  define E where "E = (\<lambda>k d x. Some \<lparr>ckey = k, cdata = d :: byte list, expiry = x :: int\<rparr>)"
  define none :: "cache_entry option list" where "none = replicate n None"
  let ?x = "now + uint l1 + uint l2 + 2"
  define a where "a = \<lparr>slots = none[p := E k1 d1 (now + uint l1)], capacity = n, used = 1\<rparr>"
  define b where "b = \<lparr>slots = none[p := E k1 d1 (now + uint l1), q := E k2 old (now + uint l)], capacity = n, used = 2\<rparr>"
  define c where "c = \<lparr>slots = none[p := None, q := E k2 old (now + uint l)], capacity = n, used = 1\<rparr>"
  define d where "d = \<lparr>slots = none[p := E k2 new (now + uint l1 + 1 + uint l2), q := E k2 old (now + uint l)], capacity = n, used = 2\<rparr>"
  define f where "f = \<lparr>slots = none[p := E k1 d1 (?x + uint l1), q := E k2 old (now + uint l)], capacity = n, used = 2\<rparr>"
  have swap: "xs[p := x, q := y, p := z] = xs[p := z, q := y]" for xs :: "cache_entry option list" and x y z
    using pq(3) by (simp add: list_update_swap)
  have at: "none[p := x, q := y] ! p = x" "none[p := x, q := y] ! q = y" "none[p := x] ! p = x" "none[p := x] ! q = None"
    "none ! p = None" for x y
    using pq by (simp_all add: none_def)
  have "cache_store (cache_create n) n1 t1 c1 d1 l1 now = Inr a"
    using l pr at by (simp add: cache_store_def cache_create_def ps a_def E_def Let_def flip: k1_def none_def)
  moreover have "cache_store a n2 t2 c2 old l now = Inr b"
    using l at ne by (simp add: cache_store_def a_def b_def ps E_def Let_def flip: k2_def)
  moreover have "cache_lookup b n2 t2 c2 (now + uint l1 + 1) = Inr (Some q, b)"
    using l at ne lt by (simp add: cache_lookup_def b_def ps E_def Let_def flip: k2_def)
  moreover have "cache_lookup b n1 t1 c1 (now + uint l1 + 1) = Inr (None, c)"
    using l at by (simp add: cache_lookup_def b_def c_def ps E_def Let_def swap flip: k1_def)
  moreover have "cache_lookup c n2 t2 c2 (now + uint l1 + 1) = Inr (None, c)"
    using l at by (simp add: cache_lookup_def c_def ps E_def Let_def flip: k2_def)
  moreover have "cache_store c n2 t2 c2 new l2 (now + uint l1 + 1) = Inr d"
    using l at by (simp add: cache_store_def c_def d_def ps E_def Let_def swap flip: k2_def)
  moreover have "cache_lookup d n2 t2 c2 ?x = Inr (None, c)"
    using l at by (simp add: cache_lookup_def d_def c_def ps E_def Let_def swap flip: k2_def)
  moreover have "cache_store c n1 t1 c1 d1 l1 ?x = Inr f"
    using l at by (simp add: cache_store_def c_def f_def ps E_def Let_def swap flip: k1_def)
  moreover have "cache_lookup f n2 t2 c2 ?x = Inr (Some q, f)" "map_option cdata (slots f ! q) = Some old"
    using l at ne assms(6) by (simp_all add: cache_lookup_def f_def ps E_def Let_def flip: k2_def)
  ultimately show ?thesis by blast
qed

text \<open>Two names whose keys share a slot of the table of 1024 that the firewall creates.\<close>

theorem cache_forgets_witness:
  "\<exists>a b c d e f g i j.
    cache_store (cache_create 1024) ''a.com.'' 1 1 [7] 1 0 = Inr a \<and> cache_store a ''abn.com.'' 1 1 [8] 300 0 = Inr b \<and>
    cache_lookup b ''abn.com.'' 1 1 2 = Inr (Some i, b) \<and> cache_lookup b ''a.com.'' 1 1 2 = Inr (None, c) \<and>
    cache_lookup c ''abn.com.'' 1 1 2 = Inr (None, c) \<and> cache_store c ''abn.com.'' 1 1 [9] 1 2 = Inr d \<and>
    cache_lookup d ''abn.com.'' 1 1 4 = Inr (None, e) \<and> cache_store e ''a.com.'' 1 1 [7] 1 4 = Inr f \<and>
    cache_lookup f ''abn.com.'' 1 1 4 = Inr (Some j, f) \<and> map_option cdata (slots f ! j) = Some [8]"
proof -
  have k: "build_key ''a.com.'' 1 1 = ''a.com.:1:1''" "build_key ''abn.com.'' 1 1 = ''abn.com.:1:1''"
    by code_simp+
  have mod: "unat w mod 1024 = unat (w AND 1023)" for w :: "32 word"
  proof -
    have "unat (w AND mask 10) = unat w mod 2 ^ 10"
      using unsigned_take_bit_eq [of 10 w, where ?'a = nat] take_bit_eq_mod [of 10 "unat w"] take_bit_eq_mask [of 10 w]
      by metis
    moreover have "(mask 10 :: 32 word) = 1023" by (simp add: mask_eq_exp_minus_1)
    ultimately show ?thesis by simp
  qed
  have h: "hash_key ''a.com.:1:1'' AND 1023 = 111" "hash_key ''abn.com.:1:1'' AND 1023 = 111" by code_simp+
  have "home (cache_create 1024) ''a.com.:1:1'' = home (cache_create 1024) ''abn.com.:1:1''"
    by (simp add: home_def cache_create_def mod h)
  then show ?thesis
    using cache_forgets [of 1024 "''a.com.''" 1 1 "''abn.com.''" 1 1 1 1 0 300 "[7]" "[8]" "[9]"]
    by (simp add: k)
qed

end
