(* ===== verification/C_Chains.thy ===== *)
theory C_Chains
  imports C_Prelude
begin

text \<open>
  Hash tables of chains, as \<open>reputation.c\<close> and \<open>policy.c\<close> have them: an array of linked lists, a new entry
  at the head of its list. The locale \<open>hash_chains\<close> shows that such a table is a finite map.
  Text files read with \<open>fgets\<close> are here too, since both sources read the blacklist.
\<close>

section \<open>Tables of chains\<close>

definition chain_lookup :: "('e \<Rightarrow> 'k) \<Rightarrow> ('k \<Rightarrow> nat) \<Rightarrow> 'e list list \<Rightarrow> 'k \<Rightarrow> 'e option" where
  "chain_lookup key slot t k = List.find (\<lambda>e. key e = k) (t ! slot k)"

definition chain_insert :: "('e \<Rightarrow> 'k) \<Rightarrow> ('k \<Rightarrow> nat) \<Rightarrow> 'e list list \<Rightarrow> 'e \<Rightarrow> 'e list list" where
  "chain_insert key slot t e = t[slot (key e) := e # t ! slot (key e)]"

text \<open>Writing through the pointer to an entry: the first one with its key.\<close>

fun put_first :: "('e \<Rightarrow> 'k) \<Rightarrow> 'e \<Rightarrow> 'e list \<Rightarrow> 'e list" where
  "put_first key e [] = []"
| "put_first key e (c # cs) = (if key c = key e then e # cs else c # put_first key e cs)"

definition chain_update :: "('e \<Rightarrow> 'k) \<Rightarrow> ('k \<Rightarrow> nat) \<Rightarrow> 'e list list \<Rightarrow> 'e \<Rightarrow> 'e list list" where
  "chain_update key slot t e = t[slot (key e) := put_first key e (t ! slot (key e))]"

definition chain_filter :: "('e \<Rightarrow> 'e option) \<Rightarrow> 'e list list \<Rightarrow> 'e list list" where
  "chain_filter f t = map (List.map_filter f) t"

lemma find_put_first:
  "List.find (\<lambda>c. key c = k) (put_first key e cs) =
    (if key e = k then map_option (\<lambda>_. e) (List.find (\<lambda>c. key c = k) cs) else List.find (\<lambda>c. key c = k) cs)"
  by (induction cs) auto

lemma keys_put_first [simp]: "map key (put_first key e cs) = map key cs"
  by (induction cs) auto

lemma map_filter_Cons: "List.map_filter f (x # xs) = (case f x of None \<Rightarrow> List.map_filter f xs | Some y \<Rightarrow> y # List.map_filter f xs)"
  by (simp add: List.map_filter_def split: option.splits)

lemma map_filter_Nil: "List.map_filter f [] = []"
  by (simp add: List.map_filter_def)

lemma set_map_filter: "set (List.map_filter f xs) = {y. \<exists>x \<in> set xs. f x = Some y}"
  by (induction xs) (auto simp: map_filter_Cons map_filter_Nil split: option.splits)

lemma find_map_filter:
  assumes "\<And>e e'. f e = Some e' \<Longrightarrow> key e' = key e" and "distinct (map key cs)"
  shows "List.find (\<lambda>c. key c = k) (List.map_filter f cs) = Option.bind (List.find (\<lambda>c. key c = k) cs) f"
  using assms(2)
proof (induction cs)
  case (Cons c cs)
  have "List.find (\<lambda>c. key c = k) cs = None" if "key c = k"
  proof -
    have "\<not> (\<exists>x. x \<in> set cs \<and> key x = k)" using Cons.prems that by (auto simp: image_iff)
    then show ?thesis by (simp add: find_None_iff)
  qed
  then show ?case using Cons assms(1) by (auto simp: map_filter_Cons split: option.splits)
qed (simp add: map_filter_Nil)

lemma distinct_keys_filter:
  assumes "\<And>e e'. f e = Some e' \<Longrightarrow> key e' = key e" and "distinct (map key cs)"
  shows "distinct (map key (List.map_filter f cs))"
  using assms(2)
proof (induction cs)
  case (Cons c cs)
  have "key y \<notin> key ` set (List.map_filter f cs)" if "f c = Some y" for y
  proof
    assume "key y \<in> key ` set (List.map_filter f cs)"
    then obtain x x' where x: "x \<in> set cs" "f x = Some x'" "key y = key x'" by (auto simp: set_map_filter)
    then have "key x = key c" using assms(1) [OF x(2)] assms(1) [OF that] by simp
    then show False using Cons.prems x(1) by (auto simp: image_iff)
  qed
  then show ?case using Cons by (simp add: map_filter_Cons split: option.splits)
qed (simp add: map_filter_Nil)

locale hash_chains =
  fixes key :: "'e \<Rightarrow> 'k" and slot :: "'k \<Rightarrow> nat" and n :: nat
  assumes slot_less: "slot k < n"
begin

definition chains_ok :: "'e list list \<Rightarrow> bool" where
  "chains_ok t \<longleftrightarrow> length t = n \<and> (\<forall>i < n. (\<forall>e \<in> set (t ! i). slot (key e) = i) \<and> distinct (map key (t ! i)))"

lemma empty_ok: "chains_ok (replicate n [])"
  by (simp add: chains_ok_def)

lemma lookup_empty: "chain_lookup key slot (replicate n []) k = None"
  using slot_less by (simp add: chain_lookup_def)

text \<open>A write to the chain of \<open>k\<close>.\<close>

lemma nth_write: "chains_ok t \<Longrightarrow> t[slot k := c] ! i = (if i = slot k then c else t ! i)"
  using slot_less [of k] by (auto simp: chains_ok_def nth_list_update)

lemma write_ok:
  assumes "chains_ok t" and "\<forall>e \<in> set c. slot (key e) = slot k" and "distinct (map key c)"
  shows "chains_ok (t[slot k := c])"
  unfolding chains_ok_def using assms by (auto simp: nth_write) (auto simp: chains_ok_def)

lemma chain_ok: "chains_ok t \<Longrightarrow> (\<forall>e \<in> set (t ! slot k). slot (key e) = slot k) \<and> distinct (map key (t ! slot k))"
  using slot_less [of k] by (auto simp: chains_ok_def)

lemma lookup_insert:
  "chains_ok t \<Longrightarrow>
    chain_lookup key slot (chain_insert key slot t e) k = (if k = key e then Some e else chain_lookup key slot t k)"
  by (auto simp: chain_lookup_def chain_insert_def nth_write)

lemma lookup_key: "chain_lookup key slot t k = Some e \<Longrightarrow> key e = k"
  by (auto simp: chain_lookup_def find_Some_iff)

lemma insert_ok:
  assumes "chains_ok t" and "chain_lookup key slot t (key e) = None"
  shows "chains_ok (chain_insert key slot t e)"
proof -
  have "key e \<notin> key ` set (t ! slot (key e))"
    using assms(2) by (auto simp: chain_lookup_def find_None_iff)
  then show ?thesis unfolding chain_insert_def
    using chain_ok [OF assms(1), of "key e"] by (intro write_ok [OF assms(1)]) auto
qed

lemma lookup_update:
  "chains_ok t \<Longrightarrow> chain_lookup key slot t (key e) \<noteq> None \<Longrightarrow>
    chain_lookup key slot (chain_update key slot t e) k = (if k = key e then Some e else chain_lookup key slot t k)"
  by (auto simp: chain_lookup_def chain_update_def nth_write find_put_first)

lemma update_ok:
  assumes "chains_ok t"
  shows "chains_ok (chain_update key slot t e)"
proof -
  note ok = chain_ok [OF assms, of "key e"]
  have k: "key ` set (put_first key e cs) = key ` set cs" for cs
    using arg_cong [OF keys_put_first [of key e cs], where f = set] by (simp only: set_map)
  have "\<forall>e' \<in> set (put_first key e (t ! slot (key e))). slot (key e') = slot (key e)"
  proof
    fix e' assume "e' \<in> set (put_first key e (t ! slot (key e)))"
    then have "key e' \<in> key ` set (put_first key e (t ! slot (key e)))" by (rule imageI)
    then have "key e' \<in> key ` set (t ! slot (key e))" by (simp only: k)
    then show "slot (key e') = slot (key e)" using ok by auto
  qed
  moreover have "distinct (map key (put_first key e (t ! slot (key e))))" using ok by simp
  ultimately show ?thesis unfolding chain_update_def by (rule write_ok [OF assms])
qed

lemma lookup_filter:
  assumes "chains_ok t" and "\<And>e e'. f e = Some e' \<Longrightarrow> key e' = key e"
  shows "chain_lookup key slot (chain_filter f t) k = Option.bind (chain_lookup key slot t k) f"
  using assms slot_less [of k]
  by (simp add: chain_lookup_def chain_filter_def chains_ok_def find_map_filter [where key = key])

lemma filter_ok:
  assumes "chains_ok t" and "\<And>e e'. f e = Some e' \<Longrightarrow> key e' = key e"
  shows "chains_ok (chain_filter f t)"
  using assms by (auto simp: chains_ok_def chain_filter_def set_map_filter intro!: distinct_keys_filter)

lemma find_self: "distinct (map key cs) \<Longrightarrow> List.find (\<lambda>c. key c = key e) cs = Some e \<longleftrightarrow> e \<in> set cs"
  by (induction cs) force+

lemma member_iff:
  assumes "chains_ok t"
  shows "e \<in> set (concat t) \<longleftrightarrow> chain_lookup key slot t (key e) = Some e"
proof -
  have "slot (key e) = i" if "e \<in> set (t ! i)" "i < length t" for i
    using assms that by (auto simp: chains_ok_def)
  moreover have "slot (key e) < length t" using assms slot_less [of "key e"] by (simp add: chains_ok_def)
  ultimately have "e \<in> set (concat t) \<longleftrightarrow> e \<in> set (t ! slot (key e))"
    by (metis (no_types, lifting) UN_iff in_set_conv_nth set_concat)
  then show ?thesis using chain_ok [OF assms, of "key e"] by (simp add: chain_lookup_def find_self)
qed

lemma keys_distinct_from:
  assumes "\<forall>i < length cs. (\<forall>e \<in> set (cs ! i). slot (key e) = m + i) \<and> distinct (map key (cs ! i))"
  shows "distinct (map key (concat cs)) \<and> (\<forall>e \<in> set (concat cs). m \<le> slot (key e))"
  using assms
proof (induction cs arbitrary: m)
  case (Cons c cs)
  have "\<forall>i < length cs. (\<forall>e \<in> set (cs ! i). slot (key e) = Suc m + i) \<and> distinct (map key (cs ! i))"
    using Cons.prems by (metis Suc_less_eq add_Suc add_Suc_right length_Cons nth_Cons_Suc)
  then have IH: "distinct (map key (concat cs))" "\<forall>e \<in> set (concat cs). Suc m \<le> slot (key e)"
    using Cons.IH by blast+
  moreover have "(\<forall>e \<in> set c. slot (key e) = m) \<and> distinct (map key c)" using Cons.prems by force
  moreover have "key e \<noteq> key e'" if "e \<in> set c" "e' \<in> set (concat cs)" for e e'
    using calculation that by (metis Suc_n_not_le_n)
  ultimately show ?case by fastforce
qed simp

lemma keys_distinct: "chains_ok t \<Longrightarrow> distinct (map key (concat t))"
  using keys_distinct_from [of t 0] by (simp add: chains_ok_def)

end

section \<open>Text files\<close>

text \<open>The strings that \<open>fgets(line, n, f)\<close> delivers one after the other.\<close>

function fgets_lines :: "nat \<Rightarrow> string \<Rightarrow> string list" where
  "fgets_lines n s =
     (if s = [] \<or> n < 2 then []
      else let k = min (n - 1) (length (takeWhile (\<lambda>c. c \<noteq> CHR 0x0A) s) + 1) in
        cstr (take k s) # fgets_lines n (drop k s))"
  by pat_completeness auto
termination
  by (relation "measure (\<lambda>(n, s). length s)") auto

declare fgets_lines.simps [simp del]

text \<open>\<open>line[strcspn(line, "\\r\\n")] = '\\0'\<close>.\<close>

definition strip_eol :: "string \<Rightarrow> string" where
  "strip_eol s = takeWhile (\<lambda>c. c \<noteq> CHR 0x0D \<and> c \<noteq> CHR 0x0A) s"

text \<open>The entries of the blacklist file: \<open>if (line[0] == '\\0' || line[0] == '#') continue\<close>.\<close>

definition blacklist_lines :: "string \<Rightarrow> string list" where
  "blacklist_lines f = filter (\<lambda>l. l \<noteq> [] \<and> hd l \<noteq> CHR 0x23) (map strip_eol (fgets_lines 256 f))"

lemma fgets_lines_Nil [simp]: "fgets_lines n [] = []"
  by (simp add: fgets_lines.simps)

lemma fgets_lines_line:
  assumes "CHR 0x0A \<notin> set l" and "CHR 0x00 \<notin> set l" and "length l + 1 < n"
  shows "fgets_lines n (l @ CHR 0x0A # s) = (l @ [CHR 0x0A]) # fgets_lines n s"
proof -
  have "\<forall>c \<in> set l. c \<noteq> CHR 0x0A" using assms(1) by auto
  then have l: "takeWhile (\<lambda>c. c \<noteq> CHR 0x0A) (l @ CHR 0x0A # s) = l"
    by (simp add: takeWhile_append2)
  have "min (n - 1) (length l + 1) = length l + 1" using assms(3) by simp
  moreover have "\<not> n < 2" using assms(3) by simp
  moreover have "CHR 0x00 \<notin> set (l @ [CHR 0x0A])" using assms(2) by simp
  ultimately show ?thesis by (simp add: fgets_lines.simps [of n "l @ CHR 0x0A # s"] Let_def l del: set_append)
qed

text \<open>A line that is an entry: it fits the buffer and is no comment.\<close>

definition entry_line :: "string \<Rightarrow> bool" where
  "entry_line l \<longleftrightarrow> l \<noteq> [] \<and> hd l \<noteq> CHR 0x23 \<and> length l < 255 \<and> list_all (\<lambda>c. c \<notin> {CHR 0x00, CHR 0x0A, CHR 0x0D}) l"

lemma blacklist_lines_of: "list_all entry_line ls \<Longrightarrow> blacklist_lines (concat (map (\<lambda>l. l @ [CHR 0x0A]) ls)) = ls"
proof (induction ls)
  case (Cons l ls)
  let ?s = "concat (map (\<lambda>l. l @ [CHR 0x0A]) ls)"
  have "fgets_lines 256 (l @ CHR 0x0A # ?s) = (l @ [CHR 0x0A]) # fgets_lines 256 ?s"
    using Cons.prems by (intro fgets_lines_line) (auto simp: entry_line_def list_all_iff)
  moreover have "strip_eol (l @ [CHR 0x0A]) = l"
    using Cons.prems by (auto simp: strip_eol_def entry_line_def list_all_iff takeWhile_append2 takeWhile_eq_all_conv)
  ultimately show ?case using Cons by (simp add: blacklist_lines_def entry_line_def)
qed (simp add: blacklist_lines_def)

end
