(* ===== verification/C_Resolver.thy ===== *)
theory C_Resolver
  imports C_Wire C_Cache C_Chains
begin

text \<open>
  \<open>src/src/resolver.c\<close>: the root hints, the requests it sends, the forwarding modes and the iterative resolution.
  The network is a parameter: what comes back for the last request, given all the requests sent so far (nothing after
  a time-out), so replies may be lost, forged or malformed at will. The random ids, the clock and the environment are
  parameters too, and so is whether an attempt to connect to the forwarder succeeds, and whether a write to a connection finds it
  closed by the peer. With \<open>DNS_FORWARDER_TCP\<close> the requests go over a pool of four connections; a lost one is dialled again until
  it is there, in a loop that may not end. The calls of one worker are modelled, so the locks of the pool are free. An answer is returned together with where its records' data lives: in a slot of the cache, or in the
  buffer \<open>raw\<close> of a function that has returned. The lemmas show that no reply makes the resolver misbehave or run
  for ever, and what the cache holds afterwards.
\<close>

section \<open>Root hints\<close>

record ns_record =
  ns_name :: string
  ns_addr :: "32 word"

text \<open>\<open>inet_pton(AF_INET, ...)\<close>: four decimal numbers without leading zeros.\<close>

definition octet :: "string \<Rightarrow> nat option" where
  "octet s =
     (if s \<noteq> [] \<and> list_all is_digit s \<and> (hd s = CHR ''0'' \<longrightarrow> length s = 1) \<and> dec_value s < 256
      then Some (dec_value s) else None)"

definition inet_pton :: "string \<Rightarrow> 32 word option" where
  "inet_pton s =
     (case map octet (py_split CHR ''.'' s) of
        [Some a, Some b, Some c, Some d] \<Rightarrow>
          Some (be32 (word_of_nat a) (word_of_nat b) (word_of_nat c) (word_of_nat d))
      | _ \<Rightarrow> None)"

definition c_isspace :: "char \<Rightarrow> bool" where
  "c_isspace c \<longleftrightarrow> 9 \<le> ord c \<and> ord c \<le> 13 \<or> ord c = 32"

text \<open>One line of the file: the text behind the last space is the address, the first word is the name.\<close>

definition hint_line :: "string \<Rightarrow> ns_record option" where
  "hint_line line =
     (if line = [] \<or> hd line = CHR '';'' \<or> CHR '' '' \<notin> set line then None
      else case inet_pton (rev (takeWhile (\<lambda>c. c \<noteq> CHR '' '') (rev line))) of None \<Rightarrow> None
        | Some addr \<Rightarrow>
            let name = take 127 (takeWhile (\<lambda>c. \<not> c_isspace c) (dropWhile c_isspace line)) in
            if name = [] then None else Some \<lparr>ns_name = name, ns_addr = addr\<rparr>)"

definition resolver_load_root_hints :: "string \<Rightarrow> ns_record list c_result" where
  "resolver_load_root_hints f =
     (let hints = List.map_filter (\<lambda>l. hint_line (takeWhile (\<lambda>c. c \<noteq> CHR 0x0A) l)) (fgets_lines 256 f)
      in if hints = [] then Inl Failed else Inr hints)"

section \<open>Requests\<close>

definition EDNS_SIZE :: nat where "EDNS_SIZE = 1232"
definition MAX_RECURSION_DEPTH :: nat where "MAX_RECURSION_DEPTH = 16"

datatype hop = Udp "32 word" nat | Tcp

record env =
  net :: "(hop \<times> byte list) list \<Rightarrow> byte list option"
  ids :: "nat \<Rightarrow> 16 word"
  clock :: "nat \<Rightarrow> int"
  forwarder :: "string option"
  over_tcp :: bool
  dials :: "nat \<Rightarrow> bool"
  severed :: "nat \<Rightarrow> bool"

text \<open>The cache, the requests sent so far, the connections of the pool once it is initialised (whether the slot has a socket), and the
  number of attempts to connect. Time passes while the resolver waits: the clock is read as a function of the number of requests
  and attempts.\<close>

record world =
  wcache :: cache
  sent :: "(hop \<times> byte list) list"
  pool :: "bool list option"
  dialled :: nat

definition time_of :: "env \<Rightarrow> world \<Rightarrow> int" where
  "time_of env w = clock env (length (sent w) + dialled w)"

text \<open>A call whose return value is not looked at.\<close>

definition and_also :: "built \<Rightarrow> (dns_builder \<Rightarrow> built) \<Rightarrow> built" where
  "and_also r g = cbind r (\<lambda>(rc, b). g b)"

definition request_bytes :: "16 word \<Rightarrow> string \<Rightarrow> 16 word \<Rightarrow> 16 word \<Rightarrow> byte list c_result" where
  "request_bytes i name t c =
     cbind (and_also (and_also (dns_build_response_header (dns_builder_init EDNS_SIZE) i 0 1 0 0 0)
       (\<lambda>b. dns_build_question b name t c))
       (\<lambda>b. dns_build_rr b '''' DNS_TYPE_OPT (word_of_nat EDNS_SIZE) 0 []))
     (\<lambda>(rc, b). Inr (written b))"

definition exchange ::
  "env \<Rightarrow> hop \<Rightarrow> world \<Rightarrow> string \<Rightarrow> 16 word \<Rightarrow> 16 word \<Rightarrow> (byte list option \<times> world) c_result" where
  "exchange env hop w name t c =
     cbind (request_bytes (ids env (length (sent w))) name t c) (\<lambda>req.
       let w' = w\<lparr>sent := sent w @ [(hop, req)]\<rparr> in Inr (net env (sent w'), w'))"

definition send_query ::
  "env \<Rightarrow> 32 word \<Rightarrow> nat \<Rightarrow> world \<Rightarrow> string \<Rightarrow> 16 word \<Rightarrow> 16 word \<Rightarrow> (byte list option \<times> world) c_result" where
  "send_query env addr port w name t c =
     cbind (exchange env (Udp addr port) w name t c) (\<lambda>(reply, w'). Inr (map_option (take EDNS_SIZE) reply, w'))"

section \<open>The pool of connections\<close>

definition TCP_POOL_SIZE :: nat where "TCP_POOL_SIZE = 4"

text \<open>An address that does not parse leaves the pool as it is.\<close>

definition init_tcp_pool :: "env \<Rightarrow> string \<Rightarrow> world \<Rightarrow> world" where
  "init_tcp_pool env ip w =
     (if pool w \<noteq> None \<or> inet_pton ip = None then w
      else w\<lparr>pool := Some (map (\<lambda>i. dials env (dialled w + i)) [0..<TCP_POOL_SIZE]), dialled := dialled w + TCP_POOL_SIZE\<rparr>)"

text \<open>The loop of \<open>borrow_tcp_conn\<close> from slot \<open>i\<close> on, with the number of attempts so far: it goes round the slots until one has a
  socket or gets a new one.\<close>

partial_function (option) borrow_loop :: "(nat \<Rightarrow> bool) \<Rightarrow> bool list \<Rightarrow> nat \<Rightarrow> nat \<Rightarrow> (nat \<times> bool list \<times> nat) option" where
  "borrow_loop dial socks i n =
     (if socks ! i then Some (i, socks, n)
      else if dial n then Some (i, socks[i := True], n + 1)
      else borrow_loop dial socks ((i + 1) mod TCP_POOL_SIZE) (n + 1))"

definition borrow_tcp_conn :: "env \<Rightarrow> world \<Rightarrow> (nat \<times> world) c_result" where
  "borrow_tcp_conn env w =
     (case pool w of None \<Rightarrow> Inl (Fault Uninitialised)
      | Some socks \<Rightarrow>
          (case borrow_loop (dials env) socks 0 (dialled w) of None \<Rightarrow> Inl (Fault Endless)
           | Some (i, socks', n) \<Rightarrow> Inr (i, w\<lparr>pool := Some socks', dialled := n\<rparr>)))"

text \<open>The socket of a slot is closed when the exchange over it fails.\<close>

definition close_conn :: "nat \<Rightarrow> world \<Rightarrow> world" where
  "close_conn i w = w\<lparr>pool := map_option (\<lambda>socks. socks[i := False]) (pool w)\<rparr>"

text \<open>
  One exchange over a pooled connection. A write to a connection that the peer has closed raises SIGPIPE, which the
  server does not ignore. The body of a reply is read only when it is shorter than the buffer, and a body that does not
  come in time (here the empty reply) leaves the connection open.
\<close>

definition send_query_tcp ::
  "env \<Rightarrow> string \<Rightarrow> world \<Rightarrow> string \<Rightarrow> 16 word \<Rightarrow> 16 word \<Rightarrow> (byte list option \<times> world) c_result" where
  "send_query_tcp env ip w name t c =
     cbind (request_bytes (ids env (length (sent w))) name t c) (\<lambda>req.
     cbind (borrow_tcp_conn env (init_tcp_pool env ip w)) (\<lambda>(i, w1).
       if severed env (length (sent w1)) then Inl (Fault Killed)
       else let w2 = w1\<lparr>sent := sent w1 @ [(Tcp, req)]\<rparr> in
         Inr (case net env (sent w2) of None \<Rightarrow> (None, close_conn i w2)
              | Some r \<Rightarrow> (if r \<noteq> [] \<and> length r < EDNS_SIZE then Some r else None, w2))))"

section \<open>Replies\<close>

text \<open>A call whose failure is tested.\<close>

definition attempt :: "'a c_result \<Rightarrow> 'a option c_result" where
  "attempt r = (case r of Inl Failed \<Rightarrow> Inr None | Inl (Fault f) \<Rightarrow> Inl (Fault f) | Inr x \<Rightarrow> Inr (Some x))"

definition parse_reply :: "byte list option \<Rightarrow> (byte list \<times> dns_message) option c_result" where
  "parse_reply reply =
     (case reply of None \<Rightarrow> Inr None
      | Some raw \<Rightarrow>
          if length raw < 12 then Inr None
          else cbind (attempt (dns_parse_message raw)) (\<lambda>m. Inr (map_option (Pair raw) m)))"

section \<open>Answers\<close>

datatype origin = Slot nat | Frame

text \<open>The return values 0 with an answer, -3, and the others.\<close>

datatype resolution = Found origin dns_message | Nxdomain | Unresolved int

definition store_reply ::
  "env \<Rightarrow> world \<Rightarrow> string \<Rightarrow> 16 word \<Rightarrow> 16 word \<Rightarrow> byte list \<Rightarrow> 32 word \<Rightarrow> world c_result" where
  "store_reply env w name t c raw lifetime =
     cbind (cache_store (wcache w) name t c raw lifetime (time_of env w)) (\<lambda>ca. Inr (w\<lparr>wcache := ca\<rparr>))"

definition reply_ttl :: "dns_message \<Rightarrow> 32 word" where
  "reply_ttl resp = (case answers resp of [] \<Rightarrow> 300 | rr # rrs \<Rightarrow> ttl rr)"

definition forwarded ::
  "env \<Rightarrow> string \<Rightarrow> 16 word \<Rightarrow> 16 word \<Rightarrow> byte list option \<times> world \<Rightarrow> (resolution \<times> world) c_result" where
  "forwarded env name t c = (\<lambda>(reply, w).
     cbind (parse_reply reply) (\<lambda>r.
       case r of None \<Rightarrow> Inr (Unresolved (-1), w)
       | Some (raw, resp) \<Rightarrow>
           cbind (store_reply env w name t c raw (reply_ttl resp)) (\<lambda>w'. Inr (Found Frame resp, w'))))"

definition static_forwarders :: "(string \<times> string \<times> nat) list" where
  "static_forwarders =
     [(''fastflux.test'', ''127.0.0.1'', 5300), (''tunnel.test'', ''127.0.0.1'', 5301), (''signed.test'', ''127.0.0.1'', 5302)]"

text \<open>The name without its last dot ends in the zone, letter for letter.\<close>

definition in_zone :: "string \<Rightarrow> string \<Rightarrow> bool" where
  "in_zone name zone =
     (let qlen = (if name \<noteq> [] \<and> last name = CHR ''.'' then length name - 1 else length name);
          zlen = length zone
      in zlen \<le> qlen \<and> strcaseeq (take zlen (drop (qlen - zlen) name)) zone)"

definition static_forwarder :: "string \<Rightarrow> (32 word \<times> nat) option" where
  "static_forwarder name =
     (case List.find (\<lambda>(zone, ip, port). in_zone name zone \<and> inet_pton ip \<noteq> None) static_forwarders of
        None \<Rightarrow> None
      | Some (zone, ip, port) \<Rightarrow> map_option (\<lambda>addr. (addr, port)) (inet_pton ip))"

text \<open>A name in the data of a record, read in the packet the record points into.\<close>

definition decompress_name_in_rdata :: "dns_rr \<Rightarrow> byte list \<Rightarrow> string option c_result" where
  "decompress_name_in_rdata rr raw =
     (if length raw \<le> rdata_at rr then Inr None
      else cbind (attempt (c_read_name raw (rdata_at rr) 256)) (\<lambda>r. Inr (map_option fst r)))"

text \<open>The name servers of a referral whose addresses come along.\<close>

definition glue_of :: "dns_message \<Rightarrow> string \<Rightarrow> 32 word option" where
  "glue_of response name =
     map_option (\<lambda>g. be32 (rdata g ! 0) (rdata g ! 1) (rdata g ! 2) (rdata g ! 3))
       (List.find (\<lambda>g. rtype g = DNS_TYPE_A \<and> rname g = name \<and> rdlength g = 4) (additionals response))"

fun ns_records :: "dns_message \<Rightarrow> byte list \<Rightarrow> dns_rr list \<Rightarrow> ns_record list c_result" where
  "ns_records response raw [] = Inr []"
| "ns_records response raw (rr # rrs) =
     (if rtype rr \<noteq> DNS_TYPE_NS then ns_records response raw rrs
      else cbind (decompress_name_in_rdata rr raw) (\<lambda>name.
        case Option.bind name (\<lambda>n. map_option (\<lambda>a. \<lparr>ns_name = n, ns_addr = a\<rparr>) (glue_of response n)) of
          None \<Rightarrow> ns_records response raw rrs
        | Some ns \<Rightarrow> cbind (ns_records response raw rrs) (\<lambda>l. Inr (ns # l))))"

definition build_ns_list :: "dns_message \<Rightarrow> byte list \<Rightarrow> ns_record list c_result" where
  "build_ns_list response raw = ns_records response raw (authorities response)"

section \<open>Resolution\<close>

text \<open>What the cache has for the question; an entry that does not parse counts as none.\<close>

definition cached_answer :: "world \<Rightarrow> nat option \<Rightarrow> (nat \<times> dns_message) option c_result" where
  "cached_answer w hit =
     (case hit of None \<Rightarrow> Inr None
      | Some i \<Rightarrow>
          (case slots (wcache w) ! i of None \<Rightarrow> Inl (Fault NullDeref)
           | Some e \<Rightarrow> cbind (attempt (dns_parse_message (cdata e))) (\<lambda>m. Inr (map_option (Pair i) m))))"

text \<open>
  \<open>resolve_internal\<close> with the number of levels left, 17 at first; \<open>ns_loop\<close> is its loop over the name servers, with the whole
  list, which an alias starts over with, and the rest of it.
\<close>

function resolve_internal ::
    "nat \<Rightarrow> env \<Rightarrow> world \<Rightarrow> string \<Rightarrow> 16 word \<Rightarrow> 16 word \<Rightarrow> ns_record list \<Rightarrow> (resolution \<times> world) c_result"
  and ns_loop ::
    "nat \<Rightarrow> env \<Rightarrow> world \<Rightarrow> string \<Rightarrow> 16 word \<Rightarrow> 16 word \<Rightarrow> ns_record list \<Rightarrow> ns_record list \<Rightarrow> (resolution \<times> world) c_result" where
  "resolve_internal 0 env w name t c nss = Inr (Unresolved (-2), w)"
| "resolve_internal (Suc n) env w name t c nss =
     cbind (cache_lookup (wcache w) name t c (time_of env w)) (\<lambda>(hit, ca).
     cbind (cached_answer (w\<lparr>wcache := ca\<rparr>) hit) (\<lambda>cached.
     case cached of Some (i, m) \<Rightarrow> Inr (Found (Slot i) m, w\<lparr>wcache := ca\<rparr>)
     | None \<Rightarrow>
       (case static_forwarder name of
          Some (addr, port) \<Rightarrow> cbind (send_query env addr port (w\<lparr>wcache := ca\<rparr>) name t c) (forwarded env name t c)
        | None \<Rightarrow>
          (case forwarder env of
             Some ip \<Rightarrow>
               if over_tcp env then cbind (send_query_tcp env ip (w\<lparr>wcache := ca\<rparr>) name t c) (forwarded env name t c)
               else (case inet_pton ip of
                 None \<Rightarrow> Inr (Unresolved (-1), w\<lparr>wcache := ca\<rparr>)
               | Some addr \<Rightarrow> cbind (send_query env addr 53 (w\<lparr>wcache := ca\<rparr>) name t c) (forwarded env name t c))
           | None \<Rightarrow> ns_loop n env (w\<lparr>wcache := ca\<rparr>) name t c nss nss))))"
| "ns_loop n env w name t c nss [] = Inr (Unresolved (-1), w)"
| "ns_loop n env w name t c nss (ns # rest) =
     cbind (send_query env (ns_addr ns) 53 w name t c) (\<lambda>(reply, w1).
     cbind (parse_reply reply) (\<lambda>r.
     case r of None \<Rightarrow> ns_loop n env w1 name t c nss rest
     | Some (raw, resp) \<Rightarrow>
       (case answers resp of
          rr # rrs \<Rightarrow>
            cbind (if rtype rr = DNS_TYPE_CNAME then decompress_name_in_rdata rr raw else Inr None) (\<lambda>alias.
            case alias of
              Some cname \<Rightarrow> resolve_internal n env w1 cname t c nss
            | None \<Rightarrow> cbind (store_reply env w1 name t c raw (ttl rr)) (\<lambda>w2. Inr (Found Frame resp, w2)))
        | [] \<Rightarrow>
            if authorities resp \<noteq> [] then
              cbind (build_ns_list resp raw) (\<lambda>new_ns.
                if new_ns = [] then ns_loop n env w1 name t c nss rest
                else cbind (resolve_internal n env w1 name t c new_ns) (\<lambda>(res, w2).
                  case res of Unresolved rc \<Rightarrow> ns_loop n env w2 name t c nss rest | _ \<Rightarrow> Inr (res, w2)))
            else if hflags (header resp) AND 0x0F = 3 then
              cbind (store_reply env w1 name t c raw 600) (\<lambda>w2. Inr (Nxdomain, w2))
            else ns_loop n env w1 name t c nss rest)))"
  by pat_completeness auto
termination
  by (relation "measures [\<lambda>x. case x of Inl (n, _) \<Rightarrow> n | Inr (n, _) \<Rightarrow> n,
      \<lambda>x. case x of Inl _ \<Rightarrow> 0 | Inr (n, env, w, name, t, c, nss, rest) \<Rightarrow> Suc (length rest)]") auto

declare resolve_internal.simps [simp del] ns_loop.simps [simp del]

definition resolver_resolve ::
  "env \<Rightarrow> ns_record list \<Rightarrow> world \<Rightarrow> dns_message \<Rightarrow> (resolution \<times> world) c_result" where
  "resolver_resolve env roots w req =
     (case questions req of [] \<Rightarrow> Inr (Unresolved (-1), w)
      | q # qs \<Rightarrow>
          resolve_internal (MAX_RECURSION_DEPTH + 1) env w (c_copy 256 (qname q)) (qtype q) (qclass q) roots)"

section \<open>The resolver is defined\<close>

lemma extends_and_also:
  assumes "extends b r" and "\<And>b'. builder_ok b' \<Longrightarrow> extends b' (g b')"
  shows "extends b (and_also r g)"
proof -
  obtain rc b' where r: "r = Inr (rc, b')" "builder_ok b'" using assms(1) by (auto simp: extends_def)
  then show ?thesis
    using assms(1) assms(2) [OF r(2)] extends_trans [of b "rc" b' "g b'"] by (simp add: and_also_def)
qed

lemma request_defined: "\<exists>req. request_bytes i name t c = Inr req"
proof -
  have "extends (dns_builder_init EDNS_SIZE) (and_also (and_also (dns_build_response_header (dns_builder_init EDNS_SIZE) i 0 1 0 0 0)
       (\<lambda>b. dns_build_question b name t c))
       (\<lambda>b. dns_build_rr b '''' DNS_TYPE_OPT (word_of_nat EDNS_SIZE) 0 []))"
    by (intro extends_and_also extends_header extends_question extends_rr) simp_all
  then show ?thesis by (auto simp: request_bytes_def extends_def)
qed

lemma attempt_ok: "defined r \<Longrightarrow> \<exists>x. attempt r = Inr x \<and> (\<forall>y. x = Some y \<longrightarrow> r = Inr y)"
  using defined_cases [of r] by (auto simp: attempt_def)

text \<open>The pool, once initialised, has four slots.\<close>

definition world_ok :: "world \<Rightarrow> bool" where
  "world_ok w \<longleftrightarrow> cache_ok (wcache w) \<and> (\<forall>socks. pool w = Some socks \<longrightarrow> length socks = TCP_POOL_SIZE)"

definition grows :: "world \<Rightarrow> world \<Rightarrow> bool" where
  "grows w w' \<longleftrightarrow> world_ok w' \<and> capacity (wcache w') = capacity (wcache w) \<and> (\<exists>hs. sent w' = sent w @ hs)"

lemma grows_trans: "grows w w' \<Longrightarrow> grows w' w'' \<Longrightarrow> grows w w''"
  by (auto simp: grows_def)

lemma grows_refl: "world_ok w \<Longrightarrow> grows w w"
  by (simp add: grows_def)

lemma world_ok_cache [simp]: "world_ok w \<Longrightarrow> cache_ok (wcache w)"
  by (simp add: world_ok_def)

lemma world_ok_store: "world_ok w \<Longrightarrow> cache_ok ca \<Longrightarrow> world_ok (w\<lparr>wcache := ca\<rparr>)"
  by (simp add: world_ok_def)

lemma send_query_ok:
  "\<exists>req reply. send_query env addr port w name t c = Inr (reply, w\<lparr>sent := sent w @ [(Udp addr port, req)]\<rparr>) \<and>
      request_bytes (ids env (length (sent w))) name t c = Inr req \<and>
      reply = map_option (take EDNS_SIZE) (net env (sent w @ [(Udp addr port, req)]))"
  using request_defined [of "ids env (length (sent w))" name t c]
  by (auto simp: send_query_def exchange_def)

lemma grows_sent: "world_ok w \<Longrightarrow> grows w (w\<lparr>sent := sent w @ hs\<rparr>)"
  by (simp add: grows_def world_ok_def)

section \<open>When a connection is found\<close>

text \<open>
  A forwarder that can be used over TCP: its address parses, however many attempts to connect have failed a later one
  succeeds, and it does not close a connection while a request is written to it. Without \<open>DNS_FORWARDER_TCP\<close> nothing is asked.
\<close>

definition forwarder_usable :: "env \<Rightarrow> bool" where
  "forwarder_usable env \<longleftrightarrow>
     (over_tcp env \<longrightarrow> (\<forall>ip. forwarder env = Some ip \<longrightarrow>
        inet_pton ip \<noteq> None \<and> (\<forall>n. \<exists>k \<ge> n. dials env k) \<and> (\<forall>n. \<not> severed env n)))"

lemma borrow_loop_ends:
  assumes "dial (n + k)" and "i < TCP_POOL_SIZE" and "length socks = TCP_POOL_SIZE"
  shows "\<exists>j socks' m. borrow_loop dial socks i n = Some (j, socks', m) \<and> j < TCP_POOL_SIZE \<and> length socks' = TCP_POOL_SIZE"
  using assms
proof (induction k arbitrary: i n)
  case 0
  then show ?case by (subst borrow_loop.simps) auto
next
  case (Suc k)
  have "\<exists>j socks' m. borrow_loop dial socks ((i + 1) mod TCP_POOL_SIZE) (n + 1) = Some (j, socks', m) \<and>
      j < TCP_POOL_SIZE \<and> length socks' = TCP_POOL_SIZE"
    using Suc.prems by (intro Suc.IH) (simp_all add: TCP_POOL_SIZE_def)
  then show ?case using Suc.prems by (subst borrow_loop.simps) auto
qed

lemma borrow_loop_finds:
  assumes "borrow_loop dial socks i n = Some r"
  shows "i < TCP_POOL_SIZE \<Longrightarrow> length socks = TCP_POOL_SIZE \<Longrightarrow> True \<in> set socks \<or> (\<exists>k \<ge> n. dial k)"
  using assms
proof (induction dial socks i n r rule: borrow_loop.raw_induct [rotated, consumes 1, case_names step])
  case (step loop dial socks i n r)
  show ?case
  proof (cases "socks ! i \<or> dial n")
    case True
    then show ?thesis using step.prems by (metis nth_mem order_refl)
  next
    case False
    then have "loop dial socks ((i + 1) mod TCP_POOL_SIZE) (n + 1) = Some r" using step.hyps by simp
    then have "True \<in> set socks \<or> (\<exists>k \<ge> n + 1. dial k)" using step by (simp add: TCP_POOL_SIZE_def)
    then show ?thesis using add_leD1 by blast
  qed
qed

lemma borrow_loop_endless:
  assumes "\<forall>k \<ge> n. \<not> dial k" and "True \<notin> set socks" and "length socks = TCP_POOL_SIZE" and "i < TCP_POOL_SIZE"
  shows "borrow_loop dial socks i n = None"
  using borrow_loop_finds [of dial socks i n] assms by (cases "borrow_loop dial socks i n") auto

lemma init_tcp_pool_ok:
  "world_ok w \<Longrightarrow> world_ok (init_tcp_pool env ip w) \<and> wcache (init_tcp_pool env ip w) = wcache w \<and>
    sent (init_tcp_pool env ip w) = sent w \<and> (inet_pton ip \<noteq> None \<longrightarrow> pool (init_tcp_pool env ip w) \<noteq> None)"
  by (auto simp: init_tcp_pool_def world_ok_def)

lemma borrow_ok:
  assumes "world_ok w" and "pool w \<noteq> None" and "\<forall>n. \<exists>k \<ge> n. dials env k"
  shows "\<exists>i w1. borrow_tcp_conn env w = Inr (i, w1) \<and> world_ok w1 \<and> wcache w1 = wcache w \<and> sent w1 = sent w"
proof -
  obtain socks where socks: "pool w = Some socks" "length socks = TCP_POOL_SIZE" using assms(1,2) by (auto simp: world_ok_def)
  obtain k where "dials env (dialled w + k)" using assms(3) by (metis le_iff_add)
  from borrow_loop_ends [where dial = "dials env", OF this _ socks(2), of 0] obtain j socks' m where
    "borrow_loop (dials env) socks 0 (dialled w) = Some (j, socks', m)" "length socks' = TCP_POOL_SIZE"
    by (auto simp: TCP_POOL_SIZE_def)
  then show ?thesis using socks assms(1) by (simp add: borrow_tcp_conn_def world_ok_def)
qed

lemma send_query_tcp_ok:
  assumes "world_ok w" and "forwarder_usable env" and "over_tcp env" and "forwarder env = Some ip"
  shows "\<exists>reply w' req. send_query_tcp env ip w name t c = Inr (reply, w') \<and> world_ok w' \<and> wcache w' = wcache w \<and>
    sent w' = sent w @ [(Tcp, req)]"
proof -
  obtain req where req: "request_bytes (ids env (length (sent w))) name t c = Inr req" using request_defined by blast
  note i = init_tcp_pool_ok [OF assms(1), of env ip]
  have u: "inet_pton ip \<noteq> None" "\<forall>n. \<exists>k \<ge> n. dials env k" "\<not> severed env n" for n
    using assms(2-4) by (auto simp: forwarder_usable_def)
  obtain j w1 where b: "borrow_tcp_conn env (init_tcp_pool env ip w) = Inr (j, w1)" "world_ok w1" "wcache w1 = wcache w" "sent w1 = sent w"
    using borrow_ok [of "init_tcp_pool env ip w" env] i u(1,2) by auto
  show ?thesis
  proof (cases "net env (sent w @ [(Tcp, req)])")
    case None
    then show ?thesis using b u(3) by (auto simp: send_query_tcp_def req Let_def close_conn_def world_ok_def)
  next
    case (Some r)
    then show ?thesis using b u(3) by (auto simp: send_query_tcp_def req Let_def world_ok_def)
  qed
qed

section \<open>The resolver returns\<close>

lemma parse_reply_ok:
  "\<exists>r. parse_reply reply = Inr r \<and>
    (\<forall>raw m. r = Some (raw, m) \<longrightarrow> reply = Some raw \<and> 12 \<le> length raw \<and> dns_parse_message raw = Inr m)"
proof (cases reply)
  case (Some raw)
  obtain x where "attempt (dns_parse_message raw) = Inr x" "\<forall>m. x = Some m \<longrightarrow> dns_parse_message raw = Inr m"
    using attempt_ok [OF parse_message_defined [of raw]] by blast
  then show ?thesis by (auto simp: parse_reply_def Some)
qed (simp add: parse_reply_def)

lemma store_reply_ok: "world_ok w \<Longrightarrow> \<exists>w'. store_reply env w name t c raw l = Inr w' \<and> grows w w' \<and> sent w' = sent w"
  using cache_store_ok [of "wcache w" name t c raw l "time_of env w"] by (auto simp: store_reply_def grows_def world_ok_store)

lemma cached_answer_ok:
  assumes w: "world_ok w"
  shows "\<exists>hit ca r. cache_lookup (wcache w) name t c now = Inr (hit, ca) \<and> grows w (w\<lparr>wcache := ca\<rparr>) \<and>
    cached_answer (w\<lparr>wcache := ca\<rparr>) hit = Inr r \<and>
    (\<forall>i m. r = Some (i, m) \<longrightarrow> hit = Some i \<and> i < capacity ca \<and>
      (\<exists>e. slots ca ! i = Some e \<and> dns_parse_message (cdata e) = Inr m))"
proof -
  note assms = world_ok_cache [OF w]
  obtain hit ca where l: "cache_lookup (wcache w) name t c now = Inr (hit, ca)" "cache_ok ca"
      "capacity ca = capacity (wcache w)" "hit \<noteq> None \<longrightarrow> ca = wcache w"
    using cache_lookup_ok [OF assms, of name t c now] by blast
  then have g: "grows w (w\<lparr>wcache := ca\<rparr>)" using w by (simp add: grows_def world_ok_store)
  show ?thesis
  proof (cases hit)
    case None
    then show ?thesis using l g by (auto simp: cached_answer_def)
  next
    case (Some i)
    then have "lookup_loop now (build_key name t c) (slots (wcache w)) (probes (wcache w) (build_key name t c)) = Hit i"
      using l(1) assms by (auto simp: cache_lookup_def Let_def cache_ok_def split: found.splits)
    from lookup_loop_hit [OF this] obtain e where e: "i < capacity (wcache w)" "slots (wcache w) ! i = Some e"
      by (auto simp: probes_set)
    obtain x where "attempt (dns_parse_message (cdata e)) = Inr x" "\<forall>m. x = Some m \<longrightarrow> dns_parse_message (cdata e) = Inr m"
      using attempt_ok [OF parse_message_defined [of "cdata e"]] by blast
    then show ?thesis using l g e Some by (auto simp: cached_answer_def)
  qed
qed

text \<open>What an answer rests on: an entry of the cache, or a packet that has come from the network.\<close>

fun grounded :: "world \<Rightarrow> resolution \<Rightarrow> bool" where
  "grounded w (Found (Slot i) m) =
     (i < capacity (wcache w) \<and> (\<exists>e. slots (wcache w) ! i = Some e \<and> dns_parse_message (cdata e) = Inr m))"
| "grounded w (Found Frame m) = (\<exists>raw. dns_parse_message raw = Inr m)"
| "grounded w res = True"

definition resolves :: "world \<Rightarrow> (resolution \<times> world) c_result \<Rightarrow> bool" where
  "resolves w r \<longleftrightarrow> (\<exists>res w'. r = Inr (res, w') \<and> grows w w' \<and> grounded w' res)"

lemma resolves_grows: "grows w w' \<Longrightarrow> resolves w' r \<Longrightarrow> resolves w r"
  unfolding resolves_def using grows_trans by blast

lemma resolves_none: "world_ok w \<Longrightarrow> resolves w (Inr (Unresolved rc, w))"
  by (simp add: resolves_def grows_refl)

lemma resolves_store:
  assumes "world_ok w" and "\<And>w'. grounded w' res"
  shows "resolves w (cbind (store_reply env w name t c raw l) (\<lambda>w'. Inr (res, w')))"
  using store_reply_ok [OF assms(1), of env name t c raw l] assms(2) by (auto simp: resolves_def)

lemma resolves_forwarded:
  assumes "world_ok w"
  shows "resolves w (forwarded env name t c (reply, w))"
proof -
  obtain r where r: "parse_reply reply = Inr r" and
    p: "\<And>raw m. r = Some (raw, m) \<Longrightarrow> dns_parse_message raw = Inr m"
    using parse_reply_ok [of reply] by (elim exE conjE) simp
  show ?thesis
  proof (cases r)
    case None
    then show ?thesis using r assms by (simp add: forwarded_def resolves_none)
  next
    case (Some x)
    obtain raw m where x: "x = (raw, m)" by (cases x)
    then have "dns_parse_message raw = Inr m" using p Some by simp
    then have "grounded w' (Found Frame m)" for w' by auto
    from resolves_store [OF assms this] show ?thesis by (simp add: forwarded_def r Some x)
  qed
qed

lemma resolves_sent:
  assumes "world_ok w"
  shows "resolves w (cbind (send_query env addr port w name t c) (forwarded env name t c))"
    and "forwarder_usable env \<Longrightarrow> over_tcp env \<Longrightarrow> forwarder env = Some ip \<Longrightarrow>
      resolves w (cbind (send_query_tcp env ip w name t c) (forwarded env name t c))"
proof -
  obtain req reply where s: "send_query env addr port w name t c = Inr (reply, w\<lparr>sent := sent w @ [(Udp addr port, req)]\<rparr>)"
    using send_query_ok by blast
  show "resolves w (cbind (send_query env addr port w name t c) (forwarded env name t c))"
    unfolding s cbind.simps
    using grows_sent [OF assms] by (intro resolves_grows [OF _ resolves_forwarded]) (auto simp: grows_def)
  assume "forwarder_usable env" "over_tcp env" "forwarder env = Some ip"
  from send_query_tcp_ok [OF assms this, of name t c] obtain reply w' req where
    s: "send_query_tcp env ip w name t c = Inr (reply, w')" and w': "world_ok w'" "wcache w' = wcache w" "sent w' = sent w @ [(Tcp, req)]"
    by blast
  then have "grows w w'" by (simp add: grows_def)
  then show "resolves w (cbind (send_query_tcp env ip w name t c) (forwarded env name t c))"
    unfolding s cbind.simps using w'(1) by (intro resolves_grows [OF _ resolves_forwarded]) simp_all
qed

lemma decompress_ok: "\<exists>x. decompress_name_in_rdata rr raw = Inr x"
  using attempt_ok [OF c_read_name_defined [of 256 raw "rdata_at rr"]] by (auto simp: decompress_name_in_rdata_def)

lemma ns_records_ok: "\<exists>l. ns_records response raw rrs = Inr l"
proof (induction rrs)
  case (Cons rr rrs)
  then obtain l where l: "ns_records response raw rrs = Inr l" by blast
  obtain x where "decompress_name_in_rdata rr raw = Inr x" using decompress_ok by blast
  then show ?case using l by (auto split: option.splits)
qed simp

lemma ns_loop_ok:
  assumes IH: "\<And>w name nss. world_ok w \<Longrightarrow> resolves w (resolve_internal n env w name t c nss)"
  shows "world_ok w \<Longrightarrow> resolves w (ns_loop n env w name t c nss rest)"
proof (induction rest arbitrary: w)
  case Nil
  then show ?case by (simp add: ns_loop.simps resolves_none)
next
  case (Cons ns rest)
  obtain req reply where s: "send_query env (ns_addr ns) 53 w name t c =
      Inr (reply, w\<lparr>sent := sent w @ [(Udp (ns_addr ns) 53, req)]\<rparr>)"
    using send_query_ok by blast
  define w1 where "w1 = w\<lparr>sent := sent w @ [(Udp (ns_addr ns) 53, req)]\<rparr>"
  have w1: "world_ok w1" "grows w w1" using grows_sent [OF Cons.prems] by (simp_all add: w1_def grows_def)
  have further: "resolves w1 (ns_loop n env w2 name t c nss rest)" if "grows w1 w2" for w2
    using that Cons.IH [of w2] by (intro resolves_grows [OF that]) (simp add: grows_def)
  note once = further [OF grows_refl [OF w1(1)]]
  obtain r where r: "parse_reply reply = Inr r" and
    p: "\<And>raw m. r = Some (raw, m) \<Longrightarrow> dns_parse_message raw = Inr m"
    using parse_reply_ok [of reply] by (elim exE conjE) simp
  have "resolves w1 (case r of None \<Rightarrow> ns_loop n env w1 name t c nss rest
     | Some (raw, resp) \<Rightarrow>
       (case answers resp of
          rr # rrs \<Rightarrow>
            cbind (if rtype rr = DNS_TYPE_CNAME then decompress_name_in_rdata rr raw else Inr None) (\<lambda>alias.
            case alias of
              Some cname \<Rightarrow> resolve_internal n env w1 cname t c nss
            | None \<Rightarrow> cbind (store_reply env w1 name t c raw (ttl rr)) (\<lambda>w2. Inr (Found Frame resp, w2)))
        | [] \<Rightarrow>
            if authorities resp \<noteq> [] then
              cbind (build_ns_list resp raw) (\<lambda>new_ns.
                if new_ns = [] then ns_loop n env w1 name t c nss rest
                else cbind (resolve_internal n env w1 name t c new_ns) (\<lambda>(res, w2).
                  case res of Unresolved rc \<Rightarrow> ns_loop n env w2 name t c nss rest | _ \<Rightarrow> Inr (res, w2)))
            else if hflags (header resp) AND 0x0F = 3 then
              cbind (store_reply env w1 name t c raw 600) (\<lambda>w2. Inr (Nxdomain, w2))
            else ns_loop n env w1 name t c nss rest))"
  proof (cases r)
    case None
    then show ?thesis using once by simp
  next
    case (Some x)
    obtain raw resp where x: "x = (raw, resp)" by (cases x)
    then have "dns_parse_message raw = Inr resp" using p Some by simp
    then have g: "grounded w' (Found Frame resp)" for w' by auto
    show ?thesis
    proof (cases "answers resp")
      case an: (Cons rr rrs)
      obtain al where "(if rtype rr = DNS_TYPE_CNAME then decompress_name_in_rdata rr raw else Inr None) = Inr al"
        using decompress_ok [of rr raw] by (cases "rtype rr = DNS_TYPE_CNAME") auto
      then show ?thesis
        using IH [OF w1(1)] resolves_store [OF w1(1) g] by (cases al) (simp_all add: Some x an)
    next
      case an: Nil
      obtain new_ns where l: "build_ns_list resp raw = Inr new_ns" using ns_records_ok [of resp raw "authorities resp"] by (auto simp: build_ns_list_def)
      obtain res w2 where sub: "resolve_internal n env w1 name t c new_ns = Inr (res, w2)" "grows w1 w2" "grounded w2 res"
        using IH [OF w1(1), of name new_ns] by (auto simp: resolves_def)
      then have "resolves w1 (case res of Unresolved rc \<Rightarrow> ns_loop n env w2 name t c nss rest | _ \<Rightarrow> Inr (res, w2))"
        using further [OF sub(2)] by (cases res) (simp_all add: resolves_def)
      then show ?thesis
        using once sub(1) l resolves_store [OF w1(1), of Nxdomain] by (simp add: Some x an)
    qed
  qed
  then have "resolves w1 (ns_loop n env w name t c nss (ns # rest))"
    by (simp only: ns_loop.simps s [folded w1_def] r cbind.simps prod.case)
  then show ?case by (rule resolves_grows [OF w1(2)])
qed

lemma resolve_ok:
  assumes usable: "forwarder_usable env"
  shows "world_ok w \<Longrightarrow> resolves w (resolve_internal n env w name t c nss)"
proof (induction n arbitrary: w name nss)
  case 0
  then show ?case by (simp add: resolve_internal.simps resolves_none)
next
  case (Suc n)
  obtain hit ca r where l: "cache_lookup (wcache w) name t c (time_of env w) = Inr (hit, ca)" "grows w (w\<lparr>wcache := ca\<rparr>)"
      "cached_answer (w\<lparr>wcache := ca\<rparr>) hit = Inr r" and
    m: "\<And>i m. r = Some (i, m) \<Longrightarrow> i < capacity ca \<and> (\<exists>e. slots ca ! i = Some e \<and> dns_parse_message (cdata e) = Inr m)"
    using cached_answer_ok [OF Suc.prems, of name t c "time_of env w"] by (elim exE conjE) simp
  let ?w = "w\<lparr>wcache := ca\<rparr>"
  have ok: "world_ok ?w" using l(2) by (simp add: grows_def)
  have "resolves ?w (resolve_internal (Suc n) env w name t c nss)"
  proof (cases r)
    case None
    then show ?thesis
      using resolves_sent [OF ok] usable resolves_none [OF ok] ns_loop_ok [OF Suc.IH ok]
      by (simp add: resolve_internal.simps l split: option.splits)
  next
    case (Some x)
    obtain i msg where x: "x = (i, msg)" by (cases x)
    then have "grounded ?w (Found (Slot i) msg)" using m Some by simp
    then show ?thesis using Some x grows_refl [OF ok] by (simp add: resolve_internal.simps l resolves_def)
  qed
  then show ?case by (rule resolves_grows [OF l(2)])
qed

text \<open>With a forwarder, or for the local test zones, one request is sent at most.\<close>

lemma forwarded_sent: "forwarded env name t c (reply, w) = Inr (res, w') \<Longrightarrow> sent w' = sent w"
  by (auto simp: forwarded_def cbind_eq_Inr store_reply_def split: option.splits)

lemma borrow_same: "borrow_tcp_conn env w = Inr (i, w1) \<Longrightarrow> wcache w1 = wcache w \<and> sent w1 = sent w"
  by (auto simp: borrow_tcp_conn_def split: option.splits)

lemma init_same: "wcache (init_tcp_pool env ip w) = wcache w \<and> sent (init_tcp_pool env ip w) = sent w"
  by (simp add: init_tcp_pool_def)

lemma send_query_tcp_sent: "send_query_tcp env ip w name t c = Inr (reply, w') \<Longrightarrow> \<exists>req. sent w' = sent w @ [(Tcp, req)]"
  using init_same [of env ip w]
  by (auto simp: send_query_tcp_def cbind_eq_Inr Let_def close_conn_def dest!: borrow_same split: option.splits if_splits)

lemma forwarding_sends_one:
  assumes "resolve_internal n env w name t c nss = Inr (res, w')" and "forwarder env \<noteq> None"
  shows "length (sent w') \<le> length (sent w) + 1"
proof (cases n)
  case 0
  then show ?thesis using assms(1) by (simp add: resolve_internal.simps)
next
  case (Suc k)
  have f: "sent w2 = sent w1" if "forwarded env name t c (reply, w1) = Inr (res, w2)" for reply w1 w2
    using forwarded_sent that by blast
  show ?thesis
    using assms unfolding Suc resolve_internal.simps
    by (auto simp: cbind_eq_Inr send_query_def exchange_def Let_def split: option.splits if_splits
        dest!: f send_query_tcp_sent)
qed

text \<open>A forwarded reply is found again under the question it was asked for. Over TCP a connection has to be found first.\<close>

definition forward_hop :: "env \<Rightarrow> string \<Rightarrow> world \<Rightarrow> (hop \<times> world) option" where
  "forward_hop env name w =
     (case static_forwarder name of Some (addr, port) \<Rightarrow> Some (Udp addr port, w)
      | None \<Rightarrow> (case forwarder env of None \<Rightarrow> None
          | Some ip \<Rightarrow>
              if over_tcp env then
                (case borrow_tcp_conn env (init_tcp_pool env ip w) of Inl e \<Rightarrow> None
                 | Inr (i, w1) \<Rightarrow> if severed env (length (sent w)) then None else Some (Tcp, w1))
              else map_option (\<lambda>a. (Udp a 53, w)) (inet_pton ip)))"

lemma borrow_cache:
  "borrow_tcp_conn env (w\<lparr>wcache := ca\<rparr>) = map_sum id (\<lambda>(i, w1). (i, w1\<lparr>wcache := ca\<rparr>)) (borrow_tcp_conn env w)"
  by (auto simp: borrow_tcp_conn_def split: option.splits)

lemma init_cache: "init_tcp_pool env ip (w\<lparr>wcache := ca\<rparr>) = (init_tcp_pool env ip w)\<lparr>wcache := ca\<rparr>"
  by (simp add: init_tcp_pool_def)

lemma forward_reply:
  assumes "cache_lookup (wcache w) name t c (time_of env w) = Inr (None, ca)" and "cache_ok ca" and "used ca < capacity ca"
    and hop: "forward_hop env name w = Some (hop, w0)" and "request_bytes (ids env (length (sent w))) name t c = Inr req"
    and "net env (sent w @ [(hop, req)]) = Some raw" and "12 \<le> length raw" and "length raw < EDNS_SIZE"
    and "dns_parse_message raw = Inr resp" and "0 < reply_ttl resp" and w: "world_ok w"
  shows "\<exists>w' i. resolve_internal (Suc n) env w name t c nss = Inr (Found Frame resp, w') \<and>
    sent w' = sent w @ [(hop, req)] \<and> world_ok w' \<and> i < capacity (wcache w') \<and>
    slots (wcache w') ! i = Some \<lparr>ckey = build_key name t c, cdata = raw, expiry = time_of env w' + uint (reply_ttl resp)\<rparr> \<and>
    cache_lookup (wcache w') name t c (time_of env w') = Inr (Some i, wcache w')"
proof -
  have w0: "sent w0 = sent w" "world_ok w0" "(if hop = Tcp then True else w0 = w)"
  proof -
    have "world_ok w1" if "borrow_tcp_conn env (init_tcp_pool env ip w) = Inr (i, w1)" for i w1 ip
    proof -
      have i: "world_ok (init_tcp_pool env ip w)" using init_tcp_pool_ok [OF w] by blast
      have "length socks' = length socks" if "borrow_loop dial socks i n = Some (j, socks', m)" for dial socks i n j socks' m
        using that
        by (induction dial socks i n "(j, socks', m)" rule: borrow_loop.raw_induct [rotated, consumes 1, case_names step])
          (auto split: if_splits)
      then show ?thesis using that i by (fastforce simp: borrow_tcp_conn_def world_ok_def split: option.splits)
    qed
    then show "sent w0 = sent w" "world_ok w0" "(if hop = Tcp then True else w0 = w)"
      using hop w init_same [of env _ w]
      by (auto simp: forward_hop_def dest: borrow_same split: option.splits sum.splits if_splits)
  qed
  define w1 where "w1 = w0\<lparr>wcache := ca, sent := sent w @ [(hop, req)]\<rparr>"
  define t0 where "t0 = time_of env w1"
  have take: "take EDNS_SIZE raw = raw" "raw \<noteq> []" using assms(7,8) by auto
  obtain c' i where st: "cache_store ca name t c raw (reply_ttl resp) t0 = Inr c'" "cache_ok c'" "i < capacity c'"
    "slots c' ! i = Some \<lparr>ckey = build_key name t c, cdata = raw, expiry = t0 + uint (reply_ttl resp)\<rparr>"
    "\<forall>later. later \<le> t0 + uint (reply_ttl resp) \<longrightarrow> cache_lookup c' name t c later = Inr (Some i, c')"
    using lookup_after_store [OF assms(2,3,10), of name t c raw t0] by blast
  have "parse_reply (Some raw) = Inr (Some (raw, resp))" using assms(7,9) by (simp add: parse_reply_def attempt_def)
  then have f: "forwarded env name t c (Some raw, w1) = Inr (Found Frame resp, w1\<lparr>wcache := c'\<rparr>)"
    using st(1) by (simp add: forwarded_def store_reply_def w1_def flip: t0_def) (simp add: t0_def w1_def time_of_def)
  have s: "send_query env addr port (w\<lparr>wcache := ca\<rparr>) name t c = Inr (Some raw, w1)" if "hop = Udp addr port" for addr port
    using that take assms(5,6) w0(3) by (simp add: send_query_def exchange_def w1_def)
  have s': "send_query_tcp env ip (w\<lparr>wcache := ca\<rparr>) name t c = Inr (Some raw, w1)"
    if "hop = Tcp" "borrow_tcp_conn env (init_tcp_pool env ip w) = Inr (i, w0)" "\<not> severed env (length (sent w))" for ip i
    using that take assms(5,6,8) w0(1) by (simp add: send_query_tcp_def init_cache borrow_cache w1_def Let_def)
  have "resolve_internal (Suc n) env w name t c nss = Inr (Found Frame resp, w1\<lparr>wcache := c'\<rparr>)"
    using assms(1) hop f s s'
    by (auto simp: resolve_internal.simps cached_answer_def forward_hop_def split: option.splits if_splits sum.splits prod.splits)
  moreover have "time_of env (w1\<lparr>wcache := c'\<rparr>) = t0" by (simp add: t0_def time_of_def)
  moreover have "world_ok (w1\<lparr>wcache := c'\<rparr>)" using w0(2) st(2) by (simp add: w1_def world_ok_def)
  ultimately show ?thesis using st by (intro exI [of _ "w1\<lparr>wcache := c'\<rparr>"] exI [of _ i]) (simp add: w1_def)
qed

text \<open>A forwarder on TCP to which no connection can be made any more.\<close>

definition forwarder_gone :: "env \<Rightarrow> world \<Rightarrow> bool" where
  "forwarder_gone env w \<longleftrightarrow>
     over_tcp env \<and> (\<exists>ip. forwarder env = Some ip \<and> inet_pton ip \<noteq> None) \<and> (\<forall>k \<ge> dialled w. \<not> dials env k) \<and>
     (\<forall>socks. pool w = Some socks \<longrightarrow> True \<notin> set socks)"

lemma resolve_endless:
  assumes "cache_lookup (wcache w) name t c (time_of env w) = Inr (None, ca)" and "static_forwarder name = None"
    and "forwarder_gone env w" and "world_ok w"
  shows "resolve_internal (Suc n) env w name t c nss = Inl (Fault Endless)"
proof -
  obtain ip where ip: "over_tcp env" "forwarder env = Some ip" "inet_pton ip \<noteq> None" using assms(3) by (auto simp: forwarder_gone_def)
  have off: "\<forall>k \<ge> dialled w. \<not> dials env k" using assms(3) by (simp add: forwarder_gone_def)
  define w1 where "w1 = init_tcp_pool env ip w"
  obtain socks where socks: "pool w1 = Some socks" "True \<notin> set socks" "length socks = TCP_POOL_SIZE" "dialled w \<le> dialled w1"
  proof (cases "pool w")
    case None
    then have "w1 = w\<lparr>pool := Some (map (\<lambda>i. dials env (dialled w + i)) [0..<TCP_POOL_SIZE]), dialled := dialled w + TCP_POOL_SIZE\<rparr>"
      using ip(3) by (auto simp: w1_def init_tcp_pool_def)
    then show thesis using that off by auto
  next
    case (Some socks)
    then show thesis using that assms(3,4) by (auto simp: w1_def init_tcp_pool_def forwarder_gone_def world_ok_def)
  qed
  have "borrow_loop (dials env) socks 0 (dialled w1) = None"
    using off socks by (intro borrow_loop_endless) (auto simp: TCP_POOL_SIZE_def)
  then have "borrow_tcp_conn env w1 = Inl (Fault Endless)" using socks(1) by (simp add: borrow_tcp_conn_def)
  moreover obtain req where "request_bytes (ids env (length (sent w))) name t c = Inr req" using request_defined by blast
  ultimately have "send_query_tcp env ip (w\<lparr>wcache := ca\<rparr>) name t c = Inl (Fault Endless)"
    by (simp add: send_query_tcp_def init_cache borrow_cache flip: w1_def)
  then show ?thesis using assms(1,2) ip by (simp add: resolve_internal.simps cached_answer_def)
qed

section \<open>Properties\<close>

text \<open>C7: Whatever comes back from the network, and however many name servers point to each other, the resolver returns
  without undefined behaviour after a finite number of requests: the cache stays well-formed, requests are only added to those
  sent before, at most one when a forwarder is set, and an answer is an entry that the cache holds or a packet that parses. When
  DNS_FORWARDER_TCP is set, this needs a forwarder that can be used: its address parses, an attempt to connect succeeds sooner or
  later, and it does not close a connection that is being written to.\<close>

theorem resolver_safe:
  assumes "world_ok w" and "forwarder_usable env"
  shows "\<exists>res w' hs. resolver_resolve env roots w req = Inr (res, w') \<and> world_ok w' \<and>
    capacity (wcache w') = capacity (wcache w) \<and> sent w' = sent w @ hs \<and> (forwarder env \<noteq> None \<longrightarrow> length hs \<le> 1) \<and>
    grounded w' res"
proof (cases "questions req")
  case Nil
  then show ?thesis using assms by (simp add: resolver_resolve_def)
next
  case (Cons q qs)
  let ?r = "resolve_internal (MAX_RECURSION_DEPTH + 1) env w (c_copy 256 (qname q)) (qtype q) (qclass q) roots"
  obtain res w' hs where r: "?r = Inr (res, w')" "world_ok w'" "capacity (wcache w') = capacity (wcache w)"
    "sent w' = sent w @ hs" "grounded w' res"
    using resolve_ok [OF assms(2,1)] unfolding resolves_def grows_def by blast
  then show ?thesis using forwarding_sends_one [OF r(1)] by (auto simp: resolver_resolve_def Cons)
qed

text \<open>A server that answers every request with a referral to itself, and a forwarder that can be reached at every third attempt only
  and never answers.\<close>

theorem resolver_safe_witness:
  "(\<exists>res w' hs. resolver_resolve \<lparr>net = \<lambda>_. Some (message_bytes 1 0 [] [] [([''x''], 2, 1, 9, [1, 97, 0])] [([''a''], 1, 1, 9, [127, 0, 0, 1])]),
      ids = \<lambda>_. 7, clock = int, forwarder = None, over_tcp = False, dials = \<lambda>_. False, severed = \<lambda>_. True\<rparr>
      [\<lparr>ns_name = ''x'', ns_addr = 1\<rparr>] \<lparr>wcache = cache_create 1024, sent = [], pool = None, dialled = 0\<rparr>
      \<lparr>header = \<lparr>hid = 9, hflags = 256, hqdcount = 1, hancount = 0, hnscount = 0, harcount = 0\<rparr>,
       questions = [\<lparr>qname = ''x.com.'', qtype = 1, qclass = 1\<rparr>], answers = [], authorities = [], additionals = []\<rparr> =
      Inr (res, w') \<and> world_ok w' \<and> sent w' = [] @ hs \<and> grounded w' res) \<and>
   (\<exists>res w' hs. resolver_resolve \<lparr>net = \<lambda>_. None, ids = \<lambda>_. 7, clock = int, forwarder = Some ''9.9.9.9'', over_tcp = True,
      dials = \<lambda>n. n mod 3 = 0, severed = \<lambda>_. False\<rparr> [] \<lparr>wcache = cache_create 1024, sent = [], pool = None, dialled = 0\<rparr>
      \<lparr>header = \<lparr>hid = 9, hflags = 256, hqdcount = 1, hancount = 0, hnscount = 0, harcount = 0\<rparr>,
       questions = [\<lparr>qname = ''x.com.'', qtype = 1, qclass = 1\<rparr>], answers = [], authorities = [], additionals = []\<rparr> =
      Inr (res, w') \<and> sent w' = [] @ hs \<and> length hs \<le> 1)"
proof -
  let ?w = "\<lparr>wcache = cache_create 1024, sent = [], pool = None, dialled = 0\<rparr>"
  have w: "world_ok ?w" using cache_create_ok [of 1024] by (simp add: world_ok_def)
  have "inet_pton ''9.9.9.9'' \<noteq> None" by code_simp
  moreover have "\<exists>k \<ge> n. k mod 3 = 0" for n :: nat by (rule exI [of _ "3 * n"]) simp
  ultimately have u: "forwarder_usable \<lparr>net = \<lambda>_. None, ids = \<lambda>_. 7, clock = int, forwarder = Some ''9.9.9.9'', over_tcp = True,
      dials = \<lambda>n. n mod 3 = 0, severed = \<lambda>_. False\<rparr>" by (simp add: forwarder_usable_def)
  show ?thesis
    using resolver_safe [OF w, where env = "\<lparr>net = \<lambda>_. Some (message_bytes 1 0 [] [] [([''x''], 2, 1, 9, [1, 97, 0])]
        [([''a''], 1, 1, 9, [127, 0, 0, 1])]), ids = \<lambda>_. 7, clock = int, forwarder = None, over_tcp = False, dials = \<lambda>_. False,
        severed = \<lambda>_. True\<rparr>"] resolver_safe [OF w u]
    by (simp add: forwarder_usable_def) blast
qed

end
