(* ===== verification/C_Blacklist.thy ===== *)
theory C_Blacklist
  imports C_Chains
begin

text \<open>
  The static blacklist of \<open>src/src/policy.c\<close>: a hash table of the names of \<open>blacklist.txt\<close>, compared
  without case and without a trailing dot. An entry is its text. The table interprets the locale of
  chained hash tables over lower-cased names; the lemmas show that a name is blocked exactly if a line of
  the file is that name.
\<close>

section \<open>Operations\<close>

definition BLACKLIST_BUCKETS :: nat where "BLACKLIST_BUCKETS = 1024"

definition normalise_domain :: "string \<Rightarrow> string" where
  "normalise_domain d = (if 0 < length d \<and> d ! (length d - 1) = CHR ''.'' then take (length d - 1) d else d)"

definition bl_hash_domain :: "string \<Rightarrow> nat" where
  "bl_hash_domain d =
     unat (foldl (\<lambda>h c. (push_bit 5 h + h) + ucast (char_byte (c_tolower c))) (5381 :: 32 word) d) mod BLACKLIST_BUCKETS"

type_synonym blacklist = "string list list"

definition blacklist_empty :: blacklist where
  "blacklist_empty = replicate BLACKLIST_BUCKETS []"

definition blacklist_contains :: "blacklist \<Rightarrow> string \<Rightarrow> bool" where
  "blacklist_contains bl domain = list_ex (\<lambda>e. strcaseeq e domain) (bl ! bl_hash_domain domain)"

text \<open>The copy that \<open>strncpy\<close> makes in a buffer of \<open>DNS_MAX_NAME_LEN + 1\<close> characters.\<close>

definition name_buffer :: "string \<Rightarrow> string" where
  "name_buffer d = normalise_domain (c_copy 256 (cstr d))"

definition blacklist_add :: "blacklist \<Rightarrow> string \<Rightarrow> blacklist" where
  "blacklist_add bl domain =
     (let buf = name_buffer domain; h = bl_hash_domain buf in
      if list_ex (\<lambda>e. strcaseeq e buf) (bl ! h) then bl else bl[h := buf # bl ! h])"

definition blacklist_load_file :: "blacklist \<Rightarrow> string \<Rightarrow> blacklist" where
  "blacklist_load_file bl f = foldl blacklist_add bl (blacklist_lines f)"

definition policy_check_blocklist :: "blacklist \<Rightarrow> string \<Rightarrow> bool" where
  "policy_check_blocklist bl domain = blacklist_contains bl (name_buffer domain)"

section \<open>The table as a set\<close>

definition lower_slot :: "string \<Rightarrow> nat" where
  "lower_slot k = bl_hash_domain k"

lemma bl_hash_lower: "bl_hash_domain (c_lower d) = bl_hash_domain d"
proof -
  have "foldl (\<lambda>h c. (push_bit 5 h + h) + ucast (char_byte (c_tolower c))) a (c_lower d) =
      foldl (\<lambda>h c. (push_bit 5 h + h) + ucast (char_byte (c_tolower c))) a d" for a :: "32 word"
    unfolding c_lower_def by (induction d arbitrary: a) simp_all
  then show ?thesis unfolding bl_hash_domain_def by simp
qed

interpretation bl: hash_chains c_lower lower_slot BLACKLIST_BUCKETS
  by unfold_locales (simp add: lower_slot_def bl_hash_domain_def BLACKLIST_BUCKETS_def)

lemma contains_lookup: "blacklist_contains bl d \<longleftrightarrow> chain_lookup c_lower lower_slot bl (c_lower d) \<noteq> None"
  by (auto simp: blacklist_contains_def chain_lookup_def lower_slot_def bl_hash_lower strcaseeq_def list_ex_iff find_None_iff)

lemma add_insert:
  "blacklist_add bl d =
    (if blacklist_contains bl (name_buffer d) then bl else chain_insert c_lower lower_slot bl (name_buffer d))"
  by (simp add: blacklist_add_def blacklist_contains_def chain_insert_def lower_slot_def bl_hash_lower Let_def)

lemma add_ok:
  assumes "bl.chains_ok bl"
  shows "bl.chains_ok (blacklist_add bl d) \<and>
    (blacklist_contains (blacklist_add bl d) x \<longleftrightarrow> blacklist_contains bl x \<or> strcaseeq (name_buffer d) x)"
proof (cases "blacklist_contains bl (name_buffer d)")
  case True
  then show ?thesis using assms by (auto simp: add_insert contains_lookup strcaseeq_def)
next
  case False
  then show ?thesis using assms
    by (auto simp: add_insert contains_lookup bl.insert_ok bl.lookup_insert strcaseeq_def)
qed

lemma load_ok:
  assumes "bl.chains_ok bl"
  shows "bl.chains_ok (blacklist_load_file bl f) \<and>
    (blacklist_contains (blacklist_load_file bl f) x \<longleftrightarrow>
      blacklist_contains bl x \<or> (\<exists>l \<in> set (blacklist_lines f). strcaseeq (name_buffer l) x))"
proof -
  have "bl.chains_ok b \<Longrightarrow> bl.chains_ok (foldl blacklist_add b ls) \<and>
      (blacklist_contains (foldl blacklist_add b ls) x \<longleftrightarrow>
        blacklist_contains b x \<or> (\<exists>l \<in> set ls. strcaseeq (name_buffer l) x))" for b ls
    by (induction ls arbitrary: b) (auto simp: add_ok)
  then show ?thesis using assms by (simp add: blacklist_load_file_def)
qed

lemma blacklist_empty: "bl.chains_ok blacklist_empty" "\<not> blacklist_contains blacklist_empty x"
  by (simp_all add: blacklist_empty_def bl.empty_ok contains_lookup bl.lookup_empty)

text \<open>A question's name is the text of its labels with a final dot, which the check takes away.\<close>

lemma name_buffer_dot: "CHR 0x00 \<notin> set d \<Longrightarrow> length d < 255 \<Longrightarrow> name_buffer (d @ ''.'') = d"
  by (simp add: name_buffer_def normalise_domain_def c_copy_def nth_append)

lemma name_buffer_plain:
  "CHR 0x00 \<notin> set d \<Longrightarrow> length d < 256 \<Longrightarrow> d \<noteq> [] \<Longrightarrow> last d \<noteq> CHR ''.'' \<Longrightarrow> name_buffer d = d"
  by (simp add: name_buffer_def normalise_domain_def c_copy_def last_conv_nth)

section \<open>Properties\<close>

text \<open>C10: A name is on the blacklist exactly if a line of the file that is no comment is the same name, up to case and one
  trailing dot on either side. The names below a listed name are not.\<close>

theorem blacklist_exact:
  "policy_check_blocklist (blacklist_load_file blacklist_empty f) domain \<longleftrightarrow>
    (\<exists>l \<in> set (blacklist_lines f). c_lower (name_buffer l) = c_lower (name_buffer domain))"
  using load_ok [OF blacklist_empty(1)] blacklist_empty(2)
  by (simp add: policy_check_blocklist_def strcaseeq_def)

lemma subdomain_passes:
  "policy_check_blocklist (blacklist_load_file blacklist_empty (''Evil.com'' @ [CHR 0x0A])) ''EVIL.com.''"
  "\<not> policy_check_blocklist (blacklist_load_file blacklist_empty (''Evil.com'' @ [CHR 0x0A])) ''www.evil.com.''"
proof -
  have l: "blacklist_lines (''Evil.com'' @ [CHR 0x0A]) = [''Evil.com'']"
    using blacklist_lines_of [of "[''Evil.com'']"] by (simp add: entry_line_def)
  have "c_lower (name_buffer ''Evil.com'') = c_lower (name_buffer ''EVIL.com.'')"
    "c_lower (name_buffer ''Evil.com'') \<noteq> c_lower (name_buffer ''www.evil.com.'')"
    by code_simp+
  then show "policy_check_blocklist (blacklist_load_file blacklist_empty (''Evil.com'' @ [CHR 0x0A])) ''EVIL.com.''"
    "\<not> policy_check_blocklist (blacklist_load_file blacklist_empty (''Evil.com'' @ [CHR 0x0A])) ''www.evil.com.''"
    unfolding blacklist_exact l by simp_all
qed

end
