(* ===== verification/C_Flux.thy ===== *)
theory C_Flux
  imports C_Chains
begin

text \<open>
  The fast-flux tracker of \<open>src/src/policy.c\<close>: a list of domains, each with the addresses seen in the
  last ten minutes and the time each was seen last. The parallel arrays of addresses and times are a list of pairs, of
  a \<open>sockaddr_in\<close> only the address is ever compared. The clock is an argument, read once per call. The lemmas show that the
  tracker counts the distinct addresses of a domain within the window.
\<close>

section \<open>State and operations\<close>

definition FLUX_WINDOW_SEC :: int where "FLUX_WINDOW_SEC = 600"

record flux_entry =
  fdomain :: string
  fips :: "(32 word \<times> int) list"

type_synonym flux_table = "flux_entry list"

definition flux_find :: "flux_table \<Rightarrow> string \<Rightarrow> flux_entry option" where
  "flux_find tab domain = List.find (\<lambda>e. fdomain e = domain) tab"

text \<open>The first loop of \<open>flux_add_ip\<close>, which is also that of \<open>flux_cleanup\<close>: the recent addresses move to the front.\<close>

definition keep_recent :: "int \<Rightarrow> (32 word \<times> int) list \<Rightarrow> (32 word \<times> int) list" where
  "keep_recent now ips = filter (\<lambda>(a, t). now - t < FLUX_WINDOW_SEC) ips"

fun touch :: "32 word \<Rightarrow> int \<Rightarrow> (32 word \<times> int) list \<Rightarrow> (32 word \<times> int) list" where
  "touch addr now [] = [(addr, now)]"
| "touch addr now ((a, t) # ips) = (if a = addr then (a, now) # ips else (a, t) # touch addr now ips)"

definition flux_add_ip :: "flux_entry \<Rightarrow> 32 word \<Rightarrow> int \<Rightarrow> flux_entry" where
  "flux_add_ip e addr now = e\<lparr>fips := touch addr now (keep_recent now (fips e))\<rparr>"

definition flux_detect :: "nat \<Rightarrow> flux_table \<Rightarrow> string \<Rightarrow> 32 word \<Rightarrow> int \<Rightarrow> bool \<times> flux_table" where
  "flux_detect g_flux_ip_max tab domain addr now =
     (let (e, tab') = (case flux_find tab domain of
            Some e \<Rightarrow> (e, tab)
          | None \<Rightarrow> let e = \<lparr>fdomain = domain, fips = []\<rparr> in (e, e # tab));
          e' = flux_add_ip e addr now
      in (g_flux_ip_max < length (fips e'), put_first fdomain e' tab'))"

definition flux_cleanup :: "flux_table \<Rightarrow> int \<Rightarrow> flux_table" where
  "flux_cleanup tab now =
     List.map_filter (\<lambda>e. let ips = keep_recent now (fips e) in if ips = [] then None else Some (e\<lparr>fips := ips\<rparr>)) tab"

text \<open>The calls of the workers and of the housekeeping, in the order in which they take place.\<close>

datatype flux_call = Seen string "32 word" int | Cleanup int

fun flux_time :: "flux_call \<Rightarrow> int" where
  "flux_time (Seen d a t) = t"
| "flux_time (Cleanup t) = t"

fun flux_step :: "nat \<Rightarrow> flux_table \<Rightarrow> flux_call \<Rightarrow> flux_table" where
  "flux_step m tab (Seen d a t) = snd (flux_detect m tab d a t)"
| "flux_step m tab (Cleanup t) = flux_cleanup tab t"

section \<open>The tracker as a map\<close>

definition flux_ips :: "flux_table \<Rightarrow> string \<Rightarrow> (32 word \<times> int) list" where
  "flux_ips tab d = (case flux_find tab d of None \<Rightarrow> [] | Some e \<Rightarrow> fips e)"

definition flux_ok :: "flux_table \<Rightarrow> bool" where
  "flux_ok tab \<longleftrightarrow> distinct (map fdomain tab) \<and> (\<forall>e \<in> set tab. distinct (map fst (fips e)))"

text \<open>When an address of a domain was seen last.\<close>

fun last_seen :: "flux_call list \<Rightarrow> string \<Rightarrow> 32 word \<Rightarrow> int option" where
  "last_seen [] d a = None"
| "last_seen (c # cs) d a =
     (case last_seen cs d a of
        Some t \<Rightarrow> Some t
      | None \<Rightarrow> (case c of Seen d' a' t \<Rightarrow> if d' = d \<and> a' = a then Some t else None | Cleanup t \<Rightarrow> None))"

lemma last_seen_snoc:
  "last_seen (cs @ [c]) d a =
    (case c of Seen d' a' t \<Rightarrow> if d' = d \<and> a' = a then Some t else last_seen cs d a | Cleanup t \<Rightarrow> last_seen cs d a)"
  by (induction cs) (auto split: flux_call.splits option.splits)

lemma flux_ips_distinct: "flux_ok tab \<Longrightarrow> distinct (map fst (flux_ips tab d))"
  by (auto simp: flux_ok_def flux_ips_def flux_find_def find_Some_iff split: option.splits)

lemma keep_recent_map_of:
  "distinct (map fst ips) \<Longrightarrow>
    map_of (keep_recent now ips) a = (case map_of ips a of Some t \<Rightarrow> if now - t < 600 then Some t else None | None \<Rightarrow> None)"
proof (induction ips)
  case (Cons p ips)
  obtain b t where p: "p = (b, t)" by fastforce
  have "map_of ips b = None" using Cons.prems by (simp add: p map_of_eq_None_iff)
  then show ?case using Cons by (auto simp: p keep_recent_def FLUX_WINDOW_SEC_def)
qed (simp add: keep_recent_def)

lemma keep_recent_distinct: "distinct (map fst ips) \<Longrightarrow> distinct (map fst (keep_recent now ips))"
  unfolding keep_recent_def by (rule distinct_map_filter)

lemma touch_map_of: "map_of (touch addr now ips) = (map_of ips)(addr \<mapsto> now)"
  by (induction ips) auto

lemma touch_keys: "fst ` set (touch addr now ips) = insert addr (fst ` set ips)"
proof (induction ips)
  case (Cons p ips)
  then show ?case by (cases p) auto
qed simp

lemma touch_distinct: "distinct (map fst ips) \<Longrightarrow> distinct (map fst (touch addr now ips))"
proof (induction ips)
  case (Cons p ips)
  then show ?case using touch_keys [of addr now ips] by (cases p) auto
qed simp

lemma detect_ips:
  assumes "flux_ok tab"
  shows "flux_ips (snd (flux_detect m tab d a now)) d' =
      (if d' = d then touch a now (keep_recent now (flux_ips tab d)) else flux_ips tab d')"
    and "fst (flux_detect m tab d a now) \<longleftrightarrow> m < length (flux_ips (snd (flux_detect m tab d a now)) d)"
    and "flux_ok (snd (flux_detect m tab d a now))"
proof -
  define e tab' where "e = (case flux_find tab d of Some e \<Rightarrow> e | None \<Rightarrow> \<lparr>fdomain = d, fips = []\<rparr>)"
    and "tab' = (case flux_find tab d of Some e \<Rightarrow> tab | None \<Rightarrow> e # tab)"
  have det: "flux_detect m tab d a now = (m < length (fips (flux_add_ip e a now)), put_first fdomain (flux_add_ip e a now) tab')"
    by (simp add: flux_detect_def e_def tab'_def Let_def split: option.split)
  have "fdomain x = d" if "flux_find tab d = Some x" for x
    using that by (auto simp: flux_find_def find_Some_iff)
  then have e: "fdomain e = d" "fips e = flux_ips tab d"
    by (auto simp: e_def flux_ips_def split: option.splits)
  have e': "fdomain (flux_add_ip e a now) = d" "fips (flux_add_ip e a now) = touch a now (keep_recent now (flux_ips tab d))"
    by (simp_all add: flux_add_ip_def e)
  have find: "flux_find tab' d' = (if d' = d then Some e else flux_find tab d')" for d'
    using e(1) by (auto simp: tab'_def e_def flux_find_def split: option.splits)
  have find': "flux_find (put_first fdomain (flux_add_ip e a now) tab') d' =
      (if d' = d then Some (flux_add_ip e a now) else flux_find tab d')" for d'
    using find [of d'] by (cases "d' = d") (simp_all add: flux_find_def find_put_first e'(1))
  show ips: "flux_ips (snd (flux_detect m tab d a now)) d' =
      (if d' = d then touch a now (keep_recent now (flux_ips tab d)) else flux_ips tab d')" for d'
    by (simp add: det flux_ips_def find' e'(2) [unfolded flux_ips_def])
  show "fst (flux_detect m tab d a now) \<longleftrightarrow> m < length (flux_ips (snd (flux_detect m tab d a now)) d)"
    unfolding ips by (simp add: det e'(2))
  have "distinct (map fst (fips (flux_add_ip e a now)))"
    unfolding e'(2) using flux_ips_distinct [OF assms] by (intro touch_distinct keep_recent_distinct)
  moreover have "distinct (map fdomain tab')"
  proof (cases "flux_find tab d")
    case None
    then have "\<forall>x \<in> set tab. fdomain x \<noteq> d" by (auto simp: flux_find_def find_None_iff)
    moreover have "tab' = e # tab" using None by (simp add: tab'_def)
    ultimately show ?thesis using assms e(1) by (auto simp: flux_ok_def)
  qed (use assms in \<open>simp add: tab'_def flux_ok_def\<close>)
  moreover have "\<forall>x \<in> set tab'. distinct (map fst (fips x))"
    using assms e(2) flux_ips_distinct [OF assms, of d] by (auto simp: tab'_def flux_ok_def split: option.splits)
  moreover have "set (put_first fdomain x xs) \<subseteq> insert x (set xs)" for x xs
    by (induction xs) auto
  ultimately show "flux_ok (snd (flux_detect m tab d a now))"
    unfolding flux_ok_def det snd_conv keys_put_first by blast
qed

lemma cleanup_ips:
  assumes "flux_ok tab"
  shows "flux_ips (flux_cleanup tab now) d = keep_recent now (flux_ips tab d)" and "flux_ok (flux_cleanup tab now)"
proof -
  define f where "f e = (let ips = keep_recent now (fips e) in if ips = [] then None else Some (e\<lparr>fips := ips\<rparr>))" for e :: flux_entry
  have f: "fdomain e' = fdomain e \<and> fips e' = keep_recent now (fips e)" if "f e = Some e'" for e e'
    using that by (auto simp: f_def Let_def split: if_splits)
  have "flux_find (flux_cleanup tab now) d = Option.bind (flux_find tab d) f"
    unfolding flux_find_def flux_cleanup_def f_def [symmetric]
    using f assms by (intro find_map_filter) (auto simp: flux_ok_def)
  then show "flux_ips (flux_cleanup tab now) d = keep_recent now (flux_ips tab d)"
    by (auto simp: flux_ips_def f_def Let_def keep_recent_def split: option.splits)
  have "distinct (map fdomain (List.map_filter f tab))"
    using f assms by (intro distinct_keys_filter) (auto simp: flux_ok_def)
  moreover have "distinct (map fst (fips e'))" if "e' \<in> set (List.map_filter f tab)" for e'
    using that f assms by (auto simp: set_map_filter flux_ok_def intro: keep_recent_distinct) (metis keep_recent_distinct)
  ultimately show "flux_ok (flux_cleanup tab now)"
    by (simp add: flux_ok_def flux_cleanup_def f_def [symmetric])
qed

section \<open>What is counted\<close>

text \<open>The tracker knows of an address what was seen last, and everything seen in the last ten minutes.\<close>

definition flux_knows :: "flux_call list \<Rightarrow> flux_table \<Rightarrow> int \<Rightarrow> bool" where
  "flux_knows cs tab now \<longleftrightarrow>
     flux_ok tab \<and>
     (\<forall>d a t. map_of (flux_ips tab d) a = Some t \<longrightarrow> last_seen cs d a = Some t) \<and>
     (\<forall>d a t. last_seen cs d a = Some t \<and> now - t < 600 \<longrightarrow> map_of (flux_ips tab d) a = Some t)"

lemma flux_knows_step:
  assumes k: "flux_knows cs tab T" and "T \<le> flux_time c"
  shows "flux_knows (cs @ [c]) (flux_step m tab c) (flux_time c)"
proof -
  have ok: "flux_ok tab" and sound: "\<And>d a t. map_of (flux_ips tab d) a = Some t \<Longrightarrow> last_seen cs d a = Some t"
    and complete: "\<And>d a t. last_seen cs d a = Some t \<Longrightarrow> T - t < 600 \<Longrightarrow> map_of (flux_ips tab d) a = Some t"
    using k unfolding flux_knows_def by blast+
  have recent: "map_of (keep_recent now (flux_ips tab d)) a =
      (case map_of (flux_ips tab d) a of Some t \<Rightarrow> if now - t < 600 then Some t else None | None \<Rightarrow> None)" for d a now
    by (rule keep_recent_map_of [OF flux_ips_distinct [OF ok]])
  show ?thesis
  proof (cases c)
    case (Seen d a t)
    have ips: "map_of (flux_ips (flux_step m tab c) d') a' =
        (if d' = d then if a' = a then Some t else
          (case map_of (flux_ips tab d) a' of Some u \<Rightarrow> if t - u < 600 then Some u else None | None \<Rightarrow> None)
         else map_of (flux_ips tab d') a')" for d' a'
      by (simp add: Seen detect_ips(1) [OF ok] touch_map_of recent)
    have last: "last_seen (cs @ [c]) d' a' = (if d' = d \<and> a' = a then Some t else last_seen cs d' a')" for d' a'
      by (auto simp: last_seen_snoc Seen)
    have "last_seen (cs @ [c]) d' a' = Some u" if "map_of (flux_ips (flux_step m tab c) d') a' = Some u" for d' a' u
      using that sound [of d' a' u] unfolding ips last by (auto split: if_splits option.splits)
    moreover have "map_of (flux_ips (flux_step m tab c) d') a' = Some u"
      if "last_seen (cs @ [c]) d' a' = Some u" "t - u < 600" for d' a' u
    proof -
      have "T - u < 600" using that(2) assms(2) Seen by simp
      then show ?thesis using that complete [of d' a' u] unfolding ips last by (cases "d' = d \<and> a' = a"; cases "d' = d") simp_all
    qed
    moreover have "flux_ok (flux_step m tab c)" "flux_time c = t" using detect_ips(3) [OF ok] by (simp_all add: Seen)
    ultimately show ?thesis unfolding flux_knows_def by blast
  next
    case (Cleanup t)
    have "last_seen cs d' a' = Some u \<Longrightarrow> t - u < 600 \<Longrightarrow> map_of (flux_ips (flux_step m tab c) d') a' = Some u" for d' a' u
      using complete [of d' a' u] assms(2) by (simp add: Cleanup cleanup_ips(1) [OF ok] recent)
    then show ?thesis using sound cleanup_ips(2) [OF ok]
      by (auto simp: flux_knows_def Cleanup cleanup_ips(1) [OF ok] recent last_seen_snoc split: option.splits if_splits)
  qed
qed

lemma flux_knows_run:
  "flux_knows cs tab T \<Longrightarrow> sorted (T # map flux_time cs') \<Longrightarrow>
    flux_knows (cs @ cs') (foldl (flux_step m) tab cs') (last (T # map flux_time cs'))"
proof (induction cs' arbitrary: cs tab T)
  case (Cons c cs')
  have "flux_knows (cs @ [c]) (flux_step m tab c) (flux_time c)"
    by (rule flux_knows_step [where T = T]) (use Cons.prems in auto)
  then have "flux_knows ((cs @ [c]) @ cs') (foldl (flux_step m) (flux_step m tab c) cs') (last (flux_time c # map flux_time cs'))"
    using Cons.prems by (intro Cons.IH) simp_all
  then show ?case by simp
qed simp

section \<open>Properties\<close>

text \<open>C11: Whatever answers were seen and however often the housekeeping ran, an answer is reported as fast flux exactly if its
  domain has more than \<open>g_flux_ip_max\<close> distinct addresses that were seen within the last ten minutes, its own
  included.\<close>

theorem flux_detect_exact:
  assumes "sorted (map flux_time cs @ [now])"
  shows "fst (flux_detect m (foldl (flux_step m) [] cs) d a now) \<longleftrightarrow>
    m < card {x. \<exists>t. last_seen (cs @ [Seen d a now]) d x = Some t \<and> now - t < 600}"
proof -
  let ?tab = "foldl (flux_step m) [] cs" and ?c = "Seen d a now"
  let ?T = "case cs of [] \<Rightarrow> now | c # _ \<Rightarrow> flux_time c"
  have "flux_knows [] [] ?T" by (simp add: flux_knows_def flux_ok_def flux_ips_def flux_find_def)
  moreover have "sorted (?T # map flux_time (cs @ [?c]))" using assms by (cases cs) auto
  ultimately have k: "flux_knows (cs @ [?c]) (foldl (flux_step m) [] (cs @ [?c])) now"
    using flux_knows_run [of "[]" "[]" ?T "cs @ [?c]" m] by simp
  let ?tab' = "snd (flux_detect m ?tab d a now)"
  have tab': "foldl (flux_step m) [] (cs @ [?c]) = ?tab'" by simp
  have ok: "flux_ok ?tab"
  proof -
    have "flux_ok t \<Longrightarrow> flux_ok (foldl (flux_step m) t cs)" for t
    proof (induction cs arbitrary: t)
      case (Cons c cs)
      then show ?case using detect_ips(3) cleanup_ips(2) by (cases c) auto
    qed simp
    moreover have "flux_ok []" by (simp add: flux_ok_def)
    ultimately show ?thesis by blast
  qed
  have recent: "now - t < 600" if "map_of (flux_ips ?tab' d) x = Some t" for x t
    using that by (auto simp: detect_ips(1) [OF ok] touch_map_of keep_recent_map_of [OF flux_ips_distinct [OF ok]]
        split: if_splits option.splits)
  have "{x. \<exists>t. last_seen (cs @ [?c]) d x = Some t \<and> now - t < 600} = dom (map_of (flux_ips ?tab' d))"
    using k recent unfolding flux_knows_def tab' dom_def by blast
  also have "card \<dots> = length (flux_ips ?tab' d)"
    using distinct_card [OF flux_ips_distinct [OF detect_ips(3) [OF ok, of m d a now], of d]]
    by (simp add: dom_map_of_conv_image_fst)
  finally show ?thesis using detect_ips(2) [OF ok, of m d a now] by simp
qed

theorem flux_detect_exact_witness:
  "fst (flux_detect 2 (foldl (flux_step 2) [] [Seen ''a.'' 1 0, Seen ''a.'' 2 10, Cleanup 20, Seen ''b.'' 4 30]) ''a.'' 3 599) \<longleftrightarrow>
    2 < card {x. \<exists>t. last_seen ([Seen ''a.'' 1 0, Seen ''a.'' 2 10, Cleanup 20, Seen ''b.'' 4 30] @ [Seen ''a.'' 3 599]) ''a.'' x = Some t
      \<and> 599 - t < 600}"
  by (rule flux_detect_exact) simp

end
