(* ===== verification/C_Ngram.thy ===== *)
theory C_Ngram
  imports C_Prelude NGram_Model
begin

text \<open>
  The 4-gram part of \<open>src/src/policy.c\<close>: the model file that \<open>build_4grams.py\<close> writes is loaded into a hash
  table with linear probing, and the first label of a domain is scored with it in single precision.
  An empty slot is one whose gram starts with the character 0, as \<open>calloc\<close> leaves it. A float is the real
  number it stands for, rounded after every operation; infinities and NaN in a model file are outside the
  model. The lemmas show that the table finds what was loaded (the first record of each gram), that no probing
  runs for ever, and that what the firewall looks up is what the Python scorer looks up.
\<close>

section \<open>The table\<close>

definition HASH_SIZE :: "32 word" where "HASH_SIZE = 65536"
definition g_min_logprob :: real where "g_min_logprob = -20"
definition g_log_lo :: real where "g_log_lo = -20"
definition g_log_hi :: real where "g_log_hi = fl32 (-(1034 / 100))"

type_synonym ngram_entry = "string \<times> real"

record ngram_table =
  gslots :: "ngram_entry list"
  hash_capacity :: "32 word"

definition empty_slot :: "ngram_entry \<Rightarrow> bool" where
  "empty_slot e \<longleftrightarrow> hd (fst e) = CHR 0x00"

definition hash_4gram :: "string \<Rightarrow> 32 word" where
  "hash_4gram g = foldl (\<lambda>h c. (h XOR ucast (char_byte c)) * 16777619) 2166136261 g"

text \<open>\<open>while (hash_capacity < count * 2) hash_capacity <<= 1\<close>: the capacity passes 31 times through the loop at most
  before it becomes 0, from which on the loop does not end.\<close>

fun grow_capacity :: "nat \<Rightarrow> 32 word \<Rightarrow> 32 word \<Rightarrow> 32 word c_result" where
  "grow_capacity 0 cap twice = Inl (Fault Endless)"
| "grow_capacity (Suc n) cap twice = (if cap < twice then grow_capacity n (push_bit 1 cap) twice else Inr cap)"

text \<open>The probing loops. After as many steps as there are slots every slot has been seen.\<close>

fun free_slot :: "nat \<Rightarrow> ngram_entry list \<Rightarrow> 32 word \<Rightarrow> 32 word \<Rightarrow> 32 word c_result" where
  "free_slot 0 t m h = Inl (Fault Endless)"
| "free_slot (Suc n) t m h =
     (if empty_slot (t ! unat h) then Inr h else free_slot n t m ((h + 1) AND m))"

fun find_gram :: "nat \<Rightarrow> ngram_entry list \<Rightarrow> 32 word \<Rightarrow> string \<Rightarrow> 32 word \<Rightarrow> real c_result" where
  "find_gram 0 t m g h = Inl (Fault Endless)"
| "find_gram (Suc n) t m g h =
     (if empty_slot (t ! unat h) then Inr g_min_logprob
      else if fst (t ! unat h) = g then Inr (snd (t ! unat h))
      else find_gram n t m g ((h + 1) AND m))"

definition gram_slot :: "ngram_table \<Rightarrow> string \<Rightarrow> 32 word" where
  "gram_slot tab g = hash_4gram g AND (hash_capacity tab - 1)"

definition insert_gram :: "ngram_table \<Rightarrow> ngram_entry \<Rightarrow> ngram_table c_result" where
  "insert_gram tab e =
     cbind (free_slot (unat (hash_capacity tab)) (gslots tab) (hash_capacity tab - 1) (gram_slot tab (fst e))) (\<lambda>h.
       Inr (tab\<lparr>gslots := (gslots tab)[unat h := e]\<rparr>))"

definition lookup_gram :: "ngram_table \<Rightarrow> string \<Rightarrow> real c_result" where
  "lookup_gram tab g =
     find_gram (unat (hash_capacity tab)) (gslots tab) (hash_capacity tab - 1) g (gram_slot tab g)"

text \<open>The records that \<open>fread\<close> delivers, until the count or the file is exhausted.\<close>

fun file_records :: "nat \<Rightarrow> byte list \<Rightarrow> ngram_entry list" where
  "file_records 0 bs = []"
| "file_records (Suc k) bs =
     (case unpack_f32 (take 4 (drop 4 bs)) of
        Inl _ \<Rightarrow> []
      | Inr logp \<Rightarrow> (map byte_char (take 4 bs), logp) # file_records k (drop 8 bs))"

fun insert_all :: "ngram_table \<Rightarrow> ngram_entry list \<Rightarrow> ngram_table c_result" where
  "insert_all tab [] = Inr tab"
| "insert_all tab (e # es) = cbind (insert_gram tab e) (\<lambda>tab'. insert_all tab' es)"

text \<open>\<open>load_ngram_model\<close>; \<open>None\<close> is the null pointer \<open>hash_table\<close> when the file is missing or too short.\<close>

definition c_load_ngram_model :: "byte list option \<Rightarrow> ngram_table option c_result" where
  "c_load_ngram_model file =
     (case file of None \<Rightarrow> Inr None
      | Some bs \<Rightarrow>
          if length bs < 4 then Inr None
          else let count = (word_of_nat (of_le (take 4 bs)) :: 32 word) in
            cbind (grow_capacity 33 1 (count * 2)) (\<lambda>cap.
            let cap' = (if cap < HASH_SIZE then HASH_SIZE else cap) in
            cbind (insert_all \<lparr>gslots = replicate (unat cap') (replicate 4 (CHR 0x00), 0), hash_capacity = cap'\<rparr>
                     (file_records (unat count) (drop 4 bs))) (\<lambda>tab. Inr (Some tab))))"

section \<open>The score\<close>

text \<open>\<open>for (p = domain; *p && *p != '.'; p++)\<close>: the letters of the first label, in a buffer of 256.\<close>

definition c_label :: "string \<Rightarrow> string" where
  "c_label domain = c_lower (takeWhile (\<lambda>c. c \<noteq> CHR ''.'') (cstr domain))"

definition c_label_letters :: "string \<Rightarrow> string c_result" where
  "c_label_letters domain =
     (let ls = filter is_az (c_label domain) in if length ls \<le> 256 then Inr ls else Inl (Fault Overrun))"

fun sum_logprob :: "ngram_table \<Rightarrow> string list \<Rightarrow> real \<Rightarrow> real c_result" where
  "sum_logprob tab [] s = Inr s"
| "sum_logprob tab (g # gs) s = cbind (lookup_gram tab g) (\<lambda>logp. sum_logprob tab gs (fl32 (s + logp)))"

definition c_ngram_score_domain :: "ngram_table option \<Rightarrow> string \<Rightarrow> real c_result" where
  "c_ngram_score_domain tab domain =
     (case tab of None \<Rightarrow> Inr 0
      | Some t \<Rightarrow> cbind (c_label_letters domain) (\<lambda>ls.
          if length ls < 4 then Inr 0
          else cbind (sum_logprob t (grams 4 ls) 0) (\<lambda>sum.
            let avg = fl32 (sum / fl32 (of_nat (length (grams 4 ls))));
                norm = fl32 (fl32 (avg - g_log_lo) / fl32 (g_log_hi - g_log_lo));
                norm' = (if norm < 0 then 0 else norm);
                norm'' = (if 1 < norm' then 1 else norm')
            in Inr (fl32 (1 - norm'')))))"

section \<open>Probing\<close>

text \<open>The slots that a probe from \<open>h\<close> visits.\<close>

fun ring_path :: "nat \<Rightarrow> 32 word \<Rightarrow> 32 word \<Rightarrow> nat list" where
  "ring_path 0 m h = []"
| "ring_path (Suc n) m h = unat h # ring_path n m ((h + 1) AND m)"

lemma free_slot_path:
  "free_slot n t m h =
    (case List.find (\<lambda>i. empty_slot (t ! i)) (ring_path n m h) of None \<Rightarrow> Inl (Fault Endless) | Some i \<Rightarrow> Inr (word_of_nat i))"
  by (induction n arbitrary: h) auto

definition before_empty :: "ngram_entry list \<Rightarrow> nat list \<Rightarrow> ngram_entry list" where
  "before_empty t path = takeWhile (\<lambda>e. \<not> empty_slot e) (map ((!) t) path)"

lemma find_gram_path:
  "\<exists>i \<in> set (ring_path n m h). empty_slot (t ! i) \<Longrightarrow>
    find_gram n t m g h =
      Inr (case map_of (before_empty t (ring_path n m h)) g of None \<Rightarrow> g_min_logprob | Some v \<Rightarrow> v)"
  by (induction n arbitrary: h) (auto simp: before_empty_def split: prod.splits)

lemma find_empty: "List.find (\<lambda>i. empty_slot (t ! i)) p = Some i \<Longrightarrow> i \<in> set p \<and> empty_slot (t ! i)"
  by (auto simp: find_Some_iff)

text \<open>Filling a slot extends the entries that a probe passes, and only those of the probes that ended there.\<close>

lemma before_empty_update:
  assumes "distinct p" and "empty_slot (t ! i)" and "\<not> empty_slot e" and "i < length t" and "\<forall>j \<in> set p. j < length t"
  shows "\<exists>xs. before_empty (t[i := e]) p = before_empty t p @ xs \<and>
    (if List.find (\<lambda>j. empty_slot (t ! j)) p = Some i
     then \<exists>ys. xs = e # ys \<and> (\<forall>y \<in> set ys. y \<in> set t \<and> \<not> empty_slot y) else xs = [])"
  using assms(1,5)
proof (induction p)
  case (Cons j p)
  consider "j = i" | "j \<noteq> i" "empty_slot (t ! j)" | "j \<noteq> i" "\<not> empty_slot (t ! j)" by blast
  then show ?case
  proof cases
    case 1
    have "map ((!) (t[i := e])) p = map ((!) t) p"
      using Cons.prems(1) 1 by (intro map_cong refl nth_list_update_neq) auto
    then have "before_empty (t[i := e]) p = before_empty t p" unfolding before_empty_def by (rule arg_cong)
    moreover have "before_empty (t[i := e]) (j # p) = e # before_empty (t[i := e]) p" "before_empty t (j # p) = []"
      using 1 assms(2-4) by (simp_all add: before_empty_def)
    moreover have "\<forall>y \<in> set (before_empty t p). y \<in> set t \<and> \<not> empty_slot y"
      using Cons.prems(2) by (auto simp: before_empty_def dest!: set_takeWhileD)
    ultimately show ?thesis using 1 assms(2) by simp
  next
    case 2
    then show ?thesis by (simp add: before_empty_def)
  next
    case 3
    then show ?thesis using Cons by (simp add: before_empty_def)
  qed
qed (simp add: before_empty_def)

lemma some_empty:
  assumes "length (filter (\<lambda>e. \<not> empty_slot e) t) < length t"
  shows "\<exists>i < length t. empty_slot (t ! i)"
proof (rule ccontr)
  assume "\<not> ?thesis"
  then have "filter (\<lambda>e. \<not> empty_slot e) t = t" by (simp add: filter_id_conv) (metis in_set_conv_nth)
  then show False using assms by simp
qed

section \<open>The ring\<close>

lemma ring_step:
  assumes "k \<le> 31" and "unat (h :: 32 word) < 2 ^ k"
  shows "unat ((h + 1) AND (2 ^ k - 1)) = Suc (unat h) mod 2 ^ k"
proof -
  have "h + 1 = word_of_nat (Suc (unat h))" by simp
  then have "unat ((h + 1) AND mask k) = take_bit k (take_bit LENGTH(32) (Suc (unat h)))"
    by (simp only: take_bit_eq_mask [symmetric] unsigned_take_bit_eq unsigned_of_nat of_nat_id)
  also have "\<dots> = take_bit (min k LENGTH(32)) (Suc (unat h))" by (simp only: take_bit_take_bit)
  also have "min k LENGTH(32) = k" using assms(1) by simp
  also have "take_bit k (Suc (unat h)) = Suc (unat h) mod 2 ^ k" by (rule take_bit_eq_mod)
  finally show ?thesis by (simp add: mask_eq_exp_minus_1)
qed

lemma ring_path_eq:
  "k \<le> 31 \<Longrightarrow> unat h < 2 ^ k \<Longrightarrow> ring_path n (2 ^ k - 1) h = map (\<lambda>i. (unat h + i) mod 2 ^ k) [0..<n]"
proof (induction n arbitrary: h)
  case (Suc n)
  let ?h = "(h + 1) AND (2 ^ k - 1)"
  note h = ring_step [OF Suc.prems]
  have "unat ?h < 2 ^ k" by (simp add: h)
  then have "ring_path n (2 ^ k - 1) ?h = map (\<lambda>i. (unat ?h + i) mod 2 ^ k) [0..<n]" by (rule Suc.IH [OF Suc.prems(1)])
  also have "\<dots> = map (\<lambda>i. (unat h + i) mod 2 ^ k) [1..<Suc n]"
  proof -
    have "[1..<Suc n] = map Suc [0..<n]" by (simp add: map_Suc_upt del: upt_Suc)
    then show ?thesis unfolding h by (simp add: mod_simps del: upt_Suc)
  qed
  finally show ?case using Suc.prems(2) by (simp add: upt_conv_Cons del: upt_Suc)
qed simp

section \<open>What the table finds\<close>

text \<open>The table of \<open>2 ^ k\<close> slots, in which every entry is found by a probe for its gram.\<close>

definition gram_path :: "nat \<Rightarrow> string \<Rightarrow> nat list" where
  "gram_path k g = ring_path (2 ^ k) (2 ^ k - 1) (hash_4gram g AND (2 ^ k - 1))"

definition table_ok :: "nat \<Rightarrow> ngram_table \<Rightarrow> bool" where
  "table_ok k tab \<longleftrightarrow>
     k \<le> 31 \<and> hash_capacity tab = 2 ^ k \<and> length (gslots tab) = 2 ^ k \<and>
     (\<forall>e \<in> set (gslots tab). \<not> empty_slot e \<longrightarrow> e \<in> set (before_empty (gslots tab) (gram_path k (fst e))))"

definition entries :: "ngram_table \<Rightarrow> nat" where
  "entries tab = length (filter (\<lambda>e. \<not> empty_slot e) (gslots tab))"

lemma unat_small: "n < 2 ^ 32 \<Longrightarrow> unat (word_of_nat n :: 32 word) = n"
  by (simp add: unsigned_of_nat take_bit_nat_eq_self)

lemma unat_power:
  assumes "k \<le> 31"
  shows "unat (2 ^ k :: 32 word) = 2 ^ k"
proof -
  have "(2 :: nat) ^ k < 2 ^ 32" using assms by (intro power_strict_increasing) simp_all
  then have "unat (word_of_nat (2 ^ k) :: 32 word) = 2 ^ k" by (rule unat_small)
  then show ?thesis by simp
qed

lemma gram_path_eq:
  assumes "k \<le> 31"
  shows "gram_path k g = map (\<lambda>i. (unat (hash_4gram g AND (2 ^ k - 1)) + i) mod 2 ^ k) [0..<2 ^ k]"
proof -
  have "unat (hash_4gram g AND (2 ^ k - 1)) < 2 ^ k"
    by (simp only: mask_eq_exp_minus_1 [symmetric] take_bit_eq_mask [symmetric] unsigned_take_bit_eq take_bit_nat_less_exp)
  then show ?thesis unfolding gram_path_def by (rule ring_path_eq [OF assms])
qed

lemma gram_path: "k \<le> 31 \<Longrightarrow> set (gram_path k g) = {..<2 ^ k} \<and> distinct (gram_path k g)"
  by (simp only: gram_path_eq ring_set ring_distinct simp_thms)

lemma lookup_gram_eq:
  assumes ok: "table_ok k tab" and room: "entries tab < 2 ^ k"
  shows "lookup_gram tab g =
    Inr (case map_of (before_empty (gslots tab) (gram_path k g)) g of None \<Rightarrow> g_min_logprob | Some v \<Rightarrow> v)"
proof -
  have k: "k \<le> 31" "hash_capacity tab = 2 ^ k" using ok by (simp_all add: table_ok_def)
  have "\<exists>i < length (gslots tab). empty_slot (gslots tab ! i)"
    using ok room by (intro some_empty) (simp add: entries_def table_ok_def)
  then have "\<exists>i \<in> set (gram_path k g). empty_slot (gslots tab ! i)"
    using ok gram_path [OF k(1)] by (auto simp: table_ok_def)
  then show ?thesis
    by (simp add: lookup_gram_def gram_slot_def k(2) unat_power [OF k(1)] gram_path_def find_gram_path)
qed

text \<open>An insertion adds its gram and leaves the others alone; a gram that is there already keeps its value.\<close>

lemma insert_gram_ok:
  assumes ok: "table_ok k tab" and room: "entries tab < 2 ^ k" and e: "\<not> empty_slot e"
  shows "\<exists>tab'. insert_gram tab e = Inr tab' \<and> table_ok k tab' \<and> entries tab' = Suc (entries tab) \<and>
    (\<forall>g. map_of (before_empty (gslots tab') (gram_path k g)) g =
      (case map_of (before_empty (gslots tab) (gram_path k g)) g of
         Some v \<Rightarrow> Some v | None \<Rightarrow> if g = fst e then Some (snd e) else None))"
proof -
  let ?t = "gslots tab" and ?p = "gram_path k"
  have k: "k \<le> 31" "hash_capacity tab = 2 ^ k" "length ?t = 2 ^ k" using ok by (simp_all add: table_ok_def)
  have reach: "x \<in> set (before_empty ?t (?p (fst x)))" if "x \<in> set ?t" "\<not> empty_slot x" for x
    using ok that by (simp add: table_ok_def)
  have "\<exists>i < length ?t. empty_slot (?t ! i)" using k room by (intro some_empty) (simp add: entries_def)
  then have "\<exists>i \<in> set (?p (fst e)). empty_slot (?t ! i)" using gram_path [OF k(1)] k(3) by auto
  then obtain i where i: "List.find (\<lambda>j. empty_slot (?t ! j)) (?p (fst e)) = Some i"
    by (metis find_None_iff not_None_eq)
  then have it: "empty_slot (?t ! i)" "i < 2 ^ k" using find_empty gram_path [OF k(1)] by blast+
  let ?t' = "?t[i := e]"
  have upd: "\<exists>xs. before_empty ?t' (?p g) = before_empty ?t (?p g) @ xs \<and>
      (if List.find (\<lambda>j. empty_slot (?t ! j)) (?p g) = Some i
       then \<exists>ys. xs = e # ys \<and> (\<forall>y \<in> set ys. y \<in> set ?t \<and> \<not> empty_slot y) else xs = [])" for g
    using gram_path [OF k(1)] it e k(3) by (intro before_empty_update) auto
  have look: "map_of (before_empty ?t' (?p g)) g =
      (case map_of (before_empty ?t (?p g)) g of
         Some v \<Rightarrow> Some v | None \<Rightarrow> if g = fst e then Some (snd e) else None)" for g
  proof -
    obtain xs where xs: "before_empty ?t' (?p g) = before_empty ?t (?p g) @ xs"
      "if List.find (\<lambda>j. empty_slot (?t ! j)) (?p g) = Some i
       then \<exists>ys. xs = e # ys \<and> (\<forall>y \<in> set ys. y \<in> set ?t \<and> \<not> empty_slot y) else xs = []"
      using upd by blast
    have "map_of ys g = None" if "map_of (before_empty ?t (?p g)) g = None" "\<forall>y \<in> set ys. y \<in> set ?t \<and> \<not> empty_slot y" for ys
      using that reach by (auto simp: map_of_eq_None_iff)
    then show ?thesis using xs i by (auto simp: map_add_def split: option.splits if_splits)
  qed
  have "e \<in> set (before_empty ?t' (?p (fst e)))" using upd [of "fst e"] i by auto
  moreover have "x \<in> set (before_empty ?t' (?p (fst x)))" if "x \<in> set ?t" "\<not> empty_slot x" for x
    using upd [of "fst x"] reach [OF that] by auto
  ultimately have "\<forall>x \<in> set ?t'. \<not> empty_slot x \<longrightarrow> x \<in> set (before_empty ?t' (?p (fst x)))"
    using set_update_subset_insert by fastforce
  moreover have "insert_gram tab e = Inr (tab\<lparr>gslots := ?t'\<rparr>)"
  proof -
    have "unat (word_of_nat i :: 32 word) = i"
      using it(2) k(1) power_increasing [of k 31 "2 :: nat"] by (intro unat_small) simp
    then show ?thesis
      using i by (simp add: insert_gram_def gram_slot_def k(2) unat_power [OF k(1)] free_slot_path flip: gram_path_def)
  qed
  moreover have "length (filter (\<lambda>e. \<not> empty_slot e) ?t') = Suc (length (filter (\<lambda>e. \<not> empty_slot e) ?t))"
    using filter_update [of i ?t "\<lambda>e. \<not> empty_slot e" e] it e k(3) by simp
  ultimately show ?thesis using k look by (simp add: table_ok_def entries_def)
qed

lemma insert_all_ok:
  assumes "table_ok k tab" and "entries tab + length es < 2 ^ k" and "list_all (\<lambda>e. \<not> empty_slot e) es"
  shows "\<exists>tab'. insert_all tab es = Inr tab' \<and> table_ok k tab' \<and> entries tab' = entries tab + length es \<and>
    (\<forall>g. map_of (before_empty (gslots tab') (gram_path k g)) g =
      (case map_of (before_empty (gslots tab) (gram_path k g)) g of Some v \<Rightarrow> Some v | None \<Rightarrow> map_of es g))"
  using assms
proof (induction es arbitrary: tab)
  case Nil
  then show ?case by (auto split: option.splits)
next
  case (Cons e es)
  have "entries tab < 2 ^ k" "\<not> empty_slot e" using Cons.prems by simp_all
  then obtain tab1 where tab1: "insert_gram tab e = Inr tab1" "table_ok k tab1" "entries tab1 = Suc (entries tab)"
    "\<forall>g. map_of (before_empty (gslots tab1) (gram_path k g)) g =
      (case map_of (before_empty (gslots tab) (gram_path k g)) g of
         Some v \<Rightarrow> Some v | None \<Rightarrow> if g = fst e then Some (snd e) else None)"
    using insert_gram_ok [OF Cons.prems(1)] by blast
  obtain tab2 where tab2: "insert_all tab1 es = Inr tab2" "table_ok k tab2" "entries tab2 = entries tab1 + length es"
    "\<forall>g. map_of (before_empty (gslots tab2) (gram_path k g)) g =
      (case map_of (before_empty (gslots tab1) (gram_path k g)) g of Some v \<Rightarrow> Some v | None \<Rightarrow> map_of es g)"
    using Cons.IH [OF tab1(2)] Cons.prems tab1(3) by auto
  have "map_of (before_empty (gslots tab2) (gram_path k g)) g =
      (case map_of (before_empty (gslots tab) (gram_path k g)) g of Some v \<Rightarrow> Some v | None \<Rightarrow> map_of (e # es) g)" for g
    using tab1(4) tab2(4) by (cases e) (simp split: option.split)
  then show ?case using tab1(1,3) tab2 by (intro exI [of _ tab2]) simp
qed

lemma empty_table:
  assumes "k \<le> 31"
  shows "table_ok k \<lparr>gslots = replicate (2 ^ k) (replicate 4 (CHR 0x00), 0), hash_capacity = 2 ^ k\<rparr>" (is "table_ok k ?tab")
    and "entries \<lparr>gslots = replicate (2 ^ k) (replicate 4 (CHR 0x00), 0), hash_capacity = 2 ^ k\<rparr> = 0"
    and "before_empty (replicate (2 ^ k) (replicate 4 (CHR 0x00), 0)) (gram_path k g) = []"
proof -
  have e: "empty_slot (replicate 4 (CHR 0x00), 0)" by (simp add: empty_slot_def numeral_eq_Suc)
  then show "table_ok k ?tab" "entries ?tab = 0" using assms by (simp_all add: table_ok_def entries_def)
  have "\<forall>x \<in> set (map ((!) (replicate (2 ^ k) (replicate 4 (CHR 0x00), 0 :: real))) (gram_path k g)). empty_slot x"
    using e gram_path [OF assms, of g] by auto
  then show "before_empty (replicate (2 ^ k) (replicate 4 (CHR 0x00), 0)) (gram_path k g) = []"
    unfolding before_empty_def by (cases "map ((!) (replicate (2 ^ k) (replicate 4 (CHR 0x00), 0 :: real))) (gram_path k g)") auto
qed

lemma grow_capacity_ok:
  assumes "unat twice \<le> 2 ^ 31" and "j \<le> 31" and "31 - j < n"
  shows "\<exists>k. j \<le> k \<and> k \<le> 31 \<and> grow_capacity n (2 ^ j) twice = Inr (2 ^ k) \<and> unat twice \<le> 2 ^ k"
  using assms(2,3)
proof (induction n arbitrary: j)
  case (Suc n)
  show ?case
  proof (cases "(2 :: 32 word) ^ j < twice")
    case True
    then have "2 ^ j < unat twice" using unat_power [OF Suc.prems(1)] by (simp add: word_less_nat_alt)
    then have "(2 :: nat) ^ j < 2 ^ 31" using assms(1) by (rule less_le_trans)
    then have "j < 31" by (simp only: power_strict_increasing_iff)
    then obtain k where "Suc j \<le> k" "k \<le> 31" "grow_capacity n (2 ^ Suc j) twice = Inr (2 ^ k)" "unat twice \<le> 2 ^ k"
    proof -
      have "Suc j \<le> 31" "31 - Suc j < n" using \<open>j < 31\<close> Suc.prems(2) by linarith+
      then show thesis using Suc.IH that by blast
    qed
    then show ?thesis using True by (intro exI [of _ k]) (simp add: push_bit_eq_mult mult.commute)
  next
    case False
    then show ?thesis using Suc.prems(1) unat_power [OF Suc.prems(1)]
      by (intro exI [of _ j]) (simp add: word_less_nat_alt not_less)
  qed
qed simp

lemma length_file_records: "length (file_records n bs) \<le> n"
  by (induction n bs rule: file_records.induct) (auto split: sum.splits)

text \<open>
  Any other file: a record whose gram starts with the character 0 leaves its slot empty, and a probe may pass
  entries of other grams; but there is always a free slot, so no probing runs for ever.
\<close>

definition shaped :: "nat \<Rightarrow> ngram_table \<Rightarrow> bool" where
  "shaped k tab \<longleftrightarrow> k \<le> 31 \<and> hash_capacity tab = 2 ^ k \<and> length (gslots tab) = 2 ^ k"

lemma free_on_path:
  assumes "shaped k tab" and "entries tab < 2 ^ k"
  shows "\<exists>i \<in> set (gram_path k g). empty_slot (gslots tab ! i)"
proof -
  have "\<exists>i < length (gslots tab). empty_slot (gslots tab ! i)"
    using assms by (intro some_empty) (simp add: entries_def shaped_def)
  then show ?thesis using assms(1) gram_path [of k g] by (auto simp: shaped_def)
qed

lemma lookup_ends:
  assumes "shaped k tab" and "entries tab < 2 ^ k"
  shows "\<exists>v. lookup_gram tab g = Inr v"
proof -
  have k: "k \<le> 31" "hash_capacity tab = 2 ^ k" using assms(1) by (simp_all add: shaped_def)
  show ?thesis
    using free_on_path [OF assms, of g]
    by (simp add: lookup_gram_def gram_slot_def k(2) unat_power [OF k(1)] gram_path_def find_gram_path)
qed

lemma insert_ends:
  assumes "shaped k tab" and "entries tab < 2 ^ k"
  shows "\<exists>tab'. insert_gram tab e = Inr tab' \<and> shaped k tab' \<and> entries tab' \<le> Suc (entries tab)"
proof -
  have k: "k \<le> 31" "hash_capacity tab = 2 ^ k" "length (gslots tab) = 2 ^ k" using assms(1) by (simp_all add: shaped_def)
  obtain i where i: "List.find (\<lambda>j. empty_slot (gslots tab ! j)) (gram_path k (fst e)) = Some i"
    using free_on_path [OF assms, of "fst e"] by (metis find_None_iff not_None_eq)
  then have it: "empty_slot (gslots tab ! i)" "i < 2 ^ k" using find_empty gram_path [OF k(1)] by blast+
  have "unat (word_of_nat i :: 32 word) = i"
    using it(2) k(1) power_increasing [of k 31 "2 :: nat"] by (intro unat_small) simp
  then have "insert_gram tab e = Inr (tab\<lparr>gslots := (gslots tab)[i := e]\<rparr>)"
    using i by (simp add: insert_gram_def gram_slot_def k(2) unat_power [OF k(1)] free_slot_path flip: gram_path_def)
  moreover have "entries (tab\<lparr>gslots := (gslots tab)[i := e]\<rparr>) \<le> Suc (entries tab)"
    using filter_update [of i "gslots tab" "\<lambda>e. \<not> empty_slot e" e] it k(3) by (simp add: entries_def split: if_splits)
  ultimately show ?thesis using k by (simp add: shaped_def)
qed

lemma insert_all_ends:
  "shaped k tab \<Longrightarrow> entries tab + length es < 2 ^ k \<Longrightarrow>
    \<exists>tab'. insert_all tab es = Inr tab' \<and> shaped k tab' \<and> entries tab' < 2 ^ k"
proof (induction es arbitrary: tab)
  case (Cons e es)
  then obtain tab1 where "insert_gram tab e = Inr tab1" "shaped k tab1" "entries tab1 \<le> Suc (entries tab)"
    using insert_ends [OF Cons.prems(1), of e] by auto
  then show ?case using Cons.IH [of tab1] Cons.prems(2) by simp
qed auto

text \<open>The capacity that a count leads to.\<close>

lemma capacity_ok:
  assumes n: "n \<le> 2 ^ 30"
  obtains k0 k where "k \<le> 31" and "grow_capacity 33 1 (word_of_nat n * 2) = Inr (2 ^ k0)"
    and "(if 2 ^ k0 < HASH_SIZE then HASH_SIZE else 2 ^ k0) = 2 ^ k" and "n < 2 ^ k"
proof -
  let ?count = "word_of_nat n :: 32 word"
  have "unat (word_of_nat (n * 2) :: 32 word) = n * 2" using n by (intro unat_small) simp
  then have twice: "unat (?count * 2) = n * 2" by (simp add: mult.commute)
  then obtain k0 where k0: "k0 \<le> 31" "grow_capacity 33 1 (?count * 2) = Inr (2 ^ k0)" "n * 2 \<le> 2 ^ k0"
    using grow_capacity_ok [of "?count * 2" 0 33] n by auto
  define k where "k = max k0 16"
  have k: "k \<le> 31" using k0(1) by (simp add: k_def)
  have "HASH_SIZE = 2 ^ 16" by (simp add: HASH_SIZE_def)
  then have cap: "(if 2 ^ k0 < HASH_SIZE then HASH_SIZE else 2 ^ k0) = 2 ^ k"
    using unat_power [OF k0(1)] unat_power [of 16] power_strict_increasing_iff [of "2 :: nat" k0 16]
    by (simp only: word_less_nat_alt k_def max_def) (simp split: if_splits)
  have "(2 :: nat) ^ k0 \<le> 2 ^ k" by (rule power_increasing) (simp_all add: k_def)
  then have "n * 2 \<le> 2 ^ k" using k0(3) by (rule order_trans [rotated])
  then have "n < 2 ^ k" by (cases n) simp_all
  then show thesis using that k0(2) k cap by blast
qed

lemma load_ends:
  assumes "of_le (take 4 bs) \<le> 2 ^ 30"
  shows "\<exists>tab. c_load_ngram_model (Some bs) = Inr tab \<and> (\<forall>t g. tab = Some t \<longrightarrow> (\<exists>v. lookup_gram t g = Inr v))"
proof (cases "length bs < 4")
  case False
  define n where "n = of_le (take 4 bs)"
  have count: "unat (word_of_nat n :: 32 word) = n" using assms by (intro unat_small) (simp add: n_def)
  obtain k0 k where k: "k \<le> 31" "grow_capacity 33 1 (word_of_nat n * 2) = Inr (2 ^ k0)"
    "(if 2 ^ k0 < HASH_SIZE then HASH_SIZE else 2 ^ k0) = 2 ^ k" "n < 2 ^ k"
    using capacity_ok [of n] assms unfolding n_def by blast
  let ?tab = "\<lparr>gslots = replicate (2 ^ k) (replicate 4 (CHR 0x00), 0), hash_capacity = 2 ^ k\<rparr> :: ngram_table"
  have "length (file_records n (drop 4 bs)) < 2 ^ k" using length_file_records [of n "drop 4 bs"] k(4) by (rule le_less_trans)
  then obtain tab where tab: "insert_all ?tab (file_records n (drop 4 bs)) = Inr tab" "shaped k tab" "entries tab < 2 ^ k"
    using insert_all_ends [of k ?tab "file_records n (drop 4 bs)"] k(1) empty_table(2) [OF k(1)] by (auto simp: shaped_def)
  then have "c_load_ngram_model (Some bs) = Inr (Some tab)"
    using False k(2) by (simp add: c_load_ngram_model_def Let_def count k(3) unat_power [OF k(1)] flip: n_def)
  then show ?thesis using lookup_ends [OF tab(2,3)] by auto
qed (simp add: c_load_ngram_model_def)

text \<open>A file whose grams do not start with the character 0: every record that is read, the first one of each gram.\<close>

lemma load_file:
  assumes n: "n \<le> 2 ^ 30" and bs: "bs = le_bytes 4 n @ rest"
    and grams: "list_all (\<lambda>e. \<not> empty_slot e) (file_records n rest)"
  shows "\<exists>tab. c_load_ngram_model (Some bs) = Inr (Some tab) \<and>
    (\<forall>g. lookup_gram tab g = Inr (case map_of (file_records n rest) g of None \<Rightarrow> g_min_logprob | Some v \<Rightarrow> v))"
proof -
  let ?count = "word_of_nat n :: 32 word"
  have count: "unat ?count = n" using n by (intro unat_small) simp
  obtain k0 k where k: "k \<le> 31" and k0: "grow_capacity 33 1 (?count * 2) = Inr (2 ^ k0)"
    and cap: "(if 2 ^ k0 < HASH_SIZE then HASH_SIZE else 2 ^ k0) = 2 ^ k" and "n < 2 ^ k"
    using capacity_ok [OF n] by blast
  then have "length (file_records n rest) < 2 ^ k" using length_file_records [of n rest] by linarith
  then obtain tab where tab: "insert_all \<lparr>gslots = replicate (2 ^ k) (replicate 4 (CHR 0x00), 0), hash_capacity = 2 ^ k\<rparr>
      (file_records n rest) = Inr tab" "table_ok k tab" "entries tab = length (file_records n rest)"
    "\<And>g. map_of (before_empty (gslots tab) (gram_path k g)) g = map_of (file_records n rest) g"
    using insert_all_ok [OF empty_table(1) [OF k], of "file_records n rest"] grams empty_table(2,3) [OF k] by auto
  have "of_le (take 4 bs) = n" "drop 4 bs = rest" "\<not> length bs < 4"
    using n by (simp_all add: bs of_le_le_bytes)
  then have "c_load_ngram_model (Some bs) = Inr (Some tab)"
    using tab(1) k0 by (simp add: c_load_ngram_model_def Let_def count cap unat_power [OF k])
  moreover have "entries tab < 2 ^ k" using tab(3) \<open>length (file_records n rest) < 2 ^ k\<close> by simp
  ultimately show ?thesis using lookup_gram_eq [OF tab(2)] tab(4) by auto
qed

text \<open>The records of a file that the builder wrote.\<close>

lemma map_byte_char_ascii:
  assumes "ascii_encode g = Inr gb"
  shows "map byte_char gb = g \<and> length gb = length g"
proof -
  have "byte_char (word_of_int (ord c)) = c" for c
    using byte_char_byte [of c] by (simp add: char_byte_def)
  then show ?thesis using assms by (auto simp: ascii_encode_def o_def map_idI split: if_splits)
qed

lemma written_records:
  assumes "list_all (\<lambda>(g, n). length g = 4) c" and "write_grams tot len c = Inr bs"
  shows "file_records (length c) bs = gram_logs tot len c"
  using assms
proof (induction c arbitrary: bs)
  case (Cons p c)
  obtain g n where p: "p = (g, n)" by fastforce
  obtain logp gb fb rest where parts: "math_log2 (gram_prob tot len n) = Inr logp" "ascii_encode g = Inr gb"
    "pack_f32 logp = Inr fb" "write_grams tot len c = Inr rest" "bs = gb @ fb @ rest"
    using Cons.prems(2) by (auto simp: p rbind_eq_Inr)
  have gb: "map byte_char gb = g" "length gb = 4"
    using map_byte_char_ascii [OF parts(2)] Cons.prems(1) by (simp_all add: p)
  have fb: "length fb = 4" "unpack_f32 fb = Inr (fl32 logp)"
    using parts(3) unpack_pack_f32 [OF parts(3)] by (auto simp: pack_f32_def Let_def split: if_splits)
  have "logp = py_log2 (gram_prob tot len n)" using parts(1) by (auto simp: math_log2_def split: if_splits)
  then show ?case using Cons.IH [OF _ parts(4)] Cons.prems(1) gb fb by (simp add: p parts(5) gram_logs_def)
qed (simp add: gram_logs_def)

section \<open>Properties\<close>

text \<open>C14: The firewall and the Python scorer agree on a model file: when \<open>build_4grams.py\<close> has written it from a corpus
  of up to \<open>2 ^ 63\<close> grams, loading it into the hash table of \<open>policy.c\<close> ends, every lookup in the table ends,
  and finds for each gram the number that \<open>dga_score.py\<close> finds in its dictionary, the default included.\<close>

theorem firewall_reads_model:
  assumes "counter_total (count_lines extract_4grams top_n ls) \<le> 2 ^ 63"
  shows "\<exists>bs model tab. build_model_4grams top_n ls = Inr bs \<and> load_ngram_model (Some bs) = Inr model \<and>
    c_load_ngram_model (Some bs) = Inr (Some tab) \<and> (\<forall>g. lookup_gram tab g = Inr (ngram_get model g))"
proof -
  let ?c = "count_lines extract_4grams top_n ls"
  let ?m = "most_common ?c"
  obtain bs where bs: "build_model_4grams top_n ls = Inr bs" "load_ngram_model (Some bs) = Inr (model_of ?c)"
    using build_load_4grams [OF assms] by blast
  then obtain h rest where parts: "pack_le 4 (int (length ?c)) = Inr h"
    "write_grams (counter_total ?c) (length ?c) ?m = Inr rest" "bs = h @ rest"
    by (auto simp: build_model_4grams_def write_model_def rbind_eq_Inr)
  have keys: "length g = 4 \<and> list_all is_az g" if "g \<in> fst ` set ?c" for g
    using that extract_4grams_shape by (auto simp: count_lines_facts(3) corpus_grams_def)
  have shape: "length g = 4 \<and> list_all is_az g" if "(g, n) \<in> set ?c" for g n
    by (rule keys) (rule image_eqI [OF _ that], simp)
  have "list_all (\<lambda>(g, n). length g = 4) ?m"
    using shape unfolding list_all_iff most_common_facts(1) by blast
  then have rec: "file_records (length ?c) rest = model_of ?c"
    using written_records [OF _ parts(2)] by (simp only: most_common_facts(2) model_of_def)
  have "\<not> empty_slot e" if "e \<in> set (model_of ?c)" for e
  proof -
    obtain g n v where e: "e = (g, v)" "(g, n) \<in> set ?c"
      using \<open>e \<in> set (model_of ?c)\<close> by (auto simp: model_of_def gram_logs_def most_common_facts)
    then have g: "length g = 4" "list_all is_az g" using shape by blast+
    then have "is_az (hd g)" by (cases g) auto
    moreover have "\<not> is_az (CHR 0x00)" by code_simp
    ultimately show ?thesis by (auto simp: e empty_slot_def)
  qed
  moreover have "length ?c \<le> 2 ^ 30"
  proof -
    have "length ?c \<le> 26 ^ 4" using extract_4grams_shape by (rule count_lines_size)
    then show ?thesis by simp
  qed
  moreover have "h = le_bytes 4 (length ?c)" using parts(1) by (simp add: pack_le_def split: if_splits)
  ultimately obtain tab where "c_load_ngram_model (Some bs) = Inr (Some tab)"
    "\<And>g. lookup_gram tab g = Inr (case map_of (model_of ?c) g of None \<Rightarrow> g_min_logprob | Some v \<Rightarrow> v)"
    using load_file [of "length ?c" bs rest] rec parts(3) by (auto simp: list_all_iff)
  then have "\<forall>g. lookup_gram tab g = Inr (ngram_get (model_of ?c) g)"
    by (simp add: ngram_get_def g_min_logprob_def MIN_LOGPROB_def split: option.split)
  then show ?thesis using bs \<open>c_load_ngram_model (Some bs) = Inr (Some tab)\<close> by blast
qed

theorem firewall_reads_model_witness:
  "\<exists>bs model tab. build_model_4grams 2 [''google.com'', ''goog.ro''] = Inr bs \<and> load_ngram_model (Some bs) = Inr model \<and>
    c_load_ngram_model (Some bs) = Inr (Some tab) \<and> (\<forall>g. lookup_gram tab g = Inr (ngram_get model g))"
proof (rule firewall_reads_model)
  have "count_lines extract_4grams 2 [''google.com'', ''goog.ro''] = [(''goog'', 2), (''oogl'', 1), (''ogle'', 1)]"
    by code_simp
  then show "counter_total (count_lines extract_4grams 2 [''google.com'', ''goog.ro'']) \<le> 2 ^ 63"
    by (simp add: counter_total_def)
qed

end
