(* ===== verification/C_Score.thy ===== *)
theory C_Score
  imports C_Ngram
begin

text \<open>
  \<open>dga_score_domain\<close> and \<open>vowel_consonant_score\<close> of \<open>src/src/policy.c\<close>: the score that the firewall
  compares with its threshold. Floats are rounded to binary32 after every operation (\<open>float\<close> arithmetic without
  contraction to fused operations); \<open>log2f\<close> is idealised to the correctly rounded result, as \<open>math.log2\<close> is for the scripts. The
  loops over the characters are those of the Python scorer, so they share its statistics \<open>tally\<close> and \<open>vc_state\<close>.
  The lemmas show that the score is defined and not negative for every name, does not depend on case,
  and how it differs from the one the scripts evaluate.
\<close>

section \<open>Scores\<close>

definition log2f :: "real \<Rightarrow> real" where
  "log2f x = fl32 (log 2 x)"

text \<open>\<open>(float)a / b\<close> on integers.\<close>

definition float_div :: "nat \<Rightarrow> nat \<Rightarrow> real" where
  "float_div a b = fl32 (fl32 (of_nat a) / fl32 (of_nat b))"

fun entropy32_loop :: "nat \<Rightarrow> nat list \<Rightarrow> real \<Rightarrow> real" where
  "entropy32_loop n [] e = e"
| "entropy32_loop n (cnt # cs) e =
     entropy32_loop n cs (if 0 < cnt then let p = float_div cnt n in fl32 (e - fl32 (p * log2f p)) else e)"

definition vowel_consonant_score :: "string \<Rightarrow> real" where
  "vowel_consonant_score domain =
     (let s = vc_of (c_label domain); tot = vowels s + cons s in
      if tot < 2 then 0
      else let ratio = float_div (vowels s) tot;
               r = fl32 (1 - fl32 (\<bar>fl32 (ratio - fl32 (45 / 100))\<bar> * 2));
               ratio_score = (if r < 0 then 0 else r);
               alt_score = float_div (alt s) (tot - 1)
           in fl32 (fl32 (ratio_score * (1 / 2)) + fl32 (alt_score * (1 / 2))))"

definition weighted_sum :: "real \<Rightarrow> real \<Rightarrow> real \<Rightarrow> real \<Rightarrow> real \<Rightarrow> real \<Rightarrow> real" where
  "weighted_sum e d t l ng vc =
     fl32 (fl32 (fl32 (fl32 (fl32 (fl32 (e * fl32 (20 / 100)) + fl32 (d * fl32 (15 / 100))) + fl32 (t * fl32 (15 / 100)))
       + fl32 (l * fl32 (10 / 100))) + fl32 (ng * fl32 (25 / 100))) + fl32 (vc * fl32 (15 / 100)))"

definition dga_score_domain :: "ngram_table option \<Rightarrow> string \<Rightarrow> real c_result" where
  "dga_score_domain tab domain0 =
     (let domain = cstr domain0; len = length domain in
      if len < 5 then Inr 0
      else let t = tally_of (c_lower domain) in
        if total t < 2 then Inr 0
        else
          let entropy = (if 0 < letters t then entropy32_loop (letters t) (counts t) 0 else 0);
              entropy_norm = fl32 (entropy / fl32 (47 / 10));
              digit_ratio = float_div (digits_seen t) len;
              transition_score = (if 1 < len then float_div (transitions t) (len - 1) else 0);
              len_score = (if 20 < len then 1 else if 12 < len then 1 / 2 else 0)
          in cbind (c_ngram_score_domain tab domain) (\<lambda>ngram.
               Inr (weighted_sum entropy_norm digit_ratio transition_score len_score ngram (vowel_consonant_score domain))))"

section \<open>Bounds\<close>

lemma float_div_unit:
  assumes "a \<le> b" and "b \<le> 2 ^ 24"
  shows "0 \<le> float_div a b \<and> float_div a b \<le> 1"
proof -
  have "fl32 (of_nat a) = of_nat a" "fl32 (of_nat b) = of_nat b" using assms by (auto intro!: f32.nat_exact)
  then show ?thesis using assms(1) f32.quotient_unit [of "of_nat a" "of_nat b"] by (simp add: float_div_def)
qed

lemma entropy32_nonneg: "0 \<le> e \<Longrightarrow> sum_list cs \<le> n \<Longrightarrow> n \<le> 2 ^ 24 \<Longrightarrow> 0 \<le> entropy32_loop n cs e"
proof (induction n cs e rule: entropy32_loop.induct)
  case (2 n cnt cs e)
  define p where "p = float_div cnt n"
  have p: "0 \<le> p" "p \<le> 1" using float_div_unit [of cnt n] "2.prems" by (simp_all add: p_def)
  have "p * log2f p \<le> 0"
  proof (cases "p = 0")
    case False
    then have "log2f p \<le> 0" using p unfolding log2f_def by (intro f32.nonpos) simp
    then show ?thesis using p(1) by (simp add: mult_nonneg_nonpos)
  qed simp
  then have "0 \<le> fl32 (e - fl32 (p * log2f p))"
    using f32.nonpos [of "p * log2f p"] "2.prems"(1) by (intro f32.nonneg) linarith
  then show ?case using "2.IH" "2.prems" by (simp add: p_def Let_def)
qed simp

lemma weighted_sum_lower:
  assumes "0 \<le> e" and "0 \<le> d" and "0 \<le> t" and "0 \<le> l" and "0 \<le> ng" and "0 \<le> vc"
  shows "fl32 (l * fl32 (10 / 100)) \<le> weighted_sum e d t l ng vc"
proof -
  have idem: "fl32 (fl32 x) = fl32 x" for x unfolding fl32_def by (rule fround_idem) simp
  have nn: "0 \<le> fl32 (x * fl32 (c / 100))" if "0 \<le> x" "0 \<le> c" for x c :: real
    using that by (intro f32.nonneg mult_nonneg_nonneg) simp_all
  have left: "fl32 x \<le> fl32 (a + fl32 x)" if "0 \<le> a" for a x
    using f32.mono [of "fl32 x" "a + fl32 x"] that by (simp add: idem)
  have right: "y \<le> fl32 (fl32 x + a)" if "y \<le> fl32 x" "0 \<le> a" for a x y
    using f32.mono [of "fl32 x" "fl32 x + a"] that by (simp add: idem)
  show ?thesis unfolding weighted_sum_def
    using assms by (intro right left nn f32.nonneg add_nonneg_nonneg) simp_all
qed

lemma vowel_consonant_unit:
  assumes "length domain < 2 ^ 24"
  shows "0 \<le> vowel_consonant_score domain"
proof -
  define s where "s = vc_of (c_label domain)"
  have "alt s \<le> vowels s + cons s - 1" using vc_of_inv [of "c_label domain"] by (auto simp: s_def vc_inv_def split: if_splits)
  moreover have "vowels s + cons s \<le> 2 ^ 24"
  proof -
    have "vowels (foldl vc_char t cs) + cons (foldl vc_char t cs) \<le> vowels t + cons t + length cs" for t cs
    proof (induction cs arbitrary: t)
      case (Cons c cs)
      have "vowels (vc_char t c) + cons (vc_char t c) \<le> vowels t + cons t + 1" by (simp add: vc_char_def)
      then show ?case using Cons.IH [of "vc_char t c"] by simp
    qed simp
    then have "vowels s + cons s \<le> length (c_label domain)"
      unfolding s_def vc_of_def by (metis (no_types, lifting) add_0 vc_state.select_convs(1,2))
    also have "\<dots> \<le> length domain"
      using length_takeWhile_le [of "\<lambda>c. c \<noteq> CHR ''.''" "cstr domain"] length_cstr [of domain]
      by (simp add: c_label_def)
    finally show ?thesis using assms by simp
  qed
  ultimately have "0 \<le> float_div (alt s) (vowels s + cons s - 1)" using float_div_unit by simp
  moreover have "0 \<le> fl32 (fl32 (q * (1 / 2)) + fl32 (a * (1 / 2)))" if "0 \<le> q" "0 \<le> a" for q a
    using that by (intro f32.nonneg add_nonneg_nonneg) simp_all
  ultimately show ?thesis
    unfolding vowel_consonant_score_def s_def [symmetric] Let_def by (cases "vowels s + cons s < 2") (simp_all only: if_True if_False order_refl, simp)
qed

section \<open>The score is always defined\<close>

text \<open>No table, or one in which every lookup ends.\<close>

definition good_model :: "ngram_table option \<Rightarrow> bool" where
  "good_model tab \<longleftrightarrow> (\<forall>t. tab = Some t \<longrightarrow> (\<forall>g. \<exists>v. lookup_gram t g = Inr v))"

lemma sum_logprob_defined: "\<forall>g. \<exists>v. lookup_gram t g = Inr v \<Longrightarrow> \<exists>v. sum_logprob t gs s = Inr v"
proof (induction gs arbitrary: s)
  case (Cons g gs)
  obtain v where "lookup_gram t g = Inr v" using Cons.prems by blast
  then show ?case using Cons by simp
qed simp

lemma length_c_label: "length (c_label domain) \<le> length domain"
  using length_takeWhile_le [of "\<lambda>c. c \<noteq> CHR ''.''" "cstr domain"] length_cstr [of domain] by (simp add: c_label_def)

lemma ngram_score_defined:
  assumes "good_model tab" and "length domain \<le> 256"
  shows "\<exists>v. c_ngram_score_domain tab domain = Inr v \<and> 0 \<le> v"
proof (cases tab)
  case (Some t)
  let ?ls = "filter is_az (c_label domain)"
  have "length ?ls \<le> 256" using length_filter_le [of is_az "c_label domain"] length_c_label [of domain] assms(2) by linarith
  then have ls: "c_label_letters domain = Inr ?ls" by (simp add: c_label_letters_def)
  obtain v where "sum_logprob t (grams 4 ?ls) 0 = Inr v"
    using sum_logprob_defined assms(1) Some unfolding good_model_def by blast
  moreover have "0 \<le> fl32 (1 - (if 1 < n then 1 else n))" for n :: real by (intro f32.nonneg) simp
  ultimately show ?thesis by (simp add: c_ngram_score_domain_def Some ls Let_def)
qed (simp add: c_ngram_score_domain_def)

lemma cstr_c_lower: "cstr (c_lower s) = c_lower (cstr s)"
proof -
  have "c_tolower c = CHR 0x00 \<longleftrightarrow> c = CHR 0x00" for c by (rule c_tolower_eq_small) code_simp
  then show ?thesis by (simp add: cstr_def c_lower_def takeWhile_map o_def)
qed

lemma c_label_lower [simp]: "c_label (c_lower d) = c_label d"
proof -
  have "takeWhile (\<lambda>c. c \<noteq> CHR ''.'') (c_lower s) = c_lower (takeWhile (\<lambda>c. c \<noteq> CHR ''.'') s)" for s
    by (simp add: c_lower_def takeWhile_map o_def c_tolower_eq_small)
  then show ?thesis by (simp add: c_label_def cstr_c_lower)
qed

lemma dga_score_domain_lower: "dga_score_domain tab (c_lower d) = dga_score_domain tab d"
proof -
  have "c_ngram_score_domain tab (c_lower x) = c_ngram_score_domain tab x" for x
    unfolding c_ngram_score_domain_def c_label_letters_def by (simp only: c_label_lower)
  moreover have "vowel_consonant_score (c_lower x) = vowel_consonant_score x" for x
    by (simp add: vowel_consonant_score_def)
  ultimately show ?thesis by (simp add: dga_score_domain_def cstr_c_lower Let_def)
qed

lemma dga_score_domain_defined:
  assumes "good_model tab" and "length domain \<le> 256"
  shows "\<exists>s. dga_score_domain tab domain = Inr s \<and> 0 \<le> s \<and>
    (12 < length (cstr domain) \<and> 2 \<le> total (tally_of (c_lower (cstr domain))) \<longrightarrow> fl32 (1 / 2 * fl32 (1 / 10)) \<le> s)"
proof -
  let ?d = "cstr domain" and ?t = "tally_of (c_lower (cstr domain))"
  have len: "length ?d \<le> 256" using length_cstr [of domain] assms(2) by simp
  note inv = tally_of_inv [of "c_lower ?d"] and trans = transitions_le [of "c_lower ?d"]
  define e d t l where "e = fl32 ((if 0 < letters ?t then entropy32_loop (letters ?t) (counts ?t) 0 else 0) / fl32 (47 / 10))"
    and "d = float_div (digits_seen ?t) (length ?d)"
    and "t = (if 1 < length ?d then float_div (transitions ?t) (length ?d - 1) else 0)"
    and "l = (if 20 < length ?d then 1 else if 12 < length ?d then 1 / 2 else (0 :: real))"
  have pos: "(0 :: real) \<le> fl32 (47 / 10)" by (intro f32.nonneg) simp
  have "0 \<le> e"
    unfolding e_def using inv len pos
    by (intro f32.nonneg divide_nonneg_nonneg) (simp_all add: tally_inv_def entropy32_nonneg)
  moreover have "0 \<le> d" unfolding d_def using inv len float_div_unit [of "digits_seen ?t" "length ?d"] by (simp add: tally_inv_def)
  moreover have "0 \<le> t" unfolding t_def using trans len float_div_unit [of "transitions ?t" "length ?d - 1"] by simp
  moreover have "0 \<le> l" by (simp add: l_def)
  moreover have "0 \<le> vowel_consonant_score ?d" using len by (intro vowel_consonant_unit) simp
  moreover obtain ng where ng: "c_ngram_score_domain tab ?d = Inr ng" "0 \<le> ng"
    using ngram_score_defined [OF assms(1) len] by blast
  ultimately have w: "fl32 (l * fl32 (10 / 100)) \<le> weighted_sum e d t l ng (vowel_consonant_score ?d)"
    by (intro weighted_sum_lower)
  have "0 \<le> fl32 (l * fl32 (10 / 100))" using \<open>0 \<le> l\<close> by (intro f32.nonneg mult_nonneg_nonneg) simp_all
  then have nn: "0 \<le> weighted_sum e d t l ng (vowel_consonant_score ?d)" using w by linarith
  have low: "fl32 (1 / 2 * fl32 (1 / 10)) \<le> weighted_sum e d t l ng (vowel_consonant_score ?d)" if "12 < length ?d"
  proof -
    have "1 / 2 * fl32 (1 / 10) \<le> l * fl32 (10 / 100)"
      using that f32.nonneg [of "1 / 10"] by (simp add: l_def)
    then show ?thesis using w f32.mono order_trans by blast
  qed
  have eq: "dga_score_domain tab domain =
      (if length ?d < 5 then Inr 0 else if total ?t < 2 then Inr 0
       else Inr (weighted_sum e d t l ng (vowel_consonant_score ?d)))"
    unfolding dga_score_domain_def Let_def e_def d_def t_def l_def ng(1) cbind.simps by (rule refl)
  show ?thesis unfolding eq using nn low by auto
qed

section \<open>Properties\<close>

text \<open>A model file that \<open>load_ngram_model\<close> can read: there is none, or it announces at most 2^30 records (for more the doubling of
  the capacity overflows), and the numbers in it are finite and not huge.\<close>

definition model_file :: "byte list option \<Rightarrow> bool" where
  "model_file file \<longleftrightarrow>
     (case file of None \<Rightarrow> True
      | Some bs \<Rightarrow> of_le (take 4 bs) \<le> 2 ^ 30 \<and>
          list_all (\<lambda>e. \<bar>snd e\<bar> < 2 ^ 100) (file_records (of_le (take 4 bs)) (drop 4 bs)))"

lemma model_file_good: "model_file file \<Longrightarrow> \<exists>tab. c_load_ngram_model file = Inr tab \<and> good_model tab"
  using load_ends [of "the file"]
  by (cases "file") (auto simp: model_file_def good_model_def c_load_ngram_model_def)

text \<open>C15: Whatever the model file holds (up to 2^30 records with finite numbers, in any order, repeated, cut short or with foreign bytes
  as grams, or no file at all), loading it ends, and then the firewall's score is defined for every name of at most 256
  characters, as the parser delivers them, is not negative, and does not depend on case: no letter is written past the buffer
  of the letters, and no probing in the table runs for ever.\<close>

theorem firewall_score_defined:
  assumes "model_file file" and "length domain \<le> 256"
  shows "\<exists>tab s. c_load_ngram_model file = Inr tab \<and> dga_score_domain tab domain = Inr s \<and> 0 \<le> s \<and>
    dga_score_domain tab (c_lower domain) = Inr s"
proof -
  obtain tab where tab: "c_load_ngram_model file = Inr tab" "good_model tab" using model_file_good [OF assms(1)] by blast
  then show ?thesis using dga_score_domain_defined [OF tab(2) assms(2)] dga_score_domain_lower [of tab domain] by auto
qed

text \<open>A file with two records, of which the second is a gram of zeros, although its header announces three.\<close>

theorem firewall_score_defined_witness:
  "\<exists>tab s. c_load_ngram_model (Some [3, 0, 0, 0, 103, 111, 111, 103, 0, 0, 0xC0, 0xC0, 0, 0, 0, 0, 0, 0, 0xC0, 0xC0]) = Inr tab \<and>
    dga_score_domain tab ''Xj4kq9zw1.com.'' = Inr s \<and> 0 \<le> s \<and> dga_score_domain tab (c_lower ''Xj4kq9zw1.com.'') = Inr s"
proof (rule firewall_score_defined)
  have n: "f32_value 1086324736 = 6" by (simp add: f32_value_def Let_def power_int_def power_divide)
  have "file_records (Suc (Suc (Suc 0))) [103, 111, 111, 103, 0, 0, 0xC0, 0xC0, 0, 0, 0, 0, 0, 0, 0xC0, 0xC0] =
      [(map byte_char [103, 111, 111, 103], -6), (map byte_char [0, 0, 0, 0], -6)]"
    by (simp add: unpack_f32_def unpack_le_def n)
  then show "model_file (Some [3, 0, 0, 0, 103, 111, 111, 103, 0, 0, 0xC0, 0xC0, 0, 0, 0, 0, 0, 0, 0xC0, 0xC0])"
    by (simp add: model_file_def flip: numeral_3_eq_3)
qed simp

text \<open>C38: The firewall and the scripts that evaluate it score different texts: a name longer than twelve characters
  whose first label has at most four scores 0 in \<open>dga_score.py\<close>, which looks at the first label only, and
  at least 0.05 in the firewall, which measures the whole name.\<close>

theorem scorers_disagree:
  assumes "good_model tab" and "length domain \<le> 256" and "CHR 0x00 \<notin> set domain" and "12 < length domain"
    and "2 \<le> total (tally_of (c_lower domain))" and "length (first_label domain) < 5"
  shows "dga_score model lr domain = Inr 0 \<and>
    (\<exists>s. dga_score_domain tab domain = Inr s \<and> fl32 (1 / 2 * fl32 (1 / 10)) \<le> s \<and> 0 < s)"
proof -
  have "(0 :: real) < fl32 (1 / 2 * fl32 (1 / 10))"
  proof -
    have "fl32 (1 / 16) = 1 / 16" unfolding fl32_def by (rule fround_fix [of _ 1 "-4"]) (simp_all add: power_int_def power_divide)
    moreover have "fl32 (1 / 32) = 1 / 32" unfolding fl32_def by (rule fround_fix [of _ 1 "-5"]) (simp_all add: power_int_def power_divide)
    ultimately have "1 / 16 \<le> fl32 (1 / 10)" "(1 :: real) / 32 = fl32 (1 / 32)" using f32.mono [of "1 / 16" "1 / 10"] by simp_all
    then show ?thesis using f32.mono [of "1 / 32" "1 / 2 * fl32 (1 / 10)"] by simp
  qed
  then show ?thesis
    using dga_score_domain_defined [OF assms(1,2)] assms(3-6) score_short_label by fastforce
qed

theorem scorers_disagree_witness:
  "dga_score [] None ''www.xj4kq9zw1.com.'' = Inr 0 \<and>
    (\<exists>s. dga_score_domain None ''www.xj4kq9zw1.com.'' = Inr s \<and> fl32 (1 / 2 * fl32 (1 / 10)) \<le> s \<and> 0 < s)"
proof (rule scorers_disagree)
  show "2 \<le> total (tally_of (c_lower ''www.xj4kq9zw1.com.''))" by code_simp
  show "length (first_label ''www.xj4kq9zw1.com.'') < 5" by code_simp
qed (simp_all add: good_model_def)

end
