(* ===== verification/C_Policy.thy ===== *)
theory C_Policy
  imports C_Wire C_Blacklist C_Flux C_Score
begin

text \<open>
  The policy engine of \<open>src/src/policy.c\<close>: its context with the parts modelled in \<open>C_Blacklist\<close>, \<open>C_Score\<close> and
  \<open>C_Flux\<close>, the tunnelling check, and the checks before and after resolution. The static variables of the source
  (thresholds, model table, flux table) are fields of the context. The data of a record is read through an argument \<open>peek\<close>, because what a
  record's \<open>rdata\<close> pointer points to depends on where the answer comes from. The clock is an argument.
\<close>

section \<open>Context\<close>

record policy_ctx =
  blacklist_of :: blacklist
  last_housekeeping :: int
  hash_table :: "ngram_table option"
  g_dga_threshold :: real
  g_flux_ip_max :: nat
  flux_of :: flux_table

datatype policy_action = Allow | Block

definition DEFAULT_FLUX_IP_MAX :: nat where "DEFAULT_FLUX_IP_MAX = 500"
definition FLOAT_DGA_THRESHOLD :: real where "FLOAT_DGA_THRESHOLD = fl32 (48 / 100)"

text \<open>
  \<open>policy_init\<close>: the numbers that \<open>atof\<close> and \<open>atoi\<close> read from the environment, the model file, the blacklist file.
  \<open>load_lr_model\<close> is left out, nothing reads what it loads.
\<close>

definition policy_init ::
  "real option \<Rightarrow> int option \<Rightarrow> byte list option \<Rightarrow> string option \<Rightarrow> int \<Rightarrow> policy_ctx c_result" where
  "policy_init env_dga env_flux model bl now =
     cbind (c_load_ngram_model model) (\<lambda>tab.
       Inr \<lparr>blacklist_of = (case bl of None \<Rightarrow> blacklist_empty | Some f \<Rightarrow> blacklist_load_file blacklist_empty f),
         last_housekeeping = now, hash_table = tab,
         g_dga_threshold = (case env_dga of None \<Rightarrow> FLOAT_DGA_THRESHOLD | Some x \<Rightarrow> fl32 x),
         g_flux_ip_max = (case env_flux of None \<Rightarrow> DEFAULT_FLUX_IP_MAX
           | Some v \<Rightarrow> if 0 < v then nat v else DEFAULT_FLUX_IP_MAX),
         flux_of = []\<rparr>)"

section \<open>Tunnelling\<close>

text \<open>\<open>counts[response->answers[i].rdata[j]]++\<close> for every byte, and the entropy of the counts.\<close>

definition byte_counts :: "byte list \<Rightarrow> nat list" where
  "byte_counts bs = foldl (\<lambda>cs b. cs[unat b := cs ! unat b + 1]) (replicate 256 0) bs"

definition byte_entropy :: "byte list \<Rightarrow> real" where
  "byte_entropy bs = entropy32_loop (length bs) (byte_counts bs) 0"

fun scan_txt :: "(dns_rr \<Rightarrow> byte list c_result) \<Rightarrow> dns_rr list \<Rightarrow> bool c_result" where
  "scan_txt peek [] = Inr False"
| "scan_txt peek (rr # rrs) =
     (if rtype rr = 16 \<and> 0 < rdlength rr then
        if 200 < rdlength rr then Inr True
        else cbind (peek rr) (\<lambda>bs. if 6 < byte_entropy bs then Inr True else scan_txt peek rrs)
      else scan_txt peek rrs)"

definition tunnelling_score ::
  "policy_ctx \<Rightarrow> (dns_rr \<Rightarrow> byte list c_result) \<Rightarrow> dns_message \<Rightarrow> dns_message \<Rightarrow> bool c_result" where
  "tunnelling_score ctx peek req response =
     cbind (first_question req) (\<lambda>q.
     cbind (if 40 < length (qname q)
            then cbind (dga_score_domain (hash_table ctx) (qname q)) (\<lambda>score. Inr (fl (6 / 10) < score))
            else Inr False) (\<lambda>hit.
       if hit then Inr True else scan_txt peek (answers response)))"

section \<open>The checks\<close>

definition policy_check_preresolve :: "policy_ctx \<Rightarrow> string \<Rightarrow> policy_action c_result" where
  "policy_check_preresolve ctx domain =
     cbind (dga_score_domain (hash_table ctx) (name_buffer domain)) (\<lambda>score.
       Inr (if g_dga_threshold ctx < score then Block else Allow))"

text \<open>The address of an answer, in the byte order of the network; an A record that is not four bytes long counts as 0.0.0.0.\<close>

definition answer_address :: "(dns_rr \<Rightarrow> byte list c_result) \<Rightarrow> dns_rr \<Rightarrow> 32 word c_result" where
  "answer_address peek rr =
     (if rtype rr = DNS_TYPE_A \<and> rdlength rr = 4
      then cbind (peek rr) (\<lambda>bs. read_u32 bs 0) else Inr 0)"

fun scan_flux ::
  "policy_ctx \<Rightarrow> (dns_rr \<Rightarrow> byte list c_result) \<Rightarrow> int \<Rightarrow> dns_rr list \<Rightarrow> (bool \<times> policy_ctx) c_result" where
  "scan_flux ctx peek now [] = Inr (False, ctx)"
| "scan_flux ctx peek now (rr # rrs) =
     (if (rtype rr = DNS_TYPE_A \<or> rtype rr = DNS_TYPE_AAAA) \<and> 0 < rdlength rr then
        if rtype rr = DNS_TYPE_AAAA \<and> rdlength rr = 16 then scan_flux ctx peek now rrs
        else cbind (answer_address peek rr) (\<lambda>addr.
          let (hit, tab) = flux_detect (g_flux_ip_max ctx) (flux_of ctx) (rname rr) addr now;
              ctx' = ctx\<lparr>flux_of := tab\<rparr>
          in if hit then Inr (True, ctx') else scan_flux ctx' peek now rrs)
      else scan_flux ctx peek now rrs)"

definition policy_check_post_resolve ::
  "policy_ctx \<Rightarrow> (dns_rr \<Rightarrow> byte list c_result) \<Rightarrow> dns_message \<Rightarrow> dns_message \<Rightarrow> int \<Rightarrow>
   (policy_action \<times> policy_ctx) c_result" where
  "policy_check_post_resolve ctx peek req response now =
     cbind (first_question req) (\<lambda>q.
     cbind (dga_score_domain (hash_table ctx) (qname q)) (\<lambda>score.
       if g_dga_threshold ctx < score then Inr (Block, ctx)
       else cbind (scan_flux ctx peek now (answers response)) (\<lambda>(hit, ctx').
         if hit then Inr (Block, ctx')
         else cbind (tunnelling_score ctx' peek req response) (\<lambda>hit.
           Inr (if hit then Block else Allow, ctx')))))"

definition policy_housekeeping :: "policy_ctx \<Rightarrow> int \<Rightarrow> policy_ctx" where
  "policy_housekeeping ctx now =
     (if 60 < now - last_housekeeping ctx
      then ctx\<lparr>flux_of := flux_cleanup (flux_of ctx) now, last_housekeeping := now\<rparr> else ctx)"

section \<open>The checks are defined\<close>

definition policy_ok :: "policy_ctx \<Rightarrow> bool" where
  "policy_ok ctx \<longleftrightarrow> good_model (hash_table ctx)"

text \<open>A reader that gives every record some data of its length.\<close>

definition peeks :: "(dns_rr \<Rightarrow> byte list c_result) \<Rightarrow> dns_rr list \<Rightarrow> bool" where
  "peeks peek rrs \<longleftrightarrow> (\<forall>rr \<in> set rrs. \<exists>bs. peek rr = Inr bs \<and> length bs = rdlength rr)"

lemma length_name_buffer: "length (name_buffer d) \<le> 255"
proof -
  have "length (normalise_domain x) \<le> length x" for x by (simp add: normalise_domain_def)
  then show ?thesis unfolding name_buffer_def c_copy_def by (rule order_trans) simp
qed

text \<open>The calls change nothing but the flux table.\<close>

definition flux_only :: "policy_ctx \<Rightarrow> policy_ctx \<Rightarrow> bool" where
  "flux_only ctx ctx' \<longleftrightarrow> ctx' = ctx\<lparr>flux_of := flux_of ctx'\<rparr>"

lemma flux_only_refl [simp]: "flux_only ctx ctx" "flux_only ctx (ctx\<lparr>flux_of := tab\<rparr>)"
  by (simp_all add: flux_only_def)

lemma flux_only_trans: "flux_only (ctx\<lparr>flux_of := tab\<rparr>) ctx' \<Longrightarrow> flux_only ctx ctx'"
  by (simp add: flux_only_def)

lemma preresolve_ok:
  assumes "policy_ok ctx"
  shows "\<exists>s. dga_score_domain (hash_table ctx) (name_buffer d) = Inr s \<and>
    policy_check_preresolve ctx d = Inr (if g_dga_threshold ctx < s then Block else Allow)"
proof -
  have "length (name_buffer d) \<le> 256" using length_name_buffer [of d] by simp
  then obtain s where "dga_score_domain (hash_table ctx) (name_buffer d) = Inr s"
    using assms dga_score_domain_defined unfolding policy_ok_def by blast
  then show ?thesis by (simp add: policy_check_preresolve_def)
qed

lemma scan_flux_ok: "peeks peek rrs \<Longrightarrow> \<exists>hit ctx'. scan_flux ctx peek now rrs = Inr (hit, ctx') \<and> flux_only ctx ctx'"
proof (induction rrs arbitrary: ctx)
  case (Cons rr rrs)
  have IH: "\<exists>hit ctx'. scan_flux c peek now rrs = Inr (hit, ctx') \<and> flux_only c ctx'" for c
    using Cons.IH Cons.prems by (simp add: peeks_def)
  have "\<exists>a. answer_address peek rr = Inr a"
    using Cons.prems by (auto simp: answer_address_def peeks_def read_u32_ok)
  then obtain a where a: "answer_address peek rr = Inr a" by blast
  obtain hit tab where f: "flux_detect (g_flux_ip_max ctx) (flux_of ctx) (rname rr) a now = (hit, tab)" by fastforce
  obtain hit' ctx' where "scan_flux (ctx\<lparr>flux_of := tab\<rparr>) peek now rrs = Inr (hit', ctx')" "flux_only (ctx\<lparr>flux_of := tab\<rparr>) ctx'"
    using IH by blast
  then show ?case using IH [of ctx] flux_only_trans by (cases hit) (simp_all add: a f Let_def, blast)
qed auto

lemma scan_txt_ok: "peeks peek rrs \<Longrightarrow> \<exists>hit. scan_txt peek rrs = Inr hit"
proof (induction rrs)
  case (Cons rr rrs)
  then obtain hit bs where "scan_txt peek rrs = Inr hit" "peek rr = Inr bs" by (auto simp: peeks_def)
  then show ?case by (cases "6 < byte_entropy bs") auto
qed auto

lemma score_of_question:
  assumes "policy_ok ctx" and "wf_question q"
  shows "\<exists>s. dga_score_domain (hash_table ctx) (qname q) = Inr s"
proof -
  have "length (qname q) \<le> 256" using assms(2) by (simp add: wf_question_def DNS_MAX_NAME_LEN_def)
  then show ?thesis using assms(1) dga_score_domain_defined unfolding policy_ok_def by blast
qed

lemma tunnelling_ok:
  assumes "policy_ok ctx" and "peeks peek (answers response)" and "questions req = q # qs" and "wf_question q"
  shows "\<exists>hit. tunnelling_score ctx peek req response = Inr hit"
proof -
  obtain s where s: "dga_score_domain (hash_table ctx) (qname q) = Inr s" using score_of_question [OF assms(1,4)] by blast
  obtain hit where hit: "scan_txt peek (answers response) = Inr hit" using scan_txt_ok [OF assms(2)] by blast
  show ?thesis
    by (cases "40 < length (qname q)"; cases "fl (6 / 10) < s")
      (auto simp: tunnelling_score_def first_question_def assms(3) s hit)
qed

lemma post_resolve_ok:
  assumes "policy_ok ctx" and "peeks peek (answers response)" and "questions req = q # qs" and "wf_question q"
  shows "\<exists>act ctx'. policy_check_post_resolve ctx peek req response now = Inr (act, ctx') \<and> flux_only ctx ctx'"
proof -
  obtain s where s: "dga_score_domain (hash_table ctx) (qname q) = Inr s" using score_of_question [OF assms(1,4)] by blast
  obtain hit ctx' where f: "scan_flux ctx peek now (answers response) = Inr (hit, ctx')" "flux_only ctx ctx'"
    using scan_flux_ok [OF assms(2)] by blast
  have "hash_table ctx' = hash_table ctx" using f(2) by (metis flux_only_def policy_ctx.select_convs(3) policy_ctx.surjective policy_ctx.update_convs(6))
  then obtain hit' where t: "tunnelling_score ctx' peek req response = Inr hit'"
    using tunnelling_ok [of ctx' peek response req q qs] assms by (auto simp: policy_ok_def)
  show ?thesis
    by (cases "g_dga_threshold ctx < s"; cases hit)
      (simp_all add: policy_check_post_resolve_def first_question_def assms(3) s f t)
qed

section \<open>Properties\<close>

text \<open>C8: Whatever name it is asked for, the answer of \<open>auth_tunnel.py\<close> is one that the firewall blocks: when the firewall's
  query for a name of at most 19 labels reaches the server, the server answers, the firewall parses the answer, and the check
  after the resolution ends with Block, whatever the reputation of the domain and without reading the data of the record.\<close>

theorem tunnel_answer_blocked:
  assumes "good_name ls" and "length ls \<le> 19" and "policy_ok ctx" and "questions req = q # qs" and "wf_question q"
  shows "\<exists>reply m ctx'. tunnel_response (message_bytes i 0 [(ls, t, c)] [] [] []) = Inr reply \<and>
    dns_parse_message reply = Inr m \<and> hid (header m) = i \<and>
    policy_check_post_resolve ctx peek req m now = Inr (Block, ctx')"
proof -
  have len: "length (encode_txt TXT_DATA) = 402" by (simp add: length_encode_txt TXT_DATA_def)
  define reply where "reply = echo_answer i 0x8580 (ls, t, c) 16 1 300 (encode_txt TXT_DATA)"
  have "write_u16 0x8580 = [0x85, 0x80]" "write_u16 1 = [0, 1]" "write_u16 0 = [0, 0]" "write_u16 16 = [0, 16]"
    "write_u32 300 = [0, 0, 1, 44]" "write_u16 (word_of_nat 402) = [1, 146]"
    by (simp_all add: write_u16_def write_u32_def)
  then have "tunnel_response (message_bytes i 0 [(ls, t, c)] [] [] []) = Inr reply"
    by (simp add: tunnel_response_ok len message_bytes_def reply_def echo_answer_def rr_tail_def)
  moreover obtain s where "dga_score_domain (hash_table ctx) (qname q) = Inr s" using score_of_question [OF assms(3,5)] by blast
  ultimately show ?thesis
    using parse_echo_answer [OF assms(1,2), where rd = "encode_txt TXT_DATA" and i = i and f = "0x8580" and t = t and c = c
        and t' = 16 and c' = 1 and l = 300] len
    by (auto simp: reply_def policy_check_post_resolve_def first_question_def assms(4) tunnelling_score_def
        dns_constants)
qed

theorem tunnel_answer_blocked_witness:
  "\<exists>ctx reply m ctx'. policy_init None None None None 0 = Inr ctx \<and>
    tunnel_response (message_bytes 7 0 [([''data'', ''tunnel'', ''test''], 16, 1)] [] [] []) = Inr reply \<and>
    dns_parse_message reply = Inr m \<and> hid (header m) = 7 \<and>
    policy_check_post_resolve ctx (\<lambda>_. Inl (Fault Dangling))
      \<lparr>header = \<lparr>hid = 9, hflags = 256, hqdcount = 1, hancount = 0, hnscount = 0, harcount = 0\<rparr>,
       questions = [\<lparr>qname = ''data.tunnel.test.'', qtype = 16, qclass = 1\<rparr>],
       answers = [], authorities = [], additionals = []\<rparr> m 100 = Inr (Block, ctx')"
proof -
  obtain ctx where ctx: "policy_init None None None None 0 = Inr ctx" "policy_ok ctx"
    by (auto simp: policy_init_def c_load_ngram_model_def policy_ok_def good_model_def)
  have "good_name [''data'', ''tunnel'', ''test'']"
    by (simp add: good_name_def wire_label_def DNS_MAX_NAME_LEN_def)
  from tunnel_answer_blocked [OF this _ ctx(2), where i = 7 and t = 16 and c = 1 and now = 100
      and peek = "\<lambda>_. Inl (Fault Dangling)" and req = "\<lparr>header = \<lparr>hid = 9, hflags = 256, hqdcount = 1,
        hancount = 0, hnscount = 0, harcount = 0\<rparr>, questions = [\<lparr>qname = ''data.tunnel.test.'', qtype = 16, qclass = 1\<rparr>],
       answers = [], authorities = [], additionals = []\<rparr>"]
  show ?thesis using ctx(1) by (auto simp: wf_question_def DNS_MAX_NAME_LEN_def)
qed

end
