(* ===== verification/C_Reputation.thy ===== *)
theory C_Reputation
  imports C_Chains
begin

text \<open>
  \<open>src/src/reputation.c\<close>: a score per blocked domain, which grows by one with every block and loses one
  for every minute without. The clock is an argument; a score is a C \<open>int\<close>, whose overflow is a fault. The table interprets the locale of chained hash tables, and the
  lemmas show that it refines a map from domains to scores, and how long a domain stays listed.
\<close>

section \<open>State and operations\<close>

record rep_entry =
  rep_domain :: string
  rep_score :: int
  last_update :: int

record rep_ctx =
  rep_buckets :: "rep_entry list list"
  last_decay :: int

definition REP_HASH_SIZE :: nat where "REP_HASH_SIZE = 256"
definition DECAY_INTERVAL :: int where "DECAY_INTERVAL = 60"

definition rep_hash_domain :: "string \<Rightarrow> nat" where
  "rep_hash_domain d =
     unat (foldl (\<lambda>h c. (push_bit 5 h + h) + ucast (char_byte c)) (5381 :: 32 word) d) mod REP_HASH_SIZE"

definition rep_init :: "int \<Rightarrow> rep_ctx" where
  "rep_init now = \<lparr>rep_buckets = replicate REP_HASH_SIZE [], last_decay = now\<rparr>"

definition rep_record_block :: "rep_ctx \<Rightarrow> string \<Rightarrow> int \<Rightarrow> rep_ctx c_result" where
  "rep_record_block ctx domain now =
     (case chain_lookup rep_domain rep_hash_domain (rep_buckets ctx) domain of
        Some e \<Rightarrow> cbind (c_increment (rep_score e)) (\<lambda>score.
          Inr (ctx\<lparr>rep_buckets := chain_update rep_domain rep_hash_domain (rep_buckets ctx)
            (e\<lparr>rep_score := score, last_update := now\<rparr>)\<rparr>))
      | None \<Rightarrow> Inr (ctx\<lparr>rep_buckets := chain_insert rep_domain rep_hash_domain (rep_buckets ctx)
          \<lparr>rep_domain = domain, rep_score = 1, last_update = now\<rparr>\<rparr>))"

text \<open>What the loop of \<open>rep_decay\<close> does with an entry; \<open>None\<close> is unlinking it.\<close>

definition decay_entry :: "int \<Rightarrow> rep_entry \<Rightarrow> rep_entry option" where
  "decay_entry now e =
     (if DECAY_INTERVAL \<le> now - last_update e then
        (if rep_score e - 1 \<le> 0 then None else Some (e\<lparr>rep_score := rep_score e - 1, last_update := now\<rparr>))
      else Some e)"

definition rep_decay :: "rep_ctx \<Rightarrow> int \<Rightarrow> rep_ctx" where
  "rep_decay ctx now =
     (if now - last_decay ctx < DECAY_INTERVAL then ctx
      else \<lparr>rep_buckets = chain_filter (decay_entry now) (rep_buckets ctx), last_decay = now\<rparr>)"

definition rep_export_csv :: "rep_ctx \<Rightarrow> string" where
  "rep_export_csv ctx =
     concat (map (\<lambda>e. rep_domain e @ [CHR 0x09] @ py_str (rep_score e) @ [CHR 0x0A]) (concat (rep_buckets ctx)))"

definition rep_get_blocked_domains :: "rep_ctx \<Rightarrow> string list" where
  "rep_get_blocked_domains ctx = map rep_domain (filter (\<lambda>e. 0 < rep_score e) (concat (rep_buckets ctx)))"

text \<open>The calls of the workers and of the main loop, in the order in which they take place.\<close>

datatype rep_call = Blocked string int | Decay int

fun call_time :: "rep_call \<Rightarrow> int" where
  "call_time (Blocked d t) = t"
| "call_time (Decay t) = t"

fun rep_step :: "rep_ctx \<Rightarrow> rep_call \<Rightarrow> rep_ctx c_result" where
  "rep_step ctx (Blocked d t) = rep_record_block ctx d t"
| "rep_step ctx (Decay t) = Inr (rep_decay ctx t)"

text \<open>A run stops at the first overflow.\<close>

fun rep_run :: "rep_ctx \<Rightarrow> rep_call list \<Rightarrow> rep_ctx c_result" where
  "rep_run ctx [] = Inr ctx"
| "rep_run ctx (c # cs) = cbind (rep_step ctx c) (\<lambda>ctx'. rep_run ctx' cs)"

lemma rep_run_append: "rep_run ctx (cs @ ds) = cbind (rep_run ctx cs) (\<lambda>ctx'. rep_run ctx' ds)"
  by (induction cs arbitrary: ctx) (simp_all add: cbind_assoc)

section \<open>The table as a map\<close>

interpretation rep: hash_chains rep_domain rep_hash_domain REP_HASH_SIZE
  by unfold_locales (simp add: rep_hash_domain_def REP_HASH_SIZE_def)

definition rep_ok :: "rep_ctx \<Rightarrow> bool" where
  "rep_ok ctx \<longleftrightarrow> rep.chains_ok (rep_buckets ctx) \<and> (\<forall>e \<in> set (concat (rep_buckets ctx)). 0 < rep_score e)"

text \<open>The abstract state: score and time of the last change per domain, and the time of the last decay.\<close>

type_synonym scores = "(string \<rightharpoonup> int \<times> int) \<times> int"

definition rep_view :: "rep_ctx \<Rightarrow> scores" where
  "rep_view ctx =
     ((\<lambda>d. map_option (\<lambda>e. (rep_score e, last_update e)) (chain_lookup rep_domain rep_hash_domain (rep_buckets ctx) d)),
      last_decay ctx)"

fun scores_step :: "scores \<Rightarrow> rep_call \<Rightarrow> scores" where
  "scores_step (m, l) (Blocked d t) = (m(d \<mapsto> (case m d of None \<Rightarrow> (1, t) | Some (s, u) \<Rightarrow> (s + 1, t))), l)"
| "scores_step (m, l) (Decay t) =
     (if t - l < 60 then (m, l)
      else ((\<lambda>d. case m d of None \<Rightarrow> None
                | Some (s, u) \<Rightarrow> if t - u < 60 then Some (s, u) else if s = 1 then None else Some (s - 1, t)), t))"

lemma rep_lookup_ok:
  "rep_ok ctx \<Longrightarrow> chain_lookup rep_domain rep_hash_domain (rep_buckets ctx) d = Some e \<Longrightarrow> 0 < rep_score e \<and> rep_domain e = d"
  using rep.member_iff [of "rep_buckets ctx" e] rep.lookup_key [of "rep_buckets ctx" d e] by (auto simp: rep_ok_def)

lemma rep_okI:
  assumes "rep.chains_ok (rep_buckets ctx)"
    and "\<And>d e. chain_lookup rep_domain rep_hash_domain (rep_buckets ctx) d = Some e \<Longrightarrow> 0 < rep_score e"
  shows "rep_ok ctx"
  using assms rep.member_iff [OF assms(1)] by (auto simp: rep_ok_def)

lemma rep_init_ok: "rep_ok (rep_init now)"
  by (simp add: rep_ok_def rep_init_def rep.empty_ok)

lemma decay_entry_domain: "decay_entry now e = Some e' \<Longrightarrow> rep_domain e' = rep_domain e"
  by (auto simp: decay_entry_def split: if_splits)

lemma decay_lookup:
  assumes "rep_ok ctx"
  shows "chain_lookup rep_domain rep_hash_domain (chain_filter (decay_entry now) (rep_buckets ctx)) d =
    Option.bind (chain_lookup rep_domain rep_hash_domain (rep_buckets ctx) d) (decay_entry now)"
  using assms decay_entry_domain by (intro rep.lookup_filter) (auto simp: rep_ok_def)

text \<open>A block of a domain whose score can still grow.\<close>

lemma record_block_ok:
  assumes ctx: "rep_ok ctx" and ok: "rep_record_block ctx d t = Inr ctx'"
  shows "rep_ok ctx' \<and> rep_view ctx' = scores_step (rep_view ctx) (Blocked d t)"
proof -
  have t: "rep.chains_ok (rep_buckets ctx)" using ctx by (simp add: rep_ok_def)
  show ?thesis
  proof (cases "chain_lookup rep_domain rep_hash_domain (rep_buckets ctx) d")
    case None
    then have c: "ctx' = ctx\<lparr>rep_buckets := chain_insert rep_domain rep_hash_domain (rep_buckets ctx)
        \<lparr>rep_domain = d, rep_score = 1, last_update = t\<rparr>\<rparr>"
      using ok by (simp add: rep_record_block_def)
    have "rep_ok ctx'"
      using ctx t None unfolding c
      by (intro rep_okI) (auto simp: rep.lookup_insert rep.insert_ok dest: rep_lookup_ok split: if_splits)
    then show ?thesis using None t by (auto simp: c rep_view_def rep.lookup_insert fun_eq_iff)
  next
    case (Some e)
    then have e: "rep_domain e = d" "0 < rep_score e" using rep_lookup_ok [OF ctx] by blast+
    have c: "ctx' = ctx\<lparr>rep_buckets := chain_update rep_domain rep_hash_domain (rep_buckets ctx)
        (e\<lparr>rep_score := rep_score e + 1, last_update := t\<rparr>)\<rparr>"
      using ok Some by (auto simp: rep_record_block_def c_increment_def split: if_splits)
    have "rep_ok ctx'"
      using ctx t Some e unfolding c
      by (intro rep_okI) (auto simp: rep.lookup_update rep.update_ok dest: rep_lookup_ok split: if_splits)
    then show ?thesis using Some e t by (auto simp: c rep_view_def rep.lookup_update fun_eq_iff)
  qed
qed

lemma decay_ok:
  assumes ctx: "rep_ok ctx"
  shows "rep_ok (rep_decay ctx t)" and "rep_view (rep_decay ctx t) = scores_step (rep_view ctx) (Decay t)"
proof -
  have "rep.chains_ok (chain_filter (decay_entry t) (rep_buckets ctx))"
    using ctx decay_entry_domain by (intro rep.filter_ok) (auto simp: rep_ok_def)
  moreover have "0 < rep_score e" if "Option.bind (chain_lookup rep_domain rep_hash_domain (rep_buckets ctx) d) (decay_entry t) = Some e" for d e
    using that rep_lookup_ok [OF ctx] by (auto simp: decay_entry_def bind_eq_Some_conv split: if_splits)
  ultimately have "rep_ok \<lparr>rep_buckets = chain_filter (decay_entry t) (rep_buckets ctx), last_decay = t\<rparr>"
    by (intro rep_okI) (simp_all add: decay_lookup [OF ctx])
  then show "rep_ok (rep_decay ctx t)" using ctx by (simp add: rep_decay_def)
  have "map_option (\<lambda>e. (rep_score e, last_update e)) (decay_entry t e) =
      (if t - last_update e < 60 then Some (rep_score e, last_update e)
       else if rep_score e = 1 then None else Some (rep_score e - 1, t))" if "0 < rep_score e" for e
    using that by (auto simp: decay_entry_def DECAY_INTERVAL_def)
  then show "rep_view (rep_decay ctx t) = scores_step (rep_view ctx) (Decay t)"
    using decay_lookup [OF ctx] rep_lookup_ok [OF ctx]
    by (auto simp: rep_decay_def rep_view_def DECAY_INTERVAL_def fun_eq_iff split: option.splits)
qed

lemma rep_step_ok:
  "rep_ok ctx \<Longrightarrow> rep_step ctx c = Inr ctx' \<Longrightarrow> rep_ok ctx' \<and> rep_view ctx' = scores_step (rep_view ctx) c"
  using record_block_ok decay_ok by (cases c) auto

lemma rep_run_ok:
  "rep_ok ctx \<Longrightarrow> rep_run ctx cs = Inr ctx' \<Longrightarrow> rep_ok ctx' \<and> rep_view ctx' = foldl scores_step (rep_view ctx) cs"
proof (induction cs arbitrary: ctx)
  case (Cons c cs)
  then obtain ctx1 where "rep_step ctx c = Inr ctx1" "rep_run ctx1 cs = Inr ctx'" by (auto simp: cbind_eq_Inr)
  then show ?case using Cons.IH [of ctx1] rep_step_ok [OF Cons.prems(1)] by simp
qed simp

section \<open>Room in the scores\<close>

text \<open>Every score can still grow by \<open>n\<close>.\<close>

definition rep_room :: "nat \<Rightarrow> rep_ctx \<Rightarrow> bool" where
  "rep_room n ctx \<longleftrightarrow> list_all (\<lambda>e. rep_score e + int n \<le> INT_MAX) (concat (rep_buckets ctx))"

lemma rep_room_view:
  assumes "rep_ok ctx"
  shows "rep_room n ctx \<longleftrightarrow> (\<forall>d s u. fst (rep_view ctx) d = Some (s, u) \<longrightarrow> s + int n \<le> INT_MAX)"
proof -
  have t: "rep.chains_ok (rep_buckets ctx)" using assms by (simp add: rep_ok_def)
  have view: "fst (rep_view ctx) d = Some (s, u) \<longleftrightarrow>
      (\<exists>e. chain_lookup rep_domain rep_hash_domain (rep_buckets ctx) d = Some e \<and> rep_score e = s \<and> last_update e = u)" for d s u
    by (auto simp: rep_view_def)
  show ?thesis
  proof
    assume room: "rep_room n ctx"
    show "\<forall>d s u. fst (rep_view ctx) d = Some (s, u) \<longrightarrow> s + int n \<le> INT_MAX"
    proof (intro allI impI)
      fix d s u
      assume "fst (rep_view ctx) d = Some (s, u)"
      then obtain e where e: "chain_lookup rep_domain rep_hash_domain (rep_buckets ctx) d = Some e" "rep_score e = s"
        using view by blast
      then have "e \<in> set (concat (rep_buckets ctx))"
        using rep_lookup_ok [OF assms e(1)] rep.member_iff [OF t, of e] by simp
      then show "s + int n \<le> INT_MAX" using room e(2) unfolding rep_room_def list_all_iff by blast
    qed
  next
    assume room: "\<forall>d s u. fst (rep_view ctx) d = Some (s, u) \<longrightarrow> s + int n \<le> INT_MAX"
    show "rep_room n ctx"
      unfolding rep_room_def list_all_iff
    proof
      fix e
      assume "e \<in> set (concat (rep_buckets ctx))"
      then have "fst (rep_view ctx) (rep_domain e) = Some (rep_score e, last_update e)"
        using rep.member_iff [OF t, of e] view by simp
      then show "rep_score e + int n \<le> INT_MAX" using room by blast
    qed
  qed
qed

lemma scores_step_grow:
  assumes "\<And>d s u. m d = Some (s, u) \<Longrightarrow> s + int (Suc n) \<le> INT_MAX" and "int n < INT_MAX"
    and "scores_step (m, l) c = (m', l')" and "m' d = Some (s, u)"
  shows "s + int n \<le> INT_MAX"
proof (cases c)
  case (Blocked d' t)
  then show ?thesis
    using assms(2-4) assms(1) [of d] by (auto split: if_splits option.splits)
next
  case (Decay t)
  then show ?thesis using assms(3,4) assms(1) [of d] by (auto split: if_splits option.splits)
qed

lemma rep_step_room:
  assumes ctx: "rep_ok ctx" and "rep_room (Suc n) ctx" and "int n < INT_MAX"
  shows "\<exists>ctx'. rep_step ctx c = Inr ctx' \<and> rep_ok ctx' \<and> rep_room n ctx'"
proof -
  have room: "s + int (Suc n) \<le> INT_MAX" if "fst (rep_view ctx) d = Some (s, u)" for d s u
    using that assms(2) rep_room_view [OF ctx] by blast
  have "\<exists>ctx'. rep_step ctx c = Inr ctx'"
  proof (cases c)
    case (Blocked d t)
    show ?thesis
    proof (cases "chain_lookup rep_domain rep_hash_domain (rep_buckets ctx) d")
      case (Some e)
      then have "rep_score e < INT_MAX" using room [of d "rep_score e" "last_update e"] by (simp add: rep_view_def)
      then show ?thesis using Some by (simp add: Blocked rep_record_block_def)
    qed (simp add: Blocked rep_record_block_def)
  qed simp
  then obtain ctx' where c: "rep_step ctx c = Inr ctx'" by blast
  note ok = rep_step_ok [OF ctx c]
  have "rep_room n ctx'"
    unfolding rep_room_view [OF conjunct1 [OF ok]]
    using scores_step_grow [of "fst (rep_view ctx)" n "snd (rep_view ctx)" c "fst (rep_view ctx')" "snd (rep_view ctx')"]
      room assms(3) ok by auto
  then show ?thesis using c ok by blast
qed

lemma rep_run_room:
  "rep_ok ctx \<Longrightarrow> rep_room (length cs) ctx \<Longrightarrow> int (length cs) \<le> INT_MAX \<Longrightarrow> \<exists>ctx'. rep_run ctx cs = Inr ctx'"
proof (induction cs arbitrary: ctx)
  case (Cons c cs)
  then obtain ctx' where "rep_step ctx c = Inr ctx'" "rep_ok ctx'" "rep_room (length cs) ctx'"
    using rep_step_room [of ctx "length cs" c] by auto
  then show ?case using Cons.IH Cons.prems(3) by simp
qed simp

lemma rep_init_room: "rep_room n (rep_init now)"
  by (simp add: rep_room_def rep_init_def list_all_iff)

lemma rep_runs: "length cs < 2 ^ 31 \<Longrightarrow> \<exists>ctx. rep_run (rep_init t0) cs = Inr ctx"
  using rep_run_room [OF rep_init_ok rep_init_room] by (simp add: INT_MAX_def)

lemma blocked_domains:
  assumes ctx: "rep_ok ctx"
  shows "distinct (rep_get_blocked_domains ctx)"
    and "set (rep_get_blocked_domains ctx) = dom (fst (rep_view ctx))"
proof -
  have t: "rep.chains_ok (rep_buckets ctx)" using ctx by (simp add: rep_ok_def)
  have f: "filter (\<lambda>e. 0 < rep_score e) (concat (rep_buckets ctx)) = concat (rep_buckets ctx)"
    using ctx by (auto simp: rep_ok_def)
  show "distinct (rep_get_blocked_domains ctx)"
    using rep.keys_distinct [OF t] by (simp add: rep_get_blocked_domains_def f)
  have "d \<in> rep_domain ` set (concat (rep_buckets ctx)) \<longleftrightarrow>
      chain_lookup rep_domain rep_hash_domain (rep_buckets ctx) d \<noteq> None" for d
    using rep.member_iff [OF t] rep.lookup_key [of "rep_buckets ctx" d] by (metis (no_types, lifting) image_iff not_None_eq)
  then show "set (rep_get_blocked_domains ctx) = dom (fst (rep_view ctx))"
    by (auto simp: rep_get_blocked_domains_def f rep_view_def dom_def simp del: set_concat)
qed

section \<open>How long a domain stays listed\<close>

text \<open>\<open>last change + 60 * score\<close> never decreases, and an entry only goes at a time not before it.\<close>

lemma scores_last:
  assumes "m d = Some (s, u)" and "sorted (u # map call_time cs)" and "list_all (\<lambda>c. call_time c < e) cs"
    and "e \<le> u + 60 * s" and "0 < s"
  shows "\<exists>s' u'. fst (foldl scores_step (m, l) cs) d = Some (s', u') \<and> e \<le> u' + 60 * s' \<and> 0 < s'"
  using assms
proof (induction cs arbitrary: m s u l)
  case (Cons c cs)
  obtain m' l' where step: "scores_step (m, l) c = (m', l')" by fastforce
  have "\<exists>s' u'. m' d = Some (s', u') \<and> e \<le> u' + 60 * s' \<and> 0 < s' \<and> sorted (u' # map call_time cs)"
  proof (cases c)
    case (Blocked d' t)
    then show ?thesis using Cons.prems step by (cases "d' = d") auto
  next
    case (Decay t)
    have "t < e" using Cons.prems(3) Decay by simp
    then show ?thesis using Cons.prems step by (auto simp: Decay split: if_splits)
  qed
  then show ?case using Cons.IH Cons.prems(3) step by auto
qed auto

section \<open>Properties\<close>

text \<open>C13: For fewer than 2^31 calls, whatever blocks and decays they are, no score leaves the range of a C int, and the hash table of
  the reputation tracker is the map from domains to scores that the abstract rules describe: a block adds one to the score of
  its domain only, a decay that comes at least a minute after the last one takes one from every score that has not changed for a
  minute, and forgets those that reach zero. The domains exported for the response policy zone are exactly those with a score,
  each of them once.\<close>

theorem reputation_refines:
  assumes "length cs < 2 ^ 31"
  shows "\<exists>ctx. rep_run (rep_init t0) cs = Inr ctx \<and> rep_view ctx = foldl scores_step (Map.empty, t0) cs \<and>
    distinct (rep_get_blocked_domains ctx) \<and>
    set (rep_get_blocked_domains ctx) = dom (fst (foldl scores_step (Map.empty, t0) cs))"
proof -
  obtain ctx where ctx: "rep_run (rep_init t0) cs = Inr ctx" using rep_runs [OF assms] by blast
  have "rep_view (rep_init t0) = (Map.empty, t0)"
    by (simp add: rep_view_def rep_init_def rep.lookup_empty)
  then have "rep_ok ctx" "rep_view ctx = foldl scores_step (Map.empty, t0) cs"
    using rep_run_ok [OF rep_init_ok ctx] by simp_all
  then show ?thesis using ctx blocked_domains by simp
qed

theorem reputation_refines_witness:
  "\<exists>ctx. rep_run (rep_init 0) [Blocked ''bad.test.'' 5, Blocked ''x.'' 6, Blocked ''bad.test.'' 7, Decay 70] = Inr ctx \<and>
    rep_view ctx = ([''bad.test.'' \<mapsto> (1, 70)], 70) \<and> set (rep_get_blocked_domains ctx) = {''bad.test.''}"
proof -
  have "foldl scores_step (Map.empty, 0) [Blocked ''bad.test.'' 5, Blocked ''x.'' 6, Blocked ''bad.test.'' 7, Decay 70] =
      ([''bad.test.'' \<mapsto> (1, 70)], 70)"
    by (auto simp: fun_eq_iff)
  then show ?thesis
    using reputation_refines [of "[Blocked ''bad.test.'' 5, Blocked ''x.'' 6, Blocked ''bad.test.'' 7, Decay 70]" 0]
    by (auto simp del: rep_run.simps foldl_Cons)
qed

text \<open>The bound is needed: a block of a domain with the largest score overflows.\<close>

lemma record_block_overflow:
  "chain_lookup rep_domain rep_hash_domain (rep_buckets ctx) d = Some e \<Longrightarrow> rep_score e = INT_MAX \<Longrightarrow>
    rep_record_block ctx d now = Inl (Fault Overflow)"
  by (simp add: rep_record_block_def c_increment_def)

text \<open>A domain whose score is \<open>s\<close> after it has been blocked at time \<open>u\<close> stays on the exported list for \<open>s\<close> minutes,
  whatever else is blocked and however often the main loop calls the decay.\<close>

lemma reputation_lasts:
  assumes "rep_run (rep_init t0) cs = Inr ctx" and "rep_view ctx = (m, l)" and "m d = Some (s, u)"
    and "rep_run ctx later = Inr ctx'" and "sorted (u # map call_time later)"
    and "list_all (\<lambda>c. call_time c < u + 60 * s) later"
  shows "d \<in> set (rep_get_blocked_domains ctx')"
proof -
  have ok: "rep_ok ctx" using rep_run_ok [OF rep_init_ok assms(1)] by blast
  then have "0 < s" using assms(2,3) rep_lookup_ok [OF ok] by (auto simp: rep_view_def)
  then obtain s' u' where "fst (foldl scores_step (m, l) later) d = Some (s', u')"
    using scores_last [where m = m and cs = later and e = "u + 60 * s" and l = l] assms(3,5,6) by fastforce
  then show ?thesis using rep_run_ok [OF ok assms(4)] assms(2) blocked_domains(2) by auto
qed

lemma reputation_lasts_example:
  "\<exists>ctx. rep_run (rep_init 0) ([Blocked ''bad.test.'' 5, Blocked ''bad.test.'' 7] @ [Decay 70, Blocked ''x.'' 80, Decay 126]) = Inr ctx \<and>
    ''bad.test.'' \<in> set (rep_get_blocked_domains ctx)"
proof -
  let ?cs = "[Blocked ''bad.test.'' 5, Blocked ''bad.test.'' 7]" and ?later = "[Decay 70, Blocked ''x.'' 80, Decay 126]"
  obtain ctx' where r: "rep_run (rep_init 0) (?cs @ ?later) = Inr ctx'" using rep_runs [of "?cs @ ?later" 0] by auto
  then obtain ctx where ctx: "rep_run (rep_init 0) ?cs = Inr ctx" "rep_run ctx ?later = Inr ctx'"
    unfolding rep_run_append cbind_eq_Inr by blast
  have "rep_view ctx = ([''bad.test.'' \<mapsto> (2, 7)], 0)"
    using rep_run_ok [OF rep_init_ok ctx(1)] by (simp add: rep_view_def rep_init_def rep.lookup_empty)
  from reputation_lasts [OF ctx(1) this _ ctx(2)] show ?thesis using r by fastforce
qed

end
