(* ===== verification/C_Defense.thy ===== *)
theory C_Defense
  imports C_Reputation "HOL-Library.Multiset"
begin

text \<open>
  \<open>src/src/active_defense.c\<close>: the quarantine of clients whose queries were blocked too often, and the
  export of the response policy zone. The clock is an argument, read once per call; the lock makes a call
  atomic; the HTTP server that shows the warning page is not modelled. The lemmas show who is in
  quarantine and when, and what a reader of the zone file finds in it.
\<close>

section \<open>State and operations\<close>

definition QUARANTINE_MAX_EVENTS :: nat where "QUARANTINE_MAX_EVENTS = 5"
definition QUARANTINE_WINDOW_SEC :: int where "QUARANTINE_WINDOW_SEC = 60"

record quarantine_entry =
  qip :: "32 word"
  banned_until :: int

record block_event =
  client_ip :: "32 word"
  timestamp :: int

record ad_ctx =
  quarantined :: "quarantine_entry list"
  events :: "block_event list"

definition ad_init :: ad_ctx where
  "ad_init = \<lparr>quarantined = [], events = []\<rparr>"

definition ad_is_quarantined :: "ad_ctx \<Rightarrow> 32 word \<Rightarrow> int \<Rightarrow> bool" where
  "ad_is_quarantined ctx ip now = list_ex (\<lambda>q. qip q = ip \<and> now < banned_until q) (quarantined ctx)"

definition ad_report_block :: "ad_ctx \<Rightarrow> 32 word \<Rightarrow> int \<Rightarrow> ad_ctx" where
  "ad_report_block ctx ip now =
     (let evs = \<lparr>client_ip = ip, timestamp = now\<rparr> # events ctx;
          count = length (filter (\<lambda>e. client_ip e = ip \<and> now - timestamp e < QUARANTINE_WINDOW_SEC) evs) in
      \<lparr>quarantined = (if QUARANTINE_MAX_EVENTS \<le> count
         then quarantined ctx @ [\<lparr>qip = ip, banned_until = now + 600\<rparr>] else quarantined ctx),
       events = evs\<rparr>)"

text \<open>The first entry of the client is overwritten with the last one, and the array gets shorter by one.\<close>

fun unquarantine_loop :: "32 word \<Rightarrow> quarantine_entry list \<Rightarrow> nat list \<Rightarrow> quarantine_entry list" where
  "unquarantine_loop ip qs [] = qs"
| "unquarantine_loop ip qs (i # is) =
     (if qip (qs ! i) = ip then butlast (qs[i := last qs]) else unquarantine_loop ip qs is)"

definition ad_unquarantine :: "ad_ctx \<Rightarrow> 32 word \<Rightarrow> ad_ctx" where
  "ad_unquarantine ctx ip =
     ctx\<lparr>quarantined := unquarantine_loop ip (quarantined ctx) [0..<length (quarantined ctx)]\<rparr>"




section \<open>Quarantine\<close>

text \<open>The blocks that the workers report, in the order in which the calls take the lock.\<close>

type_synonym report = "32 word \<times> int"

definition ad_run :: "ad_ctx \<Rightarrow> report list \<Rightarrow> ad_ctx" where
  "ad_run ctx rs = foldl (\<lambda>c (ip, t). ad_report_block c ip t) ctx rs"

text \<open>Whether the report \<open>rs ! k\<close> is the fifth of its client within a minute.\<close>

definition offence :: "report list \<Rightarrow> nat \<Rightarrow> bool" where
  "offence rs k \<longleftrightarrow>
     5 \<le> length (filter (\<lambda>r. fst r = fst (rs ! k) \<and> snd (rs ! k) - snd r < 60) (take (Suc k) rs))"

lemma ad_run_events: "events (ad_run ctx rs) = rev (map (\<lambda>(ip, t). \<lparr>client_ip = ip, timestamp = t\<rparr>) rs) @ events ctx"
  unfolding ad_run_def
  by (induction rs arbitrary: ctx) (auto simp: ad_report_block_def Let_def split: prod.splits)

lemma ad_run_snoc: "ad_run ctx (rs @ [r]) = ad_report_block (ad_run ctx rs) (fst r) (snd r)"
  by (simp add: ad_run_def split: prod.splits)

lemma offence_append: "k < length rs \<Longrightarrow> offence (rs @ rs') k = offence rs k"
  by (simp add: offence_def nth_append)

lemma length_filter_events:
  "length (filter (\<lambda>e. client_ip e = ip \<and> t - timestamp e < 60) (rev (map (\<lambda>(ip, t). \<lparr>client_ip = ip, timestamp = t\<rparr>) rs))) =
    length (filter (\<lambda>r. fst r = ip \<and> t - snd r < 60) rs)"
  by (induction rs) auto

definition ban :: "report \<Rightarrow> quarantine_entry" where
  "ban r = \<lparr>qip = fst r, banned_until = snd r + 600\<rparr>"

lemma quarantined_list: "quarantined (ad_run ad_init rs) = map (\<lambda>k. ban (rs ! k)) (filter (offence rs) [0..<length rs])"
proof (induction rs rule: rev_induct)
  case (snoc r rs)
  obtain ip t where r: "r = (ip, t)" by fastforce
  let ?n = "length rs"
  have count: "QUARANTINE_MAX_EVENTS \<le> length (filter (\<lambda>e. client_ip e = ip \<and> t - timestamp e < QUARANTINE_WINDOW_SEC)
      (\<lparr>client_ip = ip, timestamp = t\<rparr> # events (ad_run ad_init rs))) \<longleftrightarrow> offence (rs @ [r]) ?n"
    by (simp add: ad_run_events ad_init_def length_filter_events offence_def r QUARANTINE_MAX_EVENTS_def
        QUARANTINE_WINDOW_SEC_def)
  have "filter (offence (rs @ [r])) [0..<?n] = filter (offence rs) [0..<?n]"
    by (rule filter_cong) (simp_all add: offence_append)
  moreover have "map (\<lambda>k. ban ((rs @ [r]) ! k)) (filter (offence rs) [0..<?n]) = map (\<lambda>k. ban (rs ! k)) (filter (offence rs) [0..<?n])"
    by (simp add: nth_append)
  ultimately have "map (\<lambda>k. ban ((rs @ [r]) ! k)) (filter (offence (rs @ [r])) [0..<length (rs @ [r])]) =
      map (\<lambda>k. ban (rs ! k)) (filter (offence rs) [0..<?n]) @ (if offence (rs @ [r]) ?n then [ban r] else [])"
    by simp
  then show ?case
    using snoc count by (simp add: ad_run_snoc r ad_report_block_def Let_def ban_def)
qed (simp add: ad_run_def ad_init_def)

lemma quarantined_run: "set (quarantined (ad_run ad_init rs)) = (\<lambda>k. ban (rs ! k)) ` {k. k < length rs \<and> offence rs k}"
  by (auto simp: quarantined_list)

text \<open>The first entry of the client goes; the order of the others may change.\<close>

lemma unquarantine_loop_first:
  assumes "qip q = ip"
  shows "xs = ps @ rs @ q # ys \<Longrightarrow> list_all (\<lambda>x. qip x \<noteq> ip) rs \<Longrightarrow>
    unquarantine_loop ip xs [length ps..<length xs] = butlast (xs[length ps + length rs := last xs])"
proof (induction rs arbitrary: ps)
  case Nil
  then show ?case using assms by (simp add: upt_conv_Cons nth_append)
next
  case (Cons r rs)
  have "unquarantine_loop ip xs [length (ps @ [r])..<length xs] =
      butlast (xs[length (ps @ [r]) + length rs := last xs])"
    using Cons.prems by (intro Cons.IH) simp_all
  moreover have "[length ps..<length xs] = length ps # [length (ps @ [r])..<length xs]"
    using Cons.prems(1) by (simp add: upt_conv_Cons del: upt.upt_Suc)
  moreover have "qip (xs ! length ps) \<noteq> ip" using Cons.prems by (simp add: nth_append)
  ultimately show ?case by simp
qed

lemma unquarantine_loop_none:
  "list_all (\<lambda>i. qip (xs ! i) \<noteq> ip) is \<Longrightarrow> unquarantine_loop ip xs is = xs"
  by (induction "is") simp_all

lemma unquarantine_mset:
  assumes "quarantined ctx = qs @ q # ys" and "list_all (\<lambda>x. qip x \<noteq> ip) qs" and "qip q = ip"
  shows "mset (quarantined (ad_unquarantine ctx ip)) = mset (qs @ ys)"
proof -
  have "quarantined (ad_unquarantine ctx ip) = butlast ((quarantined ctx)[length qs := last (quarantined ctx)])"
    using unquarantine_loop_first [OF assms(3), of "quarantined ctx" "[]" qs ys] assms(1,2) by (simp add: ad_unquarantine_def)
  also have "\<dots> = (if ys = [] then qs else qs @ last ys # butlast ys)"
    by (simp add: assms(1) butlast_append)
  also have "mset \<dots> = mset (qs @ ys)"
    by (cases ys rule: rev_cases) simp_all
  finally show ?thesis .
qed

lemma unquarantine_none:
  assumes "list_all (\<lambda>x. qip x \<noteq> ip) (quarantined ctx)"
  shows "ad_unquarantine ctx ip = ctx"
proof -
  have "list_all (\<lambda>i. qip (quarantined ctx ! i) \<noteq> ip) [0..<length (quarantined ctx)]"
    using assms by (simp add: list_all_length)
  then show ?thesis by (simp add: ad_unquarantine_def unquarantine_loop_none)
qed

text \<open>What is left of a filtered range without its first element.\<close>

lemma filter_upt_rest:
  assumes "filter P [0..<n] = k # ks"
  shows "k' \<in> set ks \<longleftrightarrow> k' < n \<and> P k' \<and> (\<exists>j < k'. P j)"
proof -
  have "sorted_wrt (<) (k # ks)" unfolding assms [symmetric] by (intro sorted_wrt_filter) simp
  then have k: "\<forall>j \<in> set ks. k < j" by simp
  have s: "set (k # ks) = {j. j < n \<and> P j}" unfolding assms [symmetric] by auto
  then have "j < n \<and> P j \<longleftrightarrow> j = k \<or> j \<in> set ks" for j by auto
  with k show ?thesis by (metis less_asym less_irrefl order.strict_trans)
qed

section \<open>Properties\<close>

text \<open>C12: After any sequence of reports a client is in quarantine exactly if one of its reports during the last ten
  minutes was the fifth (or a later one) within a minute.\<close>

theorem quarantine_exact:
  "ad_is_quarantined (ad_run ad_init rs) ip now \<longleftrightarrow>
    (\<exists>k < length rs. fst (rs ! k) = ip \<and> now < snd (rs ! k) + 600 \<and>
      5 \<le> length (filter (\<lambda>r. fst r = ip \<and> snd (rs ! k) - snd r < 60) (take (Suc k) rs)))"
  by (auto simp: ad_is_quarantined_def list_ex_iff quarantined_run ban_def offence_def)

text \<open>C39: Every report of a client beyond the fourth within a minute adds an entry to the list of banned clients, and lifting the
  quarantine of a client removes exactly one of its entries, the first. So the client is still in quarantine afterwards exactly
  if one of its later reports of this kind is less than ten minutes old; nothing changes for the other clients.\<close>

theorem unquarantine_leaves_ban:
  shows "length (filter (\<lambda>q. qip q = ip) (quarantined (ad_run ad_init rs))) =
      card {k. k < length rs \<and> fst (rs ! k) = ip \<and> offence rs k} \<and>
    length (filter (\<lambda>q. qip q = ip) (quarantined (ad_unquarantine (ad_run ad_init rs) ip))) =
      card {k. k < length rs \<and> fst (rs ! k) = ip \<and> offence rs k} - 1 \<and>
    (ad_is_quarantined (ad_unquarantine (ad_run ad_init rs) ip) client now \<longleftrightarrow>
      (if client = ip
       then \<exists>k < length rs. fst (rs ! k) = ip \<and> offence rs k \<and> now < snd (rs ! k) + 600 \<and>
         (\<exists>j < k. fst (rs ! j) = ip \<and> offence rs j)
       else ad_is_quarantined (ad_run ad_init rs) client now))"
proof -
  let ?P = "\<lambda>k. fst (rs ! k) = ip \<and> offence rs k" and ?xs = "quarantined (ad_run ad_init rs)"
  have own: "filter (\<lambda>q. qip q = ip) ?xs = map (\<lambda>k. ban (rs ! k)) (filter ?P [0..<length rs])"
    by (simp add: quarantined_list filter_map o_def ban_def conj_commute)
  have card: "length (filter ?P [0..<length rs]) = card {k. k < length rs \<and> fst (rs ! k) = ip \<and> offence rs k}"
    unfolding length_filter_conv_card by (auto intro!: arg_cong [where f = card])
  show ?thesis
  proof (cases "filter ?P [0..<length rs]")
    case Nil
    then have "ad_unquarantine (ad_run ad_init rs) ip = ad_run ad_init rs"
      using own by (intro unquarantine_none) (simp add: list_all_iff filter_empty_conv)
    moreover have "\<not> ?P k" if "k < length rs" for k
      using that Nil unfolding filter_empty_conv by simp
    ultimately show ?thesis
      using own unfolding card [symmetric] Nil
      by (auto simp: ad_is_quarantined_def list_ex_iff quarantined_run ban_def)
  next
    case (Cons k ks)
    then obtain qs ys where xs: "?xs = qs @ ban (rs ! k) # ys" "\<forall>q \<in> set qs. qip q \<noteq> ip" "qip (ban (rs ! k)) = ip"
      "map (\<lambda>k. ban (rs ! k)) ks = filter (\<lambda>q. qip q = ip) ys"
      using own unfolding Cons by (auto simp: filter_eq_Cons_iff)
    have m: "mset (quarantined (ad_unquarantine (ad_run ad_init rs) ip)) = mset (qs @ ys)"
      using xs(1,3) xs(2) by (intro unquarantine_mset) (simp_all add: list_all_iff)
    then have set: "set (quarantined (ad_unquarantine (ad_run ad_init rs) ip)) = set (qs @ ys)"
      by (metis mset_eq_setD)
    have "mset (filter (\<lambda>q. qip q = ip) (quarantined (ad_unquarantine (ad_run ad_init rs) ip))) = mset (filter (\<lambda>q. qip q = ip) (qs @ ys))"
      using m by (metis mset_filter)
    moreover have none: "filter (\<lambda>q. qip q = ip) qs = []" using xs(2) by (simp add: filter_empty_conv)
    ultimately have len: "length (filter (\<lambda>q. qip q = ip) (quarantined (ad_unquarantine (ad_run ad_init rs) ip))) = length ks"
      using xs(4) by (metis append_Nil filter_append length_map size_mset)
    have left: "ad_is_quarantined (ad_unquarantine (ad_run ad_init rs) ip) client now \<longleftrightarrow>
        (\<exists>q \<in> set (qs @ ys). qip q = client \<and> now < banned_until q)"
      by (simp add: ad_is_quarantined_def list_ex_iff set)
    have "(\<exists>q \<in> set (qs @ ys). qip q = ip \<and> now < banned_until q) \<longleftrightarrow>
        (\<exists>q \<in> set (filter (\<lambda>q. qip q = ip) ys). now < banned_until q)"
      using xs(2) by auto
    also have "\<dots> \<longleftrightarrow> (\<exists>j \<in> set ks. now < snd (rs ! j) + 600)" by (simp flip: xs(4) add: ban_def)
    also have "\<dots> \<longleftrightarrow> (\<exists>k < length rs. fst (rs ! k) = ip \<and> offence rs k \<and> now < snd (rs ! k) + 600 \<and>
         (\<exists>j < k. fst (rs ! j) = ip \<and> offence rs j))"
      using filter_upt_rest [OF Cons] by blast
    finally have mine: "(\<exists>q \<in> set (qs @ ys). qip q = ip \<and> now < banned_until q) \<longleftrightarrow>
        (\<exists>k < length rs. fst (rs ! k) = ip \<and> offence rs k \<and> now < snd (rs ! k) + 600 \<and>
         (\<exists>j < k. fst (rs ! j) = ip \<and> offence rs j))" .
    have others: "(\<exists>q \<in> set (qs @ ys). qip q = client \<and> now < banned_until q) \<longleftrightarrow> ad_is_quarantined (ad_run ad_init rs) client now"
      if "client \<noteq> ip"
      using that xs(1,3) by (auto simp: ad_is_quarantined_def list_ex_iff)
    show ?thesis
      using own card Cons len mine others unfolding left by (metis (no_types, lifting) diff_Suc_1 length_Cons length_map)
  qed
qed



end
