(* ===== verification/C_Dnssec.thy ===== *)
theory C_Dnssec
  imports C_Wire DNS_Sign
begin

text \<open>
  \<open>src/src/dnssec.c\<close>: the check of a signed answer against one trusted key. The verification of a signature over some
  data (\<open>EVP_DigestVerify\<close> with SHA-256 and the trusted key) is an argument; the key file is not modelled. The data of a record
  is read through its pointer into the packet, so a read past the record stays a read of the packet as long as it does not pass its end.
  The lemmas show that the packets \<open>gen_signed_final.py\<close> writes are checked over the very bytes that the
  script signs, and what a malformed signature record does.
\<close>

section \<open>Operations\<close>

function canonical_labels :: "string \<Rightarrow> byte list" where
  "canonical_labels name =
     (if name = [] then []
      else let l = takeWhile (\<lambda>c. c \<noteq> CHR ''.'') name in
        if l = [] then canonical_labels (tl name)
        else word_of_nat (length l) # map (\<lambda>c. char_byte (c_tolower c)) l @ canonical_labels (drop (length l + 1) name))"
  by pat_completeness auto
termination
  by (relation "measure length") auto

declare canonical_labels.simps [simp del]

text \<open>\<open>uint8_t wire_name[256]\<close>.\<close>

definition name_to_wire :: "string \<Rightarrow> byte list c_result" where
  "name_to_wire name =
     (let out = canonical_labels name @ [0] in if length out \<le> 256 then Inr out else Inl (Fault Overrun))"

definition covers :: "string \<Rightarrow> 16 word \<Rightarrow> dns_rr \<Rightarrow> bool" where
  "covers name t rr \<longleftrightarrow> rtype rr = 46 \<and> rname rr = name \<and> 2 \<le> rdlength rr \<and> be16 (rdata rr ! 0) (rdata rr ! 1) = t"

definition find_rrsig :: "dns_message \<Rightarrow> string \<Rightarrow> 16 word \<Rightarrow> dns_rr option" where
  "find_rrsig msg name t = List.find (covers name t) (answers msg)"

text \<open>The offset behind the signer's name, which starts at 18.\<close>

function skip_signer :: "byte list \<Rightarrow> nat \<Rightarrow> nat" where
  "skip_signer rd off =
     (if off < length rd \<and> rd ! off \<noteq> 0 then
        if rd ! off AND 0xC0 = 0xC0 then off + 2 else skip_signer rd (off + unat (rd ! off) + 1)
      else off)"
  by pat_completeness auto
termination
  by (relation "measure (\<lambda>(rd, off). length rd - off)") auto

declare skip_signer.simps [simp del]

definition signature_start :: "byte list \<Rightarrow> nat" where
  "signature_start rd =
     (let off = skip_signer rd 18 in if off < length rd \<and> rd ! off = 0 then off + 1 else off)"

fun canonical_rrset :: "dns_rr list \<Rightarrow> byte list c_result" where
  "canonical_rrset [] = Inr []"
| "canonical_rrset (rr # rrs) =
     cbind (name_to_wire (rname rr)) (\<lambda>w. cbind (canonical_rrset rrs) (\<lambda>rest.
       Inr (w @ write_u16 (rtype rr) @ write_u16 (rrclass rr) @ write_u32 (ttl rr) @
            write_u16 (word_of_nat (rdlength rr)) @ rdata rr @ rest)))"

text \<open>The size of the buffer is estimated before it is filled.\<close>

definition build_signed_data :: "byte list \<Rightarrow> dns_rr \<Rightarrow> dns_rr list \<Rightarrow> byte list c_result" where
  "build_signed_data packet rrsig rrset =
     (let rrsig_rdata_len = signature_start (rdata rrsig);
          total = rrsig_rdata_len + sum_list (map (\<lambda>rr. length (rname rr) + 2 + 10 + rdlength rr) rrset)
      in cbind (bytes_at packet (rdata_at rrsig) rrsig_rdata_len) (\<lambda>hd.
         cbind (canonical_rrset rrset) (\<lambda>rest.
           if length hd + length rest \<le> total then Inr (hd @ rest) else Inl (Fault Overrun))))"

text \<open>A signature that would start behind the record has the length \<open>rdlength - off\<close>, which wraps around.\<close>

definition verify_rrsig ::
  "(byte list \<Rightarrow> byte list \<Rightarrow> bool) \<Rightarrow> byte list \<Rightarrow> dns_rr \<Rightarrow> dns_rr list \<Rightarrow> bool c_result" where
  "verify_rrsig verify packet rrsig rrset =
     cbind (build_signed_data packet rrsig rrset) (\<lambda>signed_data.
     let off = signature_start (rdata rrsig) in
     cbind (byte_at packet (rdata_at rrsig + 2)) (\<lambda>algo.
       if algo = 8 \<or> algo = 13 then
         if rdlength rrsig < off then Inl (Fault OutOfBounds)
         else Inr (verify signed_data (drop off (rdata rrsig)))
       else Inr False))"

datatype dnssec_verdict = Secure | Bogus | Unsigned

fun validate_loop ::
  "(byte list \<Rightarrow> byte list \<Rightarrow> bool) \<Rightarrow> byte list \<Rightarrow> dns_message \<Rightarrow> dns_rr list \<Rightarrow> dnssec_verdict c_result" where
  "validate_loop verify packet msg [] = Inr Unsigned"
| "validate_loop verify packet msg (rr # rrs) =
     (if rtype rr = DNS_TYPE_A \<and> rdlength rr = 4 then
        (case find_rrsig msg (rname rr) DNS_TYPE_A of
           None \<Rightarrow> validate_loop verify packet msg rrs
         | Some rrsig \<Rightarrow>
             cbind (verify_rrsig verify packet rrsig [rr]) (\<lambda>good. Inr (if good then Secure else Bogus)))
      else validate_loop verify packet msg rrs)"

text \<open>\<open>packet\<close> is what the message was parsed from, where its records point to.\<close>

definition dnssec_validate ::
  "(byte list \<Rightarrow> byte list \<Rightarrow> bool) \<Rightarrow> byte list \<Rightarrow> dns_message \<Rightarrow> dnssec_verdict c_result" where
  "dnssec_validate verify packet msg = validate_loop verify packet msg (answers msg)"

section \<open>Names\<close>

text \<open>The canonical form of a name that the parser delivers is its wire form with lower-case letters.\<close>

lemma canonical_labels_text:
  "list_all wire_label ls \<Longrightarrow> canonical_labels (name_text ls) = wire_labels (map c_lower ls)"
proof (induction ls)
  case (Cons l ls)
  then have l: "wire_label l" "l \<noteq> []" by (simp_all add: wire_label_def)
  have low: "map c_tolower = c_lower" by (simp add: fun_eq_iff c_lower_def)
  show ?case
    using Cons by (subst canonical_labels.simps) (simp add: takeWhile_label [OF l(1)] l(2) Let_def o_def flip: low)
qed (simp add: canonical_labels.simps)

text \<open>Whatever the name, its canonical form is at most two bytes longer, so it fits.\<close>

lemma length_canonical_labels: "length (canonical_labels name) \<le> length name + 1"
proof (induction name rule: canonical_labels.induct)
  case (1 name)
  let ?l = "takeWhile (\<lambda>c. c \<noteq> CHR ''.'') name"
  show ?case
  proof (cases "name = [] \<or> ?l = []")
    case True
    then show ?thesis using 1(1) by (subst canonical_labels.simps) (auto simp: Let_def)
  next
    case False
    have le: "length ?l \<le> length name" by (rule length_takeWhile_le)
    have "length (canonical_labels (drop (length ?l + 1) name)) \<le> length name - length ?l"
    proof (cases "length ?l = length name")
      case True
      then show ?thesis by (simp add: canonical_labels.simps [of "[]"])
    next
      case other: False
      then have "length ?l + 1 \<le> length name" using le by linarith
      then show ?thesis using 1(2) False by fastforce
    qed
    then show ?thesis using False le by (subst canonical_labels.simps) (simp add: Let_def)
  qed
qed

lemma name_to_wire_fits:
  "length name < DNS_MAX_NAME_LEN \<Longrightarrow>
    name_to_wire name = Inr (canonical_labels name @ [0]) \<and> length (canonical_labels name @ [0]) \<le> length name + 2"
  using length_canonical_labels [of name] by (simp add: name_to_wire_def Let_def DNS_MAX_NAME_LEN_def)

lemma skip_signer_le: "off \<le> skip_signer rd off"
proof (induction rd off rule: skip_signer.induct)
  case (1 rd off)
  then show ?case by (subst skip_signer.simps) (auto intro: order_trans)
qed

lemma signature_start_ge: "18 \<le> signature_start rd"
  using skip_signer_le [of 18 rd] by (simp add: signature_start_def Let_def)

text \<open>The buffer that \<open>build_signed_data\<close> allocates is never too small.\<close>

lemma canonical_rrset_fits:
  "list_all (wf_rr packet) rrset \<Longrightarrow> \<exists>bs. canonical_rrset rrset = Inr bs \<and>
    length bs \<le> sum_list (map (\<lambda>rr. length (rname rr) + 2 + 10 + rdlength rr) rrset)"
proof (induction rrset)
  case (Cons rr rrset)
  then obtain bs where "canonical_rrset rrset = Inr bs"
    "length bs \<le> sum_list (map (\<lambda>rr. length (rname rr) + 2 + 10 + rdlength rr) rrset)" by auto
  then show ?case using Cons.prems name_to_wire_fits [of "rname rr"] by (auto simp: wf_rr_def)
qed simp

lemma build_signed_data_eq:
  assumes "list_all (wf_rr packet) rrset"
  shows "build_signed_data packet rrsig rrset =
    (if rdata_at rrsig + signature_start (rdata rrsig) \<le> length packet
     then cbind (canonical_rrset rrset) (\<lambda>rest. Inr (take (signature_start (rdata rrsig)) (drop (rdata_at rrsig) packet) @ rest))
     else Inl (Fault OutOfBounds))"
  using canonical_rrset_fits [OF assms] by (auto simp: build_signed_data_def Let_def bytes_at_def)

section \<open>The packets of the generator\<close>

lemma rrsig_header_parts:
  assumes "0 \<le> kt" "kt < 65536" "86400 \<le> now" "now + 86400 < 2 ^ 32"
  shows "\<exists>pre. rrsig_header kt now = Inr (0 # 1 # 8 # pre @ name_zone) \<and> length pre = 15"
proof -
  let ?h = "be_bytes 2 1 @ be_bytes 1 8 @ be_bytes 1 3 @ be_bytes 4 300 @ be_bytes 4 (nat (now + 86400)) @
    be_bytes 4 (nat (now - 86400)) @ be_bytes 2 (nat kt)"
  have "rrsig_header kt now = Inr (?h @ name_zone)"
    using assms by (simp add: rrsig_header_def pack_be_def)
  moreover have "be_bytes 2 1 = [0, 1]" "be_bytes 1 8 = [8]" by (simp_all add: be_bytes_def numeral_2_eq_2)
  ultimately show ?thesis by simp
qed

text \<open>The signer's name is stepped over label by label.\<close>

lemma signature_start_zone:
  assumes "length pre = 18"
  shows "signature_start (pre @ name_zone @ sig) = 31"
proof -
  let ?rd = "pre @ name_zone @ sig"
  have n: "?rd ! 18 = 6" "?rd ! 25 = 4" "?rd ! 30 = 0" and l: "31 \<le> length ?rd"
    using assms by (simp_all add: nth_append name_zone_def)
  have u: "unat (6 :: 8 word) = 6" "unat (4 :: 8 word) = 4" "(6 :: 8 word) AND 0xC0 \<noteq> 0xC0" "(4 :: 8 word) AND 0xC0 \<noteq> 0xC0"
    by simp_all
  have "skip_signer ?rd 18 = skip_signer ?rd 25"
    using n(1) l u by (subst skip_signer.simps) simp
  also have "\<dots> = skip_signer ?rd 30"
    using n(2) l u by (subst skip_signer.simps) simp
  also have "\<dots> = 30" using n(3) by (subst skip_signer.simps) simp
  finally have "skip_signer ?rd 18 = 30" .
  then show ?thesis using n(3) l by (simp add: signature_start_def Let_def)
qed

lemma resource_record_bytes:
  assumes "typ < 65536" "t < 2 ^ 32" "length rd < 65536" and "name = wire_labels ls @ [0]"
  shows "resource_record name (int typ) (int t) rd = Inr (rr_bytes (ls, word_of_nat typ, 1, word_of_nat t, rd))"
proof -
  have "write_u16 (1 :: 16 word) = [0, 1]" by code_simp
  then show ?thesis
    using assms resource_record_ok [of "int typ" "int t" rd name]
    by (simp add: rr_bytes_def rr_tail_def write_u16_be write_u32_be)
qed

abbreviation www_labels :: "string list" where
  "www_labels \<equiv> [''www'', ''signed'', ''test'']"

definition a_record :: "byte list" where
  "a_record = rr_bytes (www_labels, 1, 1, 300, [192, 0, 2, 1])"

lemma signed_packet_message:
  assumes "rrsig_header (key_tag rd) now = Inr hdr" and "length hdr = 31" and "length rd < 65536"
    and "\<And>m. length (sign m) \<le> 65000"
  shows "signed_packet rd sign now = Inr (message_bytes 0x1234 0x8580 [(www_labels, 1, 1)]
    [(www_labels, 1, 1, 300, [192, 0, 2, 1]), (www_labels, 46, 1, 300, hdr @ sign (hdr @ a_record))] []
    [([''signed'', ''test''], 48, 1, 3600, rd)])"
proof -
  have ip: "inet_aton ''192.0.2.1'' = Inr [192, 0, 2, 1]" by code_simp
  have a: "resource_record name_www 1 300 [192, 0, 2, 1] = Inr a_record"
    using resource_record_bytes [of 1 300 "[192, 0, 2, 1]", OF _ _ _ name_www_wire] by (simp add: a_record_def)
  have s: "resource_record name_www 46 300 (hdr @ sign (hdr @ a_record)) =
      Inr (rr_bytes (www_labels, 46, 1, 300, hdr @ sign (hdr @ a_record)))"
    using resource_record_bytes [of 46 300 "hdr @ sign (hdr @ a_record)", OF _ _ _ name_www_wire] assms(2)
      assms(4) [of "hdr @ a_record"] by simp
  have k: "resource_record name_zone 48 3600 rd = Inr (rr_bytes ([''signed'', ''test''], 48, 1, 3600, rd))"
    using resource_record_bytes [of 48 3600 rd, OF _ _ assms(3) name_zone_wire] by simp
  have w: "write_u16 0x1234 = [0x12, 0x34]" "write_u16 0x8580 = [0x85, 0x80]" "write_u16 0 = [0, 0]"
    "write_u16 1 = [0, 1]" "write_u16 2 = [0, 2]"
    by code_simp+
  have h: "pack_fields [(2, 0x1234), (2, 0x8580), (2, 1), (2, 2), (2, 0), (2, 1)] =
      Inr [0x12, 0x34, 0x85, 0x80, 0, 1, 0, 2, 0, 0, 0, 1]"
    "pack_fields [(2, 1), (2, 1)] = Inr [0, 1, 0, 1]"
    by (simp_all add: pack_be_def be_bytes_2)
  have q: "question_bytes (www_labels, 1, 1) = name_www @ [0, 1, 0, 1]"
    by (simp add: question_bytes_def name_www_wire w)
  have n: "word_of_nat (length [x]) = (1 :: 16 word)" "word_of_nat (length [x, x']) = (2 :: 16 word)"
    "word_of_nat (length ([] :: rr_spec list)) = (0 :: 16 word)" for x x' :: 'z
    by simp_all
  show ?thesis
    unfolding signed_packet_def ip rbind.simps a assms(1) s k h message_bytes_def n w
    by (simp only: list.map concat.simps q append.simps append_Nil2 append_assoc a_record_def)
qed

lemma good_zone_names: "good_name www_labels" "good_name [''signed'', ''test'']"
  by code_simp+

lemma name_to_wire_www: "name_to_wire (name_text www_labels) = Inr (wire_labels www_labels @ [0])"
proof -
  have "map c_lower www_labels = www_labels" by code_simp
  then have "canonical_labels (name_text www_labels) = wire_labels www_labels"
    using canonical_labels_text [of www_labels] good_zone_names(1) by (simp add: good_name_def)
  moreover have "length (wire_labels www_labels) = 16" by code_simp
  ultimately show ?thesis by (simp add: name_to_wire_def)
qed

text \<open>A message whose two answers are an address and a signature over it.\<close>

lemma validate_pair:
  assumes wf: "wf_message packet m"
    and an: "map rr_view (answers m) = [(nm, 1, 1, l, ip), (nm, 46, 1, l', hdr @ sig)]"
    and hdr: "signature_start (hdr @ sig) = length hdr" "take 3 hdr = [0, 1, 8]" and ip: "length ip = 4"
  shows "dnssec_validate verify packet m =
    cbind (name_to_wire nm) (\<lambda>w.
      Inr (if verify (hdr @ w @ write_u16 1 @ write_u16 1 @ write_u32 l @ write_u16 4 @ ip) sig then Secure else Bogus))"
proof -
  obtain ra rs where rs: "answers m = [ra, rs]"
    "rr_view ra = (nm, 1, 1, l, ip)" "rr_view rs = (nm, 46, 1, l', hdr @ sig)"
    using an by (auto simp: map_eq_Cons_conv)
  then have f: "rname ra = nm" "rtype ra = 1" "rrclass ra = 1" "ttl ra = l" "rdata ra = ip"
    "rname rs = nm" "rtype rs = 46" "rdata rs = hdr @ sig" by (simp_all add: rr_view_def)
  have wfa: "wf_rr packet ra" and wfs: "wf_rr packet rs" using wf rs(1) by (simp_all add: wf_message_def)
  have la: "rdlength ra = 4" and ls: "rdlength rs = length hdr + length sig" "rdata_at rs + rdlength rs \<le> length packet"
    using wfa wfs f ip by (simp_all add: wf_rr_def)
  have d: "take (rdlength rs) (drop (rdata_at rs) packet) = hdr @ sig" using wfs f by (simp add: wf_rr_def)
  then have h: "take (length hdr) (drop (rdata_at rs) packet) = hdr"
    by (metis append_eq_conv_conj ls(1) min.absorb1 le_add1 take_take)
  obtain rest where r: "hdr = 0 # 1 # 8 # rest"
    using hdr(2) by (cases hdr; cases "tl hdr"; cases "tl (tl hdr)") auto
  have p2: "byte_at packet (rdata_at rs + 2) = Inr 8"
  proof -
    have "take (length hdr) (drop (rdata_at rs) packet) ! 2 = 8" using h r by simp
    then show ?thesis using ls r by (simp add: byte_at_def)
  qed
  have b: "be16 0 1 = 1" by code_simp
  have find: "find_rrsig m nm DNS_TYPE_A = Some rs"
    using f ls r b by (simp add: find_rrsig_def rs(1) covers_def dns_constants)
  have built: "build_signed_data packet rs [ra] = cbind (name_to_wire nm) (\<lambda>w.
      Inr (hdr @ w @ write_u16 1 @ write_u16 1 @ write_u32 l @ write_u16 4 @ ip))"
    using wfa ls f hdr(1) h la by (subst build_signed_data_eq [where packet = packet]) (simp_all add: cbind_assoc)
  have "verify_rrsig verify packet rs [ra] = cbind (name_to_wire nm) (\<lambda>w.
      Inr (verify (hdr @ w @ write_u16 1 @ write_u16 1 @ write_u32 l @ write_u16 4 @ ip) sig))"
    using p2 ls f hdr(1) by (simp add: verify_rrsig_def built cbind_assoc)
  then show ?thesis
    using f la find by (simp add: dnssec_validate_def rs(1) dns_constants cbind_assoc)
qed

text \<open>A signature record of two bytes at the end of the packet.\<close>

lemma validate_short:
  assumes wf: "wf_message packet m"
    and an: "map rr_view (answers m) = [(nm, 1, 1, l, ip), (nm, 46, 1, l', [0, 1])]" and ip: "length ip = 4"
    and last: "rdata_at (last (answers m)) + rdlength (last (answers m)) = length packet"
  shows "dnssec_validate verify packet m = Inl (Fault OutOfBounds)"
proof -
  obtain ra rs where rs: "answers m = [ra, rs]"
    "rr_view ra = (nm, 1, 1, l, ip)" "rr_view rs = (nm, 46, 1, l', [0, 1])"
    using an by (auto simp: map_eq_Cons_conv)
  then have f: "rname ra = nm" "rtype ra = 1" "rdata ra = ip" "rname rs = nm" "rtype rs = 46" "rdata rs = [0, 1]"
    by (simp_all add: rr_view_def)
  have wfa: "wf_rr packet ra" and "wf_rr packet rs" using wf rs(1) by (simp_all add: wf_message_def)
  then have l: "rdlength ra = 4" "rdlength rs = 2" using f ip by (simp_all add: wf_rr_def)
  have b: "be16 0 1 = 1" by code_simp
  have find: "find_rrsig m nm DNS_TYPE_A = Some rs"
    using f l b by (simp add: find_rrsig_def rs(1) covers_def dns_constants)
  have "signature_start (rdata rs) = 18" using f by (simp add: signature_start_def skip_signer.simps)
  then have "verify_rrsig verify packet rs [ra] = Inl (Fault OutOfBounds)"
    using wfa l last rs(1) by (simp add: verify_rrsig_def build_signed_data_eq [where packet = packet])
  then show ?thesis
    using f l find by (simp add: dnssec_validate_def rs(1) dns_constants)
qed

section \<open>Properties\<close>

text \<open>C16: The resolver's check agrees with the generator: the packet that \<open>gen_signed_final.py\<close> writes is parsed, and it is
  found secure exactly when the trusted key accepts the signature over the bytes that the script signed, the header of the RRSIG
  and the address record in canonical form.\<close>

theorem signed_packet_validates:
  assumes "e < 2 ^ 2040" and "n < 256 ^ 256" and "86400 \<le> now" and "now + 86400 < 2 ^ 32"
    and "\<And>m. length (sign m) \<le> 65000"
  shows "\<exists>packet m rd hdr. gen_signed_final e n sign now = Inr packet \<and> dns_parse_message packet = Inr m \<and>
    dnskey_rdata_final e n = Inr rd \<and> rrsig_header (key_tag rd) now = Inr hdr \<and>
    dnssec_validate verify packet m =
      Inr (if verify (hdr @ a_record) (sign (hdr @ a_record)) then Secure else Bogus)"
proof -
  obtain rd where rd: "dnskey_rdata_final e n = Inr rd" "length rd \<le> 516"
    using dnskey_rdata_final_ok [OF assms(1,2)] by blast
  obtain pre where pre: "rrsig_header (key_tag rd) now = Inr (0 # 1 # 8 # pre @ name_zone)" "length pre = 15"
    using rrsig_header_parts [OF key_tag_range assms(3,4)] by blast
  define hdr where "hdr = 0 # 1 # 8 # pre @ name_zone"
  let ?sig = "sign (hdr @ a_record)"
  let ?an = "[(www_labels, 1, 1, 300, [192, 0, 2, 1]), (www_labels, 46, 1, 300, hdr @ ?sig)]"
  let ?ar = "[([''signed'', ''test''], 48, 1, 3600, rd)]"
  let ?packet = "message_bytes 0x1234 0x8580 [(www_labels, 1, 1)] ?an [] ?ar"
  have l: "length hdr = 31" using pre(2) by (simp add: hdr_def name_zone_def)
  have p: "signed_packet rd sign now = Inr ?packet"
    using signed_packet_message [OF pre(1) [folded hdr_def] l _ assms(5)] rd(2) by simp
  note g = good_zone_names
  have "length ?sig < 65505" using assms(5) [of "hdr @ a_record"] by simp
  then have good: "list_all (\<lambda>q. good_name (fst q)) [(www_labels, 1, 1)]" "list_all good_rr (?an @ [] @ ?ar)"
    using g l rd(2) by (simp_all add: good_rr_def)
  obtain m where m: "dns_parse_message ?packet = Inr m" "map rr_view (answers m) = map rr_of ?an"
    using parse_message_bytes [OF good, where r = "[]" and i = "0x1234" and f = "0x8580"] by auto
  have shown: "shown_name www_labels = name_text www_labels" by (simp add: shown_name_def)
  note w = name_to_wire_www
  have a: "wire_labels www_labels @ 0 # write_u16 1 @ write_u16 1 @ write_u32 300 @ write_u16 4 @ [192, 0, 2, 1] = a_record"
    by (simp add: a_record_def rr_bytes_def rr_tail_def)
  have "signature_start (hdr @ ?sig) = length hdr"
    using signature_start_zone [of "0 # 1 # 8 # pre" ?sig] pre(2) l by (simp add: hdr_def)
  then have "dnssec_validate verify ?packet m = Inr (if verify (hdr @ a_record) ?sig then Secure else Bogus)"
    using validate_pair [where m = m and packet = ?packet and hdr = hdr and sig = ?sig and nm = "name_text www_labels"
        and l = 300 and l' = 300 and ip = "[192, 0, 2, 1]"]
      parse_message_safe [of ?packet] m shown w a
    by (simp add: rr_view_make hdr_def)
  then show ?thesis
    using rd(1) p m(1) pre(1) by (auto simp: gen_signed_final_def hdr_def)
qed

theorem signed_packet_validates_witness:
  "\<exists>packet m. gen_signed_final 65537 12345 (\<lambda>m. replicate 256 7) 1700000000 = Inr packet \<and>
    dns_parse_message packet = Inr m \<and> dnssec_validate (\<lambda>_ sig. sig = replicate 256 7) packet m = Inr Secure"
  using signed_packet_validates [of 65537 12345 1700000000 "\<lambda>m. replicate 256 7" "\<lambda>_ sig. sig = replicate 256 7"]
  by auto

text \<open>C40: A signature record that covers an address and holds nothing but the covered type passes the checks: its fields are then
  read behind the end of the packet, whatever the name and the address.\<close>

theorem short_rrsig_overread:
  assumes "good_name ls" and "list_all (\<lambda>q. good_name (fst q)) qs" and "length qs < 65536" and "length ip = 4"
  shows "\<exists>m. dns_parse_message (message_bytes i f qs [(ls, 1, 1, l, ip), (ls, 46, 1, l', [0, 1])] [] []) = Inr m \<and>
    dnssec_validate verify (message_bytes i f qs [(ls, 1, 1, l, ip), (ls, 46, 1, l', [0, 1])] [] []) m =
      Inl (Fault OutOfBounds)"
proof -
  let ?an = "[(ls, 1, 1, l, ip), (ls, 46, 1, l', [0, 1])]"
  let ?packet = "message_bytes i f qs ?an [] []"
  have good: "list_all good_rr (?an @ [] @ [])" using assms by (simp add: good_rr_def)
  obtain m where m: "dns_parse_message ?packet = Inr m" "map rr_view (answers m) = map rr_of ?an"
    "rdata_at (last (answers m)) + rdlength (last (answers m)) =
      12 + length (concat (map question_bytes qs)) + length (concat (map rr_bytes ?an))"
    using parse_message_bytes [OF assms(2) good assms(3), where r = "[]" and i = i and f = f] by auto
  have "length ?packet = 12 + length (concat (map question_bytes qs)) + length (concat (map rr_bytes ?an))"
    by (simp add: message_bytes_def)
  then have "dnssec_validate verify ?packet m = Inl (Fault OutOfBounds)"
    using validate_short [of ?packet m "shown_name ls" l ip l'] parse_message_safe [of ?packet] m assms(4)
    by (simp add: rr_of_def)
  then show ?thesis using m(1) by blast
qed

theorem short_rrsig_overread_witness:
  "\<exists>m. dns_parse_message (message_bytes 7 0x8180 [([''a''], 1, 1)] [([''a''], 1, 1, 60, [1, 2, 3, 4]), ([''a''], 46, 1, 60, [0, 1])] [] [])
      = Inr m \<and>
    dnssec_validate (\<lambda>_ _. True)
      (message_bytes 7 0x8180 [([''a''], 1, 1)] [([''a''], 1, 1, 60, [1, 2, 3, 4]), ([''a''], 46, 1, 60, [0, 1])] [] []) m =
      Inl (Fault OutOfBounds)"
proof -
  have g: "good_name [''a'']" by code_simp
  then show ?thesis
    using short_rrsig_overread [of "[''a'']" "[([''a''], 1, 1)]" "[1, 2, 3, 4]"] by simp
qed
end
