(* ===== verification/C_Processor.thy ===== *)
theory C_Processor
  imports C_RateLimit C_Resolver C_Policy C_Defense C_Dnssec
begin

text \<open>
  \<open>src/src/processor.c\<close>: what happens to one query, from the bytes that arrive to the bytes handed to the response
  callback, through the rate limiter, the quarantine, the blacklist, the scores, the resolver with its cache, the checks of the answer and
  the DNSSEC check. The global variables of the source are the fields of a record, and one call is one step: the workers of
  \<open>main.c\<close> run several at a time, but only the state of the limiter, the quarantine and the cache is guarded
  by locks there. A parameter says what the checks read through the pointers of an answer that the resolver has just received:
  they point into the buffer of a function that has returned, so in C anything may happen (\<open>Fault Dangling\<close>); on real machines it is
  some bytes. The lemmas show which queries are handled without undefined behaviour and what the client gets.
\<close>

section \<open>State\<close>

record firewall =
  net_side :: world
  policy :: policy_ctx
  defense :: ad_ctx
  limiter :: "rl_ctx option"
  reputation :: rep_ctx

text \<open>What does not change: the environment, the root hints, the check against the trusted key, and the dead buffer.\<close>

record setting =
  environment :: env
  root_hints :: "ns_record list"
  trusted :: "(byte list \<Rightarrow> byte list \<Rightarrow> bool) option"
  stale :: "dns_rr \<Rightarrow> byte list c_result"

definition clock_now :: "setting \<Rightarrow> firewall \<Rightarrow> int" where
  "clock_now s fw = time_of (environment s) (net_side fw)"

text \<open>\<open>htonl(INADDR_LOOPBACK)\<close> as the host reads it; a client on TCP has no address.\<close>

definition LOOPBACK :: "32 word" where "LOOPBACK = 0x0100007F"

definition guarded :: "32 word option \<Rightarrow> bool" where
  "guarded client \<longleftrightarrow> client \<noteq> None \<and> client \<noteq> Some LOOPBACK"

section \<open>Responses\<close>

definition DNS_RCODE_SERVFAIL :: "16 word" where "DNS_RCODE_SERVFAIL = 2"

definition servfail :: "16 word \<Rightarrow> byte list c_result" where
  "servfail i =
     cbind (dns_build_response_header (dns_builder_init 12) i (htons (DNS_QR_RESPONSE OR DNS_RCODE_SERVFAIL)) 0 0 0 0)
       (\<lambda>(rc, b). Inr (written b))"

fun build_questions :: "dns_builder \<Rightarrow> dns_question list \<Rightarrow> built" where
  "build_questions b [] = Inr (True, b)"
| "build_questions b (q # qs) = and_also (dns_build_question b (qname q) (qtype q) (qclass q)) (\<lambda>b. build_questions b qs)"

definition sinkhole_reply :: "dns_message \<Rightarrow> byte list c_result" where
  "sinkhole_reply req =
     cbind (and_also (dns_build_response_header (dns_builder_init 512) (hid (header req)) (htons DNS_QR_RESPONSE)
         (hqdcount (header req)) 1 0 0) (\<lambda>b. build_questions b (questions req))) (\<lambda>(rc, b).
     cbind (first_question req) (\<lambda>q.
     cbind (dns_build_rr b (qname q) DNS_TYPE_A DNS_CLASS_IN 300 [0, 0, 0, 0]) (\<lambda>(rc, b). Inr (written b))))"

section \<open>Steps\<close>

text \<open>The result of a query: the response, if there is one, and the new state.\<close>

type_synonym handled = "(byte list option \<times> firewall) c_result"

definition admit :: "setting \<Rightarrow> firewall \<Rightarrow> 32 word option \<Rightarrow> (bool \<times> firewall) c_result" where
  "admit s fw client =
     (if guarded client \<and> limiter fw \<noteq> None
      then cbind (rl_check (the (limiter fw)) (the client) (clock_now s fw)) (\<lambda>(allowed, rl).
        Inr (allowed, fw\<lparr>limiter := Some rl\<rparr>))
      else Inr (True, fw))"

definition quarantined_client :: "setting \<Rightarrow> firewall \<Rightarrow> 32 word option \<Rightarrow> bool" where
  "quarantined_client s fw client \<longleftrightarrow>
     guarded client \<and> ad_is_quarantined (defense fw) (the client) (clock_now s fw)"

definition block_query :: "setting \<Rightarrow> firewall \<Rightarrow> 32 word option \<Rightarrow> dns_message \<Rightarrow> dns_question \<Rightarrow> handled" where
  "block_query s fw client req q =
     cbind (sinkhole_reply req) (\<lambda>r.
     cbind (rep_record_block (reputation fw) (qname q) (clock_now s fw)) (\<lambda>rep.
       Inr (Some r, fw\<lparr>defense := (if guarded client then ad_report_block (defense fw) (the client) (clock_now s fw) else defense fw),
         reputation := rep\<rparr>)))"

fun peek_of :: "setting \<Rightarrow> origin \<Rightarrow> dns_rr \<Rightarrow> byte list c_result" where
  "peek_of s (Slot i) rr = Inr (rdata rr)"
| "peek_of s Frame rr = stale s rr"

definition check_answer ::
  "setting \<Rightarrow> firewall \<Rightarrow> dns_message \<Rightarrow> resolution \<Rightarrow> (policy_action \<times> firewall) c_result" where
  "check_answer s fw req res =
     (case res of
        Found origin answer \<Rightarrow>
          if answers answer = [] then Inr (Allow, fw)
          else cbind (policy_check_post_resolve (policy fw) (peek_of s origin) req answer (clock_now s fw)) (\<lambda>(action, p).
            Inr (action, fw\<lparr>policy := p\<rparr>))
      | _ \<Rightarrow> Inr (Allow, fw))"

text \<open>The verdict of the DNSSEC check is printed and has no effect on the response.\<close>

definition report_dnssec :: "setting \<Rightarrow> bool \<Rightarrow> byte list \<Rightarrow> unit c_result" where
  "report_dnssec s resolved raw =
     (case trusted s of None \<Rightarrow> Inr ()
      | Some verify \<Rightarrow>
          if resolved then
            cbind (attempt (dns_parse_message raw)) (\<lambda>m.
              case m of None \<Rightarrow> Inr () | Some tmp \<Rightarrow> cbind (dnssec_validate verify raw tmp) (\<lambda>_. Inr ()))
          else Inr ())"

definition relay :: "setting \<Rightarrow> firewall \<Rightarrow> dns_message \<Rightarrow> dns_question \<Rightarrow> resolution \<Rightarrow> handled" where
  "relay s fw req q res =
     (case res of
        Unresolved rc \<Rightarrow> cbind (servfail (hid (header req))) (\<lambda>r. Inr (Some r, fw))
      | _ \<Rightarrow>
        cbind (cache_lookup (wcache (net_side fw)) (qname q) (qtype q) (qclass q) (clock_now s fw)) (\<lambda>(hit, ca).
          case hit of
            None \<Rightarrow> cbind (servfail (hid (header req))) (\<lambda>r.
              Inr (Some r, fw\<lparr>net_side := (net_side fw)\<lparr>wcache := ca\<rparr>\<rparr>))
          | Some i \<Rightarrow>
              let ca' = cache_patch (hid (header req)) i ca in
              (case slots ca' ! i of None \<Rightarrow> Inl (Fault NullDeref)
               | Some e \<Rightarrow>
                   cbind (report_dnssec s (res \<noteq> Nxdomain) (cdata e)) (\<lambda>_.
                     Inr (Some (cdata e), fw\<lparr>net_side := (net_side fw)\<lparr>wcache := ca'\<rparr>\<rparr>)))))"

definition resolve_query :: "setting \<Rightarrow> firewall \<Rightarrow> 32 word option \<Rightarrow> dns_message \<Rightarrow> dns_question \<Rightarrow> handled" where
  "resolve_query s fw client req q =
     cbind (resolver_resolve (environment s) (root_hints s) (net_side fw) req) (\<lambda>(res, w).
     cbind (check_answer s (fw\<lparr>net_side := w\<rparr>) req res) (\<lambda>(action, fw').
       if action = Block then block_query s fw' client req q else relay s fw' req q res))"

definition check_query :: "setting \<Rightarrow> firewall \<Rightarrow> 32 word option \<Rightarrow> dns_message \<Rightarrow> handled" where
  "check_query s fw client req =
     cbind (first_question req) (\<lambda>q.
       if policy_check_blocklist (blacklist_of (policy fw)) (qname q) then block_query s fw client req q
       else cbind (policy_check_preresolve (policy fw) (qname q)) (\<lambda>action.
         if action = Block then block_query s fw client req q else resolve_query s fw client req q))"

text \<open>
  \<open>process_dns_query\<close>. A packet shorter than a header leaves \<open>query\<close> uninitialised; its pointers are then freed, after
  the response has been sent.
\<close>

definition process_dns_query :: "setting \<Rightarrow> firewall \<Rightarrow> 32 word option \<Rightarrow> byte list \<Rightarrow> handled" where
  "process_dns_query s fw client inbuf =
     cbind (attempt (dns_parse_message inbuf)) (\<lambda>parsed.
       case parsed of
         None \<Rightarrow>
           cbind (servfail 0) (\<lambda>r. if length inbuf < 12 then Inl (Fault Uninitialised) else Inr (Some r, fw))
       | Some req \<Rightarrow>
           cbind (admit s fw client) (\<lambda>(allowed, fw1).
             if \<not> allowed then Inr (None, fw1)
             else if quarantined_client s fw1 client then cbind (sinkhole_reply req) (\<lambda>r. Inr (Some r, fw1))
             else check_query s fw1 client req))"

text \<open>A sequence of queries; the run stops at the first fault.\<close>

fun serve :: "setting \<Rightarrow> firewall \<Rightarrow> (32 word option \<times> byte list) list \<Rightarrow> (byte list option list \<times> firewall) c_result" where
  "serve s fw [] = Inr ([], fw)"
| "serve s fw ((client, inbuf) # qs) =
     cbind (process_dns_query s fw client inbuf) (\<lambda>(r, fw').
     cbind (serve s fw' qs) (\<lambda>(rs, fw''). Inr (r # rs, fw'')))"

section \<open>Queries are handled\<close>

definition firewall_ok :: "firewall \<Rightarrow> bool" where
  "firewall_ok fw \<longleftrightarrow> world_ok (net_side fw) \<and> policy_ok (policy fw) \<and>
     (case limiter fw of None \<Rightarrow> True | Some rl \<Rightarrow> rl_ok rl) \<and> rep_ok (reputation fw)"

text \<open>A dead buffer in which reading gives some bytes.\<close>

definition readable :: "setting \<Rightarrow> bool" where
  "readable s \<longleftrightarrow> (\<forall>rr. \<exists>bs. stale s rr = Inr bs \<and> length bs = rdlength rr)"

text \<open>The query gets a response, and the scores can grow by \<open>n\<close> afterwards.\<close>

definition handles :: "nat \<Rightarrow> handled \<Rightarrow> bool" where
  "handles n r \<longleftrightarrow> (\<exists>x fw'. r = Inr (Some x, fw') \<and> firewall_ok fw' \<and> rep_room n (reputation fw'))"

text \<open>What the server relies on: the scores can grow by \<open>n\<close>, the forwarder can be used if it is asked over TCP, the dead buffer is
  readable, and the DNSSEC check is off.\<close>

definition serviceable :: "nat \<Rightarrow> setting \<Rightarrow> firewall \<Rightarrow> bool" where
  "serviceable n s fw \<longleftrightarrow>
     rep_room n (reputation fw) \<and> int n \<le> INT_MAX \<and> forwarder_usable (environment s) \<and> readable s \<and> trusted s = None"

lemma extends_questions: "builder_ok b \<Longrightarrow> extends b (build_questions b qs)"
  by (induction qs arbitrary: b) (auto intro: extends_refl extends_and_also extends_question)

lemma sinkhole_defined:
  assumes "questions req = q # qs"
  shows "\<exists>r. sinkhole_reply req = Inr r"
proof -
  have "extends (dns_builder_init 512) (and_also (dns_build_response_header (dns_builder_init 512) (hid (header req))
      (htons DNS_QR_RESPONSE) (hqdcount (header req)) 1 0 0) (\<lambda>b. build_questions b (questions req)))"
    by (intro extends_and_also extends_header extends_questions) simp_all
  then obtain rc b where "and_also (dns_build_response_header (dns_builder_init 512) (hid (header req)) (htons DNS_QR_RESPONSE)
      (hqdcount (header req)) 1 0 0) (\<lambda>b. build_questions b (questions req)) = Inr (rc, b)" "builder_ok b"
    unfolding extends_def by blast
  moreover obtain rc' b' where "dns_build_rr b (qname q) DNS_TYPE_A DNS_CLASS_IN 300 [0, 0, 0, 0] = Inr (rc', b')"
    using extends_rr [OF \<open>builder_ok b\<close>] unfolding extends_def by blast
  ultimately show ?thesis by (simp add: sinkhole_reply_def first_question_def assms)
qed

lemma servfail_defined: "\<exists>r. servfail i = Inr r"
  by (simp add: servfail_def build_header_ok dns_builder_init_def)

lemma admit_ok:
  assumes "firewall_ok fw"
  shows "\<exists>allowed fw1. admit s fw client = Inr (allowed, fw1) \<and> firewall_ok fw1 \<and>
    fw1 = fw\<lparr>limiter := limiter fw1\<rparr> \<and> (\<not> guarded client \<longrightarrow> allowed)"
proof (cases "guarded client \<and> limiter fw \<noteq> None")
  case True
  then obtain rl where rl: "limiter fw = Some rl" "rl_ok rl" using assms by (auto simp: firewall_ok_def)
  from rl_check_client [OF rl(2), of "the client" "clock_now s fw"]
  obtain allowed rl' where "rl_check rl (the client) (clock_now s fw) = Inr (allowed, rl')" "rl_ok rl'" by blast
  then show ?thesis using True rl assms by (simp add: admit_def firewall_ok_def)
qed (auto simp: admit_def assms)

lemma block_handles:
  assumes "firewall_ok fw" and "questions req = q' # qs" and "rep_room (Suc n) (reputation fw)" and "int n < INT_MAX"
  shows "handles n (block_query s fw client req q)"
proof -
  obtain r where r: "sinkhole_reply req = Inr r" using sinkhole_defined [OF assms(2)] by blast
  obtain rep' where "rep_record_block (reputation fw) (qname q) (clock_now s fw) = Inr rep'" "rep_ok rep'" "rep_room n rep'"
    using rep_step_room [of "reputation fw" n "Blocked (qname q) (clock_now s fw)"] assms by (auto simp: firewall_ok_def)
  then show ?thesis using r assms(1) by (simp add: handles_def block_query_def firewall_ok_def)
qed

lemma rep_room_less: "rep_room (Suc n) ctx \<Longrightarrow> rep_room n ctx"
  unfolding rep_room_def by (elim list.pred_mono_strong) simp

lemma check_answer_ok:
  assumes "firewall_ok fw" and "readable s" and "grounded (net_side fw) res"
    and "questions req = q # qs" and "wf_question q"
  shows "\<exists>action p. check_answer s fw req res = Inr (action, fw\<lparr>policy := p\<rparr>) \<and> policy_ok p"
proof -
  have p: "policy_ok (policy fw)" using assms(1) by (simp add: firewall_ok_def)
  have same: "fw = fw\<lparr>policy := policy fw\<rparr>" by simp
  show ?thesis
  proof (cases res)
    case (Found origin answer)
    have "peeks (peek_of s origin) (answers answer)"
    proof (cases origin)
      case (Slot i)
      then obtain e :: cache_entry where "dns_parse_message (cdata e) = Inr answer" using assms(3) Found by auto
      then have "wf_message (cdata e) answer" using parse_message_safe [of "cdata e"] by simp
      then show ?thesis by (auto simp: peeks_def Slot wf_message_def wf_rr_def list_all_iff)
    next
      case Frame
      then show ?thesis using assms(2) by (simp add: peeks_def readable_def)
    qed
    from post_resolve_ok [OF p this assms(4,5), of "clock_now s fw"] obtain act ctx' where
      c: "policy_check_post_resolve (policy fw) (peek_of s origin) req answer (clock_now s fw) = Inr (act, ctx')"
      "flux_only (policy fw) ctx'" by blast
    have "policy_ok ctx'"
      using c(2) p unfolding flux_only_def policy_ok_def by (metis policy_ctx.select_convs(3) policy_ctx.surjective policy_ctx.update_convs(6))
    then show ?thesis
      using c(1) p same by (cases "answers answer = []") (auto simp: check_answer_def Found intro: exI [of _ "policy fw"])
  qed (use p same in \<open>auto simp: check_answer_def intro: exI [of _ "policy fw"]\<close>)
qed

lemma report_dnssec_off: "trusted s = None \<Longrightarrow> report_dnssec s b raw = Inr ()"
  by (simp add: report_dnssec_def)

lemma relay_handles:
  assumes "firewall_ok fw" and "trusted s = None" and "rep_room n (reputation fw)"
  shows "handles n (relay s fw req q res)"
proof -
  have c: "cache_ok (wcache (net_side fw))" using assms(1) by (simp add: firewall_ok_def)
  obtain r where sf: "servfail (hid (header req)) = Inr r" using servfail_defined by blast
  obtain hit ca where l: "cache_lookup (wcache (net_side fw)) (qname q) (qtype q) (qclass q) (clock_now s fw) = Inr (hit, ca)"
    "cache_ok ca" "hit \<noteq> None \<longrightarrow> ca = wcache (net_side fw)"
    using cache_lookup_ok [OF c, of "qname q" "qtype q" "qclass q" "clock_now s fw"] by blast
  have ok: "firewall_ok (fw\<lparr>net_side := (net_side fw)\<lparr>wcache := ca'\<rparr>\<rparr>)" if "cache_ok ca'" for ca'
    using assms(1) that by (simp add: firewall_ok_def world_ok_store)
  show ?thesis
  proof (cases hit)
    case None
    then show ?thesis using sf l assms ok [OF l(2)] by (cases res) (simp_all add: relay_def handles_def)
  next
    case (Some i)
    let ?k = "build_key (qname q) (qtype q) (qclass q)"
    have "lookup_loop (clock_now s fw) ?k (slots ca) (probes ca ?k) = Hit i"
      using l c Some by (auto simp: cache_lookup_def Let_def cache_ok_def split: found.splits)
    from lookup_loop_hit [OF this] obtain e where e: "i < capacity ca" "slots ca ! i = Some e" by (auto simp: probes_set)
    then have "slots (cache_patch (hid (header req)) i ca) ! i = Some (e\<lparr>cdata := patch_id (hid (header req)) (cdata e)\<rparr>)"
      using l(2) by (simp add: cache_patch_def cache_ok_def)
    then show ?thesis
      using sf l Some assms ok [OF cache_patch_ok [OF l(2) e(1)]]
      by (cases res) (simp_all add: relay_def handles_def Let_def report_dnssec_off)
  qed
qed

lemma resolve_query_handles:
  assumes "firewall_ok fw" and "serviceable (Suc n) s fw" and "questions req = q # qs" and "wf_question q"
  shows "handles n (resolve_query s fw client req q)"
proof -
  have sv: "forwarder_usable (environment s)" "readable s" "trusted s = None" "rep_room (Suc n) (reputation fw)" "int n < INT_MAX"
    using assms(2) by (auto simp: serviceable_def)
  have "world_ok (net_side fw)" using assms(1) by (simp add: firewall_ok_def)
  then have "resolves (net_side fw) (resolver_resolve (environment s) (root_hints s) (net_side fw) req)"
    using resolve_ok [OF sv(1)] by (simp add: resolver_resolve_def assms(3))
  then obtain res w where r: "resolver_resolve (environment s) (root_hints s) (net_side fw) req = Inr (res, w)"
    "world_ok w" "grounded w res" by (auto simp: resolves_def grows_def)
  then have ok: "firewall_ok (fw\<lparr>net_side := w\<rparr>)" using assms(1) by (simp add: firewall_ok_def)
  obtain action p where c: "check_answer s (fw\<lparr>net_side := w\<rparr>) req res = Inr (action, fw\<lparr>net_side := w, policy := p\<rparr>)"
    "policy_ok p" using check_answer_ok [OF ok sv(2) _ assms(3,4), of res] r(3) by auto
  then have "firewall_ok (fw\<lparr>net_side := w, policy := p\<rparr>)" using ok by (simp add: firewall_ok_def)
  then show ?thesis
    using block_handles [OF _ assms(3) _ sv(5)] relay_handles [OF _ sv(3)] sv(4) rep_room_less [OF sv(4)]
    by (simp add: resolve_query_def r(1) c(1))
qed

lemma check_query_handles:
  assumes "firewall_ok fw" and "serviceable (Suc n) s fw" and "questions req = q # qs" and "wf_question q"
  shows "handles n (check_query s fw client req)"
proof -
  have "policy_ok (policy fw)" using assms(1) by (simp add: firewall_ok_def)
  then show ?thesis
    using preresolve_ok [of "policy fw" "qname q"] block_handles [OF assms(1,3)] resolve_query_handles [OF assms] assms(2)
    by (auto simp: check_query_def first_question_def assms(3) serviceable_def)
qed

text \<open>The two ways in which a packet can break the processor: it is shorter than a header, or it asks nothing and is let in.\<close>

definition breaks :: "setting \<Rightarrow> firewall \<Rightarrow> 32 word option \<Rightarrow> byte list \<Rightarrow> bool" where
  "breaks s fw client inbuf \<longleftrightarrow>
     length inbuf < 12 \<or>
     (\<exists>req fw1. dns_parse_message inbuf = Inr req \<and> questions req = [] \<and> admit s fw client = Inr (True, fw1))"

lemma process_broken:
  assumes "firewall_ok fw" and "breaks s fw client inbuf"
  shows "process_dns_query s fw client inbuf =
    Inl (Fault (if length inbuf < 12 then Uninitialised else NullDeref))"
proof (cases "length inbuf < 12")
  case True
  then show ?thesis
    using servfail_defined [of 0] by (auto simp: process_dns_query_def attempt_def dns_parse_message_def)
next
  case False
  then obtain req fw1 where r: "dns_parse_message inbuf = Inr req" "questions req = []" "admit s fw client = Inr (True, fw1)"
    using assms(2) by (auto simp: breaks_def)
  obtain rc b where "and_also (dns_build_response_header (dns_builder_init 512) (hid (header req)) (htons DNS_QR_RESPONSE)
      (hqdcount (header req)) 1 0 0) (\<lambda>b. build_questions b []) = Inr (rc, b)"
    by (simp add: build_header_ok dns_builder_init_def and_also_def)
  then have "sinkhole_reply req = Inl (Fault NullDeref)"
    by (simp add: sinkhole_reply_def first_question_def r(2))
  then show ?thesis
    using False r by (simp add: process_dns_query_def attempt_def check_query_def first_question_def)
qed

definition dropped :: "setting \<Rightarrow> firewall \<Rightarrow> 32 word option \<Rightarrow> byte list \<Rightarrow> bool" where
  "dropped s fw client inbuf \<longleftrightarrow>
     (\<exists>req fw1. dns_parse_message inbuf = Inr req \<and> admit s fw client = Inr (False, fw1))"

definition asks :: "byte list \<Rightarrow> bool" where
  "asks inbuf \<longleftrightarrow> 12 \<le> length inbuf \<and> (case dns_parse_message inbuf of Inl e \<Rightarrow> True | Inr req \<Rightarrow> questions req \<noteq> [])"

lemma process_handles:
  assumes "firewall_ok fw" and "serviceable (Suc n) s fw" and "\<not> breaks s fw client inbuf"
  shows "\<exists>x fw'. process_dns_query s fw client inbuf = Inr (x, fw') \<and> firewall_ok fw' \<and> rep_room n (reputation fw') \<and>
    (x = None \<longleftrightarrow> dropped s fw client inbuf)"
proof -
  have room: "rep_room n (reputation fw)" using assms(2) rep_room_less by (simp add: serviceable_def)
  show ?thesis
proof (cases "dns_parse_message inbuf")
  case (Inl e)
  then have "e = Failed" using parse_message_safe [of inbuf] by simp
  moreover have "\<not> length inbuf < 12" using assms(3) by (simp add: breaks_def)
  ultimately show ?thesis
    using servfail_defined [of 0] assms(1) room Inl by (auto simp: process_dns_query_def attempt_def dropped_def)
next
  case (Inr req)
  then have wf: "wf_message inbuf req" using parse_message_safe [of inbuf] by simp
  obtain allowed fw1 where a: "admit s fw client = Inr (allowed, fw1)" "firewall_ok fw1" "reputation fw1 = reputation fw"
    using admit_ok [OF assms(1), of s client] by (metis firewall.select_convs(5) firewall.surjective firewall.update_convs(4))
  show ?thesis
  proof (cases allowed)
    case True
    then obtain q qs where q: "questions req = q # qs" "wf_question q"
      using assms(3) Inr a(1) wf by (cases "questions req") (auto simp: breaks_def wf_message_def)
    obtain r where r: "sinkhole_reply req = Inr r" using sinkhole_defined [OF q(1)] by blast
    have "serviceable (Suc n) s fw1" using assms(2) a(3) by (simp add: serviceable_def)
    from check_query_handles [OF a(2) this q, of client] obtain x fw' where
      c: "check_query s fw1 client req = Inr (Some x, fw')" "firewall_ok fw'" "rep_room n (reputation fw')"
      by (auto simp: handles_def)
    have "\<not> dropped s fw client inbuf" using a(1) True by (simp add: dropped_def)
    then show ?thesis
      using a True Inr r c room by (simp add: process_dns_query_def attempt_def)
  next
    case False
    then have "dropped s fw client inbuf" using a(1) Inr by (simp add: dropped_def)
    then show ?thesis using a Inr False room by (simp add: process_dns_query_def attempt_def)
  qed
qed
qed

section \<open>The start of the server\<close>

definition CACHE_DEFAULT_SIZE :: nat where "CACHE_DEFAULT_SIZE = 1024"

text \<open>The tables that \<open>main\<close> sets up.\<close>

definition start_firewall ::
  "real option \<Rightarrow> int option \<Rightarrow> byte list option \<Rightarrow> string option \<Rightarrow> int \<Rightarrow> firewall c_result" where
  "start_firewall env_dga env_flux model bl now =
     cbind (policy_init env_dga env_flux model bl now) (\<lambda>p.
       Inr \<lparr>net_side = \<lparr>wcache = cache_create CACHE_DEFAULT_SIZE, sent = [], pool = None, dialled = 0\<rparr>, policy = p, defense = ad_init,
         limiter = Some (rl_create 20 256), reputation = rep_init now\<rparr>)"

lemma start_ok:
  assumes "start_firewall env_dga env_flux model bl now = Inr fw" and "good_model (hash_table (policy fw))"
  shows "firewall_ok fw"
  using assms by (auto simp: start_firewall_def cbind_eq_Inr firewall_ok_def policy_ok_def cache_create_ok
      CACHE_DEFAULT_SIZE_def rl_ok_def rl_create_def world_ok_def rep_init_ok)

text \<open>Whatever the model file and the blacklist hold, the server starts with well-formed tables.\<close>

lemma start_served:
  assumes "model_file model"
  shows "\<exists>fw. start_firewall env_dga env_flux model bl now = Inr fw \<and> firewall_ok fw \<and> reputation fw = rep_init now"
proof -
  obtain tab where tab: "c_load_ngram_model model = Inr tab" "good_model tab" using model_file_good [OF assms] by blast
  obtain fw where fw: "start_firewall env_dga env_flux model bl now = Inr fw" "hash_table (policy fw) = tab" "reputation fw = rep_init now"
    by (simp add: start_firewall_def policy_init_def tab(1))
  then show ?thesis using start_ok [OF fw(1)] tab(2) by blast
qed

lemma start_without_model:
  "\<exists>fw. start_firewall d f None bl now = Inr fw \<and> firewall_ok fw \<and> hash_table (policy fw) = None \<and>
    net_side fw = \<lparr>wcache = cache_create 1024, sent = [], pool = None, dialled = 0\<rparr> \<and> limiter fw = Some (rl_create 20 256) \<and> defense fw = ad_init \<and>
    blacklist_of (policy fw) = (case bl of None \<Rightarrow> blacklist_empty | Some f \<Rightarrow> blacklist_load_file blacklist_empty f) \<and>
    g_dga_threshold (policy fw) = (case d of None \<Rightarrow> FLOAT_DGA_THRESHOLD | Some x \<Rightarrow> fl32 x)"
proof -
  obtain fw where fw: "start_firewall d f None bl now = Inr fw" "hash_table (policy fw) = None"
    by (simp add: start_firewall_def policy_init_def c_load_ngram_model_def)
  have "firewall_ok fw" by (rule start_ok [OF fw(1)]) (simp add: fw(2) good_model_def)
  then show ?thesis
    using fw by (auto simp: start_firewall_def policy_init_def c_load_ngram_model_def CACHE_DEFAULT_SIZE_def)
qed

lemma cache_lookup_create: "0 < n \<Longrightarrow> cache_lookup (cache_create n) name t c now = Inr (None, cache_create n)"
proof -
  assume n: "0 < n"
  obtain i "is" where p: "probes (cache_create n) (build_key name t c) = i # is" and "i < n"
    using n probes_set [of "cache_create n" "build_key name t c"]
    by (cases "probes (cache_create n) (build_key name t c)") (auto simp: cache_create_def)
  then have "lookup_loop now (build_key name t c) (slots (cache_create n)) (probes (cache_create n) (build_key name t c)) = Miss"
    by (simp add: cache_create_def)
  then show ?thesis using n by (simp add: cache_lookup_def cache_create_def)
qed

text \<open>A name that the checks before the resolution let pass.\<close>

definition passes :: "policy_ctx \<Rightarrow> string \<Rightarrow> bool" where
  "passes p name \<longleftrightarrow> \<not> policy_check_blocklist (blacklist_of p) name \<and> policy_check_preresolve p name = Inr Allow"

text \<open>A question that is not in the cache, which has a free slot, and goes to a forwarder (over TCP, on a connection that is found), which
  answers with a packet of usual size that has a lifetime.\<close>

definition fresh_reply :: "env \<Rightarrow> world \<Rightarrow> dns_question \<Rightarrow> byte list \<Rightarrow> dns_message \<Rightarrow> bool" where
  "fresh_reply env w q raw resp \<longleftrightarrow>
     (\<exists>ca hop w1 rq. cache_lookup (wcache w) (qname q) (qtype q) (qclass q) (time_of env w) = Inr (None, ca) \<and>
        used ca < capacity ca \<and> forward_hop env (qname q) w = Some (hop, w1) \<and>
        request_bytes (ids env (length (sent w))) (qname q) (qtype q) (qclass q) = Inr rq \<and>
        net env (sent w @ [(hop, rq)]) = Some raw) \<and>
     12 \<le> length raw \<and> length raw < EDNS_SIZE \<and> dns_parse_message raw = Inr resp \<and> 0 < reply_ttl resp"

section \<open>A start without files, and a query\<close>

text \<open>The state after a start with no model and no settings in the environment, a setting with a forwarder, and a query with its
  reply: the inputs of the witnesses.\<close>

definition bare_firewall :: "string option \<Rightarrow> firewall" where
  "bare_firewall bl =
     \<lparr>net_side = \<lparr>wcache = cache_create 1024, sent = [], pool = None, dialled = 0\<rparr>,
      policy = \<lparr>blacklist_of = (case bl of None \<Rightarrow> blacklist_empty | Some f \<Rightarrow> blacklist_load_file blacklist_empty f),
        last_housekeeping = 0, hash_table = None, g_dga_threshold = FLOAT_DGA_THRESHOLD, g_flux_ip_max = 500, flux_of = []\<rparr>,
      defense = ad_init, limiter = Some (rl_create 20 256), reputation = rep_init 0\<rparr>"

lemma bare_firewall:
  "start_firewall None None None bl 0 = Inr (bare_firewall bl)" "firewall_ok (bare_firewall bl)"
proof -
  show s: "start_firewall None None None bl 0 = Inr (bare_firewall bl)"
    by (simp add: start_firewall_def policy_init_def c_load_ngram_model_def bare_firewall_def CACHE_DEFAULT_SIZE_def
        DEFAULT_FLUX_IP_MAX_def)
  show "firewall_ok (bare_firewall bl)" by (rule start_ok [OF s]) (simp add: bare_firewall_def good_model_def)
qed

definition plain_query :: "16 word \<Rightarrow> byte list" where
  "plain_query i = message_bytes i 256 [([''x'', ''y''], 1, 1)] [] [] []"

definition plain_reply :: "byte list" where
  "plain_reply = message_bytes 7 0x8180 [([''x'', ''y''], 1, 1)] [([''x'', ''y''], 1, 1, 60, [1, 2, 3, 4])] [] []"

definition plain_setting :: "(dns_rr \<Rightarrow> byte list c_result) \<Rightarrow> setting" where
  "plain_setting dead =
     \<lparr>environment = \<lparr>net = \<lambda>_. Some plain_reply, ids = \<lambda>_. 7, clock = \<lambda>_. 0, forwarder = Some ''8.8.8.8'', over_tcp = False,
        dials = \<lambda>_. False, severed = \<lambda>_. False\<rparr>,
      root_hints = [], trusted = None, stale = dead\<rparr>"

lemma plain_query:
  "\<exists>req. dns_parse_message (plain_query i) = Inr req \<and> hid (header req) = i \<and>
    questions req = [\<lparr>qname = ''x.y.'', qtype = 1, qclass = 1\<rparr>]"
  "asks (plain_query i)"
proof -
  have g: "good_name [''x'', ''y'']" by code_simp
  show r: "\<exists>req. dns_parse_message (plain_query i) = Inr req \<and> hid (header req) = i \<and>
      questions req = [\<lparr>qname = ''x.y.'', qtype = 1, qclass = 1\<rparr>]"
    using parse_message_bytes [of "[([''x'', ''y''], 1, 1)]" "[]" "[]" "[]" i 256 "[]"] g
    by (auto simp: plain_query_def question_of_def shown_name_def)
  have "12 \<le> length (plain_query i)" by (simp add: plain_query_def message_bytes_def)
  with r show "asks (plain_query i)" by (auto simp: asks_def)
qed

lemma threshold_positive: "0 \<le> FLOAT_DGA_THRESHOLD"
  unfolding FLOAT_DGA_THRESHOLD_def using f32.mono [of 0 "48 / 100"] by simp

lemma plain_passes:
  "passes (policy (bare_firewall None)) ''x.y.''"
  "dga_score_domain (hash_table (policy (bare_firewall None))) ''x.y.'' = Inr 0"
proof -
  have n: "name_buffer ''x.y.'' = ''x.y''" by code_simp
  have "\<not> policy_check_blocklist blacklist_empty ''x.y.''" using blacklist_empty(2) by (simp add: policy_check_blocklist_def)
  then show "passes (policy (bare_firewall None)) ''x.y.''"
    using threshold_positive n
    by (simp add: passes_def bare_firewall_def policy_check_preresolve_def dga_score_domain_def)
  show "dga_score_domain (hash_table (policy (bare_firewall None))) ''x.y.'' = Inr 0"
    by (simp add: dga_score_domain_def)
qed

lemma plain_reply:
  "\<exists>resp rr. dns_parse_message plain_reply = Inr resp \<and> answers resp = [rr] \<and> rtype rr = 1 \<and> rdlength rr = 4 \<and>
    fresh_reply (environment (plain_setting dead)) (net_side (bare_firewall None)) \<lparr>qname = ''x.y.'', qtype = 1, qclass = 1\<rparr>
      plain_reply resp"
proof -
  have g: "good_name [''x'', ''y'']" by code_simp
  obtain resp where r: "dns_parse_message plain_reply = Inr resp"
    "map rr_view (answers resp) = [(''x.y.'', 1, 1, 60, [1, 2, 3, 4])]"
    using parse_message_bytes [of "[([''x'', ''y''], 1, 1)]" "[([''x'', ''y''], 1, 1, 60, [1, 2, 3, 4])]" "[]" "[]" 7 "0x8180" "[]"] g
    by (auto simp: plain_reply_def rr_of_def shown_name_def good_rr_def)
  then obtain rr where rr: "answers resp = [rr]" "rr_view rr = (''x.y.'', 1, 1, 60, [1, 2, 3, 4])"
    by (auto simp: map_eq_Cons_conv)
  have "wf_rr plain_reply rr" using parse_message_safe [of plain_reply] r(1) rr(1) by (simp add: wf_message_def)
  then have f: "rtype rr = 1" "ttl rr = 60" "rdlength rr = 4" using rr(2) by (auto simp: rr_view_def wf_rr_def)
  have hop: "static_forwarder ''x.y.'' = None" "inet_pton ''8.8.8.8'' = Some 0x08080808" by code_simp+
  have len: "length plain_reply = 40" by code_simp
  obtain rq where "request_bytes 7 ''x.y.'' 1 1 = Inr rq" using request_defined by blast
  then have "fresh_reply (environment (plain_setting dead)) (net_side (bare_firewall None))
      \<lparr>qname = ''x.y.'', qtype = 1, qclass = 1\<rparr> plain_reply resp"
    using r(1) rr(1) f len hop
    by (simp add: fresh_reply_def plain_setting_def bare_firewall_def cache_lookup_create forward_hop_def reply_ttl_def
        EDNS_SIZE_def) (simp add: cache_create_def)
  then show ?thesis using r(1) rr(1) f by blast
qed

section \<open>Properties\<close>

text \<open>C5: Exactly two kinds of packets break the processor, whatever its state and whatever the network answers: those
  shorter than a header (on TCP and DoH; their uninitialised message is freed), and those that ask no question and are not
  rate-limited (the first question is read through a null pointer). Every other packet leaves well-formed tables behind and gets a
  response, unless the limiter drops it. The conditions: the tables are well-formed, no score of the reputation tracker is at the
  largest int, with DNS_FORWARDER_TCP the forwarder can be used (its address parses, it accepts a connection sooner or later and
  does not close one that is being written to), the dead buffer of the resolver is readable, and the DNSSEC check is off.\<close>

theorem broken_queries:
  assumes "firewall_ok fw" and "rep_room 1 (reputation fw)" and "forwarder_usable (environment s)" and "readable s"
    and "trusted s = None"
  shows "if breaks s fw client inbuf
    then process_dns_query s fw client inbuf = Inl (Fault (if length inbuf < 12 then Uninitialised else NullDeref))
    else \<exists>x fw'. process_dns_query s fw client inbuf = Inr (x, fw') \<and> firewall_ok fw' \<and>
      (x = None \<longleftrightarrow> dropped s fw client inbuf)"
proof -
  have "serviceable (Suc 0) s fw" using assms(2-5) by (simp add: serviceable_def INT_MAX_def)
  from process_handles [OF assms(1) this, of client inbuf] show ?thesis
    using process_broken [OF assms(1), of s client inbuf] by (cases "breaks s fw client inbuf") (simp, auto)
qed

text \<open>A header that announces no question, sent from the machine itself.\<close>

theorem broken_queries_witness:
  "process_dns_query (plain_setting (\<lambda>rr. Inr (replicate (rdlength rr) 0))) (bare_firewall None) (Some LOOPBACK)
      (message_bytes 1 256 [] [] [] []) = Inl (Fault NullDeref)"
proof -
  let ?s = "plain_setting (\<lambda>rr. Inr (replicate (rdlength rr) 0))" and ?p = "message_bytes 1 256 [] [] [] []"
  obtain m where m: "dns_parse_message ?p = Inr m" "questions m = []"
    using parse_message_bytes [of "[]" "[]" "[]" "[]" 1 256 "[]"] by auto
  have "admit ?s (bare_firewall None) (Some LOOPBACK) = Inr (True, bare_firewall None)" by (simp add: admit_def guarded_def)
  then have "breaks ?s (bare_firewall None) (Some LOOPBACK) ?p" using m by (auto simp: breaks_def)
  moreover have "length ?p = 12" by (simp add: message_bytes_def)
  ultimately show ?thesis
    using broken_queries [OF bare_firewall(2), of None ?s "Some LOOPBACK" ?p]
    by (simp add: readable_def plain_setting_def forwarder_usable_def bare_firewall_def rep_init_room)
qed

text \<open>C35: From any well-formed state in which every score of the reputation tracker can grow by the number of packets (after a start
  that is any number below 2^31), every sequence of packets that parse with a question, or do not parse but are as long as
  a header, is served to its end, and the tables are well-formed after it. The conditions: with DNS_FORWARDER_TCP the forwarder
  can be used (its address parses, it accepts a connection sooner or later and does not close one that is being written to), the
  dead buffer of the resolver is readable, and the DNSSEC check is off.\<close>

theorem runs_are_served:
  assumes "firewall_ok fw" and "rep_room (length qs) (reputation fw)" and "length qs < 2 ^ 31"
    and "forwarder_usable (environment s)" and "readable s" and "trusted s = None" and "list_all (\<lambda>q. asks (snd q)) qs"
  shows "\<exists>rs fw'. serve s fw qs = Inr (rs, fw') \<and> firewall_ok fw' \<and> length rs = length qs"
  using assms(1-3,7)
proof (induction qs arbitrary: fw)
  case (Cons x qs)
  obtain client inbuf where x: "x = (client, inbuf)" by (cases x)
  have "serviceable (Suc (length qs)) s fw"
    using Cons.prems(2,3) assms(4-6) by (simp add: serviceable_def INT_MAX_def)
  moreover have "\<not> breaks s fw client inbuf" using Cons.prems(4) by (auto simp: x asks_def breaks_def)
  ultimately obtain r fw1 where r: "process_dns_query s fw client inbuf = Inr (r, fw1)" "firewall_ok fw1"
    "rep_room (length qs) (reputation fw1)"
    using process_handles [OF Cons.prems(1)] by blast
  then obtain rs fw' where "serve s fw1 qs = Inr (rs, fw')" "firewall_ok fw'" "length rs = length qs"
    using Cons.IH [OF r(2,3)] Cons.prems(3,4) by auto
  then show ?case using r(1) by (simp add: x)
qed simp

theorem runs_are_served_witness:
  "\<exists>rs fw'. serve (plain_setting (\<lambda>rr. Inr (replicate (rdlength rr) 0))) (bare_firewall None)
      [(None, plain_query 1), (Some 16909060, plain_query 2)] = Inr (rs, fw') \<and> firewall_ok fw' \<and> length rs = 2"
proof -
  let ?s = "plain_setting (\<lambda>rr. Inr (replicate (rdlength rr) 0))" and ?fw = "bare_firewall None"
  have "rep_room n (reputation ?fw)" for n by (simp add: bare_firewall_def rep_init_room)
  moreover have "forwarder_usable (environment ?s)" "readable ?s" "trusted ?s = None"
    by (simp_all add: plain_setting_def forwarder_usable_def readable_def)
  ultimately show ?thesis
    using runs_are_served [OF bare_firewall(2), of "[(None, plain_query 1), (Some 16909060, plain_query 2)]" None ?s] plain_query(2)
    by simp (simp add: numeral_2_eq_2)
qed

section \<open>What a client gets\<close>



text \<open>A query that passes the checks on the client: its limiter lets it through, and it is not in quarantine.\<close>

definition admitted :: "setting \<Rightarrow> firewall \<Rightarrow> 32 word option \<Rightarrow> firewall \<Rightarrow> bool" where
  "admitted s fw client fw1 \<longleftrightarrow> admit s fw client = Inr (True, fw1) \<and> \<not> quarantined_client s fw1 client"

lemma admitted_state: "firewall_ok fw \<Longrightarrow> admitted s fw client fw1 \<Longrightarrow> firewall_ok fw1 \<and> fw1 = fw\<lparr>limiter := limiter fw1\<rparr>"
  using admit_ok [of fw s client] by (auto simp: admitted_def)

lemma process_admitted:
  "dns_parse_message inbuf = Inr req \<Longrightarrow> admitted s fw client fw1 \<Longrightarrow>
    process_dns_query s fw client inbuf = check_query s fw1 client req"
  by (simp add: process_dns_query_def attempt_def admitted_def)



lemma fresh_resolved:
  assumes "world_ok w" and "questions req = q # qs" and "wf_question q" and "fresh_reply env w q raw resp"
  shows "\<exists>w' i hop rq. resolver_resolve env roots w req = Inr (Found Frame resp, w') \<and> sent w' = sent w @ [(hop, rq)] \<and>
    world_ok w' \<and> i < capacity (wcache w') \<and> map_option cdata (slots (wcache w') ! i) = Some raw \<and>
    cache_lookup (wcache w') (qname q) (qtype q) (qclass q) (time_of env w') = Inr (Some i, wcache w')"
proof -
  obtain ca hop w1 rq where f: "cache_lookup (wcache w) (qname q) (qtype q) (qclass q) (time_of env w) = Inr (None, ca)"
    "used ca < capacity ca" "forward_hop env (qname q) w = Some (hop, w1)"
    "request_bytes (ids env (length (sent w))) (qname q) (qtype q) (qclass q) = Inr rq"
    "net env (sent w @ [(hop, rq)]) = Some raw"
    and r: "12 \<le> length raw" "length raw < EDNS_SIZE" "dns_parse_message raw = Inr resp" "0 < reply_ttl resp"
    using assms(4) by (auto simp: fresh_reply_def)
  have "cache_ok ca"
    using cache_lookup_ok [OF world_ok_cache [OF assms(1)], of "qname q" "qtype q" "qclass q" "time_of env w"] f(1) by auto
  from forward_reply [OF f(1) this f(2-5) r assms(1), where n = MAX_RECURSION_DEPTH and nss = roots] obtain w' i where
    w': "resolve_internal (Suc MAX_RECURSION_DEPTH) env w (qname q) (qtype q) (qclass q) roots = Inr (Found Frame resp, w')"
    "sent w' = sent w @ [(hop, rq)]" "world_ok w'" "i < capacity (wcache w')"
    "slots (wcache w') ! i = Some \<lparr>ckey = build_key (qname q) (qtype q) (qclass q), cdata = raw,
       expiry = time_of env w' + uint (reply_ttl resp)\<rparr>"
    "cache_lookup (wcache w') (qname q) (qtype q) (qclass q) (time_of env w') = Inr (Some i, wcache w')"
    by blast
  have "c_copy 256 (qname q) = qname q" using assms(3) by (simp add: c_copy_def wf_question_def DNS_MAX_NAME_LEN_def)
  then have "resolver_resolve env roots w req = Inr (Found Frame resp, w')"
    using w'(1) by (simp add: resolver_resolve_def assms(2))
  then show ?thesis using w' by auto
qed

text \<open>The query reaches the resolver, which finds the fresh reply.\<close>

lemma process_fresh:
  assumes "firewall_ok fw" and "dns_parse_message inbuf = Inr req" and "admitted s fw client fw1"
    and "questions req = q # qs" and "passes (policy fw) (qname q)"
    and "fresh_reply (environment s) (net_side fw) q raw resp"
  shows "\<exists>w' i hop rq. process_dns_query s fw client inbuf =
      cbind (check_answer s (fw1\<lparr>net_side := w'\<rparr>) req (Found Frame resp)) (\<lambda>(action, fw').
        if action = Block then block_query s fw' client req q else relay s fw' req q (Found Frame resp)) \<and>
    sent w' = sent (net_side fw) @ [(hop, rq)] \<and> world_ok w' \<and> i < capacity (wcache w') \<and>
    map_option cdata (slots (wcache w') ! i) = Some raw \<and>
    cache_lookup (wcache w') (qname q) (qtype q) (qclass q) (time_of (environment s) w') = Inr (Some i, wcache w')"
proof -
  note st = conjunct2 [OF admitted_state [OF assms(1,3)]]
  have same: "policy fw1 = policy fw" "net_side fw1 = net_side fw" by (subst st, simp)+
  have "world_ok (net_side fw)" using assms(1) by (simp add: firewall_ok_def)
  moreover have "wf_question q"
    using parse_message_safe [of inbuf] assms(2,4) by (simp add: wf_message_def)
  ultimately obtain w' i hop rq where w': "resolver_resolve (environment s) (root_hints s) (net_side fw) req = Inr (Found Frame resp, w')"
    "sent w' = sent (net_side fw) @ [(hop, rq)]" "world_ok w'" "i < capacity (wcache w')"
    "map_option cdata (slots (wcache w') ! i) = Some raw"
    "cache_lookup (wcache w') (qname q) (qtype q) (qclass q) (time_of (environment s) w') = Inr (Some i, wcache w')"
    using fresh_resolved [OF _ assms(4) _ assms(6)] by blast
  have "process_dns_query s fw client inbuf = resolve_query s fw1 client req q"
    using assms(5) by (simp add: process_admitted [OF assms(2,3)] check_query_def first_question_def assms(4) passes_def same)
  then show ?thesis using w' by (auto simp: resolve_query_def same)
qed

text \<open>C6: In forwarding mode (or for a local test zone), a query of an admitted client whose first question passes the checks and has no
  entry in the cache, which has a free slot, costs one request to the forwarder. When the reply has 12 to 1231 bytes,
  parses, and gives its first answer a lifetime greater than zero (or has no answers), and the checks let it pass, the client gets it
  byte for byte, but for the id, which is the client's own. The reply is the copy that the cache holds; what the checks read
  through the dead buffer has no part in it. The id and the source of the reply are not compared with those of the request. The
  DNSSEC check is off; over TCP a connection has to be found.\<close>

theorem fresh_answer_relayed:
  assumes "firewall_ok fw" and "dns_parse_message inbuf = Inr req" and "admitted s fw client fw1"
    and "questions req = q # qs" and "passes (policy fw) (qname q)"
    and "fresh_reply (environment s) (net_side fw) q raw resp" and "trusted s = None"
    and "\<And>now. \<exists>p. policy_check_post_resolve (policy fw) (stale s) req resp now = Inr (Allow, p)"
  shows "\<exists>fw' hop rq. process_dns_query s fw client inbuf = Inr (Some (patch_id (hid (header req)) raw), fw') \<and>
    sent (net_side fw') = sent (net_side fw) @ [(hop, rq)]"
proof -
  obtain w' i hop rq where p: "process_dns_query s fw client inbuf =
      cbind (check_answer s (fw1\<lparr>net_side := w'\<rparr>) req (Found Frame resp)) (\<lambda>(action, fw').
        if action = Block then block_query s fw' client req q else relay s fw' req q (Found Frame resp))"
    "sent w' = sent (net_side fw) @ [(hop, rq)]" "world_ok w'" "i < capacity (wcache w')"
    "map_option cdata (slots (wcache w') ! i) = Some raw"
    "cache_lookup (wcache w') (qname q) (qtype q) (qclass q) (time_of (environment s) w') = Inr (Some i, wcache w')"
    using process_fresh [OF assms(1-6)] by blast
  have same: "policy fw1 = policy fw" by (subst conjunct2 [OF admitted_state [OF assms(1,3)]]) simp
  obtain pol where pol: "policy_check_post_resolve (policy fw) (stale s) req resp (time_of (environment s) w') = Inr (Allow, pol)"
    using assms(8) by blast
  have peek: "peek_of s Frame = stale s" by (rule ext) simp
  obtain e where e: "slots (wcache w') ! i = Some e" "cdata e = raw" using p(5) by (auto simp: map_option_eq_Some)
  have relay: "\<exists>fw'. relay s fw2 req q (Found Frame resp) = Inr (Some (patch_id (hid (header req)) raw), fw') \<and>
      sent (net_side fw') = sent w'" if "net_side fw2 = w'" for fw2
    using that p(3,4,6) world_ok_cache [OF p(3)] e by (simp add: relay_def clock_now_def Let_def cache_patch_def cache_ok_def report_dnssec_off assms(7))
  have "\<exists>fw2. check_answer s (fw1\<lparr>net_side := w'\<rparr>) req (Found Frame resp) = Inr (Allow, fw2) \<and> net_side fw2 = w'"
    using pol by (auto simp: check_answer_def clock_now_def peek same)
  then show ?thesis using p(1,2) relay by fastforce
qed

theorem fresh_answer_relayed_witness:
  "\<exists>fw' hop rq. process_dns_query (plain_setting (\<lambda>rr. Inr (replicate (rdlength rr) 0))) (bare_firewall None) None (plain_query 5) =
      Inr (Some (patch_id 5 plain_reply), fw') \<and> sent (net_side fw') = [] @ [(hop, rq)]"
proof -
  let ?s = "plain_setting (\<lambda>rr. Inr (replicate (rdlength rr) 0))" and ?fw = "bare_firewall None"
  obtain req where req: "dns_parse_message (plain_query 5) = Inr req" "hid (header req) = 5"
    "questions req = [\<lparr>qname = ''x.y.'', qtype = 1, qclass = 1\<rparr>]"
    using plain_query(1) [of 5] by auto
  obtain resp rr where resp: "answers resp = [rr]" "rtype rr = 1" "rdlength rr = 4"
    "fresh_reply (environment ?s) (net_side ?fw) \<lparr>qname = ''x.y.'', qtype = 1, qclass = 1\<rparr> plain_reply resp"
    using plain_reply by blast
  have a: "admitted ?s ?fw None ?fw" by (simp add: admitted_def admit_def guarded_def quarantined_client_def)
  have st: "stale ?s rr = Inr [0, 0, 0, 0]" by (simp add: plain_setting_def resp(3) eval_nat_numeral)
  have "\<exists>p. policy_check_post_resolve (policy ?fw) (stale ?s) req resp now = Inr (Allow, p)" for now
    using threshold_positive st resp(1-3)
    by (simp add: policy_check_post_resolve_def first_question_def req(3) plain_passes(2) answer_address_def dns_constants
        read_u32_ok flux_detect_def flux_find_def flux_add_ip_def keep_recent_def Let_def)
      (simp add: bare_firewall_def Let_def tunnelling_score_def first_question_def req(3))
  from fresh_answer_relayed [OF bare_firewall(2) req(1) a req(3) _ resp(4) _ this] plain_passes(1)
  show ?thesis using req(2) by (simp add: plain_setting_def bare_firewall_def)
qed

text \<open>C36: The data of such an answer lies in the buffer of a function that has returned: when the name scores below the threshold
  and the first record of the reply is an address, the check of the answer reads it from there, which C leaves
  undefined.\<close>

theorem fresh_address_dangles:
  assumes "firewall_ok fw" and "dns_parse_message inbuf = Inr req" and "admitted s fw client fw1"
    and "questions req = q # qs" and "passes (policy fw) (qname q)"
    and "fresh_reply (environment s) (net_side fw) q raw resp" and "\<And>rr. stale s rr = Inl (Fault Dangling)"
    and "dga_score_domain (hash_table (policy fw)) (qname q) = Inr score" and "score \<le> g_dga_threshold (policy fw)"
    and "answers resp = rr # rrs" and "rtype rr = 1" and "rdlength rr = 4"
  shows "process_dns_query s fw client inbuf = Inl (Fault Dangling)"
proof -
  obtain w' where p: "process_dns_query s fw client inbuf =
      cbind (check_answer s (fw1\<lparr>net_side := w'\<rparr>) req (Found Frame resp)) (\<lambda>(action, fw').
        if action = Block then block_query s fw' client req q else relay s fw' req q (Found Frame resp))"
    using process_fresh [OF assms(1-6)] by blast
  have same: "policy fw1 = policy fw" by (subst conjunct2 [OF admitted_state [OF assms(1,3)]]) simp
  have peek: "peek_of s Frame = stale s" by (rule ext) simp
  have "policy_check_post_resolve (policy fw) (stale s) req resp now = Inl (Fault Dangling)" for now
    using assms(7-12)
    by (simp add: policy_check_post_resolve_def first_question_def assms(4) answer_address_def dns_constants)
  then show ?thesis by (simp add: p check_answer_def peek same assms(10))
qed

theorem fresh_address_dangles_witness:
  "process_dns_query (plain_setting (\<lambda>_. Inl (Fault Dangling))) (bare_firewall None) None (plain_query 5) = Inl (Fault Dangling)"
proof -
  let ?s = "plain_setting (\<lambda>_. Inl (Fault Dangling))" and ?fw = "bare_firewall None"
  obtain req where req: "dns_parse_message (plain_query 5) = Inr req"
    "questions req = [\<lparr>qname = ''x.y.'', qtype = 1, qclass = 1\<rparr>]"
    using plain_query(1) [of 5] by auto
  obtain resp rr where resp: "answers resp = [rr]" "rtype rr = 1" "rdlength rr = 4"
    "fresh_reply (environment ?s) (net_side ?fw) \<lparr>qname = ''x.y.'', qtype = 1, qclass = 1\<rparr> plain_reply resp"
    using plain_reply by blast
  have a: "admitted ?s ?fw None ?fw" by (simp add: admitted_def admit_def guarded_def quarantined_client_def)
  have t: "0 \<le> g_dga_threshold (policy ?fw)" using threshold_positive by (simp add: bare_firewall_def)
  show ?thesis
    by (rule fresh_address_dangles [OF bare_firewall(2) req(1) a req(2) _ resp(4) _ _ t resp(1-3)])
      (simp_all add: plain_passes plain_setting_def)
qed

text \<open>With DNS_FORWARDER_TCP and a forwarder that accepts no connections (any more), a query never comes back: when the first
  question of an admitted client passes the checks, is in no local test zone and not in the cache, and no connection of the pool is open,
  the worker that has taken the query dials for ever, so the client gets neither an answer nor SERVFAIL.\<close>

lemma gone_forwarder_hangs:
  assumes "firewall_ok fw" and "dns_parse_message inbuf = Inr req" and "admitted s fw client fw1"
    and "questions req = q # qs" and "passes (policy fw) (qname q)"
    and "cache_lookup (wcache (net_side fw)) (qname q) (qtype q) (qclass q) (clock_now s fw) = Inr (None, ca)"
    and "static_forwarder (qname q) = None" and "over_tcp (environment s)" and "forwarder (environment s) = Some ip"
    and "inet_pton ip = Some addr" and "\<forall>k \<ge> dialled (net_side fw). \<not> dials (environment s) k"
    and "\<forall>socks. pool (net_side fw) = Some socks \<longrightarrow> True \<notin> set socks"
  shows "process_dns_query s fw client inbuf = Inl (Fault Endless)"
proof -
  note st = conjunct2 [OF admitted_state [OF assms(1,3)]]
  have same: "policy fw1 = policy fw" "net_side fw1 = net_side fw" by (subst st, simp)+
  have gone: "forwarder_gone (environment s) (net_side fw)" using assms(8-12) by (auto simp: forwarder_gone_def)
  have ok: "world_ok (net_side fw)" using assms(1) by (simp add: firewall_ok_def)
  have "wf_question q"
    using parse_message_safe [of inbuf] assms(2,4) by (simp add: wf_message_def)
  then have "c_copy 256 (qname q) = qname q" by (simp add: c_copy_def wf_question_def DNS_MAX_NAME_LEN_def)
  then have "resolver_resolve (environment s) (root_hints s) (net_side fw) req = Inl (Fault Endless)"
    using resolve_endless [OF assms(6) [unfolded clock_now_def] assms(7) gone ok, of MAX_RECURSION_DEPTH "root_hints s"]
    by (simp add: resolver_resolve_def assms(4))
  moreover have "process_dns_query s fw client inbuf = resolve_query s fw1 client req q"
    using assms(5) by (simp add: process_admitted [OF assms(2,3)] check_query_def first_question_def assms(4) passes_def same)
  ultimately show ?thesis by (simp add: resolve_query_def same)
qed

text \<open>A forwarder that refuses every connection, from the first query on.\<close>

lemma gone_forwarder_hangs_example:
  "process_dns_query \<lparr>environment = \<lparr>net = \<lambda>_. None, ids = \<lambda>_. 7, clock = \<lambda>_. 0, forwarder = Some ''8.8.8.8'', over_tcp = True,
       dials = \<lambda>_. False, severed = \<lambda>_. False\<rparr>, root_hints = [], trusted = None, stale = \<lambda>_. Inl (Fault Dangling)\<rparr>
     (bare_firewall None) None (plain_query 5) = Inl (Fault Endless)"
proof -
  let ?s = "\<lparr>environment = \<lparr>net = \<lambda>_. None, ids = \<lambda>_. 7, clock = \<lambda>_. 0, forwarder = Some ''8.8.8.8'', over_tcp = True,
       dials = \<lambda>_. False, severed = \<lambda>_. False\<rparr>, root_hints = [], trusted = None, stale = \<lambda>_. Inl (Fault Dangling)\<rparr>"
  let ?fw = "bare_firewall None"
  obtain req where req: "dns_parse_message (plain_query 5) = Inr req"
    "questions req = [\<lparr>qname = ''x.y.'', qtype = 1, qclass = 1\<rparr>]"
    using plain_query(1) [of 5] by auto
  have a: "admitted ?s ?fw None ?fw" by (simp add: admitted_def admit_def guarded_def quarantined_client_def)
  have hop: "static_forwarder ''x.y.'' = None" "inet_pton ''8.8.8.8'' = Some 0x08080808" by code_simp+
  show ?thesis
    by (rule gone_forwarder_hangs [OF bare_firewall(2) req(1) a req(2) _ _ _ _ _ hop(2)])
      (simp_all add: plain_passes hop(1), simp_all add: bare_firewall_def clock_now_def time_of_def cache_lookup_create)
qed

end
