(* ===== verification/Spec2Isabelle.thy ===== *)
theory Spec2Isabelle
  imports Py_Calendar Gen_Date Gen_Days Gen_Chain Gen_Twister Gen_Tables Bedep_Runs NGram_Model Metrics DNS_Sign
    C_Processor
begin

text \<open>
  A verification development for the DNS firewall repository: the server in C under \<open>src/src\<close>, the scorers and test
  tools in Python under \<open>src/evaluation\<close>, and the DGA dataset generators below
  \<open>src/evaluation/UMUDGA/UMUDGA - University of Murcia/Domain Generation Algorithms\<close>.

  \<^bold>\<open>How the parts interact.\<close> The generators write files of algorithmically generated domains. The
  scorers read domains and print \<open>domain,score\<close> lines, one of them with a 4-gram model that the builder
  script wrote; \<open>compute_metrics.py\<close> reads those lines and prints false positive and detection rates.
  The server reads the same model file. It parses a query, asks the rate limiter, the quarantine, the blacklist and the
  score of the name, resolves the name through its cache and the network, checks the answer (score, fast flux,
  tunnelling, DNSSEC), and sends the cached packet or the address of the sinkhole; a blocked query counts against its client
  and its domain. The DNS tools query the firewall and play the authoritative servers behind it.

  \<^bold>\<open>The theories of the server.\<close>
  \<^item> \<open>C_Prelude\<close>: results that may be faults (an access outside an object is never given a value), C strings, big-endian
    integers, rings of slots. \<open>C_Wire\<close>: the parser and the builder of \<open>wire.c\<close>. \<open>C_RateLimit\<close>, \<open>C_Cache\<close>: \<open>rate_limit.c\<close>, \<open>cache.c\<close>.
  \<^item> \<open>C_Chains\<close>: hash tables with chains, with the locale \<open>hash_chains\<close> (what a look-up returns after an insertion, an update,
    a removal), interpreted for the tables of \<open>C_Reputation\<close> (\<open>reputation.c\<close>) and \<open>C_Blacklist\<close> (\<open>policy.c\<close>).
    \<open>C_Defense\<close>: the quarantine and the exported zone of \<open>active_defense.c\<close>.
  \<^item> \<open>C_Ngram\<close>, \<open>C_Score\<close>, \<open>C_Flux\<close>, \<open>C_Policy\<close>: the 4-gram table, the score of a name, the fast-flux tracker and the three checks
    of \<open>policy.c\<close>. \<open>C_Dnssec\<close>: \<open>dnssec.c\<close>.
  \<^item> \<open>C_Resolver\<close>: \<open>resolver.c\<close> against a network that answers as it likes, with the pool of TCP connections, whose loop over the
    slots is a \<open>partial_function\<close> because it may not end. \<open>C_Processor\<close>: \<open>processor.c\<close>, where all of them meet, on a record
    of the state of each, and the tables that \<open>main.c\<close> sets up.

  \<^bold>\<open>The theories of the scripts.\<close>
  \<^item> \<open>Py_Prelude\<close>: exceptions as values (\<open>result\<close>), strings and their methods, masks, C integers, numbers
    as text, and what a well-formed host name is. \<open>Py_Dates\<close>: dates; \<open>Py_Calendar\<close>: the random dates of the generators, drawn
    between two given ones, printed and parsed. \<open>Py_Float\<close>: rounding to binary64 and
    binary32, with the locale \<open>rounding\<close> for the laws the scores need, interpreted for both formats.
    \<open>Struct_Bytes\<close>: the formats of the \<open>struct\<close> module and their round trips. \<open>Py_Base64\<close>: base64.
  \<^item> \<open>Dataset_Driver\<close>: the main program that all generators repeat, with the locales \<open>tiered\<close> (the
    contract of the tier files), \<open>single_source\<close> and \<open>batch_source\<close> (the contract of a generator).
    Its invariant says that every tier file is a prefix of the duplicate-free sequence of domains.
  \<^item> \<open>Lcg\<close>: linear congruential generators and their period (locale \<open>lcg\<close>). \<open>Gen_Lcg\<close>: alureon, corebot,
    fobber, ramdo, vawtrak, ramnit. \<open>Gen_Batch\<close>: cryptolocker, dircrypt, kraken, qadars, ccleaner.
    \<open>Gen_Date\<close>: symmi, ranbyus, necurs, proslikefan. \<open>Gen_Days\<close>: tempedreve and sisron, which walk back
    through the calendar. \<open>Gen_Chain\<close>: banjori, shiotob, simda, which derive a name from the one before.
    \<open>Gen_Words\<close>: suppobox, pizd, and \<open>Gen_Phrases\<close>: matsnu, rovnix, gozi, which put words together.
    \<open>Py_Hash\<close>: MD5, SHA-1 and SHA-256 as \<open>hashlib\<close> computes them, checked on test vectors. \<open>Gen_Hash\<close>: dyre,
    padcrypt, chinad, murofet, zeus-newgoz. \<open>Gen_Md5\<close>: pushdo with its RC4 cipher, nymaim. \<open>Gen_Twister\<close>:
    qakbot with its Mersenne twister. \<open>Gen_Tables\<close>: pykspa, tinba. \<open>Gen_Bedep\<close>: the class and main program of
    bedep; \<open>Bedep_Tables\<close>: how it reads its tables, and the tables themselves; \<open>Bedep_Runs\<close>: the group its
    runs walk through. Each family interprets the locales (or
    instantiates them under a hypothesis on its word lists), which shows that its runs write well-formed
    host names only.
  \<^item> \<open>DGA_Score\<close>: \<open>dga_score.py\<close>, \<open>dga_score_original.py\<close>, \<open>dga_score_lowlen.py\<close>. \<open>NGram_Model\<close>:
    \<open>build_4grams.py\<close>, \<open>build_trigrams.py\<close>, the loaders, \<open>eval_4gram.py\<close>, \<open>test_trigrams.py\<close>.
    \<open>Metrics\<close>: \<open>compute_metrics.py\<close>.
  \<^item> \<open>DNS_Wire\<close>: \<open>quick_test.py\<close>, \<open>auth_fastflux.py\<close>, \<open>auth_tunnel.py\<close>, \<open>replay_auth.py\<close>, the key tag.
    \<open>DNS_Sign\<close>: \<open>gen_signed_final.py\<close>, \<open>gen_signed_response.py\<close>, \<open>signed_auth.py\<close>, \<open>test_doh.py\<close>.

  \<^bold>\<open>Conventions.\<close> A Python int is an \<open>int\<close>, a float the real number it stands for, rounded after every
  operation; a string is a list of characters below code point 256; an exception is \<open>Inl\<close>. The values of
  the \<open>random\<close> module, Unix times, RSA keys and signatures, and datagrams are inputs. A main program
  takes the list of the random inputs its outer loop draws, so a theorem about all lists is one about
  every number of iterations (not one that the outer loop ends, which is shown for suppobox). Word lists and seed files the scripts read, and the order in which Python
  walks through a set, are parameters. In the server a packet is a list of bytes, an integer a word of its width, a C
  result an error, a fault or a value; the host is little-endian, memory allocation succeeds, a function reads the clock
  once, and a lock makes a call one step. A float of C is a real rounded to binary32 after every operation, with \<open>log2f\<close>
  correctly rounded. The network (which replies come, which attempts to connect succeed, which connections are closed by the other
  side), the random ids, the environment and the signature check of OpenSSL are parameters. An \<open>int\<close> that would overflow, a loop
  that does not end and a signal that ends the process are faults too, so that no theorem can pass over them.

  \<^bold>\<open>Fuel.\<close> Inner loops that may not end carry fuel, and \<open>NoReturn\<close> is the outcome of a loop still running
  when it is used up. suppobox needs 65537 turns, since there are at most 32768 domains and a seed that
  only collides leaves its loop after as many turns, and 327680 turns of its outer loop, ten times the number of domains; matsnu needs 13, a turn adds at least a
  letter; gozi needs 24 times \<open>2 ^ 31\<close>, one period of its generator per letter; these bounds are proved. rovnix draws
  a random number per turn: it ends once twenty of the words drawn are not empty. tinba is only shown to
  write well-formed names or to hang; that it does not hang is evaluated for the first names of two configurations.

  \<^bold>\<open>What is shown.\<close> For the server: no packet and no reply makes the parser, the resolver or the cache leave their
  objects; the limiter, the cache, the blacklist, the quarantine, the reputation table and the flux tracker keep what they promise, as
  refinements of simpler descriptions where they have one; the server's model table answers as the dictionary of the scripts does;
  the packets of the test servers are blocked or validated as intended; exactly two kinds of packets break the processing of a
  query, and what every other client gets follows from the parts, as long as the forwarder can be reached when it is asked over TCP
  and no score has reached the largest \<open>int\<close>. Where the code fails, a theorem says how: the answer that points into a
  dead buffer, the short RRSIG, the cache that forgets, the quarantine that outlives its lifting, the worker that dials for ever.
  For the scripts: the scores are within their bounds and depend on nothing but the lower-cased first
  label; a model file loads back to the counts it was built from; printed scores read back to four
  places; the test client extracts the address the test server sent; the signed packet can be taken
  apart into its records; the generators never raise and write distinct well-formed host names, or
  raise in exactly the way described.

  \<^bold>\<open>What is not modelled.\<close> Of the server: threads and sockets, so the races between the workers of \<open>main.c\<close> on the
  flux table and on cached packets and for the connections of the pool, its job queue, the web server of the sinkhole, the HTTP front
  end \<open>doh.c\<close>, and the key file. Of the scripts: sockets, files and plots as such. \<open>math.log2\<close> and \<open>math.exp\<close>
  are idealised to correctly rounded results; infinities and NaN do not arise but in foreign files; of the
  database of time zones only the offset at an instant is asked.
\<close>

section \<open>The generators as a whole\<close>

text \<open>C26: The main programs of alureon, corebot, fobber, ramdo, vawtrak (version 1), ramnit, cryptolocker,
  dircrypt, kraken (version 2), symmi, ranbyus, necurs, proslikefan, tempedreve, banjori, shiotob, dyre,
  padcrypt and chinad never raise, whatever the \<open>random\<close> module draws, and every tier they leave behind holds distinct well-formed
  host names, a prefix of the next larger tier.\<close>

theorem datasets_clean:
  "clean_dataset tiers_1m (alureon_main dates) \<and> clean_dataset tiers_1m (corebot_main ins) \<and>
   clean_dataset tiers_1m (fobber_v1_main dates) \<and> clean_dataset tiers_1m (fobber_v2_main dates) \<and>
   clean_dataset tiers_1m (ramdo_main ns) \<and> clean_dataset tiers_1m (vawtrak_v1_main seeds) \<and>
   clean_dataset tiers_1m (ramnit_main k0 ks) \<and> clean_dataset tiers_1m (cryptolocker_main dates) \<and>
   clean_dataset tiers_1m (dircrypt_main seeds) \<and> clean_dataset tiers_10k (kraken_v2_main unixes) \<and>
   clean_dataset tiers_1m (symmi_main dates) \<and> clean_dataset tiers_1m (ranbyus_main seeded) \<and>
   clean_dataset tiers_1m (necurs_main numbered) \<and> clean_dataset tiers_1m (proslikefan_main chosen) \<and>
   clean_dataset tiers_1m (tempedreve_main dates) \<and> clean_dataset tiers_500k (banjori_main k0 ks) \<and>
   clean_dataset tiers_1m (shiotob_main k0 ks) \<and> clean_dataset tiers_1m (dyre_main dated) \<and>
   clean_dataset tiers_1m (padcrypt_main dates) \<and> clean_dataset tiers_1m (chinad_main dates)"
  by (intro conjI alureon_main_clean corebot_main_clean fobber_main_clean ramdo_main_clean vawtrak_v1_main_clean
      ramnit_main_clean cryptolocker_main_clean dircrypt_main_clean kraken_v2_main_clean symmi_main_clean
      ranbyus_main_clean necurs_main_clean proslikefan_main_clean tempedreve_main_clean banjori_main_clean
      shiotob_main_clean dyre_main_clean padcrypt_main_clean chinad_main_clean)

text \<open>C27: The main programs of vawtrak (versions 2 and 3), simda, sisron, matsnu, rovnix, gozi, zeus-newgoz,
  pushdo, nymaim, qakbot and, with the tables of the repository, bedep raise no exception, none of their inner loops hangs, and
  their tiers are clean, after any number of turns of the outer loop (the list of inputs has one entry for each turn; whether
  the outer \<open>while not stop\<close> of a program comes to an end is not claimed here). This is given what their scripts make sure of: indices into the tables of configurations; dates, for sisron from 1909 on (the
  program draws them from 1970 on, \<open>strftime\<close> raises before 1900 and the names go back nine days); sequence
  numbers of 32 bits; for matsnu, gozi and nymaim word lists like those of the repository, for nymaim in
  whichever order Python walks through a set; for rovnix at least twenty non-empty words in each iteration;
  for bedep rates that print without an exponent.\<close>

theorem datasets_clean_given_inputs:
  assumes "list_all (\<lambda>k. k < 2) vs" and "list_all (\<lambda>k. k < 6) ks"
    and "list_all (\<lambda>d. is_datetime d \<and> 1909 \<le> year d) dates"
    and "word_list 13 dict1" and "word_list 13 dict2"
    and "text_words 15 usdeclar" and "list_all (rovnix_input usdeclar) drawn" and "gozi_words words"
    and "list_all zeus_input numbered" and "list_all (\<lambda>i. is_datetime (fst i)) choices"
    and "nymaim_ok wt" and "\<And>ds. set (order ds) \<subseteq> set ds" and "list_all qakbot_input configured"
    and "list_all bedep_input rated"
  shows "clean_dataset tiers_1m (vawtrak_v2_main vs) \<and> clean_dataset tiers_1m (vawtrak_v3_main vs) \<and>
    clean_dataset tiers_1m (simda_main ks) \<and>
    (\<exists>s. sisron_main dates = Inr s \<and> run_inv tiers_1m s \<and> list_all is_hostname (data s)) \<and>
    clean_dataset tiers_1m (matsnu_main 13 dict1 dict2 dates) \<and>
    clean_dataset tiers_1m (rovnix_main usdeclar drawn) \<and>
    clean_dataset tiers_1m (gozi_main (24 * 2 ^ 31) words dates) \<and>
    clean_dataset tiers_1m (zeus_main numbered) \<and> clean_dataset tiers_1m (pushdo_main choices) \<and>
    clean_dataset tiers_1m (nymaim_main wt order dates) \<and> clean_dataset tiers_100k (qakbot_main configured) \<and>
    (\<exists>s. bedep_main bedep_tables rated = Inr s \<and> run_inv tiers_1m s \<and> list_all is_hostname (data s))"
  using assms
  by (intro conjI vawtrak_main_clean simda_main_clean sisron_main_runs matsnu_main_clean rovnix_main_clean
      gozi_main_clean zeus_main_clean pushdo_main_clean nymaim_main_clean qakbot_main_clean bedep_main_runs) simp_all

theorem datasets_clean_given_inputs_witness:
  "clean_dataset tiers_1m (vawtrak_v2_main [0, 1]) \<and> clean_dataset tiers_1m (vawtrak_v3_main [0, 1]) \<and>
   clean_dataset tiers_1m (simda_main [0, 3, 5]) \<and>
   (\<exists>s. sisron_main [\<lparr>year = 1970, month = 1, day = 1, hour = 1, minute = 0\<rparr>] = Inr s \<and>
      run_inv tiers_1m s \<and> list_all is_hostname (data s)) \<and>
   clean_dataset tiers_1m
     (matsnu_main 13 [''dog''] [''cat''] [\<lparr>year = 1970, month = 1, day = 1, hour = 1, minute = 0\<rparr>]) \<and>
   clean_dataset tiers_1m (rovnix_main [''When'', []]
     [(\<lparr>year = 2020, month = 1, day = 2, hour = 0, minute = 0\<rparr>, replicate 20 9999, 0)]) \<and>
   clean_dataset tiers_1m
     (gozi_main (24 * 2 ^ 31) [''to'', ''of''] [\<lparr>year = 1970, month = 1, day = 1, hour = 1, minute = 0\<rparr>]) \<and>
   clean_dataset tiers_1m (zeus_main [(\<lparr>year = 1970, month = 1, day = 1, hour = 1, minute = 0\<rparr>, 4294967295)]) \<and>
   clean_dataset tiers_1m (pushdo_main [(\<lparr>year = 1970, month = 1, day = 1, hour = 1, minute = 0\<rparr>, int)]) \<and>
   clean_dataset tiers_1m
     (nymaim_main \<lparr>firstword = [''dog''], separators = [''-'', []], secondword = [''cat''], tld_words = [''.com'']\<rparr> rev
       [\<lparr>year = 1970, month = 1, day = 1, hour = 1, minute = 0\<rparr>]) \<and>
   clean_dataset tiers_100k (qakbot_main [(\<lparr>year = 1970, month = 1, day = 1, hour = 1, minute = 0\<rparr>, 1, True)]) \<and>
   (\<exists>s. bedep_main bedep_tables
      [\<lambda>_. \<lparr>drawn_date = \<lparr>year = 2020, month = 1, day = 2, hour = 0, minute = 0\<rparr>,
        drawn_rates = \<lambda>_. (0, ''1.5''), drawn_r1 = 7, drawn_r2 = 12\<rparr>] = Inr s \<and>
      run_inv tiers_1m s \<and> list_all is_hostname (data s))"
proof (rule datasets_clean_given_inputs)
  have az: "list_all is_az ''dog''" "list_all is_az ''cat''" "list_all is_alnum (py_lower ''When'')"
    "list_all (list_all is_az) [''to'', ''of'']"
    by code_simp+
  then show "word_list 13 [''dog'']" "word_list 13 [''cat'']" by (simp_all add: word_list_def)
  show "text_words 15 [''When'', []]" using az by (simp add: text_words_def py_lower_def)
  have "rovnix_choose_word [''When'', []] (generateSeed 2020 1 2) 1 0xDEAD 0xBEEF 9999 \<noteq> []" by code_simp
  then show "list_all (rovnix_input [''When'', []])
      [(\<lparr>year = 2020, month = 1, day = 2, hour = 0, minute = 0\<rparr>, replicate 20 9999, 0)]"
    by (simp add: rovnix_input_def filter_replicate)
  have "gozi_piece [''to'', ''of''] 0 = 2" "gozi_piece [''to'', ''of''] 1 = 1" by code_simp+
  then have "short_piece [''to'', ''of''] 0" "short_piece [''to'', ''of''] 1" by (simp_all add: short_piece_def)
  then have "\<exists>t. even t \<and> short_piece [''to'', ''of''] t" "\<exists>t. odd t \<and> short_piece [''to'', ''of''] t"
    by (metis even_zero, metis odd_one)
  with az(4) show "gozi_words [''to'', ''of'']" by (simp add: gozi_words_def)
  show "nymaim_ok \<lparr>firstword = [''dog''], separators = [''-'', []], secondword = [''cat''], tld_words = [''.com'']\<rparr>"
  proof -
    have "dot_suffix ''.com''" by code_simp
    with az(1,2) show ?thesis by (simp add: nymaim_ok_def word_list_def)
  qed
  have "rate_text ''1.5''" by code_simp
  then show "list_all bedep_input
      [\<lambda>_. \<lparr>drawn_date = \<lparr>year = 2020, month = 1, day = 2, hour = 0, minute = 0\<rparr>,
        drawn_rates = \<lambda>_. (0, ''1.5''), drawn_r1 = 7, drawn_r2 = 12\<rparr>]"
    by (simp add: bedep_input_def bedep_draw_ok_def list_all_iff)
qed (simp_all add: is_datetime_def days_in_month_def zeus_input_def qakbot_input_def)

text \<open>The dates that \<open>getRandomDate\<close> draws serve the main programs: for any time zone whose offsets stay within an
  hour of each other, and any values of \<open>random.random()\<close>, it returns dates between 1970 and 3000, and the
  main programs of sisron and pushdo run over them without an exception and leave clean tiers behind.\<close>

lemma drawn_dates_serve:
  assumes "zone_ok mktime off" and "list_all (\<lambda>p. 0 \<le> p \<and> p \<le> 1) proportions"
  shows "\<exists>dates. rmap (getRandomDate mktime off) proportions = Inr dates \<and> length dates = length proportions \<and>
    list_all (\<lambda>d. is_datetime d \<and> 1970 \<le> year d \<and> year d \<le> 3000) dates \<and>
    (\<exists>s. sisron_main dates = Inr s \<and> run_inv tiers_1m s \<and> list_all is_hostname (data s)) \<and>
    clean_dataset tiers_1m (pushdo_main (zip dates choices))"
proof -
  have "\<exists>d. getRandomDate mktime off p = Inr d \<and> is_datetime d \<and> 1970 \<le> year d \<and> year d \<le> 3000" if "p \<in> set proportions" for p
    using that assms by (intro getRandomDate_range) (simp_all add: list_all_iff)
  then obtain f where f: "getRandomDate mktime off p = Inr (f p)" "is_datetime (f p) \<and> 1970 \<le> year (f p) \<and> year (f p) \<le> 3000"
    if "p \<in> set proportions" for p
    by metis
  define dates where "dates = map f proportions"
  have dates: "list_all (\<lambda>d. is_datetime d \<and> 1970 \<le> year d \<and> year d \<le> 3000) dates"
    using f(2) by (simp add: dates_def list_all_iff)
  then have "list_all (\<lambda>d. is_datetime d \<and> 1909 \<le> year d) dates" by (auto simp: list_all_iff)
  moreover have "list_all (\<lambda>i. is_datetime (fst i)) (zip dates choices)"
    using dates by (auto simp: list_all_iff dest: set_zip_leftD)
  moreover have "rmap (getRandomDate mktime off) proportions = Inr dates" using f(1) by (simp add: rmap_Inr dates_def)
  ultimately show ?thesis using sisron_main_runs pushdo_main_clean dates by (auto simp: dates_def)
qed

lemma drawn_dates_serve_example:
  "\<exists>dates. rmap (getRandomDate seconds_of (\<lambda>_. 0)) [0, 1 / 2] = Inr dates \<and> length dates = length [0, 1 / 2 :: real] \<and>
    list_all (\<lambda>d. is_datetime d \<and> 1970 \<le> year d \<and> year d \<le> 3000) dates \<and>
    (\<exists>s. sisron_main dates = Inr s \<and> run_inv tiers_1m s \<and> list_all is_hostname (data s)) \<and>
    clean_dataset tiers_1m (pushdo_main (zip dates [int, int]))"
proof (rule drawn_dates_serve)
  have "seconds_of start_date = 3600" "seconds_of end_date = 32503684200" by code_simp+
  then show "zone_ok seconds_of (\<lambda>_. 0)" by (simp add: zone_ok_def)
qed simp

end
